(* ===== verification/FB_Prelude.thy ===== *)
theory FB_Prelude
  imports Main "HOL-Library.Word" "HOL-Library.Signed_Division"
begin

text \<open>
  Shared vocabulary of the development: the result type of C functions (a value, the exit
  of the process, or an execution the C implementation leaves undefined), bounded array
  accesses, 64-bit signed arithmetic with its overflow check, byte views of machine words,
  and the two interface locales for stepping systems that the components interpret.

  The meaning given to C is that of gcc on x86-64, the compiler and target named in
  SW-FB/Makefile: what both ISO C and gcc leave undefined is a fault value; a signed left
  shift into the sign bit, which gcc defines, is not.
\<close>

unbundle bit_operations_syntax

named_theorems fb_ops \<open>unfolding rules of the operations a proof evaluates\<close>

section \<open>Faults and results\<close>

datatype undef =
    OutOfBounds      \<comment> \<open>access outside an array or an allocated block\<close>
  | NullPtr          \<comment> \<open>dereference of NULL\<close>
  | Dangling         \<comment> \<open>access through a pointer into a freed packet buffer\<close>
  | BadShift         \<comment> \<open>shift by at least the width of the promoted operand\<close>
  | SignedOvf        \<comment> \<open>signed integer overflow\<close>
  | DivZero          \<comment> \<open>remainder or quotient by zero\<close>
  | Indeterminate    \<comment> \<open>use of a value nothing has written\<close>

datatype fault =
    Exit             \<comment> \<open>exit(EXIT_FAILURE) or rte_exit\<close>
  | UB undef         \<comment> \<open>undefined behaviour, by kind\<close>
  | NoFuel           \<comment> \<open>the fuel of a loop model ran out\<close>

type_synonym 'a res = "fault + 'a"

type_synonym u8 = "8 word"
type_synonym u16 = "16 word"
type_synonym u32 = "32 word"
type_synonym u64 = "64 word"

definition res_bind :: "'a res \<Rightarrow> ('a \<Rightarrow> 'b res) \<Rightarrow> 'b res" where
  "res_bind m f = (case m of Inl e \<Rightarrow> Inl e | Inr x \<Rightarrow> f x)"

lemma res_bind_simps [simp]:
  "res_bind (Inl e) f = Inl e"
  "res_bind (Inr x) f = f x"
  by (simp_all add: res_bind_def)

lemma res_bind_cong [fundef_cong]:
  "m = m' \<Longrightarrow> (\<And>x. m' = Inr x \<Longrightarrow> f x = f' x) \<Longrightarrow> res_bind m f = res_bind m' f'"
  by (cases m') auto

lemma res_bind_Inr_iff: "res_bind m f = Inr y \<longleftrightarrow> (\<exists>x. m = Inr x \<and> f x = Inr y)"
  by (cases m) auto

lemma res_bind_Inl_iff:
  "res_bind m f = Inl e \<longleftrightarrow> m = Inl e \<or> (\<exists>x. m = Inr x \<and> f x = Inl e)"
  by (cases m) auto

lemma res_bindE [elim!]:
  assumes "res_bind m f = Inr y"
  obtains x where "m = Inr x" and "f x = Inr y"
  using assms by (auto simp: res_bind_Inr_iff)

lemma res_bind_assoc: "res_bind (res_bind m f) g = res_bind m (\<lambda>x. res_bind (f x) g)"
  by (cases m) auto

text \<open>Memory faults: the faults a memory-safe execution never has.\<close>

definition mem_fault :: "'a res \<Rightarrow> bool" where
  "mem_fault m \<longleftrightarrow> m \<in> {Inl (UB OutOfBounds), Inl (UB NullPtr), Inl (UB Dangling)}"

lemma mem_fault_simps [simp]:
  "\<not> mem_fault (Inr x)"
  "mem_fault (Inl (UB u)) \<longleftrightarrow> u = OutOfBounds \<or> u = NullPtr \<or> u = Dangling"
  "\<not> mem_fault (Inl Exit)"
  "\<not> mem_fault (Inl NoFuel)"
  by (auto simp: mem_fault_def)

lemma mem_fault_bind:
  "\<not> mem_fault m \<Longrightarrow> (\<And>x. m = Inr x \<Longrightarrow> \<not> mem_fault (f x)) \<Longrightarrow> \<not> mem_fault (res_bind m f)"
  by (cases m) (auto simp: mem_fault_def)

section \<open>Arrays\<close>

definition rd :: "'a list \<Rightarrow> nat \<Rightarrow> 'a res" where
  "rd xs i = (if i < length xs then Inr (xs ! i) else Inl (UB OutOfBounds))"

definition wr :: "'a list \<Rightarrow> nat \<Rightarrow> 'a \<Rightarrow> 'a list res" where
  "wr xs i x = (if i < length xs then Inr (xs[i := x]) else Inl (UB OutOfBounds))"

lemma rd_ok [simp]: "i < length xs \<Longrightarrow> rd xs i = Inr (xs ! i)"
  by (simp add: rd_def)

lemma rd_oob [simp]: "length xs \<le> i \<Longrightarrow> rd xs i = Inl (UB OutOfBounds)"
  by (simp add: rd_def)

lemma wr_ok [simp]: "i < length xs \<Longrightarrow> wr xs i x = Inr (xs[i := x])"
  by (simp add: wr_def)

lemma wr_oob [simp]: "length xs \<le> i \<Longrightarrow> wr xs i x = Inl (UB OutOfBounds)"
  by (simp add: wr_def)

lemma rd_Inr_iff: "rd xs i = Inr y \<longleftrightarrow> i < length xs \<and> y = xs ! i"
  by (auto simp: rd_def)

lemma wr_Inr_iff: "wr xs i x = Inr ys \<longleftrightarrow> i < length xs \<and> ys = xs[i := x]"
  by (auto simp: wr_def)

lemmas access_iff = rd_Inr_iff wr_Inr_iff

section \<open>Signed 64-bit arithmetic\<close>

definition fits64 :: "int \<Rightarrow> bool" where
  "fits64 k \<longleftrightarrow> - (2 ^ 63) \<le> k \<and> k < 2 ^ 63"

definition s64 :: "int \<Rightarrow> u64 res" where
  "s64 k = (if fits64 k then Inr (word_of_int k) else Inl (UB SignedOvf))"

lemma fits64_sint [simp]: "fits64 (sint (w :: u64))"
  using sint_range_size [of w] by (simp add: fits64_def word_size)

lemma s64_Inr_iff: "s64 k = Inr w \<longleftrightarrow> fits64 k \<and> w = word_of_int k"
  by (auto simp: s64_def)

lemma sint_word_of_int_fits: "fits64 k \<Longrightarrow> sint (word_of_int k :: u64) = k"
  by (simp add: fits64_def sint_sbintrunc' signed_take_bit_int_eq_self_iff
      word_size) 

section \<open>Byte views of a 64-bit word (little endian)\<close>

definition le_bytes :: "nat \<Rightarrow> u64 \<Rightarrow> u8 list" where
  "le_bytes n w = map (\<lambda>i. ucast (drop_bit (8 * i) w)) [0..<n]"

primrec le_word :: "u8 list \<Rightarrow> u64" where
  "le_word [] = 0"
| "le_word (b # bs) = push_bit 8 (le_word bs) OR ucast b"

lemma length_le_bytes [simp]: "length (le_bytes n w) = n"
  by (simp add: le_bytes_def)

lemma nth_le_bytes [simp]: "i < n \<Longrightarrow> le_bytes n w ! i = ucast (drop_bit (8 * i) w)"
  by (simp add: le_bytes_def)

lemma bit_le_word:
  "bit (le_word bs) n \<longleftrightarrow> n < 64 \<and> n div 8 < length bs \<and> bit (bs ! (n div 8)) (n mod 8)"
proof (induction bs arbitrary: n)
  case Nil
  then show ?case by simp
next
  case (Cons b bs)
  show ?case
  proof (cases "n < 8")
    case True
    then show ?thesis
      by (auto simp: bit_simps)
  next
    case False
    then obtain k where n: "n = k + 8" by (metis add.commute le_Suc_ex not_less)
    have hi: "\<not> bit b (k + 8)"
      by (auto dest: bit_imp_le_length)
    have "(k + 8) div 8 = Suc (k div 8)" by simp
    then show ?thesis
      by (auto simp: n bit_simps hi Cons.IH)
  qed
qed

lemma le_word_le_bytes: "n \<le> 8 \<Longrightarrow> le_word (le_bytes n w) = take_bit (8 * n) w"
proof (rule bit_word_eqI)
  fix k
  assume "n \<le> 8" and "k < LENGTH(64)"
  have "8 * (k div 8) + k mod 8 = k" by simp
  moreover have "k div 8 < n \<longleftrightarrow> k < 8 * n" by auto
  moreover have "k mod 8 < 8" by simp
  ultimately show "bit (le_word (le_bytes n w)) k \<longleftrightarrow> bit (take_bit (8 * n) w) k"
    using \<open>k < LENGTH(64)\<close> by (auto simp: bit_le_word bit_simps)
qed

lemma le_bytes_le_word: "length bs \<le> 8 \<Longrightarrow> le_bytes (length bs) (le_word bs) = bs"
proof (rule nth_equalityI)
  fix i
  assume le: "length bs \<le> 8" and "i < length (le_bytes (length bs) (le_word bs))"
  then have i: "i < length bs" by simp
  have "ucast (drop_bit (8 * i) (le_word bs)) = bs ! i"
  proof (rule bit_word_eqI)
    fix k
    assume "k < LENGTH(8)"
    then have "8 * i + k < 64" "(8 * i + k) div 8 = i" "(8 * i + k) mod 8 = k"
      using i le by auto
    then show "bit (ucast (drop_bit (8 * i) (le_word bs)) :: u8) k \<longleftrightarrow> bit (bs ! i) k"
      using i \<open>k < LENGTH(8)\<close> by (simp add: bit_simps bit_le_word)
  qed
  with i show "le_bytes (length bs) (le_word bs) ! i = bs ! i" by simp
qed simp

lemma le_word_full: "le_word (le_bytes 8 w) = w"
  using take_bit_length_eq [of w] by (simp add: le_word_le_bytes)

lemma take_le_bytes: "m \<le> n \<Longrightarrow> take m (le_bytes n w) = le_bytes m w"
  by (simp add: le_bytes_def take_map min_def)

section \<open>Running a sequence of fallible steps\<close>

primrec run_steps :: "('e \<Rightarrow> 's \<Rightarrow> 's res) \<Rightarrow> 'e list \<Rightarrow> 's \<Rightarrow> 's res" where
  "run_steps f [] s = Inr s"
| "run_steps f (e # es) s = res_bind (f e s) (\<lambda>s'. run_steps f es s')"

lemma run_steps_append:
  "run_steps f (es @ es') s = res_bind (run_steps f es s) (run_steps f es')"
  by (induction es arbitrary: s) (auto simp: res_bind_assoc)

lemma run_steps_snoc:
  "run_steps f (es @ [e]) s = res_bind (run_steps f es s) (f e)"
proof -
  have "(\<lambda>s'. run_steps f [e] s') = f e"
    by (rule ext) (simp add: res_bind_def split: sum.split)
  then show ?thesis by (simp only: run_steps_append)
qed

text \<open>
  Interface of a component whose operations keep an invariant: what a client that runs
  any sequence of them may rely on.
\<close>

locale step_invariant =
  fixes step :: "'e \<Rightarrow> 's \<Rightarrow> 's res"
    and inv :: "'s \<Rightarrow> bool"
  assumes step_keeps: "inv s \<Longrightarrow> step e s = Inr s' \<Longrightarrow> inv s'"
begin

lemma run_keeps: "inv s \<Longrightarrow> run_steps step es s = Inr s' \<Longrightarrow> inv s'"
proof (induction es arbitrary: s)
  case Nil
  then show ?case by simp
next
  case (Cons e es)
  then show ?case by (auto dest: step_keeps)
qed

end

text \<open>
  Which faults a computation may end in: \<open>returns_or A m\<close> is a return or a fault of \<open>A\<close>.
\<close>

definition returns_or :: "fault set \<Rightarrow> 'a res \<Rightarrow> bool" where
  "returns_or A m \<longleftrightarrow> (\<forall>f. m = Inl f \<longrightarrow> f \<in> A)"

lemma returns_or_simps [simp]:
  "returns_or A (Inr x)"
  "returns_or A (Inl f) \<longleftrightarrow> f \<in> A"
  by (simp_all add: returns_or_def)

lemma returns_or_bind:
  "returns_or A m \<Longrightarrow> (\<And>x. m = Inr x \<Longrightarrow> returns_or A (g x)) \<Longrightarrow> returns_or A (res_bind m g)"
  by (cases m) auto

lemma returns_or_empty: "returns_or {} m \<longleftrightarrow> (\<exists>x. m = Inr x)"
  by (cases m) (simp_all add: returns_or_def)

text \<open>
  The same with a progress law: where the guard of every event holds in every invariant
  state, the run ends in no fault but the allowed ones.
\<close>

locale step_progress = step_invariant +
  fixes ok :: "'a \<Rightarrow> bool" and allowed :: "fault set"
  assumes step_returns: "inv s \<Longrightarrow> ok e \<Longrightarrow> returns_or allowed (step e s)"
begin

lemma run_returns: "inv s \<Longrightarrow> (\<forall>e \<in> set es. ok e) \<Longrightarrow> returns_or allowed (run_steps step es s)"
proof (induction es arbitrary: s)
  case Nil
  then show ?case by simp
next
  case (Cons e es)
  then show ?case by (auto intro!: returns_or_bind step_returns dest: step_keeps)
qed

end

text \<open>
  The weaker contract of operations that keep the invariant under their guard only: the run
  of guarded events ends in an allowed fault or in an invariant state.
\<close>

locale step_guarded =
  fixes step :: "'e \<Rightarrow> 's \<Rightarrow> 's res" and inv :: "'s \<Rightarrow> bool" and ok :: "'e \<Rightarrow> bool"
    and allowed :: "fault set"
  assumes step_ok: "inv s \<Longrightarrow> ok e \<Longrightarrow> case step e s of Inl f \<Rightarrow> f \<in> allowed | Inr s' \<Rightarrow> inv s'"
begin

lemma run_ok:
  "inv s \<Longrightarrow> (\<forall>e \<in> set es. ok e) \<Longrightarrow>
     case run_steps step es s of Inl f \<Rightarrow> f \<in> allowed | Inr s' \<Rightarrow> inv s'"
proof (induction es arbitrary: s)
  case Nil
  then show ?case by simp
next
  case (Cons e es)
  with step_ok [of s e] show ?case by (cases "step e s") auto
qed

end

sublocale step_progress \<subseteq> guarded: step_guarded step inv ok allowed
proof
  fix s e
  assume "inv s" and "ok e"
  then show "case step e s of Inl f \<Rightarrow> f \<in> allowed | Inr s' \<Rightarrow> inv s'"
    using step_returns [of s e] by (auto split: sum.splits intro: step_keeps)
qed

end
