(* ===== verification/Xfsm_Types.thy ===== *)
theory Xfsm_Types
  imports FB_Prelude
begin

text \<open>
  The data model of the software FlowBlaze, SW-FB/xfsm.h: header fields, conditions,
  actions, table entries, flow instances, tables and pipelines, with the enumerations as
  datatypes and the structs as records. Arrays of a fixed length are lists whose length is
  part of the well-formedness predicates at the end; an array is never extended, since
  every access goes through \<open>rd\<close> and \<open>wr\<close>. Pointers into packet memory are symbolic
  (\<open>byte_ptr\<close>): which object they point into and at which byte, so that aliasing and
  dangling pointers can be told apart.
\<close>

section \<open>Constants\<close>

abbreviation (input) NUM_REGISTERS :: nat where "NUM_REGISTERS \<equiv> 32"
abbreviation (input) NUM_GLOBAL_REGISTERS :: nat where "NUM_GLOBAL_REGISTERS \<equiv> 32"
abbreviation (input) MAX_STAGES :: nat where "MAX_STAGES \<equiv> 8"
abbreviation (input) NULL_STAGE :: u8 where "NULL_STAGE \<equiv> 255"
abbreviation (input) MAX_CONDITIONS :: nat where "MAX_CONDITIONS \<equiv> 16"
abbreviation (input) MAX_ACTIONS :: nat where "MAX_ACTIONS \<equiv> 32"
abbreviation (input) STATE_NULL :: u32 where "STATE_NULL \<equiv> 255"
abbreviation (input) MAX_INSTANCES :: nat where "MAX_INSTANCES \<equiv> 1000000"
abbreviation (input) MAX_ENTRIES_FOREACH_STATE :: nat where "MAX_ENTRIES_FOREACH_STATE \<equiv> 10"
abbreviation (input) LOOKUP_KEY_SIZE :: nat where "LOOKUP_KEY_SIZE \<equiv> 8"
abbreviation (input) MAX_DEBUG_REGISTERS :: nat where "MAX_DEBUG_REGISTERS \<equiv> 4"
abbreviation (input) INVALID_PORT :: u8 where "INVALID_PORT \<equiv> 255"
abbreviation (input) PKTTMP_POOL_SIZE :: nat where "PKTTMP_POOL_SIZE \<equiv> 8"
abbreviation (input) NUM_HDR_FIELDS :: nat where "NUM_HDR_FIELDS \<equiv> 28"

section \<open>Header fields\<close>

datatype hdr_fields =
    SRC_MAC | DST_MAC | ETH_TYPE
  | IPv4_SRC | IPv4_DST | IPv4_PROTO | IPv4_TOS
  | ICMP_TYPE | ICMP_CODE | ICMP_ID | ICMP_SEQ | ICMP_PAYLOAD
  | TCP_SPORT | TCP_DPORT
  | UDP_SPORT | UDP_DPORT
  | GTP_TEID
  | INNER_IPv4_SRC | INNER_IPv4_DST | INNER_IPv4_PROTO
  | INNER_TCP_SPORT | INNER_TCP_DPORT
  | INNER_UDP_SPORT | INNER_UDP_DPORT
  | XFSM_IN_PORT | XFSM_METADATA0 | XFSM_METADATA1 | XFSM_TIMESTAMP

text \<open>The value of the enumerator, which the code uses as an array index.\<close>

primrec hdr_index :: "hdr_fields \<Rightarrow> nat" where
  "hdr_index SRC_MAC = 0"
| "hdr_index DST_MAC = 1"
| "hdr_index ETH_TYPE = 2"
| "hdr_index IPv4_SRC = 3"
| "hdr_index IPv4_DST = 4"
| "hdr_index IPv4_PROTO = 5"
| "hdr_index IPv4_TOS = 6"
| "hdr_index ICMP_TYPE = 7"
| "hdr_index ICMP_CODE = 8"
| "hdr_index ICMP_ID = 9"
| "hdr_index ICMP_SEQ = 10"
| "hdr_index ICMP_PAYLOAD = 11"
| "hdr_index TCP_SPORT = 12"
| "hdr_index TCP_DPORT = 13"
| "hdr_index UDP_SPORT = 14"
| "hdr_index UDP_DPORT = 15"
| "hdr_index GTP_TEID = 16"
| "hdr_index INNER_IPv4_SRC = 17"
| "hdr_index INNER_IPv4_DST = 18"
| "hdr_index INNER_IPv4_PROTO = 19"
| "hdr_index INNER_TCP_SPORT = 20"
| "hdr_index INNER_TCP_DPORT = 21"
| "hdr_index INNER_UDP_SPORT = 22"
| "hdr_index INNER_UDP_DPORT = 23"
| "hdr_index XFSM_IN_PORT = 24"
| "hdr_index XFSM_METADATA0 = 25"
| "hdr_index XFSM_METADATA1 = 26"
| "hdr_index XFSM_TIMESTAMP = 27"

lemma hdr_index_bound [simp]: "hdr_index f < 28"
  by (cases f) simp_all

record xfsm_hdr_fields =
  hf_type :: hdr_fields
  hf_name :: string
  hf_len :: nat

text \<open>
  Where a field pointer can point: into the data of the mbuf with the given identity, into
  its \<open>userdata\<close> or \<open>timestamp\<close> member, or to the \<open>in_port\<close> member of the table.
\<close>

datatype byte_ptr =
    Pkt_Data nat nat
  | Pkt_Userdata nat nat
  | Pkt_Timestamp nat
  | Tbl_In_Port

record xfsm_fields_tlv =
  field :: xfsm_hdr_fields
  fvalue :: "byte_ptr option"

text \<open>
  A packet buffer: the bytes readable from \<open>rte_pktmbuf_mtod\<close> to the end of its data
  room, and the two mbuf members the program uses.
\<close>

record mbuf =
  m_data :: "u8 list"
  m_userdata :: u64
  m_timestamp :: u64

text \<open>Packet memory: the live mbufs by identity.\<close>

type_synonym pktmem = "nat \<Rightarrow> mbuf option"

section \<open>Conditions, actions, entries\<close>

text \<open>
  \<open>XFSM_TYPE_OTHER\<close> stands for an integer outside the enumeration: the loader leaves some
  of these members as \<open>malloc\<close> returned them, and the code has a default branch for it.
\<close>

datatype xfsm_value_type =
    XFSM_REGISTER | XFSM_CONSTANT | XFSM_HDR_FIELD | XFSM_GLOBAL_REGISTER
  | XFSM_TYPE_OTHER

datatype xfsm_opcodes =
    XFSM_SUM | XFSM_MINUS | XFSM_MULTIPLY | XFSM_DIVIDE | XFSM_MODULO | XFSM_MAX | XFSM_MIN

datatype xfsm_condition_types =
    XFSM_LESS | XFSM_LESS_EQ | XFSM_GREATER | XFSM_GREATER_EQ | XFSM_EQUAL | XFSM_NOT_EQUAL

datatype xfsm_action_types = XFSM_UPDATE | XFSM_SENDPKT | XFSM_SETFIELD | XFSM_DESTROY

text \<open>
  \<open>XFSM_RESULT_OTHER\<close> is an integer outside the enumeration, which such a member can hold:
  \<open>init_instance\<close> fills the bytes of \<open>results\<close>, not its elements.
\<close>

datatype xfsm_results = XFSM_FALSE | XFSM_TRUE | XFSM_DONT_CARE | XFSM_RESULT_OTHER u32

record xfsm_condition =
  c_type1 :: xfsm_value_type
  c_type2 :: xfsm_value_type
  c_value1 :: u64
  c_value2 :: u64
  condition_type :: xfsm_condition_types

record lookup_key =
  lk_size :: u8
  lk_fld :: "hdr_fields list"
  biflow_no :: u8

record dbg_reg =
  reg_num :: u8
  sample_time :: u64
  last_sample_time :: u64
  valid :: bool

record xfsm_action =
  a_type :: xfsm_action_types
  a_opcode :: xfsm_opcodes
  a_type1 :: xfsm_value_type
  a_value1 :: u64
  a_type2 :: xfsm_value_type
  a_value2 :: u64
  a_type3 :: xfsm_value_type
  a_value3 :: u64
  a_output :: u8
  a_out_type :: xfsm_value_type

record xfsm_table_entry =
  e_current_state :: u32
  e_next_state :: u32
  e_next_stage :: u8
  e_results :: "xfsm_results list"
  e_actions :: "xfsm_action list"
  nb_actions :: u16
  e_priority :: u16
  idle_timeout :: u32
  hard_timeout :: u32

text \<open>A flow key is an array of eight 32-bit words.\<close>

type_synonym flow_key = "u32 list"

record xfsm_instance =
  registers :: "u64 list"
  current_state :: u32
  results :: "xfsm_results list"
  i_flow_key :: flow_key
  i_dbg_regs :: "dbg_reg list"
  destroy :: bool
  inst_id :: u32

text \<open>
  The list node of the table builder (\<open>entries\<close> holds the first \<open>size\<close> slots of its
  ten) and the per-state block of the entry pool.
\<close>

record key_node =
  kn_key :: u32
  kn_entries :: "nat list"

record hmap_entry =
  hm_key :: u32
  hm_entries :: "xfsm_table_entry list"

section \<open>Tables\<close>

text \<open>
  A table. The hash tables are library objects, of the parameter type \<open>'h\<close>; a NULL handle
  is \<open>None\<close>. The pool of \<open>MAX_INSTANCES\<close> instances is a function from indices, whose
  bound every access checks. An instance's back pointer to its table is not a field: a
  pool belongs to one table.
\<close>

record 'h xfsm_table =
  conditions :: "xfsm_condition list"
  nb_conditions :: u8
  global_registers :: "u64 list"
  t_lookup_key :: lookup_key
  default_state :: u32
  in_port :: u8
  entries_hmap :: "'h option"
  instances_hmap :: "'h option"
  instances_pool :: "nat \<Rightarrow> xfsm_instance"
  state_entries_pool :: "hmap_entry list"
  nb_instances :: u32
  t_dbg_regs :: "dbg_reg list"
  stateful :: bool
  cache :: "'h option"
  table_id :: u8
  curr_pkt :: "nat option"
  pkt_fields :: "xfsm_fields_tlv list"
  pkttmps :: "nat option list"

record 'h xfsm_pipeline =
  tables :: "'h xfsm_table option list"
  num_stages :: u8

section \<open>Zeroed memory\<close>

text \<open>What \<open>rte_zmalloc\<close> returns for the types it is called with; NULL is \<open>None\<close>.\<close>

definition zero_condition :: xfsm_condition where
  "zero_condition =
     \<lparr>c_type1 = XFSM_REGISTER, c_type2 = XFSM_REGISTER, c_value1 = 0, c_value2 = 0,
      condition_type = XFSM_LESS\<rparr>"

definition zero_dbg_reg :: dbg_reg where
  "zero_dbg_reg = \<lparr>reg_num = 0, sample_time = 0, last_sample_time = 0, valid = False\<rparr>"

definition zero_instance :: xfsm_instance where
  "zero_instance =
     \<lparr>registers = replicate NUM_REGISTERS 0, current_state = 0,
      results = replicate MAX_CONDITIONS XFSM_FALSE, i_flow_key = replicate 8 0,
      i_dbg_regs = replicate MAX_DEBUG_REGISTERS zero_dbg_reg, destroy = False, inst_id = 0\<rparr>"

definition zero_table :: "'h xfsm_table" where
  "zero_table =
     \<lparr>conditions = replicate MAX_CONDITIONS zero_condition, nb_conditions = 0,
      global_registers = replicate NUM_GLOBAL_REGISTERS 0,
      t_lookup_key = \<lparr>lk_size = 0, lk_fld = replicate LOOKUP_KEY_SIZE SRC_MAC, biflow_no = 0\<rparr>,
      default_state = 0, in_port = 0, entries_hmap = None, instances_hmap = None,
      instances_pool = (\<lambda>_. zero_instance), state_entries_pool = [], nb_instances = 0,
      t_dbg_regs = replicate MAX_DEBUG_REGISTERS zero_dbg_reg, stateful = False, cache = None,
      table_id = 0, curr_pkt = None, pkt_fields = [], pkttmps = replicate PKTTMP_POOL_SIZE None\<rparr>"

section \<open>Well-formedness: the array lengths of the C declarations\<close>

definition wf_instance :: "xfsm_instance \<Rightarrow> bool" where
  "wf_instance i \<longleftrightarrow>
     length (registers i) = NUM_REGISTERS \<and> length (results i) = MAX_CONDITIONS \<and>
     length (i_flow_key i) = 8 \<and> length (i_dbg_regs i) = MAX_DEBUG_REGISTERS"

definition wf_entry :: "xfsm_table_entry \<Rightarrow> bool" where
  "wf_entry e \<longleftrightarrow> length (e_results e) = MAX_CONDITIONS \<and> length (e_actions e) = MAX_ACTIONS"

end
