(* ===== verification/Packet_Mem.thy ===== *)
theory Packet_Mem
  imports Xfsm_Types
begin

text \<open>
  Byte access through the symbolic pointers of the data model. A pointer names an object
  (the data of an mbuf, its \<open>userdata\<close> or \<open>timestamp\<close> member, the \<open>in_port\<close> byte of the
  table) and an offset in it; a load or a store of \<open>n\<close> bytes must stay inside the object,
  and the object must still be live. The 64-bit members are seen as their eight bytes in
  memory, little endian. The lemmas are the laws of such a memory: a load after a store
  at the same pointer returns what was stored, and a store changes no other object.
\<close>

definition obj_bytes :: "pktmem \<Rightarrow> u8 \<Rightarrow> byte_ptr \<Rightarrow> u8 list res" where
  "obj_bytes mem port p =
     (case p of
        Pkt_Data m off \<Rightarrow>
          (case mem m of None \<Rightarrow> Inl (UB Dangling) | Some b \<Rightarrow> Inr (m_data b))
      | Pkt_Userdata m off \<Rightarrow>
          (case mem m of None \<Rightarrow> Inl (UB Dangling) | Some b \<Rightarrow> Inr (le_bytes 8 (m_userdata b)))
      | Pkt_Timestamp m \<Rightarrow>
          (case mem m of None \<Rightarrow> Inl (UB Dangling) | Some b \<Rightarrow> Inr (le_bytes 8 (m_timestamp b)))
      | Tbl_In_Port \<Rightarrow> Inr [port])"

definition ptr_off :: "byte_ptr \<Rightarrow> nat" where
  "ptr_off p =
     (case p of Pkt_Data m off \<Rightarrow> off | Pkt_Userdata m off \<Rightarrow> off
      | Pkt_Timestamp m \<Rightarrow> 0 | Tbl_In_Port \<Rightarrow> 0)"

definition ptr_mbuf :: "byte_ptr \<Rightarrow> nat option" where
  "ptr_mbuf p =
     (case p of Pkt_Data m off \<Rightarrow> Some m | Pkt_Userdata m off \<Rightarrow> Some m
      | Pkt_Timestamp m \<Rightarrow> Some m | Tbl_In_Port \<Rightarrow> None)"

definition obj_set :: "pktmem \<Rightarrow> u8 \<Rightarrow> byte_ptr \<Rightarrow> u8 list \<Rightarrow> pktmem \<times> u8" where
  "obj_set mem port p bs =
     (case p of
        Pkt_Data m off \<Rightarrow> (mem(m := map_option (\<lambda>b. b\<lparr>m_data := bs\<rparr>) (mem m)), port)
      | Pkt_Userdata m off \<Rightarrow>
          (mem(m := map_option (\<lambda>b. b\<lparr>m_userdata := le_word bs\<rparr>) (mem m)), port)
      | Pkt_Timestamp m \<Rightarrow>
          (mem(m := map_option (\<lambda>b. b\<lparr>m_timestamp := le_word bs\<rparr>) (mem m)), port)
      | Tbl_In_Port \<Rightarrow> (mem, hd bs))"

definition splice_at :: "nat \<Rightarrow> 'a list \<Rightarrow> 'a list \<Rightarrow> 'a list" where
  "splice_at off vs bs = take off bs @ vs @ drop (off + length vs) bs"

definition load_bytes :: "pktmem \<Rightarrow> u8 \<Rightarrow> byte_ptr \<Rightarrow> nat \<Rightarrow> u8 list res" where
  "load_bytes mem port p n =
     res_bind (obj_bytes mem port p)
       (\<lambda>bs. if ptr_off p + n \<le> length bs then Inr (take n (drop (ptr_off p) bs))
             else Inl (UB OutOfBounds))"

definition store_bytes :: "pktmem \<Rightarrow> u8 \<Rightarrow> byte_ptr \<Rightarrow> u8 list \<Rightarrow> (pktmem \<times> u8) res" where
  "store_bytes mem port p vs =
     res_bind (obj_bytes mem port p)
       (\<lambda>bs. if ptr_off p + length vs \<le> length bs
             then Inr (obj_set mem port p (splice_at (ptr_off p) vs bs))
             else Inl (UB OutOfBounds))"

section \<open>Laws\<close>

lemma length_splice_at [simp]:
  "off + length vs \<le> length bs \<Longrightarrow> length (splice_at off vs bs) = length bs"
  by (simp add: splice_at_def)

lemma take_drop_splice_at [simp]:
  "off + length vs \<le> length bs \<Longrightarrow> take (length vs) (drop off (splice_at off vs bs)) = vs"
  by (simp add: splice_at_def)

lemma nth_splice_at_outside:
  assumes "off + length vs \<le> length bs" and "k < off \<or> off + length vs \<le> k"
  shows "splice_at off vs bs ! k = bs ! k"
  using assms by (auto simp: splice_at_def nth_append)

lemma obj_bytes_set:
  assumes "obj_bytes mem port p = Inr bs" and "length bs' = length bs"
    and "obj_set mem port p bs' = (mem', port')"
  shows "obj_bytes mem' port' p = Inr bs'"
proof (cases p)
  case Tbl_In_Port
  with assms show ?thesis
    by (cases bs') (auto simp: obj_bytes_def obj_set_def)
next
  case (Pkt_Userdata m off)
  with assms have "length bs' = 8" by (auto simp: obj_bytes_def split: option.splits)
  with le_bytes_le_word [of bs'] assms Pkt_Userdata show ?thesis
    by (auto simp: obj_bytes_def obj_set_def split: option.splits)
next
  case (Pkt_Timestamp m)
  with assms have "length bs' = 8" by (auto simp: obj_bytes_def split: option.splits)
  with le_bytes_le_word [of bs'] assms Pkt_Timestamp show ?thesis
    by (auto simp: obj_bytes_def obj_set_def split: option.splits)
qed (use assms in \<open>auto simp: obj_bytes_def obj_set_def split: option.splits\<close>)

lemma store_bytes_Inr_iff:
  "store_bytes mem port p vs = Inr (mem', port') \<longleftrightarrow>
     (\<exists>bs. obj_bytes mem port p = Inr bs \<and> ptr_off p + length vs \<le> length bs \<and>
           obj_set mem port p (splice_at (ptr_off p) vs bs) = (mem', port'))"
  by (auto simp: store_bytes_def res_bind_Inr_iff split: if_splits)

lemma load_bytes_Inr_iff:
  "load_bytes mem port p n = Inr vs \<longleftrightarrow>
     (\<exists>bs. obj_bytes mem port p = Inr bs \<and> ptr_off p + n \<le> length bs \<and>
           vs = take n (drop (ptr_off p) bs))"
  by (auto simp: load_bytes_def res_bind_Inr_iff split: if_splits)

lemma length_load_bytes: "load_bytes mem port p n = Inr vs \<Longrightarrow> length vs = n"
  by (auto simp: load_bytes_Inr_iff)

lemma load_after_store:
  assumes "store_bytes mem port p vs = Inr (mem', port')"
  shows "load_bytes mem' port' p (length vs) = Inr vs"
proof -
  from assms obtain bs where bs: "obj_bytes mem port p = Inr bs"
    and le: "ptr_off p + length vs \<le> length bs"
    and set: "obj_set mem port p (splice_at (ptr_off p) vs bs) = (mem', port')"
    by (auto simp: store_bytes_Inr_iff)
  from le have len: "length (splice_at (ptr_off p) vs bs) = length bs" by simp
  from obj_bytes_set [OF bs len set] le show ?thesis
    by (auto simp: load_bytes_Inr_iff)
qed

text \<open>A store keeps every buffer live, with the same length of data.\<close>

definition same_shape :: "pktmem \<Rightarrow> pktmem \<Rightarrow> bool" where
  "same_shape mem mem' \<longleftrightarrow>
     (\<forall>m. map_option (length \<circ> m_data) (mem' m) = map_option (length \<circ> m_data) (mem m))"

lemma same_shape_refl [simp]: "same_shape mem mem"
  by (simp add: same_shape_def)

lemma same_shape_trans: "same_shape a b \<Longrightarrow> same_shape b c \<Longrightarrow> same_shape a c"
  by (simp add: same_shape_def)

lemma same_shapeD:
  "same_shape mem mem' \<Longrightarrow> mem m = Some b \<Longrightarrow>
     \<exists>b'. mem' m = Some b' \<and> length (m_data b') = length (m_data b)"
  by (auto simp: same_shape_def dest!: spec [of _ m])

lemma store_bytes_shape: "store_bytes mem port p vs = Inr (mem', port') \<Longrightarrow> same_shape mem mem'"
  by (auto simp: store_bytes_Inr_iff same_shape_def obj_bytes_def obj_set_def ptr_off_def
      split: byte_ptr.splits option.splits)

text \<open>The frame of a store: the bytes of an mbuf's data it does not cover.\<close>

lemma store_bytes_data_frame:
  assumes "store_bytes mem port p vs = Inr (mem', port')" and "mem m = Some b"
    and "\<And>off. p = Pkt_Data m off \<Longrightarrow> k < off \<or> off + length vs \<le> k"
  shows "\<exists>b'. mem' m = Some b' \<and> m_data b' ! k = m_data b ! k"
  using assms
  by (auto simp: store_bytes_Inr_iff obj_bytes_def obj_set_def ptr_off_def nth_splice_at_outside
      split: byte_ptr.splits option.splits)

lemma store_bytes_other_mbuf:
  assumes "store_bytes mem port p vs = Inr (mem', port')" and "ptr_mbuf p \<noteq> Some m"
  shows "mem' m = mem m"
  using assms by (cases p) (auto simp: store_bytes_Inr_iff obj_set_def ptr_mbuf_def)

text \<open>Which accesses cannot fault.\<close>

definition readable :: "pktmem \<Rightarrow> byte_ptr \<Rightarrow> nat \<Rightarrow> bool" where
  "readable mem p n \<longleftrightarrow> (\<exists>bs. obj_bytes mem 0 p = Inr bs \<and> ptr_off p + n \<le> length bs)"

lemma readable_iff: "readable mem p n \<longleftrightarrow> (\<exists>vs. load_bytes mem port p n = Inr vs)"
  by (auto simp: readable_def load_bytes_Inr_iff obj_bytes_def split: byte_ptr.splits option.splits)

lemma readable_store: "readable mem p (length vs) \<longleftrightarrow> (\<exists>r. store_bytes mem port p vs = Inr r)"
  by (cases p) (auto simp: readable_def store_bytes_def obj_bytes_def split: option.splits)

lemma readable_shape: "same_shape mem mem' \<Longrightarrow> readable mem p n \<Longrightarrow> readable mem' p n"
  by (cases p) (fastforce simp: readable_def obj_bytes_def ptr_off_def split: option.splits
      dest: same_shapeD)+

end
