(* ===== verification/Pkt_Parser.thy ===== *)
theory Pkt_Parser
  imports Packet_Mem
begin

text \<open>
  SW-FB/pkt-parser.c: the table of header fields, the big-endian readers, the reading of a
  field through its pointer (\<open>get_hdr_value\<close>) and the header parser, which only sets the
  field pointers of a table.
\<close>

section \<open>Header field table\<close>

definition xfsm_header_fields :: "xfsm_hdr_fields list" where
  "xfsm_header_fields =
    [\<lparr>hf_type = SRC_MAC, hf_name = ''SRC_MAC'', hf_len = 6\<rparr>,
     \<lparr>hf_type = DST_MAC, hf_name = ''DST_MAC'', hf_len = 6\<rparr>,
     \<lparr>hf_type = ETH_TYPE, hf_name = ''ETH_TYPE'', hf_len = 2\<rparr>,
     \<lparr>hf_type = IPv4_SRC, hf_name = ''IPv4_SRC'', hf_len = 4\<rparr>,
     \<lparr>hf_type = IPv4_DST, hf_name = ''IPv4_DST'', hf_len = 4\<rparr>,
     \<lparr>hf_type = IPv4_PROTO, hf_name = ''IPv4_PROTO'', hf_len = 1\<rparr>,
     \<lparr>hf_type = IPv4_TOS, hf_name = ''IPv4_TOS'', hf_len = 1\<rparr>,
     \<lparr>hf_type = ICMP_CODE, hf_name = ''ICMP_CODE'', hf_len = 1\<rparr>,
     \<lparr>hf_type = ICMP_TYPE, hf_name = ''ICMP_TYPE'', hf_len = 1\<rparr>,
     \<lparr>hf_type = ICMP_ID, hf_name = ''ICMP_ID'', hf_len = 2\<rparr>,
     \<lparr>hf_type = ICMP_SEQ, hf_name = ''ICMP_SEQ'', hf_len = 2\<rparr>,
     \<lparr>hf_type = ICMP_PAYLOAD, hf_name = ''ICMP_PAYLOAD'', hf_len = 4\<rparr>,
     \<lparr>hf_type = TCP_SPORT, hf_name = ''TCP_SPORT'', hf_len = 2\<rparr>,
     \<lparr>hf_type = TCP_DPORT, hf_name = ''TCP_DPORT'', hf_len = 2\<rparr>,
     \<lparr>hf_type = UDP_SPORT, hf_name = ''UDP_SPORT'', hf_len = 2\<rparr>,
     \<lparr>hf_type = UDP_DPORT, hf_name = ''UDP_DPORT'', hf_len = 2\<rparr>,
     \<lparr>hf_type = GTP_TEID, hf_name = ''GTP-U_TEID'', hf_len = 4\<rparr>,
     \<lparr>hf_type = INNER_IPv4_SRC, hf_name = ''INNER_IPv4_SRC'', hf_len = 4\<rparr>,
     \<lparr>hf_type = INNER_IPv4_DST, hf_name = ''INNER_IPv4_DST'', hf_len = 4\<rparr>,
     \<lparr>hf_type = INNER_IPv4_PROTO, hf_name = ''INNER_IPv4_PROTO'', hf_len = 1\<rparr>,
     \<lparr>hf_type = INNER_TCP_SPORT, hf_name = ''INNER_TCP_SPORT'', hf_len = 2\<rparr>,
     \<lparr>hf_type = INNER_TCP_DPORT, hf_name = ''INNER_TCP_DPORT'', hf_len = 2\<rparr>,
     \<lparr>hf_type = INNER_UDP_SPORT, hf_name = ''INNER_UDP_SPORT'', hf_len = 2\<rparr>,
     \<lparr>hf_type = INNER_UDP_DPORT, hf_name = ''INNER_UDP_DPORT'', hf_len = 2\<rparr>,
     \<lparr>hf_type = XFSM_IN_PORT, hf_name = ''XFSM_IN_PORT'', hf_len = 1\<rparr>,
     \<lparr>hf_type = XFSM_METADATA0, hf_name = ''METADATA0'', hf_len = 4\<rparr>,
     \<lparr>hf_type = XFSM_METADATA1, hf_name = ''METADATA1'', hf_len = 4\<rparr>,
     \<lparr>hf_type = XFSM_TIMESTAMP, hf_name = ''XFSM_TIMESTAMP'', hf_len = 8\<rparr>]"

section \<open>Reading a field\<close>

text \<open>
  \<open>byte[i] << (5 - i) * 8\<close> promotes the byte to a 32-bit \<open>int\<close> before it shifts, and only
  the shifted value is widened to 64 bits: a shift count of 32 or more is undefined, and
  the widening sign-extends.
\<close>

definition be64ptr2h :: "u8 list \<Rightarrow> u64 res" where
  "be64ptr2h byte =
     run_steps
       (\<lambda>i value.
          res_bind (rd byte i)
            (\<lambda>b. if (5 - i) * 8 < 32
                 then Inr (value OR scast (push_bit ((5 - i) * 8) (ucast b :: u32)))
                 else Inl (UB BadShift)))
       [0..<6] 0"

definition be32ptr2h :: "u8 list \<Rightarrow> u32" where
  "be32ptr2h byte =
     ucast (byte ! 3) OR push_bit 8 (ucast (byte ! 2)) OR push_bit 16 (ucast (byte ! 1))
       OR push_bit 24 (ucast (byte ! 0))"

definition be16ptr2h :: "u8 list \<Rightarrow> u16" where
  "be16ptr2h byte = ucast (ucast (byte ! 1) OR push_bit 8 (ucast (byte ! 0)) :: u32)"

text \<open>
  The result is the return code and the value the out parameter holds afterwards; \<open>value\<close>
  is what it held before.
\<close>

definition get_hdr_value :: "pktmem \<Rightarrow> u8 \<Rightarrow> xfsm_fields_tlv \<Rightarrow> u64 \<Rightarrow> (int \<times> u64) res" where
  "get_hdr_value mem port f value =
     (case fvalue f of
        None \<Rightarrow> Inr (-1, value)
      | Some byte \<Rightarrow>
          (if hf_len (field f) = 8 then
             (if hf_type (field f) = XFSM_TIMESTAMP
              then res_bind (load_bytes mem port byte 8) (\<lambda>bs. Inr (0, le_word bs))
              else Inr (0, value))
           else if hf_len (field f) = 6 then
             res_bind (load_bytes mem port byte 6)
               (\<lambda>bs. res_bind (be64ptr2h bs) (\<lambda>v. Inr (0, v)))
           else if hf_len (field f) = 4 then
             res_bind (load_bytes mem port byte 4) (\<lambda>bs. Inr (0, ucast (be32ptr2h bs)))
           else if hf_len (field f) = 2 then
             res_bind (load_bytes mem port byte 2) (\<lambda>bs. Inr (0, ucast (be16ptr2h bs)))
           else if hf_len (field f) = 1 then
             res_bind (load_bytes mem port byte 1) (\<lambda>bs. Inr (0, ucast (bs ! 0)))
           else Inr (0, value)))"

section \<open>Parsing the headers\<close>

abbreviation (input) ETHER_HDR_LEN :: nat where "ETHER_HDR_LEN \<equiv> 14"
abbreviation (input) IPPROTO_TCP :: u8 where "IPPROTO_TCP \<equiv> 6"
abbreviation (input) IPPROTO_UDP :: u8 where "IPPROTO_UDP \<equiv> 17"
abbreviation (input) IPV4_ICMP_PROTO :: u8 where "IPV4_ICMP_PROTO \<equiv> 1"
abbreviation (input) GTP_PORT :: u64 where "GTP_PORT \<equiv> 2152"
abbreviation (input) GTP_HEADER_SIZE :: nat where "GTP_HEADER_SIZE \<equiv> 8"

definition set_value :: "hdr_fields \<times> byte_ptr option \<Rightarrow> xfsm_fields_tlv list \<Rightarrow> xfsm_fields_tlv list"
  where
  "set_value hv fs = fs[hdr_index (fst hv) := (fs ! hdr_index (fst hv))\<lparr>fvalue := snd hv\<rparr>]"

definition set_values ::
  "(hdr_fields \<times> byte_ptr option) list \<Rightarrow> xfsm_fields_tlv list \<Rightarrow> xfsm_fields_tlv list" where
  "set_values hvs fs = fold set_value hvs fs"

text \<open>The assignments before the transport header is looked at; \<open>ud\<close> is \<open>userdata != NULL\<close>.\<close>

definition parse_l2l3 :: "nat \<Rightarrow> bool \<Rightarrow> xfsm_fields_tlv list \<Rightarrow> xfsm_fields_tlv list" where
  "parse_l2l3 p ud fs =
     (let eth = 0; ipv4 = eth + ETHER_HDR_LEN in
      set_values
       [(XFSM_IN_PORT, Some Tbl_In_Port),
        (XFSM_METADATA0, if ud then Some (Pkt_Userdata p 0) else None),
        (XFSM_METADATA1, if ud then Some (Pkt_Userdata p 4) else None),
        (SRC_MAC, Some (Pkt_Data p (eth + 6))),
        (DST_MAC, Some (Pkt_Data p (eth + 0))),
        (ETH_TYPE, Some (Pkt_Data p (eth + 12))),
        (IPv4_DST, Some (Pkt_Data p (ipv4 + 16))),
        (IPv4_SRC, Some (Pkt_Data p (ipv4 + 12))),
        (IPv4_PROTO, Some (Pkt_Data p (ipv4 + 9))),
        (IPv4_TOS, Some (Pkt_Data p (ipv4 + 1)))] fs)"

definition parse_tcp :: "nat \<Rightarrow> nat \<Rightarrow> xfsm_fields_tlv list \<Rightarrow> xfsm_fields_tlv list" where
  "parse_tcp p tp fs =
     set_values
       [(TCP_SPORT, Some (Pkt_Data p (tp + 0))), (TCP_DPORT, Some (Pkt_Data p (tp + 2))),
        (UDP_SPORT, None), (UDP_DPORT, None)] fs"

definition parse_icmp :: "nat \<Rightarrow> nat \<Rightarrow> xfsm_fields_tlv list \<Rightarrow> xfsm_fields_tlv list" where
  "parse_icmp p tp fs =
     set_values
       [(ICMP_TYPE, Some (Pkt_Data p (tp + 0))), (ICMP_CODE, Some (Pkt_Data p (tp + 1))),
        (ICMP_ID, Some (Pkt_Data p (tp + 4))), (ICMP_SEQ, Some (Pkt_Data p (tp + 6))),
        (ICMP_PAYLOAD, Some (Pkt_Data p (tp + 8))),
        (UDP_SPORT, None), (UDP_DPORT, None), (TCP_SPORT, None), (TCP_DPORT, None)] fs"

definition parse_udp_ports :: "nat \<Rightarrow> nat \<Rightarrow> xfsm_fields_tlv list \<Rightarrow> xfsm_fields_tlv list" where
  "parse_udp_ports p tp fs =
     set_values
       [(UDP_SPORT, Some (Pkt_Data p (tp + 0))), (UDP_DPORT, Some (Pkt_Data p (tp + 2))),
        (TCP_SPORT, None), (TCP_DPORT, None)] fs"

text \<open>The GTP branch: \<open>inner\<close> is the protocol byte of the inner IPv4 header.\<close>

definition parse_gtp :: "nat \<Rightarrow> nat \<Rightarrow> nat \<Rightarrow> u8 \<Rightarrow> xfsm_fields_tlv list \<Rightarrow> xfsm_fields_tlv list" where
  "parse_gtp p ipv4 tp inner fs =
     (let gtp_u = tp + 8; in_ipv4 = gtp_u + GTP_HEADER_SIZE; in_tp = in_ipv4 + 20;
          fs1 = set_values
            [(GTP_TEID, Some (Pkt_Data p (gtp_u + 4))),
             (INNER_IPv4_DST, Some (Pkt_Data p (ipv4 + 16))),
             (INNER_IPv4_SRC, Some (Pkt_Data p (ipv4 + 12))),
             (INNER_IPv4_PROTO, Some (Pkt_Data p (ipv4 + 9)))] fs
      in if inner = IPPROTO_TCP then
           set_values
             [(INNER_TCP_SPORT, Some (Pkt_Data p (in_tp + 0))),
              (INNER_TCP_DPORT, Some (Pkt_Data p (in_tp + 2))),
              (INNER_UDP_SPORT, None), (INNER_UDP_DPORT, None)] fs1
         else if inner = IPPROTO_UDP then
           set_values
             [(INNER_UDP_SPORT, Some (Pkt_Data p (in_tp + 0))),
              (INNER_UDP_DPORT, Some (Pkt_Data p (in_tp + 2))),
              (INNER_TCP_SPORT, None), (INNER_TCP_DPORT, None)] fs1
         else fs1)"

definition parse_no_gtp :: "xfsm_fields_tlv list \<Rightarrow> xfsm_fields_tlv list" where
  "parse_no_gtp fs =
     set_values
       [(GTP_TEID, None), (INNER_IPv4_DST, None), (INNER_IPv4_SRC, None), (INNER_IPv4_PROTO, None),
        (INNER_TCP_SPORT, None), (INNER_TCP_DPORT, None),
        (INNER_UDP_SPORT, None), (INNER_UDP_DPORT, None)] fs"

definition parse_transport ::
  "pktmem \<Rightarrow> u8 \<Rightarrow> nat \<Rightarrow> mbuf \<Rightarrow> nat \<Rightarrow> u8 \<Rightarrow> xfsm_fields_tlv list \<Rightarrow> xfsm_fields_tlv list res"
  where
  "parse_transport mem port p m ipv4 proto fs0 =
     (let tp = ipv4 + 20 in
      if proto = IPPROTO_TCP then Inr (parse_tcp p tp fs0)
      else if proto = IPV4_ICMP_PROTO then Inr (parse_icmp p tp fs0)
      else if proto = IPPROTO_UDP then
        (let fs1 = parse_udp_ports p tp fs0 in
         res_bind (get_hdr_value mem port (fs1 ! hdr_index UDP_DPORT) 0)
          (\<lambda>r. if snd r = GTP_PORT
               then res_bind (rd (m_data m) (tp + 8 + GTP_HEADER_SIZE + 9))
                      (\<lambda>inner. Inr (parse_gtp p ipv4 tp inner fs1))
               else Inr (parse_no_gtp fs1)))
      else Inr fs0)"

definition parse_pkt_header ::
  "pktmem \<Rightarrow> 'h xfsm_table \<Rightarrow> nat option \<Rightarrow> (int \<times> 'h xfsm_table) res" where
  "parse_pkt_header mem xfsm packet =
     (case packet of
        None \<Rightarrow> Inr (-1, xfsm)
      | Some p \<Rightarrow>
         (case mem p of
            None \<Rightarrow> Inl (UB Dangling)
          | Some m \<Rightarrow>
             (let ipv4 = ETHER_HDR_LEN;
                  fs0 = parse_l2l3 p (m_userdata m \<noteq> 0) (pkt_fields xfsm)
              in res_bind (rd (m_data m) (ipv4 + 9))
                  (\<lambda>proto.
                     res_bind (parse_transport mem (in_port xfsm) p m ipv4 proto fs0)
                      (\<lambda>fs. Inr (uint proto,
                              xfsm\<lparr>pkt_fields :=
                                set_value (XFSM_TIMESTAMP, Some (Pkt_Timestamp p)) fs\<rparr>))))))"

section \<open>The field array\<close>

definition field_ptr :: "xfsm_fields_tlv list \<Rightarrow> hdr_fields \<Rightarrow> byte_ptr option" where
  "field_ptr fs h = fvalue (fs ! hdr_index h)"

text \<open>The \<open>field\<close> members never change: they are those of the constant table.\<close>

definition wf_fields :: "xfsm_fields_tlv list \<Rightarrow> bool" where
  "wf_fields fs \<longleftrightarrow> map field fs = xfsm_header_fields"

definition field_len :: "hdr_fields \<Rightarrow> nat" where
  "field_len h = hf_len (xfsm_header_fields ! hdr_index h)"

lemma hdr_index_inj [simp]: "hdr_index a = hdr_index b \<longleftrightarrow> a = b"
  by (cases a; cases b) simp_all

lemma length_header_fields [simp]: "length xfsm_header_fields = 28"
  by (simp add: xfsm_header_fields_def)

lemma wf_fields_length [simp]: "wf_fields fs \<Longrightarrow> length fs = 28"
  by (drule arg_cong [where f = length, OF wf_fields_def [THEN iffD1]]) simp

lemma wf_fields_nth: "wf_fields fs \<Longrightarrow> i < 28 \<Longrightarrow> field (fs ! i) = xfsm_header_fields ! i"
  using wf_fields_length [of fs] by (metis nth_map wf_fields_def)

lemma field_len_simps [simp]:
  "field_len SRC_MAC = 6" "field_len DST_MAC = 6" "field_len ETH_TYPE = 2"
  "field_len IPv4_SRC = 4" "field_len IPv4_DST = 4" "field_len IPv4_PROTO = 1"
  "field_len IPv4_TOS = 1" "field_len ICMP_TYPE = 1" "field_len ICMP_CODE = 1"
  "field_len ICMP_ID = 2" "field_len ICMP_SEQ = 2" "field_len ICMP_PAYLOAD = 4"
  "field_len TCP_SPORT = 2" "field_len TCP_DPORT = 2" "field_len UDP_SPORT = 2"
  "field_len UDP_DPORT = 2" "field_len GTP_TEID = 4" "field_len INNER_IPv4_SRC = 4"
  "field_len INNER_IPv4_DST = 4" "field_len INNER_IPv4_PROTO = 1"
  "field_len INNER_TCP_SPORT = 2" "field_len INNER_TCP_DPORT = 2"
  "field_len INNER_UDP_SPORT = 2" "field_len INNER_UDP_DPORT = 2"
  "field_len XFSM_IN_PORT = 1" "field_len XFSM_METADATA0 = 4" "field_len XFSM_METADATA1 = 4"
  "field_len XFSM_TIMESTAMP = 8"
  by (simp_all add: field_len_def xfsm_header_fields_def)

lemma field_len_le [simp]: "field_len h \<le> 8"
  by (cases h) simp_all

lemma hf_type_timestamp:
  "hf_len (xfsm_header_fields ! hdr_index h) = 8 \<Longrightarrow>
     hf_type (xfsm_header_fields ! hdr_index h) = XFSM_TIMESTAMP"
  by (cases h) (simp_all add: xfsm_header_fields_def)

lemma length_set_value [simp]: "length (set_value hv fs) = length fs"
  by (simp add: set_value_def)

lemma wf_set_value [simp]: "wf_fields fs \<Longrightarrow> wf_fields (set_value hv fs)"
  unfolding wf_fields_def set_value_def
  by (metis (no_types, lifting) list_update_id list_update_beyond map_update nth_map not_le
      xfsm_fields_tlv.select_convs(1) xfsm_fields_tlv.surjective xfsm_fields_tlv.update_convs(2))

lemma field_ptr_set_value [simp]:
  "wf_fields fs \<Longrightarrow> field_ptr (set_value hv fs) h = (if h = fst hv then snd hv else field_ptr fs h)"
  by (simp add: field_ptr_def set_value_def nth_list_update)

lemma set_values_simps [simp]:
  "set_values [] fs = fs"
  "set_values (hv # hvs) fs = set_values hvs (set_value hv fs)"
  by (simp_all add: set_values_def)

lemma wf_set_values [simp]: "wf_fields fs \<Longrightarrow> wf_fields (set_values hvs fs)"
  by (induction hvs arbitrary: fs) simp_all

lemmas parse_defs =
  parse_l2l3_def parse_tcp_def parse_icmp_def parse_udp_ports_def parse_gtp_def parse_no_gtp_def
  Let_def

lemma wf_parse [simp]:
  assumes "wf_fields fs"
  shows "wf_fields (parse_l2l3 p ud fs)" and "wf_fields (parse_tcp p tp fs)"
    and "wf_fields (parse_icmp p tp fs)" and "wf_fields (parse_udp_ports p tp fs)"
    and "wf_fields (parse_gtp p ip tp inner fs)" and "wf_fields (parse_no_gtp fs)"
  using assms by (simp_all add: parse_defs)

text \<open>
  The outcome of the transport branches: one of the assignments, on top of the layer-2 and
  layer-3 ones.
\<close>

definition transport_result :: "nat \<Rightarrow> mbuf \<Rightarrow> u8 \<Rightarrow> xfsm_fields_tlv list \<Rightarrow> xfsm_fields_tlv list \<Rightarrow> bool"
  where
  "transport_result p b proto fs0 fs \<longleftrightarrow>
     (proto = 6 \<and> fs = parse_tcp p 34 fs0) \<or> (proto = 1 \<and> fs = parse_icmp p 34 fs0) \<or>
     (proto = 17 \<and> fs = parse_no_gtp (parse_udp_ports p 34 fs0)) \<or>
     (proto = 17 \<and> 59 < length (m_data b) \<and>
        fs = parse_gtp p 14 34 (m_data b ! 59) (parse_udp_ports p 34 fs0)) \<or>
     (proto \<notin> {1, 6, 17} \<and> fs = fs0)"

lemma parse_transport_result:
  "parse_transport mem port p b 14 proto fs0 = Inr fs \<Longrightarrow> transport_result p b proto fs0 fs"
  by (auto simp: parse_transport_def transport_result_def Let_def access_iff split: if_splits)

lemma wf_transport_result: "transport_result p b proto fs0 fs \<Longrightarrow> wf_fields fs0 \<Longrightarrow> wf_fields fs"
  by (auto simp: transport_result_def)

lemma parse_pkt_headerE:
  assumes "parse_pkt_header mem t (Some p) = Inr (r, t')"
  obtains b fs proto where "mem p = Some b" and "23 < length (m_data b)"
    and "proto = m_data b ! 23" and "r = uint proto"
    and "t' = t\<lparr>pkt_fields := set_value (XFSM_TIMESTAMP, Some (Pkt_Timestamp p)) fs\<rparr>"
    and "transport_result p b proto (parse_l2l3 p (m_userdata b \<noteq> 0) (pkt_fields t)) fs"
proof -
  from assms obtain b where b: "mem p = Some b"
    by (cases "mem p") (simp_all add: parse_pkt_header_def)
  let ?fs0 = "parse_l2l3 p (m_userdata b \<noteq> 0) (pkt_fields t)"
  let ?out = "\<lambda>fs. t\<lparr>pkt_fields := set_value (XFSM_TIMESTAMP, Some (Pkt_Timestamp p)) fs\<rparr>"
  from assms b have "res_bind (rd (m_data b) 23)
      (\<lambda>proto. res_bind (parse_transport mem (in_port t) p b 14 proto ?fs0)
        (\<lambda>fs. Inr (uint proto, ?out fs))) = Inr (r, t')"
    by (simp add: parse_pkt_header_def)
  then obtain proto where proto: "rd (m_data b) 23 = Inr proto"
    and rest: "res_bind (parse_transport mem (in_port t) p b 14 proto ?fs0)
        (\<lambda>fs. Inr (uint proto, ?out fs)) = Inr (r, t')"
    by (rule res_bindE)
  from rest obtain fs where fs: "parse_transport mem (in_port t) p b 14 proto ?fs0 = Inr fs"
    and r: "r = uint proto" and t': "t' = ?out fs"
    by (rule res_bindE) simp
  from proto have len: "23 < length (m_data b)" and pr: "proto = m_data b ! 23"
    by (simp_all add: rd_Inr_iff)
  show thesis
    by (rule that [OF b len pr r t' parse_transport_result [OF fs]])
qed

lemma parse_wf:
  assumes "wf_fields (pkt_fields t)" and "parse_pkt_header mem t p = Inr (r, t')"
  shows "wf_fields (pkt_fields t')"
proof (cases p)
  case None
  with assms show ?thesis by (simp add: parse_pkt_header_def)
next
  case (Some q)
  with assms(2) have "parse_pkt_header mem t (Some q) = Inr (r, t')" by simp
  then show ?thesis
    by (rule parse_pkt_headerE) (use assms(1) in \<open>auto dest: wf_transport_result\<close>)
qed

lemma parse_frame:
  assumes "parse_pkt_header mem t p = Inr (r, t')"
  shows "t' = t\<lparr>pkt_fields := pkt_fields t'\<rparr>"
  using assms
  by (cases p) (auto simp: parse_pkt_header_def Let_def split: option.splits if_splits)

section \<open>What a field read returns\<close>

text \<open>The big-endian value of a byte string.\<close>

definition be_value :: "u8 list \<Rightarrow> u64" where
  "be_value bs = le_word (rev bs)"

lemma length_2E:
  assumes "length bs = 2" obtains a b where "bs = [a, b]"
  using assms by (auto simp: numeral_eq_Suc length_Suc_conv)

lemma length_4E:
  assumes "length bs = 4" obtains a b c d where "bs = [a, b, c, d]"
  using assms by (auto simp: numeral_eq_Suc length_Suc_conv)

lemma be16ptr2h_value: "length bs = 2 \<Longrightarrow> ucast (be16ptr2h bs) = be_value bs"
proof (elim length_2E)
  fix a b assume "bs = [a, b]"
  then show ?thesis unfolding be16ptr2h_def be_value_def
    by (intro bit_word_eqI) (auto simp: bit_simps dest: bit_imp_le_length)
qed

lemma be32ptr2h_value: "length bs = 4 \<Longrightarrow> ucast (be32ptr2h bs) = be_value bs"
proof (elim length_4E)
  fix a b c d assume "bs = [a, b, c, d]"
  then show ?thesis unfolding be32ptr2h_def be_value_def
    by (intro bit_word_eqI) (auto simp: bit_simps dest: bit_imp_le_length)
qed

lemma be64ptr2h_undefined: "length bs = 6 \<Longrightarrow> be64ptr2h bs = Inl (UB BadShift)"
  by (simp add: be64ptr2h_def upt_rec numeral_eq_Suc)

lemma get_hdr_value_None [simp]: "fvalue f = None \<Longrightarrow> get_hdr_value mem port f v = Inr (-1, v)"
  by (simp add: get_hdr_value_def)

lemma get_hdr_value_be:
  assumes "wf_fields fs" and "field_ptr fs h = Some q" and "field_len h \<in> {1, 2, 4}"
    and "load_bytes mem port q (field_len h) = Inr bs"
  shows "get_hdr_value mem port (fs ! hdr_index h) v = Inr (0, be_value bs)"
proof -
  have len: "hf_len (field (fs ! hdr_index h)) = field_len h"
    using assms(1) by (simp add: wf_fields_nth field_len_def)
  have bs: "length bs = field_len h" using assms(4) by (rule length_load_bytes)
  have one: "length bs = 1 \<Longrightarrow> ucast (bs ! 0) = be_value bs"
    by (auto simp: be_value_def length_Suc_conv)
  from assms bs len one show ?thesis
    by (auto simp: get_hdr_value_def field_ptr_def be16ptr2h_value be32ptr2h_value)
qed

text \<open>A field that points at six bytes cannot be read at all.\<close>

lemma get_hdr_value_mac:
  assumes "wf_fields fs" and "field_ptr fs h = Some q" and "field_len h = 6"
    and "load_bytes mem port q 6 = Inr bs"
  shows "get_hdr_value mem port (fs ! hdr_index h) v = Inl (UB BadShift)"
proof -
  have "hf_len (field (fs ! hdr_index h)) = 6"
    using assms(1,3) by (simp add: wf_fields_nth field_len_def)
  moreover have "length bs = 6" using assms(4) by (rule length_load_bytes)
  ultimately show ?thesis
    using assms by (simp add: get_hdr_value_def field_ptr_def be64ptr2h_undefined)
qed

text \<open>No read of a field whose pointer is absent or readable is a memory fault.\<close>

lemma get_hdr_value_mem_safe:
  assumes "wf_fields fs"
    and "\<And>q. field_ptr fs h = Some q \<Longrightarrow> readable mem q (field_len h)"
  shows "\<not> mem_fault (get_hdr_value mem port (fs ! hdr_index h) v)"
proof (cases "field_ptr fs h")
  case None
  then show ?thesis by (simp add: field_ptr_def)
next
  case (Some q)
  with assms(2) obtain bs where bs: "load_bytes mem port q (field_len h) = Inr bs"
    by (auto simp: readable_iff [of mem q "field_len h" port])
  have len: "hf_len (field (fs ! hdr_index h)) = field_len h"
    using assms(1) by (simp add: wf_fields_nth field_len_def)
  have "length bs = field_len h" using bs by (rule length_load_bytes)
  with Some bs len show ?thesis
    by (auto simp: get_hdr_value_def field_ptr_def be64ptr2h_undefined)
qed

text \<open>
  Encoding and decoding of an n-byte field. The encoder is network byte order; what every
  such pair gives is that a field written inside a larger buffer reads back.
\<close>

locale field_codec =
  fixes n :: nat and enc :: "u64 \<Rightarrow> u8 list" and dec :: "u8 list \<Rightarrow> u64"
  assumes length_enc: "length (enc v) = n"
    and dec_enc: "dec (enc v) = take_bit (8 * n) v"
begin

lemma dec_in_place:
  "off + n \<le> length bs \<Longrightarrow> dec (take n (drop off (splice_at off (enc v) bs))) = take_bit (8 * n) v"
  using take_drop_splice_at [of off "enc v" bs] by (simp add: length_enc dec_enc)

end

definition net_bytes :: "nat \<Rightarrow> u64 \<Rightarrow> u8 list" where
  "net_bytes n v = rev (le_bytes n v)"

lemma length_net_bytes [simp]: "length (net_bytes n v) = n"
  by (simp add: net_bytes_def)

lemma be_value_net_bytes: "n \<le> 8 \<Longrightarrow> be_value (net_bytes n v) = take_bit (8 * n) v"
  by (simp add: be_value_def net_bytes_def le_word_le_bytes)

interpretation net2: field_codec 2 "net_bytes 2" "\<lambda>bs. ucast (be16ptr2h bs)"
  by unfold_locales (simp_all add: be16ptr2h_value be_value_net_bytes)

interpretation net4: field_codec 4 "net_bytes 4" "\<lambda>bs. ucast (be32ptr2h bs)"
  by unfold_locales (simp_all add: be32ptr2h_value be_value_net_bytes)

section \<open>What the parser establishes\<close>

text \<open>Offsets of the fields every packet, or every packet of the given protocol, has.\<close>

definition layout :: "u8 \<Rightarrow> hdr_fields \<Rightarrow> nat option" where
  "layout proto h =
     (case h of
        ETH_TYPE \<Rightarrow> Some 12 | IPv4_SRC \<Rightarrow> Some 26 | IPv4_DST \<Rightarrow> Some 30
      | IPv4_PROTO \<Rightarrow> Some 23 | IPv4_TOS \<Rightarrow> Some 15
      | TCP_SPORT \<Rightarrow> if proto = IPPROTO_TCP then Some 34 else None
      | TCP_DPORT \<Rightarrow> if proto = IPPROTO_TCP then Some 36 else None
      | UDP_SPORT \<Rightarrow> if proto = IPPROTO_UDP then Some 34 else None
      | UDP_DPORT \<Rightarrow> if proto = IPPROTO_UDP then Some 36 else None
      | ICMP_TYPE \<Rightarrow> if proto = IPV4_ICMP_PROTO then Some 34 else None
      | ICMP_CODE \<Rightarrow> if proto = IPV4_ICMP_PROTO then Some 35 else None
      | ICMP_ID \<Rightarrow> if proto = IPV4_ICMP_PROTO then Some 38 else None
      | ICMP_SEQ \<Rightarrow> if proto = IPV4_ICMP_PROTO then Some 40 else None
      | ICMP_PAYLOAD \<Rightarrow> if proto = IPV4_ICMP_PROTO then Some 42 else None
      | _ \<Rightarrow> None)"

lemma transport_layout:
  assumes "transport_result p b proto (parse_l2l3 p ud fs) fs'" and "wf_fields fs"
    and "layout proto h = Some off"
  shows "field_ptr fs' h = Some (Pkt_Data p off)"
  using assms by (cases h) (auto simp: transport_result_def layout_def parse_defs split: if_splits)

lemma layout_len: "layout proto h = Some off \<Longrightarrow> field_len h \<in> {1, 2, 4} \<and> off + field_len h \<le> 46"
  by (cases h) (auto simp: layout_def split: if_splits)

lemma layout_not_timestamp: "layout proto XFSM_TIMESTAMP = None"
  by (simp add: layout_def)

lemma parse_layout:
  assumes "parse_pkt_header mem t (Some p) = Inr (r, t')" and "wf_fields (pkt_fields t)"
    and "mem p = Some b" and "layout (m_data b ! 23) h = Some off"
  shows "field_ptr (pkt_fields t') h = Some (Pkt_Data p off)"
  using assms(1)
proof (rule parse_pkt_headerE)
  fix b' fs proto
  assume *: "mem p = Some b'" "proto = m_data b' ! 23"
    "t' = t\<lparr>pkt_fields := set_value (XFSM_TIMESTAMP, Some (Pkt_Timestamp p)) fs\<rparr>"
    "transport_result p b' proto (parse_l2l3 p (m_userdata b' \<noteq> 0) (pkt_fields t)) fs"
  from * assms(2) have wf: "wf_fields fs" by (auto dest: wf_transport_result)
  from assms(4) layout_not_timestamp have "h \<noteq> XFSM_TIMESTAMP" by auto
  with * wf assms show ?thesis by (auto dest: transport_layout)
qed

text \<open>
  A data room of sixty bytes lets the parser return, whatever the packet holds: the fields
  it reads itself are the protocol bytes at 23 and 59 and the UDP destination port.
\<close>

lemma parse_transport_total:
  assumes "wf_fields fs0" and "mem p = Some b" and "60 \<le> length (m_data b)"
  shows "\<exists>fs. parse_transport mem port p b 14 proto fs0 = Inr fs"
proof -
  let ?fs1 = "parse_udp_ports p 34 fs0"
  have wf: "wf_fields ?fs1" using assms(1) by simp
  have ptr: "field_ptr ?fs1 UDP_DPORT = Some (Pkt_Data p 36)"
    using assms(1) by (simp add: parse_udp_ports_def)
  have "load_bytes mem port (Pkt_Data p 36) 2 = Inr (take 2 (drop 36 (m_data b)))"
    using assms(2,3) by (simp add: load_bytes_Inr_iff obj_bytes_def ptr_off_def)
  then have "get_hdr_value mem port (?fs1 ! hdr_index UDP_DPORT) 0
      = Inr (0, be_value (take 2 (drop 36 (m_data b))))"
    by (intro get_hdr_value_be [OF wf ptr]) simp_all
  with assms show ?thesis by (simp add: parse_transport_def Let_def)
qed

lemma parse_total:
  assumes "wf_fields (pkt_fields t)" and "mem p = Some b" and "60 \<le> length (m_data b)"
  shows "\<exists>t'. parse_pkt_header mem t (Some p) = Inr (uint (m_data b ! 23), t')"
proof -
  have "\<exists>fs. parse_transport mem (in_port t) p b 14 (m_data b ! 23)
      (parse_l2l3 p (m_userdata b \<noteq> 0) (pkt_fields t)) = Inr fs"
    using assms by (intro parse_transport_total) simp_all
  with assms show ?thesis by (auto simp: parse_pkt_header_def Let_def)
qed

lemma parsed_field_reads:
  assumes "parse_pkt_header mem t (Some p) = Inr (r, t')" and "wf_fields (pkt_fields t)"
    and "mem p = Some b" and "60 \<le> length (m_data b)" and "layout (m_data b ! 23) h = Some off"
  shows "get_hdr_value mem (in_port t') (pkt_fields t' ! hdr_index h) v =
    Inr (0, be_value (take (field_len h) (drop off (m_data b))))"
proof -
  have wf: "wf_fields (pkt_fields t')" using parse_wf assms(1,2) by blast
  have ptr: "field_ptr (pkt_fields t') h = Some (Pkt_Data p off)"
    by (rule parse_layout [OF assms(1-3,5)])
  have len: "field_len h \<in> {1, 2, 4}" "off + field_len h \<le> 46"
    using layout_len [OF assms(5)] by simp_all
  then have "load_bytes mem (in_port t') (Pkt_Data p off) (field_len h)
      = Inr (take (field_len h) (drop off (m_data b)))"
    using assms(3,4) by (simp add: load_bytes_Inr_iff obj_bytes_def ptr_off_def)
  then show ?thesis by (rule get_hdr_value_be [OF wf ptr len(1)])
qed

text \<open>The fields whose pointer the parser writes for every packet.\<close>

definition always_set :: "hdr_fields \<Rightarrow> bool" where
  "always_set h \<longleftrightarrow>
     h \<in> {SRC_MAC, DST_MAC, ETH_TYPE, IPv4_SRC, IPv4_DST, IPv4_PROTO, IPv4_TOS,
          XFSM_IN_PORT, XFSM_METADATA0, XFSM_METADATA1, XFSM_TIMESTAMP}"

lemma transport_always_set:
  assumes "transport_result p b proto (parse_l2l3 p ud fs) fs'" and "wf_fields fs"
    and "always_set h" and "h \<noteq> XFSM_TIMESTAMP"
  shows "field_ptr fs' h = field_ptr (parse_l2l3 p ud fs) h"
  using assms by (auto simp: transport_result_def always_set_def parse_defs)

lemma parse_always_set_readable:
  assumes "parse_pkt_header mem t (Some p) = Inr (r, t')" and "wf_fields (pkt_fields t)"
    and "mem p = Some b" and "34 \<le> length (m_data b)"
    and "always_set h" and "field_ptr (pkt_fields t') h = Some q"
  shows "readable mem q (field_len h) \<and> ptr_mbuf q \<in> {None, Some p}"
  using assms(1)
proof (rule parse_pkt_headerE)
  fix b' fs proto
  assume *: "mem p = Some b'"
    "t' = t\<lparr>pkt_fields := set_value (XFSM_TIMESTAMP, Some (Pkt_Timestamp p)) fs\<rparr>"
    "transport_result p b' proto (parse_l2l3 p (m_userdata b' \<noteq> 0) (pkt_fields t)) fs"
  from * assms(2) have wf: "wf_fields fs" by (auto dest: wf_transport_result)
  show ?thesis
  proof (cases "h = XFSM_TIMESTAMP")
    case True
    with * wf assms show ?thesis
      by (auto simp: readable_def obj_bytes_def ptr_off_def ptr_mbuf_def)
  next
    case False
    with * wf assms transport_always_set [OF *(3) assms(2,5) False]
    have "field_ptr (parse_l2l3 p (m_userdata b \<noteq> 0) (pkt_fields t)) h = Some q" by simp
    with False assms(2-5) show ?thesis
      by (auto simp: always_set_def parse_l2l3_def Let_def readable_def obj_bytes_def ptr_off_def
          ptr_mbuf_def split: if_splits)
  qed
qed

lemma parse_in_port:
  assumes "parse_pkt_header mem t (Some p) = Inr (r, t')" and "wf_fields (pkt_fields t)"
  shows "field_ptr (pkt_fields t') XFSM_IN_PORT = Some Tbl_In_Port"
  using assms(1)
proof (rule parse_pkt_headerE)
  fix b fs proto
  assume *: "t' = t\<lparr>pkt_fields := set_value (XFSM_TIMESTAMP, Some (Pkt_Timestamp p)) fs\<rparr>"
    "transport_result p b proto (parse_l2l3 p (m_userdata b \<noteq> 0) (pkt_fields t)) fs"
  with assms(2) have "wf_fields fs" by (auto dest: wf_transport_result)
  with * assms(2) transport_always_set [OF *(2) assms(2), of XFSM_IN_PORT] show ?thesis
    by (simp add: always_set_def parse_l2l3_def Let_def)
qed

section \<open>Properties\<close>

text \<open>
  Inputs for the witnesses: a data room of 64 bytes with the given protocol byte and
  UDP destination port 2152, and a table whose field pointers are all NULL.
\<close>

definition demo_mbuf :: "u8 \<Rightarrow> mbuf" where
  "demo_mbuf proto =
     \<lparr>m_data = (replicate 64 0)[23 := proto, 36 := 8, 37 := 104], m_userdata = 0, m_timestamp = 0\<rparr>"

definition null_fields :: "xfsm_fields_tlv list" where
  "null_fields = map (\<lambda>f. \<lparr>field = f, fvalue = None\<rparr>) xfsm_header_fields"

lemma wf_null_fields [simp]: "wf_fields null_fields"
  by (simp add: wf_fields_def null_fields_def comp_def)

lemma demo_mbuf_simps [simp]:
  "length (m_data (demo_mbuf proto)) = 64" "m_data (demo_mbuf proto) ! 23 = proto"
  "take 2 (drop 36 (m_data (demo_mbuf proto))) = [8, 104]"
  by (simp_all add: demo_mbuf_def take_Suc_conv_app_nth numeral_eq_Suc)



text \<open>
  The source and the destination MAC address can never be read: after a successful
  parse both point into the packet, and \<open>get_hdr_value\<close> on either of them shifts a promoted
  byte by 40 bits, which is undefined.
\<close>

theorem mac_read_undefined:
  assumes "wf_fields (pkt_fields t)" and "mem p = Some b" and "60 \<le> length (m_data b)"
  shows "\<exists>r t'. parse_pkt_header mem t (Some p) = Inr (r, t') \<and>
    (\<forall>h \<in> {SRC_MAC, DST_MAC}. \<forall>v.
       get_hdr_value mem (in_port t') (pkt_fields t' ! hdr_index h) v = Inl (UB BadShift))"
proof -
  obtain r t' where t': "parse_pkt_header mem t (Some p) = Inr (r, t')"
    using parse_total [of t mem p b, OF assms] by blast
  then show ?thesis
  proof (rule parse_pkt_headerE)
    fix b' fs proto
    assume *: "mem p = Some b'"
      "t' = t\<lparr>pkt_fields := set_value (XFSM_TIMESTAMP, Some (Pkt_Timestamp p)) fs\<rparr>"
      "transport_result p b' proto (parse_l2l3 p (m_userdata b' \<noteq> 0) (pkt_fields t)) fs"
    from * assms(1) have wf: "wf_fields fs" by (auto dest: wf_transport_result)
    have "field_ptr fs h = Some (Pkt_Data p (if h = SRC_MAC then 6 else 0))"
      if "h \<in> {SRC_MAC, DST_MAC}" for h
      using transport_always_set [OF *(3) assms(1), of h] that assms(1)
      by (auto simp: always_set_def parse_l2l3_def Let_def)
    then have "\<exists>q. field_ptr (pkt_fields t') h = Some q \<and>
        (\<exists>bs. load_bytes mem (in_port t') q 6 = Inr bs)" if "h \<in> {SRC_MAC, DST_MAC}" for h
      using that wf * assms(2,3) by (auto simp: load_bytes_def obj_bytes_def ptr_off_def)
    moreover have "wf_fields (pkt_fields t')" using wf * by simp
    ultimately have "\<forall>h \<in> {SRC_MAC, DST_MAC}. \<forall>v.
       get_hdr_value mem (in_port t') (pkt_fields t' ! hdr_index h) v = Inl (UB BadShift)"
      using get_hdr_value_mac by (metis (no_types, lifting) field_len_simps(1,2) insertE singletonD)
    with t' show ?thesis by blast
  qed
qed

theorem mac_read_undefined_witness:
  "\<exists>r t'. parse_pkt_header [1 \<mapsto> demo_mbuf 6] (zero_table\<lparr>pkt_fields := null_fields\<rparr>) (Some 1)
      = Inr (r, t') \<and>
    (\<forall>h \<in> {SRC_MAC, DST_MAC}. \<forall>v.
       get_hdr_value [1 \<mapsto> demo_mbuf 6] (in_port t') (pkt_fields t' ! hdr_index h) v
         = Inl (UB BadShift))"
  by (rule mac_read_undefined [of _ _ _ "demo_mbuf 6"]) simp_all

text \<open>The pointers the transport branches leave alone.\<close>

lemma transport_icmp_kept:
  assumes "transport_result p b proto (parse_l2l3 p ud fs) fs'" and "wf_fields fs" and "proto \<noteq> 1"
    and "h \<in> {ICMP_TYPE, ICMP_CODE, ICMP_ID, ICMP_SEQ, ICMP_PAYLOAD}"
  shows "field_ptr fs' h = field_ptr fs h"
  using assms by (auto simp: transport_result_def parse_defs)

lemma transport_ports:
  assumes "transport_result p b proto (parse_l2l3 p ud fs) fs'" and "wf_fields fs"
    and "h \<in> {TCP_SPORT, TCP_DPORT, UDP_SPORT, UDP_DPORT}"
  shows "field_ptr fs' h =
    (if proto \<in> {1, 6, 17} then map_option (Pkt_Data p) (layout proto h) else field_ptr fs h)"
  using assms by (auto simp: transport_result_def parse_defs layout_def)

lemma parse_ptr_via_transport:
  assumes "parse_pkt_header mem t (Some p) = Inr (r, t')" and "wf_fields (pkt_fields t)"
    and "mem p = Some b" and "h \<noteq> XFSM_TIMESTAMP"
    and "\<And>ud fs'. transport_result p b (m_data b ! 23) (parse_l2l3 p ud (pkt_fields t)) fs' \<Longrightarrow>
           field_ptr fs' h = v"
  shows "field_ptr (pkt_fields t') h = v"
  using assms(1)
proof (rule parse_pkt_headerE)
  fix b' fs proto
  assume *: "mem p = Some b'" "proto = m_data b' ! 23"
    "t' = t\<lparr>pkt_fields := set_value (XFSM_TIMESTAMP, Some (Pkt_Timestamp p)) fs\<rparr>"
    "transport_result p b' proto (parse_l2l3 p (m_userdata b' \<noteq> 0) (pkt_fields t)) fs"
  from * assms(2) have "wf_fields fs" by (auto dest: wf_transport_result)
  moreover from * assms(3) have "field_ptr fs h = v" by (intro assms(5)) simp
  ultimately show ?thesis using * assms(4) by simp
qed

text \<open>
  The port fields are coherent for the three protocols the parser knows: after a
  successful parse of a TCP, UDP or ICMP packet each of the four port pointers points at
  its place in this packet if the protocol has it and is NULL otherwise. For every other
  protocol the four pointers keep whatever an earlier packet left in them.
\<close>

theorem parse_port_pointers:
  assumes "wf_fields (pkt_fields t)" and "mem p = Some b" and "60 \<le> length (m_data b)"
  shows "\<exists>r t'. parse_pkt_header mem t (Some p) = Inr (r, t') \<and>
    (\<forall>h \<in> {TCP_SPORT, TCP_DPORT, UDP_SPORT, UDP_DPORT}.
       field_ptr (pkt_fields t') h =
         (if m_data b ! 23 \<in> {1, 6, 17} then map_option (Pkt_Data p) (layout (m_data b ! 23) h)
          else field_ptr (pkt_fields t) h))"
proof -
  obtain r t' where t': "parse_pkt_header mem t (Some p) = Inr (r, t')"
    using parse_total [of t mem p b, OF assms] by blast
  have "field_ptr (pkt_fields t') h =
         (if m_data b ! 23 \<in> {1, 6, 17} then map_option (Pkt_Data p) (layout (m_data b ! 23) h)
          else field_ptr (pkt_fields t) h)"
    if "h \<in> {TCP_SPORT, TCP_DPORT, UDP_SPORT, UDP_DPORT}" for h
    using that
    by (intro parse_ptr_via_transport [OF t' assms(1,2)] transport_ports [OF _ assms(1)]) auto
  with t' show ?thesis by blast
qed

theorem parse_port_pointers_witness:
  "\<exists>r t'. parse_pkt_header [1 \<mapsto> demo_mbuf 17] (zero_table\<lparr>pkt_fields := null_fields\<rparr>) (Some 1)
      = Inr (r, t') \<and>
    (\<forall>h \<in> {TCP_SPORT, TCP_DPORT, UDP_SPORT, UDP_DPORT}.
       field_ptr (pkt_fields t') h = map_option (Pkt_Data 1) (layout 17 h))"
  using parse_port_pointers
    [of "zero_table\<lparr>pkt_fields := null_fields\<rparr>" "[1 \<mapsto> demo_mbuf 17]" 1 "demo_mbuf 17"] by simp

text \<open>
  The ICMP fields go stale. Parse an ICMP packet, free its buffer, then parse a packet
  of another protocol: the five ICMP pointers still point into the freed buffer, and
  reading any of them accesses freed packet memory.
\<close>

theorem stale_icmp_dangles:
  assumes "wf_fields (pkt_fields t)"
    and "mem p = Some b" and "60 \<le> length (m_data b)" and "m_data b ! 23 = 1"
    and "mem q = Some c" and "60 \<le> length (m_data c)" and "m_data c ! 23 \<noteq> 1" and "p \<noteq> q"
  shows "\<exists>t1 t2. parse_pkt_header mem t (Some p) = Inr (1, t1) \<and>
    parse_pkt_header (mem(p := None)) t1 (Some q) = Inr (uint (m_data c ! 23), t2) \<and>
    (\<forall>h \<in> {ICMP_TYPE, ICMP_CODE, ICMP_ID, ICMP_SEQ, ICMP_PAYLOAD}. \<forall>v.
       get_hdr_value (mem(p := None)) (in_port t2) (pkt_fields t2 ! hdr_index h) v
         = Inl (UB Dangling))"
proof -
  let ?mem' = "mem(p := None)"
  obtain t1 where t1: "parse_pkt_header mem t (Some p) = Inr (1, t1)"
    using parse_total [of t mem p b, OF assms(1-3)] assms(4) by auto
  have wf1: "wf_fields (pkt_fields t1)" using parse_wf [OF assms(1) t1] .
  have q: "?mem' q = Some c" using assms(5,8) by simp
  obtain t2 where t2: "parse_pkt_header ?mem' t1 (Some q) = Inr (uint (m_data c ! 23), t2)"
    using parse_total [of t1 ?mem' q c, OF wf1 q assms(6)] by blast
  have wf2: "wf_fields (pkt_fields t2)" using parse_wf [OF wf1 t2] .
  have "get_hdr_value ?mem' (in_port t2) (pkt_fields t2 ! hdr_index h) v = Inl (UB Dangling)"
    if h: "h \<in> {ICMP_TYPE, ICMP_CODE, ICMP_ID, ICMP_SEQ, ICMP_PAYLOAD}" for h v
  proof -
    from h obtain off where "layout 1 h = Some off" by (auto simp: layout_def)
    with assms(4) have "field_ptr (pkt_fields t1) h = Some (Pkt_Data p off)"
      by (intro parse_layout [OF t1 assms(1,2)]) simp
    moreover have "field_ptr (pkt_fields t2) h = field_ptr (pkt_fields t1) h"
      by (rule parse_ptr_via_transport [OF t2 wf1 q])
        (use h assms(7) transport_icmp_kept [OF _ wf1] in \<open>auto\<close>)
    ultimately have ptr: "fvalue (pkt_fields t2 ! hdr_index h) = Some (Pkt_Data p off)"
      by (simp add: field_ptr_def)
    have "hf_len (field (pkt_fields t2 ! hdr_index h)) = field_len h"
      using wf2 by (simp add: wf_fields_nth field_len_def)
    with h ptr show ?thesis
      by (auto simp: get_hdr_value_def load_bytes_def obj_bytes_def)
  qed
  with t1 t2 show ?thesis by blast
qed

theorem stale_icmp_dangles_witness:
  "\<exists>t1 t2. parse_pkt_header [1 \<mapsto> demo_mbuf 1, 2 \<mapsto> demo_mbuf 6]
        (zero_table\<lparr>pkt_fields := null_fields\<rparr>) (Some 1) = Inr (1, t1) \<and>
    parse_pkt_header ([1 \<mapsto> demo_mbuf 1, 2 \<mapsto> demo_mbuf 6](1 := None)) t1 (Some 2) = Inr (6, t2) \<and>
    (\<forall>h \<in> {ICMP_TYPE, ICMP_CODE, ICMP_ID, ICMP_SEQ, ICMP_PAYLOAD}. \<forall>v.
       get_hdr_value ([1 \<mapsto> demo_mbuf 1, 2 \<mapsto> demo_mbuf 6](1 := None)) (in_port t2)
         (pkt_fields t2 ! hdr_index h) v = Inl (UB Dangling))"
  using stale_icmp_dangles
    [of "zero_table\<lparr>pkt_fields := null_fields\<rparr>" "[1 \<mapsto> demo_mbuf 1, 2 \<mapsto> demo_mbuf 6]"
      1 "demo_mbuf 1" 2 "demo_mbuf 6"] by simp

text \<open>
  The "inner" IPv4 fields of a GTP packet are those of the outer header: for a UDP
  packet to port 2152 the parser sets \<open>INNER_IPv4_SRC\<close>, \<open>INNER_IPv4_DST\<close> and
  \<open>INNER_IPv4_PROTO\<close> to the very pointers of \<open>IPv4_SRC\<close>, \<open>IPv4_DST\<close> and \<open>IPv4_PROTO\<close>, although
  the inner header lies 36 bytes further on.
\<close>

theorem gtp_inner_is_outer:
  assumes "wf_fields (pkt_fields t)" and "mem p = Some b" and "60 \<le> length (m_data b)"
    and "m_data b ! 23 = 17" and "take 2 (drop 36 (m_data b)) = [8, 104]"
  shows "\<exists>t'. parse_pkt_header mem t (Some p) = Inr (17, t') \<and>
    field_ptr (pkt_fields t') GTP_TEID = Some (Pkt_Data p 46) \<and>
    (\<forall>(i, h) \<in> {(INNER_IPv4_SRC, IPv4_SRC), (INNER_IPv4_DST, IPv4_DST),
                 (INNER_IPv4_PROTO, IPv4_PROTO)}.
       field_ptr (pkt_fields t') i = field_ptr (pkt_fields t') h \<and>
       field_ptr (pkt_fields t') h \<noteq> None)"
proof -
  let ?fs1 = "parse_udp_ports p 34 (parse_l2l3 p (m_userdata b \<noteq> 0) (pkt_fields t))"
  have wf: "wf_fields ?fs1" using assms(1) by simp
  have ptr: "field_ptr ?fs1 UDP_DPORT = Some (Pkt_Data p 36)"
    using assms(1) by (simp add: parse_defs)
  have "load_bytes mem (in_port t) (Pkt_Data p 36) 2 = Inr [8, 104]"
    using assms(2,3,5) by (simp add: load_bytes_Inr_iff obj_bytes_def ptr_off_def)
  then have "get_hdr_value mem (in_port t) (?fs1 ! hdr_index UDP_DPORT) 0
      = Inr (0, be_value [8, 104])"
    by (intro get_hdr_value_be [OF wf ptr]) simp_all
  then have dport: "get_hdr_value mem (in_port t) (?fs1 ! hdr_index UDP_DPORT) 0 = Inr (0, 2152)"
    by (simp add: be_value_def)
  let ?fs = "parse_gtp p 14 34 (m_data b ! 59) ?fs1"
  have "parse_pkt_header mem t (Some p) =
      Inr (17, t\<lparr>pkt_fields := set_value (XFSM_TIMESTAMP, Some (Pkt_Timestamp p)) ?fs\<rparr>)"
    using assms dport by (simp add: parse_pkt_header_def parse_transport_def Let_def)
  moreover have "wf_fields ?fs" using wf by simp
  moreover have "field_ptr ?fs GTP_TEID = Some (Pkt_Data p 46)"
    "field_ptr ?fs INNER_IPv4_SRC = Some (Pkt_Data p 26)"
    "field_ptr ?fs IPv4_SRC = Some (Pkt_Data p 26)"
    "field_ptr ?fs INNER_IPv4_DST = Some (Pkt_Data p 30)"
    "field_ptr ?fs IPv4_DST = Some (Pkt_Data p 30)"
    "field_ptr ?fs INNER_IPv4_PROTO = Some (Pkt_Data p 23)"
    "field_ptr ?fs IPv4_PROTO = Some (Pkt_Data p 23)"
    using assms(1) by (simp_all add: parse_defs)
  ultimately show ?thesis by simp
qed

theorem gtp_inner_is_outer_witness:
  "\<exists>t'. parse_pkt_header [1 \<mapsto> demo_mbuf 17] (zero_table\<lparr>pkt_fields := null_fields\<rparr>) (Some 1)
      = Inr (17, t') \<and>
    field_ptr (pkt_fields t') GTP_TEID = Some (Pkt_Data 1 46) \<and>
    (\<forall>(i, h) \<in> {(INNER_IPv4_SRC, IPv4_SRC), (INNER_IPv4_DST, IPv4_DST),
                 (INNER_IPv4_PROTO, IPv4_PROTO)}.
       field_ptr (pkt_fields t') i = field_ptr (pkt_fields t') h \<and>
       field_ptr (pkt_fields t') h \<noteq> None)"
  by (rule gtp_inner_is_outer [of _ _ _ "demo_mbuf 17"]) simp_all

end
