(* ===== verification/Conditions.thy ===== *)
theory Conditions
  imports Pkt_Parser
begin

text \<open>
  SW-FB/xfsm.c, \<open>evaluate_condition\<close> and \<open>xfsm_evaluate_conditions\<close>: the operands of a
  condition are fetched from the instance's registers, the table's global registers, a
  constant or a packet field, compared as signed 64-bit numbers, and the results stored in
  the instance. The operand fetch is shared with the actions.
\<close>

section \<open>Operands\<close>

text \<open>
  The switch over the operand type. \<open>param\<close> is the value of the C variable before the
  switch: a field the packet does not have, and a type outside the enumeration, leave it.
\<close>

definition operand_value ::
  "pktmem \<Rightarrow> 'h xfsm_table \<Rightarrow> xfsm_instance \<Rightarrow> xfsm_value_type \<Rightarrow> u64 \<Rightarrow> u64 \<Rightarrow> u64 res" where
  "operand_value mem tbl inst ty v param =
     (case ty of
        XFSM_REGISTER \<Rightarrow> rd (registers inst) (unat v)
      | XFSM_GLOBAL_REGISTER \<Rightarrow> rd (global_registers tbl) (unat v)
      | XFSM_CONSTANT \<Rightarrow> Inr v
      | XFSM_HDR_FIELD \<Rightarrow>
          res_bind (rd (pkt_fields tbl) (unat v))
            (\<lambda>f. res_bind (get_hdr_value mem (in_port tbl) f param) (\<lambda>r. Inr (snd r)))
      | XFSM_TYPE_OTHER \<Rightarrow> Inr param)"

section \<open>Conditions\<close>

definition compare_params :: "xfsm_condition_types \<Rightarrow> u64 \<Rightarrow> u64 \<Rightarrow> bool" where
  "compare_params opcode param1 param2 =
     (case opcode of
        XFSM_LESS \<Rightarrow> sint param1 < sint param2
      | XFSM_LESS_EQ \<Rightarrow> sint param1 \<le> sint param2
      | XFSM_GREATER \<Rightarrow> sint param1 > sint param2
      | XFSM_GREATER_EQ \<Rightarrow> sint param1 \<ge> sint param2
      | XFSM_EQUAL \<Rightarrow> param1 = param2
      | XFSM_NOT_EQUAL \<Rightarrow> param1 \<noteq> param2)"

definition evaluate_condition ::
  "pktmem \<Rightarrow> 'h xfsm_table \<Rightarrow> xfsm_condition \<Rightarrow> xfsm_instance \<Rightarrow> xfsm_results res" where
  "evaluate_condition mem tbl cond inst =
     res_bind (operand_value mem tbl inst (c_type1 cond) (c_value1 cond) 0)
      (\<lambda>param1. res_bind (operand_value mem tbl inst (c_type2 cond) (c_value2 cond) 0)
        (\<lambda>param2. Inr (if compare_params (condition_type cond) param1 param2
                       then XFSM_TRUE else XFSM_FALSE)))"

definition condition_step ::
  "pktmem \<Rightarrow> 'h xfsm_table \<Rightarrow> nat \<Rightarrow> xfsm_instance \<Rightarrow> xfsm_instance res" where
  "condition_step mem tbl i inst =
     res_bind (rd (conditions tbl) i)
      (\<lambda>c. res_bind (evaluate_condition mem tbl c inst)
        (\<lambda>r. res_bind (wr (results inst) i r) (\<lambda>rs. Inr (inst\<lparr>results := rs\<rparr>))))"

definition xfsm_evaluate_conditions ::
  "pktmem \<Rightarrow> 'h xfsm_table \<Rightarrow> xfsm_instance \<Rightarrow> xfsm_instance res" where
  "xfsm_evaluate_conditions mem tbl inst =
     run_steps (condition_step mem tbl) [0..<unat (nb_conditions tbl)] inst"

section \<open>Evaluation is pointwise\<close>

lemma operand_value_results [simp]:
  "operand_value mem tbl (inst\<lparr>results := rs\<rparr>) ty v p = operand_value mem tbl inst ty v p"
  by (simp add: operand_value_def cong: xfsm_value_type.case_cong)

lemma evaluate_condition_results [simp]:
  "evaluate_condition mem tbl c (inst\<lparr>results := rs\<rparr>) = evaluate_condition mem tbl c inst"
  by (simp add: evaluate_condition_def)

lemma condition_step_Inr:
  "condition_step mem tbl i inst = Inr inst' \<longleftrightarrow>
     i < length (conditions tbl) \<and> i < length (results inst) \<and>
     (\<exists>r. evaluate_condition mem tbl (conditions tbl ! i) inst = Inr r \<and>
          inst' = inst\<lparr>results := (results inst)[i := r]\<rparr>)"
  by (auto simp: condition_step_def res_bind_Inr_iff access_iff)

text \<open>
  After the first \<open>n\<close> iterations: the first \<open>n\<close> results are those of the conditions on the
  original instance, the rest of the instance is as it was.
\<close>

lemma condition_loop:
  "run_steps (condition_step mem tbl) [0..<n] inst = Inr inst' \<Longrightarrow>
     n \<le> length (conditions tbl) \<and> n \<le> length (results inst) \<and>
     (\<exists>rs. inst' = inst\<lparr>results := rs\<rparr> \<and> length rs = length (results inst) \<and>
       (\<forall>i < n. evaluate_condition mem tbl (conditions tbl ! i) inst = Inr (rs ! i)) \<and>
       (\<forall>i. n \<le> i \<longrightarrow> rs ! i = results inst ! i))"
proof (induction n arbitrary: inst')
  case 0
  then show ?case by (auto intro: exI [of _ "results inst"])
next
  case (Suc n)
  then obtain mid where mid: "run_steps (condition_step mem tbl) [0..<n] inst = Inr mid"
    and last: "condition_step mem tbl n mid = Inr inst'"
    by (auto simp: run_steps_snoc)
  from Suc.IH [OF mid] obtain rs where rs: "mid = inst\<lparr>results := rs\<rparr>"
    "length rs = length (results inst)" "n \<le> length (conditions tbl)" "n \<le> length (results inst)"
    "\<And>i. i < n \<Longrightarrow> evaluate_condition mem tbl (conditions tbl ! i) inst = Inr (rs ! i)"
    "\<And>i. n \<le> i \<Longrightarrow> rs ! i = results inst ! i"
    by blast
  from last rs obtain r where r: "n < length (conditions tbl)" "n < length (results inst)"
    "evaluate_condition mem tbl (conditions tbl ! n) inst = Inr r"
    "inst' = inst\<lparr>results := rs[n := r]\<rparr>"
    by (auto simp: condition_step_Inr)
  with rs show ?case
    by (auto intro!: exI [of _ "rs[n := r]"] simp: less_Suc_eq nth_list_update)
qed

lemma condition_loop_total:
  assumes "n \<le> length (conditions tbl)" and "n \<le> length (results inst)"
    and "\<And>i. i < n \<Longrightarrow> \<exists>r. evaluate_condition mem tbl (conditions tbl ! i) inst = Inr r"
  shows "\<exists>inst'. run_steps (condition_step mem tbl) [0..<n] inst = Inr inst'"
  using assms
proof (induction n)
  case 0
  then show ?case by simp
next
  case (Suc n)
  then obtain mid where mid: "run_steps (condition_step mem tbl) [0..<n] inst = Inr mid"
    by (metis Suc_leD less_SucI)
  from condition_loop [OF mid] obtain rs
    where "mid = inst\<lparr>results := rs\<rparr>" "length rs = length (results inst)" by blast
  moreover obtain r where "evaluate_condition mem tbl (conditions tbl ! n) inst = Inr r"
    using Suc.prems(3) by blast
  ultimately have "\<exists>inst'. condition_step mem tbl n mid = Inr inst'"
    using Suc.prems(1,2) by (simp add: condition_step_Inr)
  with mid show ?case by (auto simp: run_steps_snoc)
qed

lemmas evaluate_conditionsD =
  condition_loop [where n = "unat (nb_conditions tbl)" and tbl = tbl for tbl,
    folded xfsm_evaluate_conditions_def]

text \<open>Which operands can be fetched, and that fetching them is then no fault.\<close>

definition operand_ok ::
  "pktmem \<Rightarrow> 'h xfsm_table \<Rightarrow> xfsm_instance \<Rightarrow> xfsm_value_type \<Rightarrow> u64 \<Rightarrow> bool" where
  "operand_ok mem tbl inst ty v \<longleftrightarrow>
     (case ty of
        XFSM_REGISTER \<Rightarrow> unat v < length (registers inst)
      | XFSM_GLOBAL_REGISTER \<Rightarrow> unat v < length (global_registers tbl)
      | XFSM_HDR_FIELD \<Rightarrow>
          (\<exists>h. unat v = hdr_index h \<and> field_len h \<noteq> 6 \<and>
             (\<forall>q. field_ptr (pkt_fields tbl) h = Some q \<longrightarrow> readable mem q (field_len h)))
      | _ \<Rightarrow> True)"

lemma get_hdr_value_ok:
  assumes "wf_fields fs" and "field_len h \<noteq> 6"
    and "\<And>q. field_ptr fs h = Some q \<Longrightarrow> readable mem q (field_len h)"
  shows "\<exists>r. get_hdr_value mem port (fs ! hdr_index h) v = Inr r"
proof (cases "field_ptr fs h")
  case None
  then show ?thesis by (simp add: field_ptr_def)
next
  case (Some q)
  then obtain bs where bs: "load_bytes mem port q (field_len h) = Inr bs"
    using assms(3) readable_iff [of mem q "field_len h" port] by blast
  consider "field_len h \<in> {1, 2, 4}" | "field_len h = 8"
    using assms(2) by (cases h) simp_all
  then show ?thesis
  proof cases
    case 1
    with get_hdr_value_be [OF assms(1) Some _ bs] show ?thesis by blast
  next
    case 2
    then have "hf_len (field (fs ! hdr_index h)) = 8" "hf_type (field (fs ! hdr_index h)) = XFSM_TIMESTAMP"
      using assms(1) by (simp_all add: wf_fields_nth field_len_def hf_type_timestamp)
    with Some bs 2 show ?thesis by (simp add: get_hdr_value_def field_ptr_def)
  qed
qed

lemma operand_value_ok:
  assumes "wf_fields (pkt_fields tbl)" and "operand_ok mem tbl inst ty v"
  shows "\<exists>x. operand_value mem tbl inst ty v p = Inr x"
proof (cases ty)
  case XFSM_HDR_FIELD
  with assms(2) obtain h where "unat v = hdr_index h" "field_len h \<noteq> 6"
    "\<And>q. field_ptr (pkt_fields tbl) h = Some q \<Longrightarrow> readable mem q (field_len h)"
    by (auto simp: operand_ok_def)
  with get_hdr_value_ok [OF assms(1)] assms(1) XFSM_HDR_FIELD show ?thesis
    by (fastforce simp: operand_value_def res_bind_Inr_iff)
qed (use assms in \<open>simp_all add: operand_value_def operand_ok_def\<close>)

definition condition_ok :: "pktmem \<Rightarrow> 'h xfsm_table \<Rightarrow> xfsm_instance \<Rightarrow> xfsm_condition \<Rightarrow> bool" where
  "condition_ok mem tbl inst c \<longleftrightarrow>
     operand_ok mem tbl inst (c_type1 c) (c_value1 c) \<and> operand_ok mem tbl inst (c_type2 c) (c_value2 c)"

lemma evaluate_condition_ok:
  assumes "wf_fields (pkt_fields tbl)" and "condition_ok mem tbl inst c"
  shows "\<exists>r. evaluate_condition mem tbl c inst = Inr r"
proof -
  from assms obtain x y where "operand_value mem tbl inst (c_type1 c) (c_value1 c) 0 = Inr x"
    and "operand_value mem tbl inst (c_type2 c) (c_value2 c) 0 = Inr y"
    using operand_value_ok unfolding condition_ok_def by metis
  then show ?thesis by (simp add: evaluate_condition_def)
qed

section \<open>Properties\<close>


text \<open>A table with two conditions, register 0 < 5 and register 1 >= global register 2.\<close>

definition demo_conditions :: "xfsm_condition list" where
  "demo_conditions =
     [\<lparr>c_type1 = XFSM_REGISTER, c_type2 = XFSM_CONSTANT, c_value1 = 0, c_value2 = 5,
       condition_type = XFSM_LESS\<rparr>,
      \<lparr>c_type1 = XFSM_REGISTER, c_type2 = XFSM_GLOBAL_REGISTER, c_value1 = 1, c_value2 = 2,
       condition_type = XFSM_GREATER_EQ\<rparr>] @ replicate 14 zero_condition"

definition demo_table :: "'h xfsm_table" where
  "demo_table = zero_table\<lparr>conditions := demo_conditions, nb_conditions := 2,
     pkt_fields := null_fields\<rparr>"

lemma wf_zero_instance [simp]: "wf_instance zero_instance"
  by (simp add: wf_instance_def zero_instance_def)

lemma demo_table_ok:
  "\<forall>c \<in> set (take (unat (nb_conditions demo_table)) (conditions demo_table)).
     condition_ok mem demo_table zero_instance c"
  by (auto simp: demo_table_def demo_conditions_def zero_table_def zero_instance_def condition_ok_def
      operand_ok_def)


end
