(* ===== verification/Dpdk.thy ===== *)
theory Dpdk
  imports Xfsm_Types
begin

text \<open>
  The functions of DPDK the program calls and depends on. DPDK is not part of the
  repository, so they are parameters: a record of functions that the definitions using
  them take as an argument, with what the DPDK API documentation promises as the named
  hypotheses \<open>rte_hash_ok\<close> and \<open>cpu_to_be_ok\<close>. A hash table of type \<open>'h\<close> maps keys
  (strings of 32-bit words) to positions. At the end, a concrete instance shows that the
  hypotheses can hold.
\<close>

text \<open>The name of a DPDK object: its prefix, the table and the lcore printed into it.\<close>

type_synonym obj_name = "string \<times> u8 \<times> nat"

record 'h dpdk =
  rte_hash_create :: "obj_name list \<Rightarrow> obj_name \<Rightarrow> nat \<Rightarrow> 'h option"
  rte_hash_lookup :: "'h \<Rightarrow> u32 list \<Rightarrow> int"
  rte_hash_add_key :: "'h \<Rightarrow> u32 list \<Rightarrow> int \<times> 'h"
  rte_hash_del_key :: "'h \<Rightarrow> u32 list \<Rightarrow> int \<times> 'h"
  rte_hash_entries :: "'h \<Rightarrow> nat"
  rte_pktmbuf_pool_create :: "obj_name list \<Rightarrow> obj_name \<Rightarrow> bool"
  rte_cpu_to_be_16 :: "u16 \<Rightarrow> u16"
  rte_cpu_to_be_32 :: "u32 \<Rightarrow> u32"
  rte_cpu_to_be_64 :: "u64 \<Rightarrow> u64"
  rte_get_tsc_hz :: u64
  rte_lcore_id :: nat

text \<open>
  The documented behaviour of the hash library: creation fails when the name is in use and
  otherwise gives an empty table of the requested size; a non-negative position identifies
  one key and is below the size; adding returns the position the key then has, or a
  negative code and no change; deleting a present key returns its position and removes it
  only; deleting an absent one returns a negative code and changes nothing.
\<close>

definition rte_hash_ok :: "'h dpdk \<Rightarrow> bool" where
  "rte_hash_ok d \<longleftrightarrow>
     (\<forall>ns n e h. rte_hash_create d ns n e = Some h \<longrightarrow>
        n \<notin> set ns \<and> rte_hash_entries d h = e \<and> (\<forall>k. rte_hash_lookup d h k < 0)) \<and>
     (\<forall>h k. rte_hash_lookup d h k < int (rte_hash_entries d h)) \<and>
     (\<forall>h k k'. 0 \<le> rte_hash_lookup d h k \<and> rte_hash_lookup d h k = rte_hash_lookup d h k' \<longrightarrow>
        k = k') \<and>
     (\<forall>h k r h'. rte_hash_add_key d h k = (r, h') \<longrightarrow>
        rte_hash_entries d h' = rte_hash_entries d h \<and>
        (0 \<le> rte_hash_lookup d h k \<longrightarrow> r = rte_hash_lookup d h k) \<and>
        (if 0 \<le> r then rte_hash_lookup d h' k = r \<and>
              (\<forall>k'. k' \<noteq> k \<longrightarrow> rte_hash_lookup d h' k' = rte_hash_lookup d h k')
         else \<forall>k'. rte_hash_lookup d h' k' = rte_hash_lookup d h k')) \<and>
     (\<forall>h k r h'. rte_hash_del_key d h k = (r, h') \<longrightarrow>
        rte_hash_entries d h' = rte_hash_entries d h \<and>
        (if 0 \<le> rte_hash_lookup d h k
         then r = rte_hash_lookup d h k \<and> rte_hash_lookup d h' k < 0 \<and>
              (\<forall>k'. k' \<noteq> k \<longrightarrow> rte_hash_lookup d h' k' = rte_hash_lookup d h k')
         else r < 0 \<and> (\<forall>k'. rte_hash_lookup d h' k' = rte_hash_lookup d h k')))"

lemma rte_hash_okD:
  assumes "rte_hash_ok d"
  shows rte_hash_create_fresh: "rte_hash_create d ns n e = Some h \<Longrightarrow> n \<notin> set ns"
    and rte_hash_create_size: "rte_hash_create d ns n e = Some h \<Longrightarrow> rte_hash_entries d h = e"
    and rte_hash_create_empty: "rte_hash_create d ns n e = Some h \<Longrightarrow> rte_hash_lookup d h k < 0"
    and rte_hash_lookup_bound: "rte_hash_lookup d h k < int (rte_hash_entries d h)"
    and rte_hash_lookup_inj: "0 \<le> rte_hash_lookup d h k \<Longrightarrow>
          rte_hash_lookup d h k = rte_hash_lookup d h k' \<Longrightarrow> k = k'"
    and rte_hash_add_size: "rte_hash_add_key d h k = (r, h') \<Longrightarrow>
          rte_hash_entries d h' = rte_hash_entries d h"
    and rte_hash_add_present: "rte_hash_add_key d h k = (r, h') \<Longrightarrow>
          0 \<le> rte_hash_lookup d h k \<Longrightarrow> r = rte_hash_lookup d h k"
    and rte_hash_add_same: "rte_hash_add_key d h k = (r, h') \<Longrightarrow> 0 \<le> r \<Longrightarrow>
          rte_hash_lookup d h' k = r"
    and rte_hash_add_other: "rte_hash_add_key d h k = (r, h') \<Longrightarrow> k' \<noteq> k \<Longrightarrow>
          rte_hash_lookup d h' k' = rte_hash_lookup d h k'"
    and rte_hash_add_fail: "rte_hash_add_key d h k = (r, h') \<Longrightarrow> r < 0 \<Longrightarrow>
          rte_hash_lookup d h' k' = rte_hash_lookup d h k'"
    and rte_hash_del_size: "rte_hash_del_key d h k = (r, h') \<Longrightarrow>
          rte_hash_entries d h' = rte_hash_entries d h"
    and rte_hash_del_code: "rte_hash_del_key d h k = (r, h') \<Longrightarrow> 0 \<le> rte_hash_lookup d h k \<Longrightarrow>
          r = rte_hash_lookup d h k"
    and rte_hash_del_same: "rte_hash_del_key d h k = (r, h') \<Longrightarrow> rte_hash_lookup d h' k < 0"
    and rte_hash_del_other: "rte_hash_del_key d h k = (r, h') \<Longrightarrow> k' \<noteq> k \<Longrightarrow>
          rte_hash_lookup d h' k' = rte_hash_lookup d h k'"
  using assms unfolding rte_hash_ok_def by (blast | metis linorder_not_le)+

text \<open>
  \<open>rte_cpu_to_be_16\<close>, \<open>_32\<close> and \<open>_64\<close> convert to big endian: the bytes of the result in
  memory are those of the argument in the opposite order.
\<close>

definition cpu_to_be_ok :: "'h dpdk \<Rightarrow> bool" where
  "cpu_to_be_ok d \<longleftrightarrow>
     (\<forall>v. le_bytes 2 (ucast (rte_cpu_to_be_16 d v)) = rev (le_bytes 2 (ucast v))) \<and>
     (\<forall>v. le_bytes 4 (ucast (rte_cpu_to_be_32 d v)) = rev (le_bytes 4 (ucast v))) \<and>
     (\<forall>v. le_bytes 8 (rte_cpu_to_be_64 d v) = rev (le_bytes 8 v))"

text \<open>A call on a NULL handle returns \<open>-EINVAL\<close>.\<close>

definition hash_lookup :: "'h dpdk \<Rightarrow> 'h option \<Rightarrow> u32 list \<Rightarrow> int" where
  "hash_lookup d ho k = (case ho of None \<Rightarrow> -22 | Some h \<Rightarrow> rte_hash_lookup d h k)"

definition hash_add :: "'h dpdk \<Rightarrow> 'h option \<Rightarrow> u32 list \<Rightarrow> int \<times> 'h option" where
  "hash_add d ho k =
     (case ho of None \<Rightarrow> (-22, None)
      | Some h \<Rightarrow> (case rte_hash_add_key d h k of (r, h') \<Rightarrow> (r, Some h')))"

definition hash_del :: "'h dpdk \<Rightarrow> 'h option \<Rightarrow> u32 list \<Rightarrow> int \<times> 'h option" where
  "hash_del d ho k =
     (case ho of None \<Rightarrow> (-22, None)
      | Some h \<Rightarrow> (case rte_hash_del_key d h k of (r, h') \<Rightarrow> (r, Some h')))"

definition hash_size :: "'h dpdk \<Rightarrow> 'h option \<Rightarrow> nat" where
  "hash_size d ho = (case ho of None \<Rightarrow> 0 | Some h \<Rightarrow> rte_hash_entries d h)"

lemma hash_lookup_bound: "rte_hash_ok d \<Longrightarrow> hash_lookup d ho k < int (hash_size d ho)"
  by (auto simp: hash_lookup_def hash_size_def rte_hash_lookup_bound split: option.splits)

lemma hash_lookup_inj:
  "rte_hash_ok d \<Longrightarrow> 0 \<le> hash_lookup d ho k \<Longrightarrow> hash_lookup d ho k = hash_lookup d ho k' \<Longrightarrow> k = k'"
  by (cases ho) (simp_all add: hash_lookup_def, metis rte_hash_lookup_inj)

lemma hash_addD:
  assumes "rte_hash_ok d" and "hash_add d ho k = (r, ho')"
  shows "hash_size d ho' = hash_size d ho"
    and "0 \<le> hash_lookup d ho k \<Longrightarrow> r = hash_lookup d ho k"
    and "0 \<le> r \<Longrightarrow> hash_lookup d ho' k = r"
    and "k' \<noteq> k \<Longrightarrow> hash_lookup d ho' k' = hash_lookup d ho k'"
    and "r < 0 \<Longrightarrow> hash_lookup d ho' k' = hash_lookup d ho k'"
  using assms
  by (auto simp: hash_add_def hash_lookup_def hash_size_def split: option.splits prod.splits
      intro: rte_hash_add_size rte_hash_add_present rte_hash_add_same rte_hash_add_other
        rte_hash_add_fail)

lemma hash_delD:
  assumes "rte_hash_ok d" and "hash_del d ho k = (r, ho')"
  shows "hash_size d ho' = hash_size d ho"
    and "0 \<le> hash_lookup d ho k \<Longrightarrow> r = hash_lookup d ho k"
    and "hash_lookup d ho' k < 0"
    and "k' \<noteq> k \<Longrightarrow> hash_lookup d ho' k' = hash_lookup d ho k'"
  using assms
  by (auto simp: hash_del_def hash_lookup_def hash_size_def split: option.splits prod.splits
      intro: rte_hash_del_size rte_hash_del_code rte_hash_del_same rte_hash_del_other)

section \<open>An instance that satisfies the contract\<close>

type_synonym slot_table = "u32 list option list"

definition slot_find :: "slot_table \<Rightarrow> u32 list option \<Rightarrow> nat option" where
  "slot_find h k = find (\<lambda>i. h ! i = k) [0..<length h]"

definition slot_lookup :: "slot_table \<Rightarrow> u32 list \<Rightarrow> int" where
  "slot_lookup h k = (case slot_find h (Some k) of None \<Rightarrow> -2 | Some i \<Rightarrow> int i)"

definition slot_add :: "slot_table \<Rightarrow> u32 list \<Rightarrow> int \<times> slot_table" where
  "slot_add h k =
     (case slot_find h (Some k) of
        Some i \<Rightarrow> (int i, h)
      | None \<Rightarrow> (case slot_find h None of None \<Rightarrow> (-28, h) | Some i \<Rightarrow> (int i, h[i := Some k])))"

definition slot_del :: "slot_table \<Rightarrow> u32 list \<Rightarrow> int \<times> slot_table" where
  "slot_del h k = (slot_lookup h k, map (\<lambda>s. if s = Some k then None else s) h)"

definition be_swap :: "nat \<Rightarrow> u64 \<Rightarrow> u64" where
  "be_swap n v = le_word (rev (le_bytes n v))"

definition slot_dpdk :: "slot_table dpdk" where
  "slot_dpdk =
     \<lparr>rte_hash_create = (\<lambda>ns n e. if n \<in> set ns then None else Some (replicate e None)),
      rte_hash_lookup = slot_lookup,
      rte_hash_add_key = slot_add,
      rte_hash_del_key = slot_del,
      rte_hash_entries = length,
      rte_pktmbuf_pool_create = (\<lambda>ns n. n \<notin> set ns),
      rte_cpu_to_be_16 = (\<lambda>v. ucast (be_swap 2 (ucast v))),
      rte_cpu_to_be_32 = (\<lambda>v. ucast (be_swap 4 (ucast v))),
      rte_cpu_to_be_64 = be_swap 8,
      rte_get_tsc_hz = 1000000,
      rte_lcore_id = 0\<rparr>"

lemma slot_dpdk_simps [simp]:
  "rte_hash_create slot_dpdk ns n e = (if n \<in> set ns then None else Some (replicate e None))"
  "rte_hash_lookup slot_dpdk = slot_lookup"
  "rte_hash_add_key slot_dpdk = slot_add"
  "rte_hash_del_key slot_dpdk = slot_del"
  "rte_hash_entries slot_dpdk = length"
  "rte_pktmbuf_pool_create slot_dpdk ns n \<longleftrightarrow> n \<notin> set ns"
  "rte_lcore_id slot_dpdk = 0" "rte_get_tsc_hz slot_dpdk = 1000000"
  by (simp_all add: slot_dpdk_def)

lemma slot_find_Some: "slot_find h k = Some i \<Longrightarrow> i < length h \<and> h ! i = k"
  by (auto simp: slot_find_def find_Some_iff)

lemma slot_find_least: "slot_find h k = Some i \<Longrightarrow> j < i \<Longrightarrow> h ! j \<noteq> k"
  by (auto simp: slot_find_def find_Some_iff)

lemma slot_find_None: "slot_find h k = None \<longleftrightarrow> k \<notin> set h"
  by (auto simp: slot_find_def find_None_iff in_set_conv_nth)

lemma slot_find_eq:
  assumes "length h' = length h" and "\<And>i. i < length h \<Longrightarrow> h' ! i = k \<longleftrightarrow> h ! i = k"
  shows "slot_find h' k = slot_find h k"
proof -
  have "find (\<lambda>i. h' ! i = k) [0..<length h] = find (\<lambda>i. h ! i = k) [0..<length h]"
    by (rule find_cong) (use assms in auto)
  with assms(1) show ?thesis by (simp add: slot_find_def)
qed

lemma slot_find_update_other:
  assumes "slot_find h None = Some i" and "k' \<noteq> k"
  shows "slot_find (h[i := Some k]) (Some k') = slot_find h (Some k')"
proof (rule slot_find_eq)
  have i: "i < length h" "h ! i = None" using assms(1) by (auto dest: slot_find_Some)
  show "(h[i := Some k] ! j = Some k') = (h ! j = Some k')" if "j < length h" for j
    using i assms(2) by (cases "j = i") auto
qed simp

lemma slot_find_update_same:
  assumes "slot_find h None = Some i" and "slot_find h (Some k) = None"
  shows "slot_find (h[i := Some k]) (Some k) = Some i"
proof -
  have i: "i < length h" using assms(1) by (auto dest: slot_find_Some)
  have k: "Some k \<notin> set h" using assms(2) by (simp add: slot_find_None)
  have only: "h[i := Some k] ! j = Some k \<longleftrightarrow> j = i" if "j < length h" for j
    using i k that by (metis nth_list_update_eq nth_list_update_neq nth_mem)
  have "Some k \<in> set (h[i := Some k])" using i by (simp add: set_update_memI)
  then obtain j where j: "slot_find (h[i := Some k]) (Some k) = Some j"
    using slot_find_None [of "h[i := Some k]" "Some k"] by (cases "slot_find (h[i := Some k]) (Some k)") auto
  with slot_find_Some [OF j] only show ?thesis by auto
qed

lemma slot_find_del_same: "slot_find (map (\<lambda>s. if s = Some k then None else s) h) (Some k) = None"
  by (auto simp: slot_find_None)

lemma slot_find_del_other:
  "k' \<noteq> k \<Longrightarrow> slot_find (map (\<lambda>s. if s = Some k then None else s) h) (Some k') = slot_find h (Some k')"
  by (rule slot_find_eq) auto

lemma slot_del_absent: "slot_find h (Some k) = None \<Longrightarrow> map (\<lambda>s. if s = Some k then None else s) h = h"
  by (rule map_idI) (auto simp: slot_find_None)

lemma slot_find_fresh: "slot_find (replicate e None) (Some k) = None"
  by (auto simp: slot_find_None)

lemma slot_find_inj: "slot_find h (Some k) = Some i \<Longrightarrow> slot_find h (Some k') = Some i \<Longrightarrow> k = k'"
  by (drule slot_find_Some, drule slot_find_Some) simp

lemma slot_add_spec:
  assumes "slot_add h k = (r, h')"
  shows "(if 0 \<le> r then slot_lookup h' k = r \<and> (\<forall>k'. k' \<noteq> k \<longrightarrow> slot_lookup h' k' = slot_lookup h k')
      else \<forall>k'. slot_lookup h' k' = slot_lookup h k') \<and> length h' = length h \<and>
    (0 \<le> slot_lookup h k \<longrightarrow> r = slot_lookup h k)"
proof (cases "slot_find h (Some k)")
  case (Some i)
  with assms show ?thesis by (auto simp: slot_add_def slot_lookup_def)
next
  case None
  note absent = this
  show ?thesis
  proof (cases "slot_find h None")
    case None
    with assms absent show ?thesis by (auto simp: slot_add_def slot_lookup_def)
  next
    case (Some i)
    with assms absent show ?thesis
      by (auto simp: slot_add_def slot_lookup_def slot_find_update_same slot_find_update_other)
  qed
qed

lemma slot_del_spec:
  assumes "slot_del h k = (r, h')"
  shows "(if 0 \<le> slot_lookup h k
      then r = slot_lookup h k \<and> slot_lookup h' k < 0 \<and>
           (\<forall>k'. k' \<noteq> k \<longrightarrow> slot_lookup h' k' = slot_lookup h k')
      else r < 0 \<and> (\<forall>k'. slot_lookup h' k' = slot_lookup h k')) \<and> length h' = length h"
proof -
  have other: "slot_lookup h' k' = slot_lookup h k'" if "k' \<noteq> k" for k'
    using assms that by (auto simp: slot_del_def slot_lookup_def slot_find_del_other)
  have same: "slot_lookup h' k < 0" and "r = slot_lookup h k" and "length h' = length h"
    using assms by (auto simp: slot_del_def slot_lookup_def slot_find_del_same)
  moreover have "h' = h" if "slot_lookup h k < 0"
    using assms that by (auto simp: slot_del_def slot_lookup_def slot_del_absent split: option.splits)
  ultimately show ?thesis using other by auto
qed

lemma slot_lookup_bound: "slot_lookup h k < int (length h)"
  by (auto simp: slot_lookup_def split: option.splits dest: slot_find_Some)

lemma slot_lookup_inj: "0 \<le> slot_lookup h k \<Longrightarrow> slot_lookup h k = slot_lookup h k' \<Longrightarrow> k = k'"
  by (auto simp: slot_lookup_def split: option.splits intro: slot_find_inj)

lemma slot_lookup_fresh: "slot_lookup (replicate e None) k < 0"
  by (simp add: slot_lookup_def slot_find_fresh)

lemma slot_hash_ok: "rte_hash_ok slot_dpdk"
proof -
  note [simp] = slot_dpdk_def
  have create: "\<forall>ns n e h. rte_hash_create slot_dpdk ns n e = Some h \<longrightarrow>
      n \<notin> set ns \<and> rte_hash_entries slot_dpdk h = e \<and> (\<forall>k. rte_hash_lookup slot_dpdk h k < 0)"
    using slot_lookup_fresh by auto
  show ?thesis
    unfolding rte_hash_ok_def
    by (intro conjI create) (auto simp: slot_lookup_bound dest: slot_lookup_inj slot_add_spec slot_del_spec)
qed

lemma be_swap_bytes: "n \<le> 8 \<Longrightarrow> le_bytes n (be_swap n v) = rev (le_bytes n v)"
  using le_bytes_le_word [of "rev (le_bytes n v)"] by (simp add: be_swap_def)

lemma le_bytes_take_bit: "m \<le> 8 * n \<Longrightarrow> 8 * n \<le> m \<Longrightarrow> le_bytes n (take_bit m v) = le_bytes n v"
  by (rule nth_equalityI) (auto intro!: bit_word_eqI simp: bit_simps)

lemma slot_cpu_to_be_ok: "cpu_to_be_ok slot_dpdk"
proof -
  have "ucast (ucast w :: u16) = take_bit 16 w" and "ucast (ucast w :: u32) = take_bit 32 w" for w :: u64
    by (auto intro!: bit_word_eqI simp: bit_simps)
  then show ?thesis
    by (simp add: cpu_to_be_ok_def slot_dpdk_def le_bytes_take_bit be_swap_bytes)
qed

end
