(* ===== verification/Actions.thy ===== *)
theory Actions
  imports Conditions Dpdk
begin

text \<open>
  SW-FB/xfsm.c, \<open>update\<close> and \<open>xfsm_execute_actions\<close>: the action list of a matched table
  entry, run on the packet memory, the table, the flow instance and the transmit queue. The
  operand variables \<open>reg1\<close>, \<open>reg2\<close>, \<open>reg3\<close> are declared outside the loop, so an action whose
  operand cannot be fetched sees the value an earlier action left; they are part of the
  state the loop threads.
\<close>

section \<open>The update action\<close>

text \<open>C division and remainder truncate towards zero; \<open>INT64_MIN / -1\<close> overflows.\<close>

definition update_result :: "u64 \<Rightarrow> u64 \<Rightarrow> xfsm_opcodes \<Rightarrow> u64 res" where
  "update_result reg1 reg2 opcode =
     (case opcode of
        XFSM_SUM \<Rightarrow> s64 (sint reg1 + sint reg2)
      | XFSM_MINUS \<Rightarrow> s64 (sint reg1 - sint reg2)
      | XFSM_MULTIPLY \<Rightarrow> s64 (sint reg1 * sint reg2)
      | XFSM_DIVIDE \<Rightarrow> if reg2 = 0 then Inr reg1 else s64 (sint reg1 sdiv sint reg2)
      | XFSM_MODULO \<Rightarrow>
          if reg2 = 0 then Inl (UB DivZero)
          else res_bind (s64 (sint reg1 sdiv sint reg2)) (\<lambda>_. s64 (sint reg1 smod sint reg2))
      | XFSM_MAX \<Rightarrow> Inr (if sint reg1 > sint reg2 then reg1 else reg2)
      | XFSM_MIN \<Rightarrow> Inr (if sint reg1 < sint reg2 then reg1 else reg2))"

text \<open>The registers and the global registers after the update.\<close>

definition update ::
  "u64 \<Rightarrow> u64 \<Rightarrow> xfsm_opcodes \<Rightarrow> u8 \<Rightarrow> xfsm_value_type \<Rightarrow> u64 list \<Rightarrow> u64 list \<Rightarrow>
     (u64 list \<times> u64 list) res" where
  "update reg1 reg2 opcode output out_type xfsm_regs global_regs =
     res_bind (update_result reg1 reg2 opcode)
       (\<lambda>result.
          if out_type = XFSM_REGISTER
          then res_bind (wr xfsm_regs (unat output) result) (\<lambda>rs. Inr (rs, global_regs))
          else res_bind (wr global_regs (unat output) result) (\<lambda>gs. Inr (xfsm_regs, gs)))"

section \<open>The action loop\<close>

text \<open>
  A call of \<open>rte_eth_tx_buffer\<close>: the port, the index of the transmit buffer and the packet.
\<close>

record tx_event =
  tx_port :: u16
  tx_index :: int
  tx_pkt :: "nat option"

record 'h exec =
  x_mem :: pktmem
  x_tbl :: "'h xfsm_table"
  x_inst :: xfsm_instance
  x_tx :: "tx_event list"
  x_reg1 :: u64
  x_reg2 :: u64
  x_reg3 :: u64

definition fetch_operands :: "xfsm_action \<Rightarrow> 'h exec \<Rightarrow> 'h exec res" where
  "fetch_operands act s =
     (let get = operand_value (x_mem s) (x_tbl s) (x_inst s) in
      res_bind (if a_type1 act = XFSM_HDR_FIELD \<and> a_type act = XFSM_SETFIELD
                then Inr (a_value1 act) else get (a_type1 act) (a_value1 act) (x_reg1 s))
        (\<lambda>r1. res_bind (get (a_type2 act) (a_value2 act) (x_reg2 s))
          (\<lambda>r2. res_bind (get (a_type3 act) (a_value3 act) (x_reg3 s))
            (\<lambda>r3. Inr (s\<lparr>x_reg1 := r1, x_reg2 := r2, x_reg3 := r3\<rparr>)))))"

definition do_update :: "xfsm_action \<Rightarrow> 'h exec \<Rightarrow> 'h exec res" where
  "do_update act s =
     res_bind (update (x_reg1 s) (x_reg2 s) (a_opcode act) (a_output act) (a_out_type act)
                 (registers (x_inst s)) (global_registers (x_tbl s)))
       (\<lambda>(rs, gs). Inr (s\<lparr>x_inst := (x_inst s)\<lparr>registers := rs\<rparr>,
                          x_tbl := (x_tbl s)\<lparr>global_registers := gs\<rparr>\<rparr>))"

text \<open>The operand is not fetched: the port is the \<open>value2\<close> member itself; port 0 is no port.\<close>

definition do_sendpkt :: "xfsm_action \<Rightarrow> 'h exec \<Rightarrow> 'h exec res" where
  "do_sendpkt act s =
     (let reg2 = a_value2 act; s' = s\<lparr>x_reg2 := reg2\<rparr> in
      if reg2 = 0 then Inr s'
      else res_bind (s64 (sint reg2 - 1))
             (\<lambda>port. Inr (s'\<lparr>x_tx := x_tx s @ [\<lparr>tx_port = ucast port, tx_index = sint port,
                                               tx_pkt = curr_pkt (x_tbl s)\<rparr>]\<rparr>)))"

text \<open>The bytes in memory of the 64-bit variable the value is copied from.\<close>

definition setfield_value :: "'h dpdk \<Rightarrow> nat \<Rightarrow> u64 \<Rightarrow> u64" where
  "setfield_value d len value =
     (if len = 6 then rte_cpu_to_be_64 d (push_bit 16 value)
      else if len = 4 then ucast (rte_cpu_to_be_32 d (ucast value))
      else if len = 2 then ucast (rte_cpu_to_be_16 d (ucast value))
      else value)"

definition do_setfield :: "'h dpdk \<Rightarrow> 'h exec \<Rightarrow> 'h exec res" where
  "do_setfield d s =
     res_bind (rd (pkt_fields (x_tbl s)) (unat (x_reg1 s)))
       (\<lambda>f. let len = hf_len (field f); value = setfield_value d len (x_reg3 s) in
          case fvalue f of
            None \<Rightarrow> Inr s
          | Some q \<Rightarrow>
              res_bind (store_bytes (x_mem s) (in_port (x_tbl s)) q (le_bytes len value))
                (\<lambda>(mem, port). Inr (s\<lparr>x_mem := mem, x_tbl := (x_tbl s)\<lparr>in_port := port\<rparr>\<rparr>)))"

definition do_destroy :: "'h exec \<Rightarrow> 'h exec res" where
  "do_destroy s = Inr (s\<lparr>x_inst := (x_inst s)\<lparr>destroy := True\<rparr>\<rparr>)"

definition execute_action :: "'h dpdk \<Rightarrow> xfsm_action \<Rightarrow> 'h exec \<Rightarrow> 'h exec res" where
  "execute_action d act s =
     res_bind (fetch_operands act s)
       (\<lambda>s. case a_type act of
              XFSM_UPDATE \<Rightarrow> do_update act s
            | XFSM_SENDPKT \<Rightarrow> do_sendpkt act s
            | XFSM_SETFIELD \<Rightarrow> do_setfield d s
            | XFSM_DESTROY \<Rightarrow> do_destroy s)"

definition action_step :: "'h dpdk \<Rightarrow> xfsm_table_entry \<Rightarrow> nat \<Rightarrow> 'h exec \<Rightarrow> 'h exec res" where
  "action_step d m i s = res_bind (rd (e_actions m) i) (\<lambda>act. execute_action d act s)"

definition xfsm_execute_actions :: "'h dpdk \<Rightarrow> xfsm_table_entry \<Rightarrow> 'h exec \<Rightarrow> 'h exec res" where
  "xfsm_execute_actions d m s =
     run_steps (action_step d m) [0..<unat (nb_actions m)] (s\<lparr>x_reg1 := 0, x_reg2 := 0, x_reg3 := 0\<rparr>)"

section \<open>Arithmetic\<close>

text \<open>What each opcode computes on mathematical integers, and where C defines it.\<close>

definition exact_result :: "int \<Rightarrow> int \<Rightarrow> xfsm_opcodes \<Rightarrow> int" where
  "exact_result a b opcode =
     (case opcode of
        XFSM_SUM \<Rightarrow> a + b | XFSM_MINUS \<Rightarrow> a - b | XFSM_MULTIPLY \<Rightarrow> a * b
      | XFSM_DIVIDE \<Rightarrow> if b = 0 then a else a sdiv b
      | XFSM_MODULO \<Rightarrow> a smod b
      | XFSM_MAX \<Rightarrow> max a b | XFSM_MIN \<Rightarrow> min a b)"

definition update_defined :: "int \<Rightarrow> int \<Rightarrow> xfsm_opcodes \<Rightarrow> bool" where
  "update_defined a b opcode \<longleftrightarrow>
     (case opcode of
        XFSM_DIVIDE \<Rightarrow> \<not> (a = - (2 ^ 63) \<and> b = -1)
      | XFSM_MODULO \<Rightarrow> b \<noteq> 0 \<and> \<not> (a = - (2 ^ 63) \<and> b = -1)
      | XFSM_MAX \<Rightarrow> True | XFSM_MIN \<Rightarrow> True
      | _ \<Rightarrow> fits64 (exact_result a b opcode))"

lemma abs_div_le: "b \<noteq> 0 \<Longrightarrow> \<bar>a\<bar> div \<bar>b\<bar> \<le> \<bar>a :: int\<bar>"
  using zdiv_mono2 [of "\<bar>a\<bar>" 1 "\<bar>b\<bar>"] by simp

lemma fits64_sdiv:
  assumes "fits64 a" and "b \<noteq> 0"
  shows "fits64 (a sdiv b) \<longleftrightarrow> \<not> (a = - (2 ^ 63) \<and> b = -1)"
proof (cases "a = - (2 ^ 63)")
  case True
  show ?thesis
  proof (cases "b = -1 \<or> b = 1")
    case True
    with \<open>a = - (2 ^ 63)\<close> show ?thesis by (auto simp: fits64_def signed_divide_int_def)
  next
    case False
    then have "2 \<le> \<bar>b\<bar>" using assms(2) by linarith
    then have "\<bar>a\<bar> div \<bar>b\<bar> \<le> \<bar>a\<bar> div 2" by (intro zdiv_mono2) auto
    also have "\<dots> = 2 ^ 62" using \<open>a = - (2 ^ 63)\<close> by simp
    finally have "\<bar>a\<bar> div \<bar>b\<bar> \<le> 2 ^ 62" .
    moreover have "0 \<le> \<bar>a\<bar> div \<bar>b\<bar>" by (simp add: pos_imp_zdiv_nonneg_iff assms(2))
    ultimately show ?thesis using False
      by (auto simp: fits64_def signed_divide_int_def sgn_if)
  qed
next
  case False
  with assms(1) have "\<bar>a\<bar> < 2 ^ 63" by (auto simp: fits64_def)
  with abs_div_le [OF assms(2), of a] have "\<bar>a\<bar> div \<bar>b\<bar> < 2 ^ 63" by linarith
  moreover have "0 \<le> \<bar>a\<bar> div \<bar>b\<bar>" by (simp add: pos_imp_zdiv_nonneg_iff assms(2))
  ultimately show ?thesis using False
    by (auto simp: fits64_def signed_divide_int_def sgn_if)
qed

lemma fits64_smod:
  assumes "fits64 b" and "b \<noteq> 0"
  shows "fits64 (a smod b)"
proof -
  have "\<bar>a smod b\<bar> < \<bar>b\<bar>"
    using assms(2) by (simp add: signed_modulo_int_def abs_mult sgn_if)
  with assms(1) show ?thesis by (auto simp: fits64_def)
qed

lemma s64_defined: "fits64 k \<Longrightarrow> \<exists>w. s64 k = Inr w \<and> sint w = k"
  by (simp add: s64_def sint_word_of_int_fits)

lemma s64_overflow: "\<not> fits64 k \<Longrightarrow> s64 k = Inl (UB SignedOvf)"
  by (simp add: s64_def)

lemma update_result_exact:
  "if update_defined (sint a) (sint b) opc
   then \<exists>w. update_result a b opc = Inr w \<and> sint w = exact_result (sint a) (sint b) opc
   else update_result a b opc = Inl (UB (if opc = XFSM_MODULO \<and> b = 0 then DivZero else SignedOvf))"
proof -
  note defs = update_result_def update_defined_def exact_result_def
  have b: "sint b = 0 \<longleftrightarrow> b = 0" by (simp add: signed_eq_0_iff)
  show ?thesis
  proof (cases opc)
    case XFSM_DIVIDE
    with b fits64_sdiv [OF fits64_sint, of "sint b" a] show ?thesis
      by (auto simp: defs s64_overflow dest: s64_defined)
  next
    case XFSM_MODULO
    show ?thesis
    proof (cases "b = 0")
      case False
      then have "sint b \<noteq> 0" by (simp add: b)
      with XFSM_MODULO False fits64_sdiv [OF fits64_sint this, of a]
        fits64_smod [OF fits64_sint this, of "sint a"]
      show ?thesis
        using s64_defined [of "sint a sdiv sint b"] s64_defined [of "sint a smod sint b"]
        by (auto simp: defs s64_overflow)
    qed (simp add: defs XFSM_MODULO)
  qed (auto simp: defs s64_overflow max_def min_def dest: s64_defined)
qed

lemma update_result_returns: "returns_or {UB SignedOvf, UB DivZero} (update_result a b opc)"
  using update_result_exact [of a b opc] by (auto split: if_splits)

section \<open>What an action list can change\<close>

text \<open>
  The frame: everything but the registers and the \<open>destroy\<close> flag of the instance, the
  global registers and the \<open>in_port\<close> byte of the table, the bytes of packet memory and the
  tail of the transmit queue.
\<close>

definition inst_core :: "xfsm_instance \<Rightarrow> xfsm_instance" where
  "inst_core inst = inst\<lparr>registers := [], destroy := False\<rparr>"

definition tbl_core :: "'h xfsm_table \<Rightarrow> 'h xfsm_table" where
  "tbl_core t = t\<lparr>global_registers := [], in_port := 0\<rparr>"

lemma inst_core_update [simp]:
  "inst_core (inst\<lparr>registers := rs\<rparr>) = inst_core inst"
  "inst_core (inst\<lparr>destroy := ds\<rparr>) = inst_core inst"
  by (simp_all add: inst_core_def)

lemma tbl_core_update [simp]:
  "tbl_core (t\<lparr>global_registers := gs\<rparr>) = tbl_core t"
  "tbl_core (t\<lparr>in_port := ip\<rparr>) = tbl_core t"
  by (simp_all add: tbl_core_def)

lemma inst_coreD:
  assumes "inst_core a = inst_core b"
  shows "current_state a = current_state b" and "results a = results b"
    and "i_flow_key a = i_flow_key b" and "i_dbg_regs a = i_dbg_regs b" and "inst_id a = inst_id b"
  using assms by (cases a; cases b; simp add: inst_core_def)+

lemma tbl_coreD:
  assumes "tbl_core a = tbl_core b"
  shows "pkt_fields a = pkt_fields b" and "curr_pkt a = curr_pkt b"
    and "a\<lparr>global_registers := global_registers b, in_port := in_port b\<rparr> = b"
  using assms by (cases a; cases b; simp add: tbl_core_def)+

definition exec_frame :: "'h exec \<Rightarrow> 'h exec \<Rightarrow> bool" where
  "exec_frame s s' \<longleftrightarrow>
     inst_core (x_inst s') = inst_core (x_inst s) \<and> tbl_core (x_tbl s') = tbl_core (x_tbl s) \<and>
     same_shape (x_mem s) (x_mem s') \<and> (\<exists>tx. x_tx s' = x_tx s @ tx)"

definition wf_exec :: "'h exec \<Rightarrow> bool" where
  "wf_exec s \<longleftrightarrow>
     wf_instance (x_inst s) \<and> wf_fields (pkt_fields (x_tbl s)) \<and>
     length (global_registers (x_tbl s)) = NUM_GLOBAL_REGISTERS"

definition exec_inv :: "'h exec \<Rightarrow> 'h exec \<Rightarrow> bool" where
  "exec_inv s0 s \<longleftrightarrow> wf_exec s \<and> exec_frame s0 s"

lemma exec_frame_refl [simp]: "exec_frame s s"
  by (simp add: exec_frame_def)

lemma exec_frame_trans: "exec_frame a b \<Longrightarrow> exec_frame b c \<Longrightarrow> exec_frame a c"
  unfolding exec_frame_def by (auto dest: same_shape_trans)

lemma exec_frame_regs [simp]:
  "exec_frame s0 (s\<lparr>x_reg1 := a\<rparr>) = exec_frame s0 s"
  "exec_frame s0 (s\<lparr>x_reg2 := a\<rparr>) = exec_frame s0 s"
  "exec_frame s0 (s\<lparr>x_reg3 := a\<rparr>) = exec_frame s0 s"
  by (simp_all add: exec_frame_def)

lemma wf_exec_regs [simp]:
  "wf_exec (s\<lparr>x_reg1 := a\<rparr>) = wf_exec s" "wf_exec (s\<lparr>x_reg2 := a\<rparr>) = wf_exec s"
  "wf_exec (s\<lparr>x_reg3 := a\<rparr>) = wf_exec s"
  by (simp_all add: wf_exec_def)

lemma exec_inv_regs [simp]:
  "exec_inv s0 (s\<lparr>x_reg1 := a\<rparr>) = exec_inv s0 s" "exec_inv s0 (s\<lparr>x_reg2 := a\<rparr>) = exec_inv s0 s"
  "exec_inv s0 (s\<lparr>x_reg3 := a\<rparr>) = exec_inv s0 s"
  by (simp_all add: exec_inv_def)

lemma fetch_operands_Inr:
  "fetch_operands act s = Inr s' \<Longrightarrow>
     \<exists>r1 r2 r3. s' = s\<lparr>x_reg1 := r1, x_reg2 := r2, x_reg3 := r3\<rparr> \<and>
       (a_type act = XFSM_SETFIELD \<and> a_type1 act = XFSM_HDR_FIELD \<longrightarrow> r1 = a_value1 act)"
  by (auto simp: fetch_operands_def Let_def res_bind_Inr_iff split: if_splits)

lemma do_update_inv: "do_update act s = Inr s' \<Longrightarrow> exec_inv s0 s \<Longrightarrow> exec_inv s0 s'"
  by (auto simp: do_update_def update_def exec_inv_def exec_frame_def wf_exec_def wf_instance_def
      res_bind_Inr_iff access_iff split: if_splits)

lemma do_sendpkt_inv: "do_sendpkt act s = Inr s' \<Longrightarrow> exec_inv s0 s \<Longrightarrow> exec_inv s0 s'"
  by (auto simp: do_sendpkt_def Let_def exec_inv_def exec_frame_def wf_exec_def res_bind_Inr_iff
      split: if_splits)

lemma do_setfield_Inr:
  assumes "do_setfield d s = Inr s'"
  obtains "s' = s"
  | q vs mem port where "s' = s\<lparr>x_mem := mem, x_tbl := (x_tbl s)\<lparr>in_port := port\<rparr>\<rparr>"
      and "store_bytes (x_mem s) (in_port (x_tbl s)) q vs = Inr (mem, port)"
  using assms by (auto simp: do_setfield_def Let_def res_bind_Inr_iff split: option.splits)

lemma do_setfield_inv:
  assumes "do_setfield d s = Inr s'" and "exec_inv s0 s"
  shows "exec_inv s0 s'"
  using assms(1)
proof (rule do_setfield_Inr)
  fix q vs mem port
  assume *: "s' = s\<lparr>x_mem := mem, x_tbl := (x_tbl s)\<lparr>in_port := port\<rparr>\<rparr>"
    "store_bytes (x_mem s) (in_port (x_tbl s)) q vs = Inr (mem, port)"
  have "same_shape (x_mem s) mem" by (rule store_bytes_shape) (rule *(2))
  with * assms(2) show ?thesis
    by (auto simp: exec_inv_def exec_frame_def wf_exec_def dest: same_shape_trans)
qed (use assms(2) in simp)

lemma do_destroy_inv: "do_destroy s = Inr s' \<Longrightarrow> exec_inv s0 s \<Longrightarrow> exec_inv s0 s'"
  by (auto simp: do_destroy_def exec_inv_def exec_frame_def wf_exec_def wf_instance_def)

lemma execute_action_inv:
  assumes "execute_action d act s = Inr s'" and "exec_inv s0 s"
  shows "exec_inv s0 s'"
proof -
  from assms(1) obtain t where t: "fetch_operands act s = Inr t"
    and u: "(case a_type act of XFSM_UPDATE \<Rightarrow> do_update act t | XFSM_SENDPKT \<Rightarrow> do_sendpkt act t
       | XFSM_SETFIELD \<Rightarrow> do_setfield d t | XFSM_DESTROY \<Rightarrow> do_destroy t) = Inr s'"
    by (auto simp: execute_action_def)
  from fetch_operands_Inr [OF t] assms(2) have "exec_inv s0 t" by auto
  with u show ?thesis
    by (cases "a_type act") (auto intro: do_update_inv do_sendpkt_inv do_setfield_inv do_destroy_inv)
qed

section \<open>Which actions are safe\<close>

text \<open>
  An action whose operands, output register and target field exist. The only faults it can
  end in are those of the arithmetic.
\<close>

definition action_ok :: "pktmem \<Rightarrow> 'h xfsm_table \<Rightarrow> xfsm_instance \<Rightarrow> xfsm_action \<Rightarrow> bool" where
  "action_ok mem tbl inst act \<longleftrightarrow>
     (if a_type act = XFSM_SETFIELD
      then a_type1 act = XFSM_HDR_FIELD \<and>
        (\<exists>h. unat (a_value1 act) = hdr_index h \<and>
           (\<forall>q. field_ptr (pkt_fields tbl) h = Some q \<longrightarrow> readable mem q (field_len h)))
      else operand_ok mem tbl inst (a_type1 act) (a_value1 act)) \<and>
     operand_ok mem tbl inst (a_type2 act) (a_value2 act) \<and>
     operand_ok mem tbl inst (a_type3 act) (a_value3 act) \<and>
     (a_type act = XFSM_UPDATE \<longrightarrow> unat (a_output act) < 32)"

abbreviation arith_faults :: "fault set" where
  "arith_faults \<equiv> {UB SignedOvf, UB DivZero}"

lemma exec_inv_pkt_fields: "exec_inv s0 s \<Longrightarrow> pkt_fields (x_tbl s) = pkt_fields (x_tbl s0)"
  by (auto simp: exec_inv_def exec_frame_def dest: tbl_coreD(1))

lemma exec_inv_shape: "exec_inv s0 s \<Longrightarrow> same_shape (x_mem s0) (x_mem s)"
  by (simp add: exec_inv_def exec_frame_def)

lemma operand_ok_frame:
  assumes "exec_inv s0 s" and "wf_exec s0" and "operand_ok (x_mem s0) (x_tbl s0) (x_inst s0) ty v"
  shows "operand_ok (x_mem s) (x_tbl s) (x_inst s) ty v"
proof -
  have "wf_exec s" using assms(1) by (simp add: exec_inv_def)
  moreover have "readable (x_mem s) q n" if "readable (x_mem s0) q n" for q n
    using exec_inv_shape [OF assms(1)] that by (rule readable_shape)
  moreover have "pkt_fields (x_tbl s) = pkt_fields (x_tbl s0)"
    by (rule exec_inv_pkt_fields) (rule assms(1))
  ultimately show ?thesis
    using assms(2,3)
    by (cases ty) (simp_all add: operand_ok_def wf_exec_def wf_instance_def, metis)
qed

lemma action_ok_frame:
  assumes "exec_inv s0 s" and "wf_exec s0" and ok: "action_ok (x_mem s0) (x_tbl s0) (x_inst s0) act"
  shows "action_ok (x_mem s) (x_tbl s) (x_inst s) act"
proof -
  note frame = operand_ok_frame [OF assms(1,2)]
  have "\<exists>h. unat (a_value1 act) = hdr_index h \<and>
      (\<forall>q. field_ptr (pkt_fields (x_tbl s)) h = Some q \<longrightarrow> readable (x_mem s) q (field_len h))"
    if "a_type act = XFSM_SETFIELD"
  proof -
    from ok that obtain h where "unat (a_value1 act) = hdr_index h"
      "\<forall>q. field_ptr (pkt_fields (x_tbl s0)) h = Some q \<longrightarrow> readable (x_mem s0) q (field_len h)"
      by (auto simp: action_ok_def)
    then show ?thesis
      using exec_inv_pkt_fields [OF assms(1)] readable_shape [OF exec_inv_shape [OF assms(1)]] by auto
  qed
  with ok frame show ?thesis by (simp add: action_ok_def split: if_splits)
qed

lemma do_update_returns:
  "wf_exec s \<Longrightarrow> unat (a_output act) < 32 \<Longrightarrow> returns_or arith_faults (do_update act s)"
  unfolding do_update_def update_def
  by (auto intro!: returns_or_bind update_result_returns
      simp: wf_exec_def wf_instance_def split: prod.splits)

lemma do_sendpkt_returns: "returns_or arith_faults (do_sendpkt act s)"
  by (auto simp: do_sendpkt_def Let_def s64_def)

lemma do_setfield_returns:
  assumes "wf_exec s" and "unat (x_reg1 s) = hdr_index h"
    and "\<And>q. field_ptr (pkt_fields (x_tbl s)) h = Some q \<Longrightarrow> readable (x_mem s) q (field_len h)"
  shows "\<exists>s'. do_setfield d s = Inr s'"
proof -
  let ?f = "pkt_fields (x_tbl s) ! hdr_index h"
  from assms(1,2) have f: "rd (pkt_fields (x_tbl s)) (unat (x_reg1 s)) = Inr ?f"
    and len: "hf_len (field ?f) = field_len h"
    by (simp_all add: wf_exec_def wf_fields_nth field_len_def)
  show ?thesis
  proof (cases "fvalue ?f")
    case None
    with f show ?thesis by (simp add: do_setfield_def)
  next
    case (Some q)
    with assms(3) have "readable (x_mem s) q (length (le_bytes (field_len h) v))" for v
      by (simp add: field_ptr_def)
    then have "\<exists>mp. store_bytes (x_mem s) (in_port (x_tbl s)) q (le_bytes (field_len h) v) = Inr mp" for v
      by (rule readable_store [THEN iffD1])
    then show ?thesis
      using f len Some by (fastforce simp: do_setfield_def Let_def res_bind_Inr_iff)
  qed
qed

lemma fetch_operands_returns:
  assumes "wf_exec s" and "action_ok (x_mem s) (x_tbl s) (x_inst s) act"
  shows "\<exists>s'. fetch_operands act s = Inr s'"
proof -
  have get: "\<exists>x. operand_value (x_mem s) (x_tbl s) (x_inst s) ty v r = Inr x"
    if "operand_ok (x_mem s) (x_tbl s) (x_inst s) ty v" for ty v r
    using assms(1) that by (intro operand_value_ok) (simp_all add: wf_exec_def)
  have "\<exists>x. (if a_type1 act = XFSM_HDR_FIELD \<and> a_type act = XFSM_SETFIELD then Inr (a_value1 act)
      else operand_value (x_mem s) (x_tbl s) (x_inst s) (a_type1 act) (a_value1 act) (x_reg1 s)) = Inr x"
    using assms(2) get [of "a_type1 act" "a_value1 act"] by (auto simp: action_ok_def split: if_splits)
  moreover obtain r2 r3 where
    "operand_value (x_mem s) (x_tbl s) (x_inst s) (a_type2 act) (a_value2 act) (x_reg2 s) = Inr r2"
    "operand_value (x_mem s) (x_tbl s) (x_inst s) (a_type3 act) (a_value3 act) (x_reg3 s) = Inr r3"
    using assms(2) get unfolding action_ok_def by meson
  ultimately show ?thesis by (auto simp: fetch_operands_def Let_def)
qed

lemma execute_action_returns:
  assumes "wf_exec s" and ok: "action_ok (x_mem s) (x_tbl s) (x_inst s) act"
  shows "returns_or arith_faults (execute_action d act s)"
proof -
  from fetch_operands_returns [OF assms] obtain t where t: "fetch_operands act s = Inr t" by blast
  from fetch_operands_Inr [OF t] obtain r1 r2 r3 where
    t': "t = s\<lparr>x_reg1 := r1, x_reg2 := r2, x_reg3 := r3\<rparr>"
    "a_type act = XFSM_SETFIELD \<and> a_type1 act = XFSM_HDR_FIELD \<longrightarrow> r1 = a_value1 act" by blast
  have wf: "wf_exec t" using assms(1) t'(1) by simp
  show ?thesis
  proof (cases "a_type act")
    case XFSM_SETFIELD
    with ok obtain h where "unat (a_value1 act) = hdr_index h" "a_type1 act = XFSM_HDR_FIELD"
      "\<And>q. field_ptr (pkt_fields (x_tbl s)) h = Some q \<Longrightarrow> readable (x_mem s) q (field_len h)"
      by (auto simp: action_ok_def)
    with t' XFSM_SETFIELD have "\<exists>s'. do_setfield d t = Inr s'"
      by (intro do_setfield_returns [OF wf, of h]) simp_all
    with t XFSM_SETFIELD show ?thesis by (auto simp: execute_action_def)
  qed (use t t' wf ok do_update_returns [OF wf, of act] in
      \<open>simp_all add: execute_action_def action_ok_def do_sendpkt_returns do_destroy_def\<close>)
qed

definition actions_ok :: "'h exec \<Rightarrow> xfsm_table_entry \<Rightarrow> nat \<Rightarrow> bool" where
  "actions_ok s m i \<longleftrightarrow> i < length (e_actions m) \<and>
     action_ok (x_mem s) (x_tbl s) (x_inst s) (e_actions m ! i)"

text \<open>The loop is an instance of the two stepping interfaces, for every start state.\<close>

lemma action_step_inv: "exec_inv s0 s \<Longrightarrow> action_step d m i s = Inr s' \<Longrightarrow> exec_inv s0 s'"
  by (auto simp: action_step_def intro: execute_action_inv)

interpretation action_keep: step_invariant "action_step d m" "exec_inv s0" for d m s0
  by unfold_locales (rule action_step_inv)

interpretation action_run: step_progress "action_step d m"
  "\<lambda>s. wf_exec s0 \<and> exec_inv s0 s" "actions_ok s0 m" arith_faults for d m s0
proof unfold_locales
  fix s i
  assume s: "wf_exec s0 \<and> exec_inv s0 s" and i: "actions_ok s0 m i"
  then have "action_ok (x_mem s) (x_tbl s) (x_inst s) (e_actions m ! i)"
    using action_ok_frame [of s0 s] by (simp add: actions_ok_def)
  moreover from s have "wf_exec s" by (simp add: exec_inv_def)
  ultimately show "returns_or arith_faults (action_step d m i s)"
    using i by (simp add: action_step_def actions_ok_def execute_action_returns)
next
  fix s i s'
  assume "wf_exec s0 \<and> exec_inv s0 s" and "action_step d m i s = Inr s'"
  then show "wf_exec s0 \<and> exec_inv s0 s'" using action_step_inv by blast
qed

section \<open>Properties\<close>

text \<open>
  C22: The update action computes the exact integer result. With an output register that
  exists, it returns exactly where C defines the operation, storing the one 64-bit value
  whose signed reading is the mathematical sum, difference, product, truncated quotient (the
  dividend, for a zero divisor), remainder, maximum or minimum, in the register file the
  output type names. Elsewhere it is undefined: a remainder by zero, which the code does not
  check, and signed overflow.
\<close>

theorem update_exact:
  assumes "unat output < length rs" and "unat output < length gs"
  shows "if update_defined (sint reg1) (sint reg2) opcode
     then \<exists>w. sint w = exact_result (sint reg1) (sint reg2) opcode \<and>
        update reg1 reg2 opcode output out_type rs gs =
          Inr (if out_type = XFSM_REGISTER then (rs[unat output := w], gs)
               else (rs, gs[unat output := w]))
     else update reg1 reg2 opcode output out_type rs gs =
        Inl (UB (if opcode = XFSM_MODULO \<and> reg2 = 0 then DivZero else SignedOvf))"
  using update_result_exact [of reg1 reg2 opcode] assms
  by (auto simp: update_def split: if_split_asm)

theorem update_exact_witness:
  "\<exists>w. sint w = -3 \<and>
     update (word_of_int (- 7)) 2 XFSM_DIVIDE 1 XFSM_REGISTER [0, 0] [0, 0] = Inr ([0, w], [0, 0])"
proof -
  have "sint (word_of_int (- 7) :: u64) = -7" "sint (2 :: u64) = 2"
    by (simp_all add: sint_word_of_int_fits fits64_def)
  then show ?thesis
    using update_exact [of 1 "[0, 0]" "[0, 0]" "word_of_int (- 7)" 2 XFSM_DIVIDE XFSM_REGISTER]
    by (simp add: update_defined_def exact_result_def signed_divide_int_def)
qed


text \<open>Registers 0 and 1 count: register 0 plus one, then a copy of the sum to port 2.\<close>

definition demo_action :: xfsm_action where
  "demo_action =
     \<lparr>a_type = XFSM_UPDATE, a_opcode = XFSM_SUM, a_type1 = XFSM_REGISTER, a_value1 = 0,
      a_type2 = XFSM_CONSTANT, a_value2 = 1, a_type3 = XFSM_CONSTANT, a_value3 = 0,
      a_output = 0, a_out_type = XFSM_REGISTER\<rparr>"

definition demo_entry :: xfsm_table_entry where
  "demo_entry =
     \<lparr>e_current_state = 0, e_next_state = 0, e_next_stage = NULL_STAGE,
      e_results = replicate MAX_CONDITIONS XFSM_DONT_CARE,
      e_actions = [demo_action, demo_action\<lparr>a_type := XFSM_SENDPKT, a_value2 := 3\<rparr>]
        @ replicate 30 demo_action,
      nb_actions = 2, e_priority = 0, idle_timeout = 0, hard_timeout = 0\<rparr>"

definition demo_exec :: "pktmem \<Rightarrow> xfsm_fields_tlv list \<Rightarrow> 'h exec" where
  "demo_exec mem fs =
     \<lparr>x_mem = mem, x_tbl = zero_table\<lparr>pkt_fields := fs, curr_pkt := Some 1\<rparr>,
      x_inst = zero_instance, x_tx = [], x_reg1 = 0, x_reg2 = 0, x_reg3 = 0\<rparr>"

lemma wf_demo_exec [simp]: "wf_fields fs \<Longrightarrow> wf_exec (demo_exec mem fs)"
  by (simp add: wf_exec_def demo_exec_def zero_table_def)


lemma le_bytes_push_bit: "8 * k + 8 * n \<le> 64 \<Longrightarrow> drop k (le_bytes (k + n) (push_bit (8 * k) v)) = le_bytes n v"
proof (rule nth_equalityI)
  fix i
  assume "8 * k + 8 * n \<le> 64" and "i < length (drop k (le_bytes (k + n) (push_bit (8 * k) v)))"
  then have i: "i < n" "8 * k + 8 * n \<le> 64" by simp_all
  have "ucast (drop_bit (8 * (k + i)) (push_bit (8 * k) v)) = (ucast (drop_bit (8 * i) v) :: u8)"
    using i by (intro bit_word_eqI) (auto simp: bit_simps algebra_simps)
  then show "drop k (le_bytes (k + n) (push_bit (8 * k) v)) ! i = le_bytes n v ! i"
    using i by simp
qed simp

lemma le_bytes_ucast:
  "8 * k \<le> LENGTH('w) \<Longrightarrow> k \<le> 4 \<Longrightarrow> le_bytes k (ucast (ucast v :: 'w :: len word)) = le_bytes k v"
  by (intro nth_equalityI) (auto intro!: bit_word_eqI simp: bit_simps)

lemma setfield_bytes:
  assumes "cpu_to_be_ok d" and "n \<in> {1, 2, 4, 6}"
  shows "le_bytes n (setfield_value d n v) = net_bytes n v"
proof -
  have "le_bytes 6 (rte_cpu_to_be_64 d (push_bit 16 v)) = take 6 (rev (le_bytes 8 (push_bit 16 v)))"
    using assms(1) take_le_bytes [of 6 8 "rte_cpu_to_be_64 d (push_bit 16 v)"]
    by (simp add: cpu_to_be_ok_def)
  also have "\<dots> = rev (drop 2 (le_bytes (2 + 6) (push_bit (8 * 2) v)))"
    by (simp add: take_rev)
  also have "\<dots> = net_bytes 6 v" by (simp only: le_bytes_push_bit net_bytes_def)
  finally have six: "le_bytes 6 (rte_cpu_to_be_64 d (push_bit 16 v)) = net_bytes 6 v" .
  have one: "net_bytes 1 v = le_bytes 1 v" by (simp add: net_bytes_def le_bytes_def)
  show ?thesis
    using assms six one le_bytes_ucast [where 'w = 32, of 4 v] le_bytes_ucast [where 'w = 16, of 2 v]
    by (auto simp: setfield_value_def cpu_to_be_ok_def net_bytes_def)
qed

text \<open>
  C20: A set-field action is a store in network byte order that reads back. Executed on a
  field of the packet of 1, 2, 4 or 6 bytes, it replaces exactly the bytes of that field by
  the low bytes of the value, most significant first, in the buffer the field points into
  and in no other; a later \<open>get_hdr_value\<close> on a field of at most 4 bytes returns the value
  reduced to the field's width.
\<close>

theorem setfield_roundtrip:
  assumes "cpu_to_be_ok d" and "wf_fields (pkt_fields (x_tbl s))"
    and "unat (x_reg1 s) = hdr_index h" and "field_len h \<noteq> 8"
    and "field_ptr (pkt_fields (x_tbl s)) h = Some (Pkt_Data p off)"
    and "x_mem s p = Some b" and "off + field_len h \<le> length (m_data b)"
  shows "\<exists>s'. do_setfield d s = Inr s' \<and>
    s' = s\<lparr>x_mem := (x_mem s)(p \<mapsto>
           b\<lparr>m_data := splice_at off (net_bytes (field_len h) (x_reg3 s)) (m_data b)\<rparr>)\<rparr> \<and>
    (field_len h \<le> 4 \<longrightarrow> (\<forall>v. get_hdr_value (x_mem s') (in_port (x_tbl s'))
           (pkt_fields (x_tbl s') ! hdr_index h) v =
         Inr (0, take_bit (8 * field_len h) (x_reg3 s))))"
proof -
  let ?n = "field_len h" and ?fs = "pkt_fields (x_tbl s)"
  let ?bs = "net_bytes ?n (x_reg3 s)"
  let ?mem = "(x_mem s)(p \<mapsto> b\<lparr>m_data := splice_at off ?bs (m_data b)\<rparr>)"
  have len: "?n \<in> {1, 2, 4, 6}" using assms(4) by (cases h) simp_all
  from assms(2,3) have f: "rd ?fs (unat (x_reg1 s)) = Inr (?fs ! hdr_index h)"
    "hf_len (field (?fs ! hdr_index h)) = ?n"
    by (simp_all add: wf_fields_nth field_len_def)
  have store: "store_bytes (x_mem s) (in_port (x_tbl s)) (Pkt_Data p off) ?bs =
      Inr (?mem, in_port (x_tbl s))"
    using assms(6,7) by (simp add: store_bytes_def obj_bytes_def ptr_off_def obj_set_def)
  have "do_setfield d s = Inr (s\<lparr>x_mem := ?mem\<rparr>)"
    using f store assms(5) setfield_bytes [OF assms(1) len]
    by (simp add: do_setfield_def Let_def field_ptr_def)
  moreover have "get_hdr_value ?mem (in_port (x_tbl s)) (?fs ! hdr_index h) v
      = Inr (0, take_bit (8 * ?n) (x_reg3 s))" if "?n \<le> 4" for v
    using get_hdr_value_be [OF assms(2,5), of ?mem "in_port (x_tbl s)" ?bs v]
      load_after_store [OF store] len that
    by (auto simp: be_value_net_bytes)
  ultimately show ?thesis by simp
qed

theorem setfield_roundtrip_witness:
  "let fs = set_value (TCP_DPORT, Some (Pkt_Data 1 36)) null_fields;
       s = (demo_exec [1 \<mapsto> demo_mbuf 6] fs)\<lparr>x_reg1 := 13, x_reg3 := 8080\<rparr>
   in \<exists>s'. do_setfield slot_dpdk s = Inr s' \<and>
     get_hdr_value (x_mem s') (in_port (x_tbl s')) (pkt_fields (x_tbl s') ! 13) 0 = Inr (0, 8080)"
  using setfield_roundtrip [OF slot_cpu_to_be_ok,
      of "(demo_exec [1 \<mapsto> demo_mbuf 6] (set_value (TCP_DPORT, Some (Pkt_Data 1 36)) null_fields))
            \<lparr>x_reg1 := 13, x_reg3 := 8080\<rparr>" TCP_DPORT 1 36 "demo_mbuf 6"]
  by (auto simp: demo_exec_def Let_def take_bit_eq_mod)

definition tx_events :: "nat option \<Rightarrow> xfsm_action \<Rightarrow> tx_event list" where
  "tx_events pkt act =
     (if a_type act = XFSM_SENDPKT \<and> a_value2 act \<noteq> 0
      then [\<lparr>tx_port = ucast (a_value2 act - 1), tx_index = sint (a_value2 act) - 1, tx_pkt = pkt\<rparr>]
      else [])"

lemma execute_action_tx:
  assumes "execute_action d act s = Inr s'"
  shows "x_tx s' = x_tx s @ tx_events (curr_pkt (x_tbl s)) act \<and> curr_pkt (x_tbl s') = curr_pkt (x_tbl s)"
proof -
  from assms obtain t where t: "fetch_operands act s = Inr t"
    and u: "(case a_type act of XFSM_UPDATE \<Rightarrow> do_update act t | XFSM_SENDPKT \<Rightarrow> do_sendpkt act t
       | XFSM_SETFIELD \<Rightarrow> do_setfield d t | XFSM_DESTROY \<Rightarrow> do_destroy t) = Inr s'"
    by (auto simp: execute_action_def)
  from fetch_operands_Inr [OF t] have s: "x_tx t = x_tx s" "x_tbl t = x_tbl s" by auto
  have port: "w = v - 1 \<and> sint w = sint v - 1" if "s64 (sint v - 1) = Inr w" for v w
    using that s64_defined [of "sint v - 1"] by (auto simp: s64_Inr_iff)
  show ?thesis
  proof (cases "a_type act")
    case XFSM_SENDPKT
    with u s show ?thesis
      by (auto simp: do_sendpkt_def Let_def tx_events_def res_bind_Inr_iff dest: port split: if_splits)
  qed (use u s in \<open>auto simp: do_update_def do_setfield_def do_destroy_def tx_events_def Let_def
      res_bind_Inr_iff split: option.splits\<close>)
qed

lemma action_loop_tx:
  "run_steps (action_step d m) [0..<n] s = Inr s' \<Longrightarrow>
     n \<le> length (e_actions m) \<and>
     x_tx s' = x_tx s @ concat (map (tx_events (curr_pkt (x_tbl s))) (take n (e_actions m))) \<and>
     curr_pkt (x_tbl s') = curr_pkt (x_tbl s)"
proof (induction n arbitrary: s')
  case 0
  then show ?case by simp
next
  case (Suc n)
  then obtain t where t: "run_steps (action_step d m) [0..<n] s = Inr t"
    and u: "action_step d m n t = Inr s'"
    by (auto simp: run_steps_snoc)
  from u have n: "n < length (e_actions m)" and v: "execute_action d (e_actions m ! n) t = Inr s'"
    by (auto simp: action_step_def res_bind_Inr_iff access_iff)
  from execute_action_tx [OF v] Suc.IH [OF t] n show ?case
    by (simp add: take_Suc_conv_app_nth)
qed

text \<open>
  What an action list transmits is fixed by the list alone: one event for each
  \<open>XFSM_SENDPKT\<close> with a non-zero \<open>value2\<close>, in list order, for the current packet, to port
  \<open>value2 - 1\<close> reduced to 16 bits. The type of the operand is ignored: with
  \<open>XFSM_REGISTER\<close> the packet goes to the port numbered like the register, not to the port
  the register holds.
\<close>

theorem sendpkt_trace:
  assumes "xfsm_execute_actions d m s = Inr s'"
  shows "x_tx s' = x_tx s @
    concat (map (tx_events (curr_pkt (x_tbl s))) (take (unat (nb_actions m)) (e_actions m)))"
  using action_loop_tx [OF assms [unfolded xfsm_execute_actions_def]] by simp

theorem sendpkt_trace_witness:
  "\<exists>s'. xfsm_execute_actions slot_dpdk demo_entry (demo_exec Map.empty null_fields) = Inr s' \<and>
     x_tx s' = [\<lparr>tx_port = 2, tx_index = 2, tx_pkt = Some 1\<rparr>]"
proof -
  have fits: "fits64 1" "fits64 2" by (simp_all add: fits64_def)
  have "\<exists>s'. xfsm_execute_actions slot_dpdk demo_entry (demo_exec Map.empty null_fields) = Inr s'"
    by (simp add: xfsm_execute_actions_def demo_entry_def demo_exec_def demo_action_def action_step_def
        execute_action_def fetch_operands_def operand_value_def do_update_def update_def
        update_result_def do_sendpkt_def zero_instance_def zero_table_def s64_def fits upt_rec)
  then obtain s' where
    s': "xfsm_execute_actions slot_dpdk demo_entry (demo_exec Map.empty null_fields) = Inr s'" ..
  with sendpkt_trace [OF s'] show ?thesis
    by (simp add: demo_entry_def demo_exec_def demo_action_def tx_events_def take_Cons')
qed

end
