(* ===== verification/Flow_Key.thy ===== *)
theory Flow_Key
  imports Conditions
begin

text \<open>
  SW-FB/xfsm.c, \<open>key_extract\<close> and \<open>biflow\<close>. The flow key is an array of eight 32-bit words
  that the worker allocates once and passes to every extraction. \<open>get_hdr_value\<close> is handed
  \<open>(uint64_t *) &key->flds[i]\<close>, so reading a field writes two words: the low half of the
  value to \<open>flds[i]\<close> and the high half to \<open>flds[i + 1]\<close>.
\<close>

definition wide_read :: "flow_key \<Rightarrow> nat \<Rightarrow> u64" where
  "wide_read key i = ucast (key ! i) OR push_bit 32 (ucast (key ! (i + 1)))"

definition wide_write :: "flow_key \<Rightarrow> nat \<Rightarrow> u64 \<Rightarrow> flow_key res" where
  "wide_write key i v =
     (if i + 1 < length key then Inr (key[i := ucast v, i + 1 := ucast (drop_bit 32 v)])
      else Inl (UB OutOfBounds))"

text \<open>
  One iteration of the extraction loop. A field that is absent leaves the key as it was.
\<close>

definition key_step :: "pktmem \<Rightarrow> 'h xfsm_table \<Rightarrow> nat \<Rightarrow> flow_key \<Rightarrow> flow_key res" where
  "key_step mem xfsm i key =
     res_bind (rd (lk_fld (t_lookup_key xfsm)) i)
      (\<lambda>fld. res_bind (rd (pkt_fields xfsm) (hdr_index fld))
        (\<lambda>f. res_bind (get_hdr_value mem (in_port xfsm) f (wide_read key i))
          (\<lambda>(ret, v). if ret < 0 then Inr key else wide_write key i v)))"

text \<open>\<open>biflow\<close>: the two words of a pair in ascending order.\<close>

definition biflow_step :: "nat \<Rightarrow> flow_key \<Rightarrow> flow_key res" where
  "biflow_step j key =
     (let i = 2 * j in
      res_bind (rd key i) (\<lambda>a. res_bind (rd key (i + 1)) (\<lambda>b.
        if a > b then Inr (key[i := b, i + 1 := a]) else Inr key)))"

definition biflow :: "flow_key \<Rightarrow> lookup_key \<Rightarrow> flow_key res" where
  "biflow key lk = run_steps biflow_step [0..<unat (biflow_no lk)] key"

definition key_extract :: "pktmem \<Rightarrow> 'h xfsm_table \<Rightarrow> flow_key \<Rightarrow> (bool \<times> flow_key) res" where
  "key_extract mem xfsm key =
     res_bind (run_steps (key_step mem xfsm) [0..<unat (lk_size (t_lookup_key xfsm))] key)
      (\<lambda>key. res_bind (if biflow_no (t_lookup_key xfsm) > 0 then biflow key (t_lookup_key xfsm)
                       else Inr key)
        (\<lambda>key. Inr (True, key)))"

section \<open>The extraction loop\<close>

lemma wide_write_Inr:
  "wide_write key i v = Inr key' \<longleftrightarrow>
     i + 1 < length key \<and> key' = key[i := ucast v, i + 1 := ucast (drop_bit 32 v)]"
  by (auto simp: wide_write_def)

lemma key_step_length: "key_step mem t i key = Inr key' \<Longrightarrow> length key' = length key"
  by (auto simp: key_step_def res_bind_Inr_iff wide_write_Inr split: prod.splits if_splits)

lemma biflow_step_length: "biflow_step j key = Inr key' \<Longrightarrow> length key' = length key"
  by (auto simp: biflow_step_def Let_def res_bind_Inr_iff split: if_splits)

interpretation key_len: step_invariant "key_step mem t" "\<lambda>key. length key = n" for mem t n
  by unfold_locales (simp add: key_step_length)

interpretation biflow_len: step_invariant biflow_step "\<lambda>key. length key = n" for n
  by unfold_locales (simp add: biflow_step_length)

lemma biflow_length: "biflow key lk = Inr key' \<Longrightarrow> length key' = length key"
  unfolding biflow_def by (rule biflow_len.run_keeps [OF refl])

lemma key_extract_length:
  assumes "key_extract mem t key = Inr (r, key')"
  shows "length key' = length key"
proof -
  from assms obtain k1 where
    k1: "run_steps (key_step mem t) [0..<unat (lk_size (t_lookup_key t))] key = Inr k1"
    and k2: "(if biflow_no (t_lookup_key t) > 0 then biflow k1 (t_lookup_key t) else Inr k1) = Inr key'"
    by (auto simp: key_extract_def res_bind_Inr_iff)
  from key_len.run_keeps [OF refl k1] k2 show ?thesis
    by (auto dest: biflow_length split: if_splits)
qed

text \<open>
  The abstract key of a packet: the low words of the fields the lookup key lists, for a
  parsed packet in which each of them is present with at most four bytes.
\<close>

definition field_word :: "pktmem \<Rightarrow> 'h xfsm_table \<Rightarrow> hdr_fields \<Rightarrow> u32 option" where
  "field_word mem t h =
     (case get_hdr_value mem (in_port t) (pkt_fields t ! hdr_index h) 0 of
        Inr (ret, v) \<Rightarrow> if ret < 0 then None else Some (ucast v)
      | Inl _ \<Rightarrow> None)"

definition key_field_ok :: "pktmem \<Rightarrow> 'h xfsm_table \<Rightarrow> hdr_fields \<Rightarrow> bool" where
  "key_field_ok mem t h \<longleftrightarrow> field_len h \<in> {1, 2, 4} \<and>
     (\<exists>q. field_ptr (pkt_fields t) h = Some q \<and> readable mem q (field_len h))"

lemma ucast_take_bit_32: "n \<le> 32 \<Longrightarrow> (ucast (drop_bit 32 (take_bit n v)) :: u32) = 0" for v :: u64
  by (rule bit_word_eqI) (auto simp: bit_simps)

lemma key_field_value:
  assumes "wf_fields (pkt_fields t)" and "key_field_ok mem t h"
  shows "\<exists>v w. (\<forall>x. get_hdr_value mem (in_port t) (pkt_fields t ! hdr_index h) x = Inr (0, v)) \<and>
     field_word mem t h = Some w \<and> w = ucast v \<and> (ucast (drop_bit 32 v) :: u32) = 0"
proof -
  from assms(2) obtain q bs where q: "field_ptr (pkt_fields t) h = Some q"
    and len: "field_len h \<in> {1, 2, 4}" and bs: "load_bytes mem (in_port t) q (field_len h) = Inr bs"
    unfolding key_field_ok_def using readable_iff by blast
  have val: "get_hdr_value mem (in_port t) (pkt_fields t ! hdr_index h) x = Inr (0, be_value bs)" for x
    by (rule get_hdr_value_be [OF assms(1) q len bs])
  have "length bs = field_len h" using bs by (rule length_load_bytes)
  then have "be_value bs = take_bit (8 * field_len h) (be_value bs)"
    using len le_word_le_bytes [of "length (rev bs)" "le_word (rev bs)"] le_bytes_le_word [of "rev bs"]
    by (auto simp: be_value_def)
  then have "(ucast (drop_bit 32 (be_value bs)) :: u32) = 0"
    using len ucast_take_bit_32 [of "8 * field_len h" "be_value bs"] by auto
  with val show ?thesis by (auto simp: field_word_def)
qed

lemma key_step_ok:
  assumes "wf_fields (pkt_fields t)" and "i < length (lk_fld (t_lookup_key t))"
    and "key_field_ok mem t (lk_fld (t_lookup_key t) ! i)" and "length key = 8"
  shows "key_step mem t i key =
     (if i < 7 then Inr (key[i := the (field_word mem t (lk_fld (t_lookup_key t) ! i)), i + 1 := 0])
      else Inl (UB OutOfBounds))"
proof -
  from key_field_value [OF assms(1,3)] obtain v where
    "\<And>x. get_hdr_value mem (in_port t) (pkt_fields t ! hdr_index (lk_fld (t_lookup_key t) ! i)) x
       = Inr (0, v)" "the (field_word mem t (lk_fld (t_lookup_key t) ! i)) = ucast v"
    "(ucast (drop_bit 32 v) :: u32) = 0" by auto
  with assms show ?thesis by (simp add: key_step_def wide_write_def)
qed

text \<open>After \<open>n\<close> iterations: the first \<open>n\<close> words, a zero word after them, the rest as before.\<close>

definition key_words :: "pktmem \<Rightarrow> 'h xfsm_table \<Rightarrow> nat \<Rightarrow> u32 list" where
  "key_words mem t n = map (\<lambda>h. the (field_word mem t h)) (take n (lk_fld (t_lookup_key t)))"

lemma key_loop:
  assumes "wf_fields (pkt_fields t)" and "length key = 8" and "length (lk_fld (t_lookup_key t)) = 8"
    and "\<And>i. i < n \<Longrightarrow> key_field_ok mem t (lk_fld (t_lookup_key t) ! i)"
    and "0 < n" and "n \<le> 7"
  shows "run_steps (key_step mem t) [0..<n] key = Inr (key_words mem t n @ 0 # drop (n + 1) key)"
  using assms(4-6)
proof (induction n)
  case 0
  then show ?case by simp
next
  case (Suc n)
  let ?h = "lk_fld (t_lookup_key t) ! n"
  have words: "key_words mem t (Suc n) = key_words mem t n @ [the (field_word mem t ?h)]"
    using Suc.prems assms(3) by (simp add: key_words_def take_Suc_conv_app_nth)
  have len: "length (key_words mem t n) = n"
    using Suc.prems assms(3) by (simp add: key_words_def)
  have step: "key_step mem t n key' = Inr (key'[n := the (field_word mem t ?h), n + 1 := 0])"
    if "length key' = 8" for key'
    using key_step_ok [OF assms(1) _ Suc.prems(1) that, of n] Suc.prems assms(3) by simp
  show ?case
  proof (cases "n = 0")
    case True
    obtain a b ks where "key = a # b # ks" using assms(2) by (auto simp: numeral_eq_Suc length_Suc_conv)
    with True step [OF assms(2)] words show ?thesis
      by (simp add: run_steps_snoc key_words_def)
  next
    case False
    with Suc have *: "run_steps (key_step mem t) [0..<n] key = Inr (key_words mem t n @ 0 # drop (n + 1) key)"
      by simp
    have "drop (n + 1) key = key ! (n + 1) # drop (n + 2) key"
      using Suc.prems assms(2) by (simp add: Cons_nth_drop_Suc)
    with * step [of "key_words mem t n @ 0 # drop (n + 1) key"] words len Suc.prems assms(2)
    show ?thesis by (simp add: run_steps_snoc list_update_append split: nat.splits)
  qed
qed

section \<open>Pairs\<close>

text \<open>The pair normal form: within each of the first \<open>n\<close> pairs, the smaller word first.\<close>

fun sort_pairs :: "nat \<Rightarrow> u32 list \<Rightarrow> u32 list" where
  "sort_pairs (Suc n) (a # b # ks) = min a b # max a b # sort_pairs n ks"
| "sort_pairs n ks = ks"

fun swap_pairs :: "nat \<Rightarrow> u32 list \<Rightarrow> u32 list" where
  "swap_pairs (Suc n) (a # b # ks) = b # a # swap_pairs n ks"
| "swap_pairs n ks = ks"

lemma length_sort_pairs [simp]: "length (sort_pairs n ks) = length ks"
  by (induction n ks rule: sort_pairs.induct) simp_all

lemma sort_swap_pairs: "sort_pairs n (swap_pairs n ks) = sort_pairs n ks"
  by (induction n ks rule: sort_pairs.induct) (simp_all add: min.commute max.commute)

lemma sort_pairs_snoc:
  "2 * n + 1 < length ks \<Longrightarrow>
     biflow_step n (sort_pairs n ks) = Inr (sort_pairs (Suc n) ks)"
proof (induction n ks rule: sort_pairs.induct, goal_cases)
  case (1 n a b ks)
  then have "biflow_step n (sort_pairs n ks) = Inr (sort_pairs (Suc n) ks)" by simp
  then have "biflow_step (Suc n) (x # y # sort_pairs n ks) = Inr (x # y # sort_pairs (Suc n) ks)" for x y
    by (auto simp: biflow_step_def Let_def res_bind_Inr_iff access_iff split: if_splits)
  then show ?case by simp
next
  case (2 ks)
  then obtain a b ks' where "ks = a # b # ks'" by (cases ks rule: remdups_adj.cases) auto
  then show ?case by (auto simp: biflow_step_def min_def max_def)
qed auto

lemma biflow_loop: "2 * n \<le> length ks \<Longrightarrow> run_steps biflow_step [0..<n] ks = Inr (sort_pairs n ks)"
proof (induction n)
  case 0
  then show ?case by (cases ks rule: remdups_adj.cases) simp_all
next
  case (Suc n)
  then show ?case by (simp add: run_steps_snoc sort_pairs_snoc)
qed

lemma biflow_step_oob: "length ks \<le> 2 * n + 1 \<Longrightarrow> biflow_step n ks = Inl (UB OutOfBounds)"
  by (simp add: biflow_step_def Let_def rd_def)

lemma biflow_loop_oob: "length ks < 2 * n \<Longrightarrow> run_steps biflow_step [0..<n] ks = Inl (UB OutOfBounds)"
proof (induction n)
  case (Suc n)
  show ?case
  proof (cases "length ks < 2 * n")
    case True
    with Suc show ?thesis by (auto simp: run_steps_snoc)
  next
    case False
    then have "run_steps biflow_step [0..<n] ks = Inr (sort_pairs n ks)"
      by (intro biflow_loop) simp
    moreover have "biflow_step n (sort_pairs n ks) = Inl (UB OutOfBounds)"
      by (rule biflow_step_oob) (use Suc.prems in simp)
    ultimately show ?thesis by (simp add: run_steps_snoc)
  qed
qed simp

lemma swap_pairs_append: "2 * n \<le> length ws \<Longrightarrow> swap_pairs n (ws @ ks) = swap_pairs n ws @ ks"
proof (induction n ws rule: swap_pairs.induct, goal_cases)
  case (2 ws)
  then show ?case by (cases "ws @ ks" rule: remdups_adj.cases; cases ws rule: remdups_adj.cases) simp_all
next
  case (4 n v)
  then show ?case by (cases n; cases ks) simp_all
qed auto

text \<open>What follows the extraction loop.\<close>

lemma key_extract_loop:
  assumes "run_steps (key_step mem t) [0..<unat (lk_size (t_lookup_key t))] key = Inr ks"
    and "length ks = 8"
  shows "key_extract mem t key =
    (if unat (biflow_no (t_lookup_key t)) \<le> 4
     then Inr (True, sort_pairs (unat (biflow_no (t_lookup_key t))) ks) else Inl (UB OutOfBounds))"
  using biflow_loop [of "unat (biflow_no (t_lookup_key t))" ks]
    biflow_loop_oob [of ks "unat (biflow_no (t_lookup_key t))"] assms
  by (cases "biflow_no (t_lookup_key t) = 0") (auto simp: key_extract_def biflow_def word_neq_0_conv)

section \<open>Properties\<close>

text \<open>
  C24: What a flow key is. For a lookup key of \<open>n\<close> present fields of at most four bytes
  (\<open>0 < n < 8\<close>) the extraction returns the \<open>n\<close> field values, then a zero word, then the
  words the caller's buffer already held, with the configured number of leading pairs put in
  ascending order. With the full eight fields the header file allows, the last read writes
  past the end of the key; so does a pair number above four.
\<close>

theorem key_extract_words:
  assumes "wf_fields (pkt_fields t)" and "length key = 8" and "length (lk_fld (t_lookup_key t)) = 8"
    and "n = unat (lk_size (t_lookup_key t))" and "0 < n" and "n \<le> LOOKUP_KEY_SIZE"
    and "\<forall>i < n. key_field_ok mem t (lk_fld (t_lookup_key t) ! i)"
  shows "key_extract mem t key =
    (if n < LOOKUP_KEY_SIZE \<and> unat (biflow_no (t_lookup_key t)) \<le> 4
     then Inr (True, sort_pairs (unat (biflow_no (t_lookup_key t)))
                       (key_words mem t n @ 0 # drop (n + 1) key))
     else Inl (UB OutOfBounds))"
proof (cases "n = 8")
  case True
  have "run_steps (key_step mem t) [0..<7] key = Inr (key_words mem t 7 @ 0 # drop (7 + 1) key)"
    by (rule key_loop [OF assms(1-3)]) (use assms(7) True in simp_all)
  moreover have "length (key_words mem t 7 @ 0 # drop 8 key) = 8"
    using assms(2,3) by (simp add: key_words_def)
  moreover from this have "key_step mem t 7 (key_words mem t 7 @ 0 # drop 8 key) = Inl (UB OutOfBounds)"
    using key_step_ok [OF assms(1), of 7 mem] assms(3,7) True by simp
  ultimately have "run_steps (key_step mem t) ([0..<7] @ [7]) key = Inl (UB OutOfBounds)"
    by (simp add: run_steps_snoc)
  moreover have "[0..<7] @ [7] = [0..<8]" using upt_Suc_append [of 0 7] by simp
  ultimately have "run_steps (key_step mem t) [0..<8] key = Inl (UB OutOfBounds)" by (simp only:)
  with True assms(4) show ?thesis by (simp add: key_extract_def)
next
  case False
  let ?k = "key_words mem t n @ 0 # drop (n + 1) key" and ?b = "biflow_no (t_lookup_key t)"
  have loop: "run_steps (key_step mem t) [0..<n] key = Inr ?k"
    using assms False by (intro key_loop) simp_all
  have len: "length ?k = 8" using assms(2,3,6) False by (simp add: key_words_def)
  from key_extract_loop [OF loop [unfolded assms(4)] len [unfolded assms(4)]] False assms(4,6)
  show ?thesis by simp
qed

text \<open>
  C25: Bidirectional flows share a key. When two packets differ by exchanging the two fields
  of each configured pair, they have the same flow key, provided the pairs lie within the
  lookup key and both extractions start from the same buffer.
\<close>

theorem biflow_symmetric:
  assumes "wf_fields (pkt_fields t)" and "wf_fields (pkt_fields t')" and "length key = 8"
    and "t_lookup_key t' = t_lookup_key t" and "length (lk_fld (t_lookup_key t)) = 8"
    and "n = unat (lk_size (t_lookup_key t))" and "0 < n" and "n < LOOKUP_KEY_SIZE"
    and "2 * unat (biflow_no (t_lookup_key t)) \<le> n"
    and "\<forall>i < n. key_field_ok mem t (lk_fld (t_lookup_key t) ! i)"
    and "\<forall>i < n. key_field_ok mem' t' (lk_fld (t_lookup_key t) ! i)"
    and "key_words mem' t' n = swap_pairs (unat (biflow_no (t_lookup_key t))) (key_words mem t n)"
  shows "key_extract mem' t' key = key_extract mem t key \<and> (\<exists>k. key_extract mem t key = Inr (True, k))"
proof -
  let ?b = "unat (biflow_no (t_lookup_key t))" and ?rest = "0 # drop (n + 1) key"
  have loop: "run_steps (key_step mem t) [0..<n] key = Inr (key_words mem t n @ ?rest)"
    "run_steps (key_step mem' t') [0..<n] key = Inr (key_words mem' t' n @ ?rest)"
    using assms by (simp_all add: key_loop)
  have len: "length (key_words mem t n) = n" using assms(5,8) by (simp add: key_words_def)
  then have "key_words mem' t' n @ ?rest = swap_pairs ?b (key_words mem t n @ ?rest)"
    using assms(9,12) by (simp add: swap_pairs_append)
  then have same: "sort_pairs ?b (key_words mem' t' n @ ?rest) = sort_pairs ?b (key_words mem t n @ ?rest)"
    by (simp add: sort_swap_pairs)
  have len8: "length (key_words mem t n @ ?rest) = 8" "length (key_words mem' t' n @ ?rest) = 8"
    using assms(3,4,5,8) by (simp_all add: key_words_def)
  have ext: "key_extract m tb key = Inr (True, sort_pairs ?b ks)"
    if "run_steps (key_step m tb) [0..<n] key = Inr ks" "length ks = 8"
      "t_lookup_key tb = t_lookup_key t" for m tb ks
    using key_extract_loop [of m tb key ks] that assms(6,8,9) by simp
  show ?thesis
    using ext [OF loop(1) len8(1) refl] ext [OF loop(2) len8(2) assms(4)] same by simp
qed

text \<open>
  A TCP flow key of source and destination address, one bidirectional pair; the demo packet
  from address 9 to address 1 and its reverse have the same key.
\<close>

definition demo_key_table :: "nat \<Rightarrow> nat \<Rightarrow> 'h xfsm_table" where
  "demo_key_table a b = zero_table\<lparr>
     pkt_fields := set_values [(IPv4_SRC, Some (Pkt_Data 5 a)), (IPv4_DST, Some (Pkt_Data 5 b))] null_fields,
     t_lookup_key := \<lparr>lk_size = 2, lk_fld = [IPv4_SRC, IPv4_DST] @ replicate 6 SRC_MAC, biflow_no = 1\<rparr>\<rparr>"

definition demo_key_mem :: pktmem where
  "demo_key_mem = [5 \<mapsto> \<lparr>m_data = (replicate 64 0)[29 := 9, 33 := 1], m_userdata = 0, m_timestamp = 0\<rparr>]"

lemma demo_key_table_simps [simp]:
  "wf_fields (pkt_fields (demo_key_table a b))"
  "t_lookup_key (demo_key_table a b) =
     \<lparr>lk_size = 2, lk_fld = [IPv4_SRC, IPv4_DST] @ replicate 6 SRC_MAC, biflow_no = 1\<rparr>"
  "field_ptr (pkt_fields (demo_key_table a b)) IPv4_SRC = Some (Pkt_Data 5 a)"
  "field_ptr (pkt_fields (demo_key_table a b)) IPv4_DST = Some (Pkt_Data 5 b)"
  by (simp_all add: demo_key_table_def)

lemma demo_key_load [simp]:
  "off \<in> {26, 30} \<Longrightarrow>
     load_bytes demo_key_mem port (Pkt_Data 5 off) 4 = Inr [0, 0, 0, if off = 26 then 9 else 1]"
  by (auto simp: load_bytes_def obj_bytes_def ptr_off_def demo_key_mem_def numeral_eq_Suc)

lemma demo_key_fields_ok:
  "a \<in> {26, 30} \<Longrightarrow> b \<in> {26, 30} \<Longrightarrow>
     \<forall>i < 2. key_field_ok demo_key_mem (demo_key_table a b)
       (lk_fld (t_lookup_key (demo_key_table c e)) ! i)"
  by (auto simp: less_2_cases_iff key_field_ok_def readable_iff [of _ _ _ 0])

lemma field_word_be:
  "wf_fields (pkt_fields t) \<Longrightarrow> field_ptr (pkt_fields t) h = Some q \<Longrightarrow> field_len h \<in> {1, 2, 4} \<Longrightarrow>
     load_bytes mem (in_port t) q (field_len h) = Inr bs \<Longrightarrow> field_word mem t h = Some (ucast (be_value bs))"
  by (simp add: field_word_def get_hdr_value_be)

lemma demo_key_word:
  assumes "a \<in> {26, 30}" and "b \<in> {26, 30}"
  shows "field_word demo_key_mem (demo_key_table a b) IPv4_SRC = Some (if a = 26 then 9 else 1)"
    and "field_word demo_key_mem (demo_key_table a b) IPv4_DST = Some (if b = 26 then 9 else 1)"
  using assms by (auto simp: field_word_be be_value_def)

lemma demo_key_words:
  "a \<in> {26, 30} \<Longrightarrow> b \<in> {26, 30} \<Longrightarrow> key_words demo_key_mem (demo_key_table a b) 2 =
     [if a = 26 then 9 else 1, if b = 26 then 9 else 1]"
  by (simp add: key_words_def demo_key_word numeral_2_eq_2)

theorem key_extract_words_witness:
  "key_extract demo_key_mem (demo_key_table 26 30) [7, 7, 7, 7, 7, 7, 7, 7] =
     Inr (True, [1, 9, 0, 7, 7, 7, 7, 7])"
  using key_extract_words [of "demo_key_table 26 30" "[7, 7, 7, 7, 7, 7, 7, 7]" 2,
      OF _ _ _ _ _ _ demo_key_fields_ok]
  by (simp add: demo_key_words min_def max_def word_le_nat_alt)

theorem biflow_symmetric_witness:
  "key_extract demo_key_mem (demo_key_table 30 26) [7, 7, 7, 7, 7, 7, 7, 7] =
     key_extract demo_key_mem (demo_key_table 26 30) [7, 7, 7, 7, 7, 7, 7, 7]"
  using biflow_symmetric [of "demo_key_table 26 30" "demo_key_table 30 26" "[7, 7, 7, 7, 7, 7, 7, 7]"
      2, OF _ _ _ _ _ _ _ _ _ demo_key_fields_ok demo_key_fields_ok]
  by (auto simp: demo_key_words)

end
