(* ===== verification/Xfsm_Table.thy ===== *)
theory Xfsm_Table
  imports Conditions Dpdk
begin

text \<open>
  SW-FB/xfsm.c: building a state table (the per-state list of rows, \<open>search_key\<close>,
  \<open>insert_key\<close>, \<open>insert_entry\<close>, \<open>xfsm_table_create\<close>) and matching a row
  (\<open>xfsm_table_lookup\<close>). The specification of the pair is a linear search: the first row
  of the configuration whose state and condition results match.
\<close>

section \<open>The list of keys\<close>

text \<open>
  The linked list as a list of nodes, never empty. The search key is a struct of one 32-bit
  state, so \<open>memcmp\<close> is equality of states.
\<close>

fun search_key :: "u32 \<Rightarrow> key_node list \<Rightarrow> bool" where
  "search_key key [] = False"
| "search_key key (n # ns) = (if key = kn_key n then True else search_key key ns)"

definition insert_key :: "u32 \<Rightarrow> key_node list \<Rightarrow> key_node list" where
  "insert_key key ns =
     (if key = STATE_NULL then (hd ns)\<lparr>kn_key := key\<rparr> # tl ns
      else ns @ [\<lparr>kn_key = key, kn_entries = []\<rparr>])"

fun insert_entry :: "nat \<Rightarrow> key_node list \<Rightarrow> u32 \<Rightarrow> key_node list res" where
  "insert_entry idx [] key = Inr []"
| "insert_entry idx (n # ns) key =
     (if key = kn_key n then
        (if length (kn_entries n) < MAX_ENTRIES_FOREACH_STATE
         then Inr (n\<lparr>kn_entries := kn_entries n @ [idx]\<rparr> # ns)
         else Inl (UB OutOfBounds))
      else res_bind (insert_entry idx ns key) (\<lambda>ns'. Inr (n # ns')))"

definition key_list_step :: "xfsm_table_entry list \<Rightarrow> nat \<Rightarrow> key_node list \<Rightarrow> key_node list res" where
  "key_list_step entries i ns =
     res_bind (rd entries i)
       (\<lambda>e. let key = e_current_state e in
          if \<not> search_key key ns then insert_entry i (insert_key key ns) key
          else insert_entry i ns key)"

definition build_key_list :: "xfsm_table_entry list \<Rightarrow> nat \<Rightarrow> key_node list res" where
  "build_key_list entries n =
     run_steps (key_list_step entries) [0..<n] [\<lparr>kn_key = 0, kn_entries = []\<rparr>]"

section \<open>Creating a table\<close>

primrec rd_all :: "'a list \<Rightarrow> nat list \<Rightarrow> 'a list res" where
  "rd_all xs [] = Inr []"
| "rd_all xs (i # is) = res_bind (rd xs i) (\<lambda>x. res_bind (rd_all xs is) (\<lambda>ys. Inr (x # ys)))"

text \<open>
  One pool block per node, at the position the hash table gives its key. The loop stops at
  the first key that cannot be added.
\<close>

fun populate ::
  "'h dpdk \<Rightarrow> xfsm_table_entry list \<Rightarrow> key_node list \<Rightarrow> 'h option \<times> hmap_entry list \<Rightarrow>
     ('h option \<times> hmap_entry list) res" where
  "populate d entries [] hp = Inr hp"
| "populate d entries (n # ns) (h, pool) =
     res_bind (rd_all entries (kn_entries n))
       (\<lambda>es. case hash_add d h [kn_key n] of
          (ret, h') \<Rightarrow>
            if ret \<ge> 0
            then res_bind (wr pool (nat ret) \<lparr>hm_key = kn_key n, hm_entries = es\<rparr>)
                   (\<lambda>pool'. populate d entries ns (h', pool'))
            else Inr (h', pool))"

definition init_instance :: "xfsm_instance \<Rightarrow> 'h xfsm_table \<Rightarrow> xfsm_instance" where
  "init_instance inst table =
     inst\<lparr>destroy := False,
          results := replicate MAX_CONDITIONS (XFSM_RESULT_OTHER 0x01010101),
          i_flow_key := replicate 8 0,
          i_dbg_regs := replicate MAX_DEBUG_REGISTERS zero_dbg_reg,
          registers := replicate NUM_REGISTERS 0,
          current_state := default_state table,
          inst_id := 0\<rparr>"

text \<open>
  \<open>names\<close> are the names of the DPDK objects that exist; the tables of the program are never
  freed. Allocations succeed.
\<close>

definition xfsm_table_create ::
  "'h dpdk \<Rightarrow> obj_name list \<Rightarrow> xfsm_table_entry list \<Rightarrow> u8 \<Rightarrow> u8 \<Rightarrow> xfsm_condition list \<Rightarrow> u8 \<Rightarrow>
     lookup_key \<Rightarrow> u8 \<Rightarrow> (obj_name list \<times> 'h xfsm_table) res" where
  "xfsm_table_create d names entries table_size initial_state conds conditions_number lk tid =
     res_bind (build_key_list entries (unat table_size))
      (\<lambda>nodes.
       let name = (\<lambda>s. (s, tid, rte_lcore_id d));
           add = (\<lambda>nm h ns. case h of None \<Rightarrow> ns | Some _ \<Rightarrow> nm # ns);
           xfsm = zero_table;
           eh = rte_hash_create d names (name ''entries_hash'') MAX_ENTRIES_FOREACH_STATE;
           names1 = add (name ''entries_hash'') eh names;
           pool = replicate (unat table_size) \<lparr>hm_key = 0, hm_entries = []\<rparr>
       in res_bind (populate d entries nodes (eh, pool))
        (\<lambda>(eh', pool').
         let ih = rte_hash_create d names1 (name ''instances_hash'') MAX_INSTANCES;
             names2 = add (name ''instances_hash'') ih names1;
             xfsm1 = xfsm\<lparr>entries_hmap := eh', state_entries_pool := pool', instances_hmap := ih\<rparr>;
             xfsm2 = xfsm1\<lparr>instances_pool :=
                (\<lambda>i. if i < MAX_INSTANCES then init_instance (instances_pool xfsm1 i) xfsm1
                     else instances_pool xfsm1 i)\<rparr>
         in if \<not> rte_pktmbuf_pool_create d names2 (name ''pkttmp_pool'') then Inl Exit
            else if length conds < MAX_CONDITIONS then Inl (UB OutOfBounds)
            else Inr (name ''pkttmp_pool'' # names2,
               xfsm2\<lparr>conditions := take MAX_CONDITIONS conds, nb_conditions := conditions_number,
                     t_lookup_key := lk, default_state := ucast initial_state,
                     global_registers := replicate NUM_GLOBAL_REGISTERS 0, in_port := INVALID_PORT,
                     nb_instances := 0, table_id := tid, stateful := True,
                     pkt_fields := map (\<lambda>f. \<lparr>field = f, fvalue = None\<rparr>) xfsm_header_fields\<rparr>)))"

section \<open>Looking a row up\<close>

text \<open>The inner loop: condition \<open>i\<close> of \<open>nb\<close>; a match of the last one matches the row.\<close>

function scan_results ::
  "nat \<Rightarrow> xfsm_results list \<Rightarrow> xfsm_results list \<Rightarrow> nat \<Rightarrow> bool res" where
  "scan_results nb mr ir i =
     (if i < nb then
        res_bind (rd mr i)
          (\<lambda>m. if m = XFSM_DONT_CARE
               then (if i = nb - 1 then Inr True else scan_results nb mr ir (i + 1))
               else res_bind (rd ir i)
                 (\<lambda>r. if m = r
                      then (if i = nb - 1 then Inr True else scan_results nb mr ir (i + 1))
                      else Inr False))
      else Inr False)"
  by pat_completeness auto
termination
  by (relation "measure (\<lambda>(nb, mr, ir, i). nb - i)") auto

declare scan_results.simps [simp del]

fun scan_entries :: "nat \<Rightarrow> xfsm_results list \<Rightarrow> xfsm_table_entry list \<Rightarrow> xfsm_table_entry option res"
  where
  "scan_entries nb ir [] = Inr None"
| "scan_entries nb ir (e # es) =
     res_bind (scan_results nb (e_results e) ir 0)
       (\<lambda>found. if found then Inr (Some e) else scan_entries nb ir es)"

definition xfsm_table_lookup ::
  "'h dpdk \<Rightarrow> 'h xfsm_table \<Rightarrow> xfsm_instance \<Rightarrow> xfsm_table_entry option res" where
  "xfsm_table_lookup d table inst =
     (let ret = hash_lookup d (entries_hmap table) [current_state inst] in
      if ret \<ge> 0
      then res_bind (rd (state_entries_pool table) (nat ret))
             (\<lambda>state_entry. scan_entries (unat (nb_conditions table)) (results inst) (hm_entries state_entry))
      else Inr None)"

section \<open>Matching against its specification\<close>

definition row_matches :: "nat \<Rightarrow> xfsm_results list \<Rightarrow> xfsm_table_entry \<Rightarrow> bool" where
  "row_matches nb ir e \<longleftrightarrow>
     0 < nb \<and> (\<forall>i < nb. e_results e ! i = XFSM_DONT_CARE \<or> e_results e ! i = ir ! i)"

lemma scan_results_spec:
  assumes "nb \<le> length mr" and "nb \<le> length ir"
  shows "scan_results nb mr ir i =
    Inr (i < nb \<and> (\<forall>j. i \<le> j \<and> j < nb \<longrightarrow> mr ! j = XFSM_DONT_CARE \<or> mr ! j = ir ! j))"
proof (induction "nb - i" arbitrary: i)
  case 0
  then show ?case by (simp add: scan_results.simps)
next
  case (Suc k)
  then have i: "i < nb" by simp
  have split: "(\<forall>j. i \<le> j \<and> j < nb \<longrightarrow> P j) \<longleftrightarrow> P i \<and> (\<forall>j. i + 1 \<le> j \<and> j < nb \<longrightarrow> P j)" for P
    using i by (auto simp: less_Suc_eq_le dest: le_neq_implies_less)
  have last: "i = nb - 1 \<longleftrightarrow> \<not> i + 1 < nb" using i by auto
  have "scan_results nb mr ir (i + 1) = Inr (i + 1 < nb \<and>
      (\<forall>j. i + 1 \<le> j \<and> j < nb \<longrightarrow> mr ! j = XFSM_DONT_CARE \<or> mr ! j = ir ! j))"
    using Suc by simp
  with i assms show ?case
    by (subst scan_results.simps) (auto simp: split last)
qed

lemma scan_entries_spec:
  assumes "nb \<le> length ir" and "\<forall>e \<in> set es. nb \<le> length (e_results e)"
  shows "scan_entries nb ir es = Inr (find (row_matches nb ir) es)"
  using assms(2)
  by (induction es) (auto simp: scan_results_spec assms(1) row_matches_def)

lemma find_filter: "find P (filter Q xs) = find (\<lambda>x. Q x \<and> P x) xs"
  by (induction xs) auto

lemma scan_filtered:
  assumes "nb \<le> MAX_CONDITIONS" and "wf_instance inst" and "\<forall>e \<in> set rows. wf_entry e"
  shows "scan_entries nb (results inst) (filter Q rows) =
    Inr (find (\<lambda>e. Q e \<and> row_matches nb (results inst) e) rows)"
  unfolding find_filter [symmetric]
  by (rule scan_entries_spec) (use assms in \<open>auto simp: wf_instance_def wf_entry_def\<close>)

section \<open>The key list against its specification\<close>

text \<open>The rows of a state, as indices in configuration order.\<close>

definition rows_of :: "xfsm_table_entry list \<Rightarrow> nat \<Rightarrow> u32 \<Rightarrow> nat list" where
  "rows_of rows n s = filter (\<lambda>j. e_current_state (rows ! j) = s) [0..<n]"

definition states_of :: "xfsm_table_entry list \<Rightarrow> nat \<Rightarrow> u32 set" where
  "states_of rows n = (\<lambda>j. e_current_state (rows ! j)) ` {..<n}"

definition key_inv :: "xfsm_table_entry list \<Rightarrow> nat \<Rightarrow> key_node list \<Rightarrow> bool" where
  "key_inv rows n ns \<longleftrightarrow>
     ns \<noteq> [] \<and> kn_key (hd ns) = 0 \<and>
     distinct (map kn_key ns) \<and> kn_key ` set ns = insert 0 (states_of rows n) \<and>
     (\<forall>k \<in> set ns. kn_entries k = rows_of rows n (kn_key k) \<and> length (kn_entries k) \<le> 10)"

lemma search_key_iff: "search_key key ns \<longleftrightarrow> key \<in> kn_key ` set ns"
  by (induction ns) auto

lemma insert_entry_spec:
  "insert_entry idx ns key = Inr ns' \<Longrightarrow> distinct (map kn_key ns) \<Longrightarrow>
     ns' = map (\<lambda>k. if kn_key k = key then k\<lparr>kn_entries := kn_entries k @ [idx]\<rparr> else k) ns \<and>
     (\<forall>k \<in> set ns. kn_key k = key \<longrightarrow> length (kn_entries k) < 10)"
proof (induction idx ns key arbitrary: ns' rule: insert_entry.induct)
  case (2 idx n ns key)
  have keep: "map (\<lambda>k. if kn_key k = key then k\<lparr>kn_entries := kn_entries k @ [idx]\<rparr> else k) ns = ns"
    if "key \<notin> kn_key ` set ns"
    using that by (intro map_idI) auto
  show ?case
  proof (cases "key = kn_key n")
    case True
    with 2 keep show ?thesis by (auto simp: image_iff split: if_splits)
  next
    case False
    with "2.prems" obtain ms where "insert_entry idx ns key = Inr ms" "ns' = n # ms" by auto
    with "2.IH" [OF False] "2.prems" False show ?thesis by auto
  qed
qed simp

lemma rows_of_Suc:
  "rows_of rows (Suc n) s = rows_of rows n s @ (if e_current_state (rows ! n) = s then [n] else [])"
  by (simp add: rows_of_def)

lemma rows_of_empty: "s \<notin> states_of rows n \<Longrightarrow> rows_of rows n s = []"
  by (auto simp: rows_of_def states_of_def filter_empty_conv)

lemma key_list_step_inv:
  assumes "key_list_step rows n ns = Inr ns'" and "key_inv rows n ns"
    and "e_current_state (rows ! n) \<noteq> STATE_NULL"
  shows "key_inv rows (Suc n) ns'"
proof -
  let ?s = "e_current_state (rows ! n)"
  let ?ns = "if ?s \<in> kn_key ` set ns then ns else ns @ [\<lparr>kn_key = ?s, kn_entries = []\<rparr>]"
  from assms(1,3) have ins: "insert_entry n ?ns ?s = Inr ns'"
    by (auto simp: key_list_step_def Let_def res_bind_Inr_iff access_iff search_key_iff insert_key_def
        split: if_splits)
  have dist: "distinct (map kn_key ?ns)" using assms(2) by (auto simp: key_inv_def)
  from insert_entry_spec [OF ins dist] have
    ns': "ns' = map (\<lambda>k. if kn_key k = ?s then k\<lparr>kn_entries := kn_entries k @ [n]\<rparr> else k) ?ns"
    and room: "\<And>k. k \<in> set ?ns \<Longrightarrow> kn_key k = ?s \<Longrightarrow> length (kn_entries k) < 10" by blast+
  have states: "states_of rows (Suc n) = insert ?s (states_of rows n)"
    by (simp add: states_of_def lessThan_Suc)
  have entries: "kn_entries k = rows_of rows n (kn_key k) \<and> length (kn_entries k) \<le> 10"
    if "k \<in> set ?ns" for k
    using that assms(2) rows_of_empty [of ?s rows n]
    by (auto simp: key_inv_def split: if_splits)
  have keys: "map kn_key ns' = map kn_key ?ns" by (simp add: ns')
  then have "kn_key ` set ns' = insert 0 (states_of rows (Suc n))"
    using assms(2) by (auto simp: key_inv_def states simp flip: set_map)
  moreover have "kn_entries k = rows_of rows (Suc n) (kn_key k) \<and> length (kn_entries k) \<le> 10"
    if "k \<in> set ns'" for k
  proof -
    from that obtain k0 where k0: "k0 \<in> set ?ns"
      "k = (if kn_key k0 = ?s then k0\<lparr>kn_entries := kn_entries k0 @ [n]\<rparr> else k0)"
      unfolding ns' by auto
    with entries [OF k0(1)] room [OF k0(1)] show ?thesis
      by (cases "kn_key k0 = ?s") (auto simp: rows_of_Suc)
  qed
  moreover have "distinct (map kn_key ns')" using dist keys by (simp only:)
  moreover have "ns' \<noteq> []" and "kn_key (hd ns') = 0"
    using assms(2) by (auto simp: ns' key_inv_def hd_map hd_append)
  ultimately show ?thesis unfolding key_inv_def by blast
qed

lemma build_key_list_inv:
  assumes "build_key_list rows n = Inr ns" and "\<forall>j < n. e_current_state (rows ! j) \<noteq> STATE_NULL"
  shows "key_inv rows n ns"
  using assms
proof (induction n arbitrary: ns)
  case 0
  then show ?case by (auto simp: build_key_list_def key_inv_def rows_of_def states_of_def)
next
  case (Suc n)
  then show ?case
    by (auto simp: build_key_list_def run_steps_snoc intro: key_list_step_inv)
qed

lemma build_key_list_length: "build_key_list rows n = Inr ns \<Longrightarrow> n \<le> length rows"
proof (induction n arbitrary: ns)
  case (Suc n)
  then show ?case
    by (auto simp: build_key_list_def run_steps_snoc key_list_step_def Let_def res_bind_Inr_iff access_iff)
qed simp

section \<open>Filling the pool\<close>

lemma rd_all_spec: "rd_all xs is = Inr ys \<longleftrightarrow> (\<forall>i \<in> set is. i < length xs) \<and> ys = map ((!) xs) is"
  by (induction "is" arbitrary: ys) (auto simp: res_bind_Inr_iff access_iff)

text \<open>
  What the loop leaves: keys it does not visit keep their position and their block, and
  every visited key that has a position has its block there.
\<close>

lemma populate_spec:
  assumes "populate d rows ns (h, pool) = Inr (h', pool')" and "rte_hash_ok d"
    and "distinct (map kn_key ns)" and "\<forall>n \<in> set ns. hash_lookup d h [kn_key n] < 0"
  shows "length pool' = length pool \<and>
    (\<forall>k. k \<notin> kn_key ` set ns \<longrightarrow> hash_lookup d h' [k] = hash_lookup d h [k] \<and>
       (0 \<le> hash_lookup d h [k] \<longrightarrow>
          pool' ! nat (hash_lookup d h [k]) = pool ! nat (hash_lookup d h [k]))) \<and>
    (\<forall>n \<in> set ns. 0 \<le> hash_lookup d h' [kn_key n] \<longrightarrow>
       nat (hash_lookup d h' [kn_key n]) < length pool \<and>
       pool' ! nat (hash_lookup d h' [kn_key n]) =
         \<lparr>hm_key = kn_key n, hm_entries = map ((!) rows) (kn_entries n)\<rparr>)"
  using assms(1,3,4)
proof (induction ns arbitrary: h pool)
  case Nil
  then show ?case by simp
next
  case (Cons n ns)
  obtain ret hm where add: "hash_add d h [kn_key n] = (ret, hm)" by (cases "hash_add d h [kn_key n]")
  note addD = hash_addD [OF assms(2) add]
  have other: "hash_lookup d hm [k] = hash_lookup d h [k]" if "k \<noteq> kn_key n" for k
    using that by (intro addD(4)) simp
  show ?case
  proof (cases "ret < 0")
    case True
    with Cons.prems add have "h' = hm" "pool' = pool" by (auto simp: not_le)
    with addD(5) [OF True] Cons.prems(3) show ?thesis by fastforce
  next
    case False
    let ?blk = "\<lparr>hm_key = kn_key n, hm_entries = map ((!) rows) (kn_entries n)\<rparr>"
    from False Cons.prems(1) add have ret: "nat ret < length pool" "0 \<le> ret"
      and rest: "populate d rows ns (hm, pool[nat ret := ?blk]) = Inr (h', pool')"
      by (auto simp: rd_all_spec access_iff res_bind_Inr_iff)
    have at: "hash_lookup d hm [kn_key n] = ret" using addD(3) ret(2) .
    have fresh: "\<forall>m \<in> set ns. hash_lookup d hm [kn_key m] < 0"
      using Cons.prems(2,3) other by (metis distinct.simps(2) image_eqI list.set_intros(2) list.set_map list.simps(9))
    note IH = Cons.IH [OF rest _ fresh]
    have dist: "distinct (map kn_key ns)" "kn_key n \<notin> kn_key ` set ns" using Cons.prems(2) by auto
    have block: "(pool[nat ret := ?blk]) ! nat (hash_lookup d h [k]) = pool ! nat (hash_lookup d h [k])"
      if "k \<noteq> kn_key n" "0 \<le> hash_lookup d h [k]" for k
    proof -
      have "hash_lookup d hm [k] \<noteq> ret"
        using hash_lookup_inj [OF assms(2), of hm "[k]" "[kn_key n]"] at other that by auto
      then show ?thesis using other that ret by (metis nat_eq_iff nth_list_update_neq)
    qed
    have self: "hash_lookup d h' [kn_key n] = ret" "pool' ! nat ret = ?blk"
      using IH dist at ret by auto
    show ?thesis
    proof (intro conjI allI ballI impI)
      fix k assume k: "k \<notin> kn_key ` set (n # ns)"
      then show "hash_lookup d h' [k] = hash_lookup d h [k]" using IH dist other by auto
      assume "0 \<le> hash_lookup d h [k]"
      with k IH dist other block show "pool' ! nat (hash_lookup d h [k]) = pool ! nat (hash_lookup d h [k])"
        by auto
    qed (use IH dist self ret in auto)
  qed
qed

text \<open>What a successful creation leaves behind.\<close>

lemma xfsm_table_createE:
  assumes "xfsm_table_create d names rows sz init conds nb lk tid = Inr (names', t)"
  obtains ns eh pool where
    "build_key_list rows (unat sz) = Inr ns"
    "rte_hash_create d names (''entries_hash'', tid, rte_lcore_id d) 10 = eh"
    "populate d rows ns (eh, replicate (unat sz) \<lparr>hm_key = 0, hm_entries = []\<rparr>)
       = Inr (entries_hmap t, state_entries_pool t)"
    "conditions t = take 16 conds" "length (conditions t) = 16" "nb_conditions t = nb"
    "t_lookup_key t = lk" "default_state t = ucast init" "nb_instances t = 0" "table_id t = tid"
    "\<And>i. i < 1000000 \<Longrightarrow> instances_pool t i = (init_instance zero_instance t)\<lparr>current_state := 0\<rparr>"
    "global_registers t = replicate 32 0" "pkt_fields t = null_fields"
proof -
  from assms obtain ns where ns: "build_key_list rows (unat sz) = Inr ns"
    by (auto simp: xfsm_table_create_def)
  let ?eh = "rte_hash_create d names (''entries_hash'', tid, rte_lcore_id d) 10"
  let ?p = "populate d rows ns (?eh, replicate (unat sz) \<lparr>hm_key = 0, hm_entries = []\<rparr>)"
  from assms ns obtain eh' pool' where p: "?p = Inr (eh', pool')"
    by (cases ?p) (auto simp: xfsm_table_create_def Let_def)
  from assms ns p show thesis
    by (intro that [OF ns refl])
       (auto simp: xfsm_table_create_def Let_def init_instance_def zero_table_def null_fields_def
         split: if_splits)
qed

lemma create_wf_fields:
  "xfsm_table_create d names rows sz init conds nb lk tid = Inr (names', t) \<Longrightarrow>
     wf_fields (pkt_fields t) \<and> length (global_registers t) = 32"
  by (erule xfsm_table_createE) simp

text \<open>Hash lookups in a created table: a state with a position has its rows there.\<close>

lemma create_block:
  assumes c: "xfsm_table_create d names rows sz init conds nb lk tid = Inr (names', t)"
    and ok: "rte_hash_ok d" and no_null: "\<forall>r \<in> set rows. e_current_state r \<noteq> STATE_NULL"
    and hit: "0 \<le> hash_lookup d (entries_hmap t) [s]"
  shows "nat (hash_lookup d (entries_hmap t) [s]) < unat sz \<and>
    length (state_entries_pool t) = unat sz \<and> unat sz \<le> length rows \<and>
    hm_entries (state_entries_pool t ! nat (hash_lookup d (entries_hmap t) [s])) =
      filter (\<lambda>r. e_current_state r = s) (take (unat sz) rows)"
proof (rule xfsm_table_createE [OF c])
  fix ns eh
  assume ns: "build_key_list rows (unat sz) = Inr ns"
    and eh: "rte_hash_create d names (''entries_hash'', tid, rte_lcore_id d) 10 = eh"
    and p: "populate d rows ns (eh, replicate (unat sz) \<lparr>hm_key = 0, hm_entries = []\<rparr>)
       = Inr (entries_hmap t, state_entries_pool t)"
  have len: "unat sz \<le> length rows" by (rule build_key_list_length) (rule ns)
  then have inv: "key_inv rows (unat sz) ns"
    using no_null by (intro build_key_list_inv [OF ns]) simp
  have fresh: "hash_lookup d eh k < 0" for k
    using eh rte_hash_create_empty [OF ok] by (auto simp: hash_lookup_def split: option.splits)
  from inv have dist: "distinct (map kn_key ns)" by (simp add: key_inv_def)
  note spec = populate_spec [OF p ok dist]
  have fresh': "\<forall>n \<in> set ns. hash_lookup d eh [kn_key n] < 0" using fresh by blast
  have "s \<in> kn_key ` set ns"
    using spec [OF fresh', THEN conjunct2, THEN conjunct1, rule_format, of s] hit fresh [of "[s]"]
    by (cases "s \<in> kn_key ` set ns") simp_all
  then obtain n where n: "n \<in> set ns" "kn_key n = s" by auto
  with inv have "kn_entries n = rows_of rows (unat sz) s" by (auto simp: key_inv_def)
  moreover have "map ((!) rows) (rows_of rows m s) = filter (\<lambda>r. e_current_state r = s) (take m rows)"
    if "m \<le> length rows" for m
    using that by (induction m) (auto simp: rows_of_Suc take_Suc_conv_app_nth, simp add: rows_of_def)
  ultimately show ?thesis
    using spec [OF fresh', THEN conjunct2, THEN conjunct2, rule_format, OF n(1)]
      spec [OF fresh', THEN conjunct1] hit n len
    by simp
qed

lemma table_lookup_spec:
  assumes c: "xfsm_table_create d names rows (of_nat (length rows)) init conds nb lk tid = Inr (names', t)"
    and "rte_hash_ok d" and "length rows < 256"
    and "\<forall>r \<in> set rows. e_current_state r \<noteq> STATE_NULL \<and> wf_entry r"
    and "wf_instance inst" and "unat nb \<le> MAX_CONDITIONS"
    and hit: "current_state inst \<in> e_current_state ` set rows \<Longrightarrow>
           0 \<le> hash_lookup d (entries_hmap t) [current_state inst]"
  shows "xfsm_table_lookup d t inst =
    Inr (find (\<lambda>r. e_current_state r = current_state inst \<and> row_matches (unat nb) (results inst) r) rows)"
proof (cases "0 \<le> hash_lookup d (entries_hmap t) [current_state inst]")
  case True
  let ?s = "current_state inst"
  have size: "unat (of_nat (length rows) :: u8) = length rows"
    using assms(3) by (simp add: unat_of_nat)
  have "\<forall>r \<in> set rows. e_current_state r \<noteq> STATE_NULL" using assms(4) by blast
  note blk = create_block [OF c assms(2) this True]
  have nb: "nb_conditions t = nb" by (rule xfsm_table_createE [OF c])
  have "scan_entries (unat nb) (results inst) (filter (\<lambda>r. e_current_state r = ?s) rows) =
      Inr (find (\<lambda>r. e_current_state r = ?s \<and> row_matches (unat nb) (results inst) r) rows)"
    using assms(4-6) by (intro scan_filtered) blast+
  with True blk nb size show ?thesis by (simp add: xfsm_table_lookup_def Let_def)
next
  case False
  with hit have "current_state inst \<notin> e_current_state ` set rows" by blast
  then have "find (\<lambda>r. e_current_state r = current_state inst \<and> row_matches (unat nb) (results inst) r) rows
      = None"
    by (auto simp: find_None_iff image_iff)
  with False show ?thesis by (simp add: xfsm_table_lookup_def)
qed

section \<open>A table for the witnesses\<close>

text \<open>Two rows, for the states \<open>a\<close> and \<open>b\<close>, without actions and with no condition to fail.\<close>

definition demo_row :: "u32 \<Rightarrow> u32 \<Rightarrow> xfsm_table_entry" where
  "demo_row s s' =
     \<lparr>e_current_state = s, e_next_state = s', e_next_stage = NULL_STAGE,
      e_results = replicate MAX_CONDITIONS XFSM_DONT_CARE,
      e_actions = replicate MAX_ACTIONS
        \<lparr>a_type = XFSM_UPDATE, a_opcode = XFSM_SUM, a_type1 = XFSM_CONSTANT, a_value1 = 0,
         a_type2 = XFSM_CONSTANT, a_value2 = 0, a_type3 = XFSM_CONSTANT, a_value3 = 0,
         a_output = 0, a_out_type = XFSM_REGISTER\<rparr>,
      nb_actions = 0, e_priority = 0, idle_timeout = 0, hard_timeout = 0\<rparr>"

definition demo_lookup_key :: lookup_key where
  "demo_lookup_key = \<lparr>lk_size = 2, lk_fld = [IPv4_SRC, IPv4_DST] @ replicate 6 SRC_MAC, biflow_no = 0\<rparr>"

definition demo_create :: "xfsm_table_entry list \<Rightarrow> (obj_name list \<times> slot_table xfsm_table) res" where
  "demo_create rows =
     xfsm_table_create slot_dpdk [] rows (of_nat (length rows)) 3 (replicate 16 zero_condition) 1
       demo_lookup_key 0"

lemma demo_row_simps [simp]:
  "e_current_state (demo_row s s') = s" "wf_entry (demo_row s s')"
  "e_results (demo_row s s') = replicate MAX_CONDITIONS XFSM_DONT_CARE"
  by (simp_all add: demo_row_def wf_entry_def)

lemma slots_10: "replicate 10 x = [x, x, x, x, x, x, x, x, x, x]"
  by (simp add: numeral_eq_Suc)

lemma slot_find_Cons:
  "slot_find [] k = None"
  "slot_find (x # xs) k = (if x = k then Some 0 else map_option Suc (slot_find xs k))"
proof -
  have "find P (map Suc xs) = map_option Suc (find (P \<circ> Suc) xs)" for P and xs :: "nat list"
    by (induction xs) auto
  moreover have "[0..<length (x # xs)] = 0 # map Suc [0..<length xs]"
    by (simp add: upt_conv_Cons map_Suc_upt del: upt_Suc)
  ultimately show "slot_find (x # xs) k = (if x = k then Some 0 else map_option Suc (slot_find xs k))"
    by (simp add: slot_find_def comp_def del: upt_Suc)
qed (simp add: slot_find_def)

lemma demo_create_two:
  "\<exists>names t. demo_create [demo_row 0 1, demo_row 1 0] = Inr (names, t) \<and>
     entries_hmap t = Some ([Some [0], Some [1]] @ replicate 8 None)"
proof -
  have keys: "build_key_list [demo_row 0 1, demo_row 1 0] 2 =
      Inr [\<lparr>kn_key = 0, kn_entries = [0]\<rparr>, \<lparr>kn_key = 1, kn_entries = [1]\<rparr>]"
    by (simp add: build_key_list_def key_list_step_def insert_key_def upt_rec)
  have pop: "populate slot_dpdk [demo_row 0 1, demo_row 1 0]
      [\<lparr>kn_key = 0, kn_entries = [0]\<rparr>, \<lparr>kn_key = 1, kn_entries = [1]\<rparr>]
      (Some (replicate 10 None), replicate 2 \<lparr>hm_key = 0, hm_entries = []\<rparr>) =
    Inr (Some ([Some [0], Some [1]] @ replicate 8 None),
         [\<lparr>hm_key = 0, hm_entries = [demo_row 0 1]\<rparr>, \<lparr>hm_key = 1, hm_entries = [demo_row 1 0]\<rparr>])"
    by (simp add: hash_add_def slot_add_def slots_10 slot_find_Cons numeral_eq_Suc)
  show ?thesis
    using keys pop by (simp add: demo_create_def xfsm_table_create_def Let_def)
qed

section \<open>Properties\<close>

text \<open>
  C3: Table lookup is first-match search over the configured rows. In a table built from
  rows none of which has the reserved state 255, for a state the hash table could hold, the
  lookup returns the first configured row, in configuration order, whose state is the
  instance's and whose condition results agree or are "don't care" -- and no row when the
  state has none or when the table has no condition at all.
\<close>

theorem lookup_first_match:
  assumes c: "xfsm_table_create d names rows (of_nat (length rows)) init conds nb lk tid = Inr (names', t)"
    and "rte_hash_ok d" and "length rows < 256"
    and "\<forall>r \<in> set rows. e_current_state r \<noteq> STATE_NULL \<and> wf_entry r"
    and "wf_instance inst" and "unat nb \<le> MAX_CONDITIONS"
    and hit: "current_state inst \<in> e_current_state ` set rows \<Longrightarrow>
           0 \<le> hash_lookup d (entries_hmap t) [current_state inst]"
  shows "xfsm_table_lookup d t inst =
    Inr (find (\<lambda>r. e_current_state r = current_state inst \<and> row_matches (unat nb) (results inst) r) rows)"
  by (rule table_lookup_spec [OF assms])

theorem lookup_first_match_witness:
  "\<exists>names t. demo_create [demo_row 0 1, demo_row 1 0] = Inr (names, t) \<and>
     xfsm_table_lookup slot_dpdk t (zero_instance\<lparr>current_state := 1\<rparr>) = Inr (Some (demo_row 1 0))"
proof -
  obtain names t where t: "demo_create [demo_row 0 1, demo_row 1 0] = Inr (names, t)"
    "entries_hmap t = Some ([Some [0], Some [1]] @ replicate 8 None)"
    using demo_create_two by blast
  have "wf_instance (zero_instance\<lparr>current_state := 1\<rparr>)"
    using wf_zero_instance by (simp add: wf_instance_def)
  moreover have "hash_lookup slot_dpdk (entries_hmap t) [1] = 1"
    using t(2) by (simp add: hash_lookup_def slot_lookup_def slot_find_Cons)
  ultimately show ?thesis
    using lookup_first_match [OF t(1) [unfolded demo_create_def] slot_hash_ok,
        of "zero_instance\<lparr>current_state := 1\<rparr>"] t(1)
    by (auto simp: row_matches_def)
qed

text \<open>
  A table needs a row for state 0. The list of keys always holds state 0, while the
  pool has one block per row: if the rows have pairwise different states, none of them 0 or
  255, no creation returns a table that holds the configured states and state 0. It writes
  past the pool, or stops early and leaves states out.
\<close>

theorem no_state_zero_overflows:
  assumes ok: "rte_hash_ok d" and "length rows < 256"
    and "distinct (map e_current_state rows)"
    and "\<forall>r \<in> set rows. e_current_state r \<noteq> 0 \<and> e_current_state r \<noteq> STATE_NULL"
  shows "\<not> (\<exists>names' t.
    xfsm_table_create d names rows (of_nat (length rows)) init conds nb lk tid = Inr (names', t) \<and>
    (\<forall>s \<in> insert 0 (e_current_state ` set rows). 0 \<le> hash_lookup d (entries_hmap t) [s]))"
proof
  let ?S = "insert 0 (e_current_state ` set rows)"
  assume "\<exists>names' t.
    xfsm_table_create d names rows (of_nat (length rows)) init conds nb lk tid = Inr (names', t) \<and>
    (\<forall>s \<in> ?S. 0 \<le> hash_lookup d (entries_hmap t) [s])"
  then obtain names' t where
    c: "xfsm_table_create d names rows (of_nat (length rows)) init conds nb lk tid = Inr (names', t)"
    and hit: "\<And>s. s \<in> ?S \<Longrightarrow> 0 \<le> hash_lookup d (entries_hmap t) [s]" by blast
  let ?pos = "\<lambda>s. nat (hash_lookup d (entries_hmap t) [s])"
  have "unat (of_nat (length rows) :: u8) = length rows" using assms(2) by (simp add: unat_of_nat)
  with create_block [OF c ok _ hit] assms(4) have "?pos ` ?S \<subseteq> {..<length rows}" by force
  moreover have "inj_on ?pos ?S"
  proof (rule inj_onI)
    fix s s' assume "s \<in> ?S" "s' \<in> ?S" "?pos s = ?pos s'"
    with hit have "hash_lookup d (entries_hmap t) [s] = hash_lookup d (entries_hmap t) [s']"
      by (metis nat_eq_iff)
    with hash_lookup_inj [OF ok hit [OF \<open>s \<in> ?S\<close>]] show "s = s'" by blast
  qed
  ultimately have "card ?S \<le> card {..<length rows}" by (metis card_inj_on_le finite_lessThan)
  moreover have "card ?S = Suc (length rows)"
    using assms(3,4) distinct_card [OF assms(3)] by (subst card_insert_disjoint) auto
  ultimately show False by simp
qed

theorem no_state_zero_overflows_witness:
  "\<not> (\<exists>names t. demo_create [demo_row 1 1] = Inr (names, t) \<and>
    (\<forall>s \<in> {0, 1}. 0 \<le> hash_lookup slot_dpdk (entries_hmap t) [s]))"
  using no_state_zero_overflows [OF slot_hash_ok, of "[demo_row 1 1]"]
  by (simp add: demo_create_def)

lemma null_key_list:
  assumes "build_key_list (pre @ [r]) (Suc (length pre)) = Inr ns"
    and "\<forall>e \<in> set pre. e_current_state e \<noteq> STATE_NULL" and "e_current_state r = STATE_NULL"
  shows "distinct (map kn_key ns) \<and> 0 \<notin> kn_key ` set ns \<and>
    \<lparr>kn_key = STATE_NULL, kn_entries = rows_of pre (length pre) 0 @ [length pre]\<rparr> \<in> set ns"
proof -
  let ?n = "length pre" and ?rows = "pre @ [r]"
  from assms(1) obtain ms where ms: "build_key_list ?rows ?n = Inr ms"
    and step: "key_list_step ?rows ?n ms = Inr ns"
    by (auto simp: build_key_list_def run_steps_snoc)
  have inv: "key_inv ?rows ?n ms"
    by (rule build_key_list_inv [OF ms]) (use assms(2) in \<open>auto simp: nth_append\<close>)
  then obtain k ks where k: "ms = k # ks" "kn_key k = 0" by (cases ms) (auto simp: key_inv_def)
  have "STATE_NULL \<notin> kn_key ` set ms"
    using inv assms(2) by (auto simp: key_inv_def states_of_def nth_append)
  with step k assms(3) have "ns = k\<lparr>kn_key := STATE_NULL, kn_entries := kn_entries k @ [?n]\<rparr> # ks"
    and null: "STATE_NULL \<notin> kn_key ` set ks"
    by (auto simp: key_list_step_def Let_def search_key_iff insert_key_def split: if_splits)
  moreover have "kn_entries k = rows_of pre ?n 0"
    using inv k by (auto simp: key_inv_def rows_of_def nth_append intro: filter_cong)
  ultimately show ?thesis using inv k by (auto simp: key_inv_def)
qed

text \<open>
  A row with the reserved state 255 disables state 0. If the last of the rows has state
  255 and no other has, its key replaces the key 0 of the list head: instances in state 0
  then match no row at all, and instances in state 255 match the rows configured for state 0
  as well as their own.
\<close>

theorem state_null_disables_zero:
  assumes c: "xfsm_table_create d names (pre @ [r]) (of_nat (Suc (length pre))) init conds nb lk tid
      = Inr (names', t)"
    and ok: "rte_hash_ok d" and "Suc (length pre) < 256"
    and "\<forall>e \<in> set pre. e_current_state e \<noteq> STATE_NULL \<and> wf_entry e"
    and "e_current_state r = STATE_NULL" and "wf_entry r"
    and "wf_instance inst" and "unat nb \<le> MAX_CONDITIONS"
  shows "(current_state inst = 0 \<longrightarrow> xfsm_table_lookup d t inst = Inr None) \<and>
    (current_state inst = STATE_NULL \<and> 0 \<le> hash_lookup d (entries_hmap t) [STATE_NULL] \<longrightarrow>
       xfsm_table_lookup d t inst =
         Inr (find (\<lambda>e. e_current_state e \<in> {0, STATE_NULL} \<and> row_matches (unat nb) (results inst) e)
               (pre @ [r])))"
proof (rule xfsm_table_createE [OF c])
  fix ns eh
  let ?rows = "pre @ [r]" and ?n = "length pre"
  let ?blk = "rows_of pre ?n 0 @ [?n]"
  have sz: "unat (of_nat (Suc ?n) :: u8) = Suc ?n" using assms(3) by (simp add: unat_of_nat del: of_nat_Suc)
  assume ns: "build_key_list ?rows (unat (of_nat (Suc ?n) :: u8)) = Inr ns"
    and eh: "rte_hash_create d names (''entries_hash'', tid, rte_lcore_id d) 10 = eh"
    and p: "populate d ?rows ns (eh, replicate (unat (of_nat (Suc ?n) :: u8)) \<lparr>hm_key = 0, hm_entries = []\<rparr>)
       = Inr (entries_hmap t, state_entries_pool t)"
    and nb: "nb_conditions t = nb"
  have "\<forall>e \<in> set pre. e_current_state e \<noteq> STATE_NULL" using assms(4) by blast
  note keys = null_key_list [OF ns [unfolded sz] this assms(5)]
  have fresh: "hash_lookup d eh k < 0" for k
    using eh rte_hash_create_empty [OF ok] by (auto simp: hash_lookup_def split: option.splits)
  note spec = populate_spec [OF p ok keys [THEN conjunct1]]
  have zero: "hash_lookup d (entries_hmap t) [0] < 0" using spec fresh keys by auto
  have rows: "map ((!) ?rows) ?blk = filter (\<lambda>e. e_current_state e \<in> {0, STATE_NULL}) ?rows"
  proof -
    have "map ((!) ?rows) (rows_of pre m 0) = filter (\<lambda>e. e_current_state e = 0) (take m pre)"
      if "m \<le> ?n" for m
      using that by (induction m) (auto simp: rows_of_Suc take_Suc_conv_app_nth nth_append, simp add: rows_of_def)
    from this [of ?n] show ?thesis using assms(4,5) by (auto intro: filter_cong)
  qed
  have scan: "scan_entries (unat nb) (results inst) (map ((!) ?rows) ?blk) =
      Inr (find (\<lambda>e. e_current_state e \<in> {0, STATE_NULL} \<and> row_matches (unat nb) (results inst) e) ?rows)"
    unfolding rows using assms(4,6-8) by (intro scan_filtered) auto
  have "rd (state_entries_pool t) (nat (hash_lookup d (entries_hmap t) [STATE_NULL])) =
      Inr \<lparr>hm_key = STATE_NULL, hm_entries = map ((!) ?rows) ?blk\<rparr>"
    if "0 \<le> hash_lookup d (entries_hmap t) [STATE_NULL]"
    using spec fresh keys that by (fastforce simp: sz)
  with zero scan nb show ?thesis by (auto simp: xfsm_table_lookup_def Let_def)
qed

theorem state_null_disables_zero_witness:
  "\<exists>names t. demo_create [demo_row 0 1, demo_row STATE_NULL 0] = Inr (names, t) \<and>
     xfsm_table_lookup slot_dpdk t zero_instance = Inr None"
proof -
  have keys: "build_key_list [demo_row 0 1, demo_row STATE_NULL 0] 2 =
      Inr [\<lparr>kn_key = STATE_NULL, kn_entries = [0, 1]\<rparr>]"
    by (simp add: build_key_list_def key_list_step_def insert_key_def upt_rec)
  have "\<exists>hp. populate slot_dpdk [demo_row 0 1, demo_row STATE_NULL 0]
      [\<lparr>kn_key = STATE_NULL, kn_entries = [0, 1]\<rparr>]
      (Some (replicate 10 None), replicate 2 \<lparr>hm_key = 0, hm_entries = []\<rparr>) = Inr hp"
    by (simp add: hash_add_def slot_add_def slots_10 slot_find_Cons numeral_eq_Suc)
  with keys obtain names t where
    t: "demo_create [demo_row 0 1, demo_row STATE_NULL 0] = Inr (names, t)"
    by (auto simp: demo_create_def xfsm_table_create_def Let_def)
  have "current_state zero_instance = 0" by (simp add: zero_instance_def)
  with t state_null_disables_zero [of slot_dpdk "[]" "[demo_row 0 1]" "demo_row STATE_NULL 0",
      OF _ slot_hash_ok _ _ _ _ wf_zero_instance]
  show ?thesis by (fastforce simp: demo_create_def)
qed

end
