(* ===== verification/Instances.thy ===== *)
theory Instances
  imports Xfsm_Table
begin

text \<open>
  SW-FB/xfsm.c: the flow instances of a table, \<open>lookup_instance\<close>, \<open>insert_instance\<close> and
  \<open>destroy_instance\<close>. An instance is named by its index in the pool, which is the position
  the hash table gives its flow key. The interface \<open>flow_store\<close> states what the packet loop
  relies on: a store of one instance per flow key in which an operation on one flow leaves
  every other flow alone.
\<close>

definition insert_instance ::
  "'h dpdk \<Rightarrow> 'h xfsm_table \<Rightarrow> flow_key \<Rightarrow> (nat option \<times> 'h xfsm_table) res" where
  "insert_instance d xfsm fk =
     (if nb_instances xfsm \<noteq> of_nat (MAX_INSTANCES - 1) then
        (case hash_add d (instances_hmap xfsm) fk of
           (ret, h) \<Rightarrow>
             let xfsm' = xfsm\<lparr>instances_hmap := h\<rparr> in
             if ret \<ge> 0 then
               (if nat ret < MAX_INSTANCES
                then Inr (Some (nat ret),
                  xfsm'\<lparr>instances_pool := (instances_pool xfsm)
                            (nat ret := (instances_pool xfsm (nat ret))\<lparr>i_flow_key := fk\<rparr>),
                        nb_instances := nb_instances xfsm + 1\<rparr>)
                else Inl (UB OutOfBounds))
             else Inr (None, xfsm'))
      else Inr (None, xfsm))"

definition lookup_instance ::
  "'h dpdk \<Rightarrow> 'h xfsm_table \<Rightarrow> flow_key \<Rightarrow> (nat option \<times> 'h xfsm_table) res" where
  "lookup_instance d xfsm fk =
     (let ret = hash_lookup d (instances_hmap xfsm) fk in
      if ret \<ge> 0
      then (if nat ret < MAX_INSTANCES then Inr (Some (nat ret), xfsm) else Inl (UB OutOfBounds))
      else insert_instance d xfsm fk)"

definition destroy_instance ::
  "'h dpdk \<Rightarrow> 'h xfsm_table \<Rightarrow> nat \<Rightarrow> (int \<times> 'h xfsm_table) res" where
  "destroy_instance d xfsm i =
     (if i < MAX_INSTANCES then
        (case hash_del d (instances_hmap xfsm) (i_flow_key (instances_pool xfsm i)) of
           (ret, h) \<Rightarrow>
             let xfsm' = xfsm\<lparr>instances_hmap := h\<rparr> in
             if ret < 0 then Inr (ret, xfsm')
             else Inr (ret, xfsm'\<lparr>instances_pool :=
                    (instances_pool xfsm)(i := init_instance (instances_pool xfsm i) xfsm')\<rparr>))
      else Inl (UB OutOfBounds))"

section \<open>The interface\<close>

text \<open>
  \<open>at s k\<close> is the slot of flow \<open>k\<close>, \<open>inst s i\<close> the contents of a slot, \<open>okk\<close> the keys in use,
  \<open>blank s x\<close> what a slot given to a new flow may hold.
\<close>

locale flow_store =
  fixes get :: "'s \<Rightarrow> 'k \<Rightarrow> (nat option \<times> 's) res"
    and del :: "'s \<Rightarrow> nat \<Rightarrow> (int \<times> 's) res"
    and at :: "'s \<Rightarrow> 'k \<Rightarrow> nat option"
    and inst :: "'s \<Rightarrow> nat \<Rightarrow> 'i"
    and blank :: "'s \<Rightarrow> 'k \<Rightarrow> 'i \<Rightarrow> bool"
    and okk :: "'k \<Rightarrow> bool"
    and inv :: "'s \<Rightarrow> bool"
  assumes get_present: "inv s \<Longrightarrow> okk k \<Longrightarrow> at s k = Some i \<Longrightarrow> get s k = Inr (Some i, s)"
    and get_new: "inv s \<Longrightarrow> okk k \<Longrightarrow> at s k = None \<Longrightarrow>
          (\<exists>i s'. get s k = Inr (Some i, s') \<and> inv s' \<and> at s' k = Some i \<and> blank s k (inst s' i) \<and>
             (\<forall>k'. k' \<noteq> k \<longrightarrow> at s' k' = at s k') \<and> (\<forall>j. j \<noteq> i \<longrightarrow> inst s' j = inst s j)) \<or>
          (\<exists>s'. get s k = Inr (None, s') \<and> inv s' \<and> at s' = at s \<and> inst s' = inst s)"
    and del_present: "inv s \<Longrightarrow> at s k = Some i \<Longrightarrow>
          \<exists>s'. del s i = Inr (int i, s') \<and> inv s' \<and> at s' k = None \<and>
             (\<forall>k'. k' \<noteq> k \<longrightarrow> at s' k' = at s k') \<and> (\<forall>j. j \<noteq> i \<longrightarrow> inst s' j = inst s j)"
    and at_inj: "inv s \<Longrightarrow> at s k = Some i \<Longrightarrow> at s k' = Some i \<Longrightarrow> k = k'"
begin

text \<open>The store as a map from flow keys to instance data.\<close>

definition view :: "'s \<Rightarrow> 'k \<Rightarrow> 'i option" where
  "view s k = map_option (inst s) (at s k)"

lemma get_cases:
  assumes "inv s" and "okk k"
  obtains (hit) i where "get s k = Inr (Some i, s)" "at s k = Some i"
  | (new) i s' where "at s k = None" "get s k = Inr (Some i, s')" "inv s'" "at s' k = Some i"
      "blank s k (inst s' i)" "view s' = (view s)(k \<mapsto> inst s' i)"
  | (full) s' where "at s k = None" "get s k = Inr (None, s')" "inv s'" "view s' = view s"
proof (cases "at s k")
  case (Some i)
  with assms get_present hit show thesis by blast
next
  case None
  from get_new [OF assms None] show thesis
  proof (elim disjE exE conjE)
    fix i s' assume *: "get s k = Inr (Some i, s')" "inv s'" "at s' k = Some i" "blank s k (inst s' i)"
      "\<forall>k'. k' \<noteq> k \<longrightarrow> at s' k' = at s k'" "\<forall>j. j \<noteq> i \<longrightarrow> inst s' j = inst s j"
    have "view s' k' = ((view s)(k \<mapsto> inst s' i)) k'" for k'
    proof (cases "k' = k")
      case False
      show ?thesis
      proof (cases "at s' k'")
        case (Some j)
        with * False at_inj [OF *(2) Some, of k] have "j \<noteq> i" by auto
        with * False Some show ?thesis by (simp add: view_def)
      qed (use * False in \<open>simp add: view_def\<close>)
    qed (use * in \<open>simp add: view_def\<close>)
    with * None new show thesis by blast
  next
    fix s' assume "get s k = Inr (None, s')" "inv s'" "at s' = at s" "inst s' = inst s"
    with None full show thesis by (simp add: view_def fun_eq_iff)
  qed
qed

lemma del_view:
  assumes "inv s" and "at s k = Some i"
  shows "\<exists>s'. del s i = Inr (int i, s') \<and> inv s' \<and> view s' = (view s)(k := None)"
proof -
  from del_present [OF assms] obtain s' where *: "del s i = Inr (int i, s')" "inv s'" "at s' k = None"
    "\<forall>k'. k' \<noteq> k \<longrightarrow> at s' k' = at s k'" "\<forall>j. j \<noteq> i \<longrightarrow> inst s' j = inst s j" by blast
  have "view s' k' = ((view s)(k := None)) k'" for k'
  proof (cases "k' = k")
    case False
    show ?thesis
    proof (cases "at s k'")
      case (Some j)
      with False at_inj [OF assms(1) Some, of k] assms(2) have "j \<noteq> i" by auto
      with * False Some show ?thesis by (simp add: view_def)
    qed (use * False in \<open>simp add: view_def\<close>)
  qed (use * in \<open>simp add: view_def\<close>)
  with * show ?thesis by blast
qed

text \<open>Any sequence of creations and deletions of other flows leaves a flow's instance as it is.\<close>

lemma get_inv: "inv s \<Longrightarrow> okk k \<Longrightarrow> get s k = Inr (r, s') \<Longrightarrow> inv s'"
  by (rule get_cases) auto

lemma get_isolated: "inv s \<Longrightarrow> okk k \<Longrightarrow> get s k = Inr (r, s') \<Longrightarrow> k' \<noteq> k \<Longrightarrow> view s' k' = view s k'"
  by (rule get_cases) auto

lemma get_at: "inv s \<Longrightarrow> okk k \<Longrightarrow> get s k = Inr (Some i, s') \<Longrightarrow> at s' k = Some i"
  by (rule get_cases) auto

lemma get_returns: "inv s \<Longrightarrow> okk k \<Longrightarrow> \<exists>r s'. get s k = Inr (r, s')"
  by (rule get_cases) auto

end

section \<open>The invariant of the instance store\<close>

definition inst_at :: "'h dpdk \<Rightarrow> 'h xfsm_table \<Rightarrow> flow_key \<Rightarrow> nat option" where
  "inst_at d t fk =
     (if 0 \<le> hash_lookup d (instances_hmap t) fk then Some (nat (hash_lookup d (instances_hmap t) fk))
      else None)"

definition blank_instance :: "'h xfsm_table \<Rightarrow> flow_key \<Rightarrow> xfsm_instance \<Rightarrow> bool" where
  "blank_instance t fk inst \<longleftrightarrow>
     (\<exists>s \<in> {0, default_state t}.
        inst = (init_instance zero_instance t)\<lparr>current_state := s, i_flow_key := fk\<rparr>)"

definition inst_inv :: "'h dpdk \<Rightarrow> 'h xfsm_table \<Rightarrow> bool" where
  "inst_inv d t \<longleftrightarrow>
     rte_hash_ok d \<and> hash_size d (instances_hmap t) \<le> MAX_INSTANCES \<and>
     (\<forall>fk i. inst_at d t fk = Some i \<longrightarrow>
        i_flow_key (instances_pool t i) = fk \<and> wf_instance (instances_pool t i)) \<and>
     (\<forall>i < MAX_INSTANCES. (\<forall>fk. inst_at d t fk \<noteq> Some i) \<longrightarrow>
        blank_instance t (replicate 8 0) (instances_pool t i))"

lemma inst_at_bound: "inst_inv d t \<Longrightarrow> inst_at d t fk = Some i \<Longrightarrow> i < MAX_INSTANCES"
  using hash_lookup_bound [of d "instances_hmap t" fk]
  by (auto simp: inst_inv_def inst_at_def split: if_splits)

lemma inst_at_inj: "inst_inv d t \<Longrightarrow> inst_at d t k = Some i \<Longrightarrow> inst_at d t k' = Some i \<Longrightarrow> k = k'"
  by (auto simp: inst_inv_def inst_at_def split: if_splits intro: hash_lookup_inj)

lemma wf_init_instance [simp]: "wf_instance (init_instance inst t)"
  by (simp add: wf_instance_def init_instance_def)

lemma wf_blank: "blank_instance t fk inst \<Longrightarrow> length fk = 8 \<Longrightarrow> wf_instance inst"
  by (auto simp: blank_instance_def wf_instance_def init_instance_def)

lemma blank_instance_cong:
  "default_state t' = default_state t \<Longrightarrow> blank_instance t' fk inst = blank_instance t fk inst"
  by (simp add: blank_instance_def init_instance_def)

lemma init_instance_blank:
  "default_state t' = default_state t \<Longrightarrow> blank_instance t (replicate 8 0) (init_instance inst t')"
  by (cases inst) (auto simp: blank_instance_def init_instance_def zero_instance_def)

lemma blank_rekey: "blank_instance t fk inst \<Longrightarrow> blank_instance t fk' (inst\<lparr>i_flow_key := fk'\<rparr>)"
  by (auto simp: blank_instance_def init_instance_def)

lemma lookup_present:
  "inst_inv d t \<Longrightarrow> inst_at d t k = Some i \<Longrightarrow> lookup_instance d t k = Inr (Some i, t)"
  using inst_at_bound [of d t k i] by (auto simp: lookup_instance_def inst_at_def Let_def split: if_splits)

lemma lookup_new:
  assumes inv: "inst_inv d t" and len: "length k = 8" and absent: "inst_at d t k = None"
  shows "(\<exists>i t'. lookup_instance d t k = Inr (Some i, t') \<and> inst_inv d t' \<and> inst_at d t' k = Some i \<and>
      blank_instance t k (instances_pool t' i) \<and>
      (\<forall>k'. k' \<noteq> k \<longrightarrow> inst_at d t' k' = inst_at d t k') \<and>
      (\<forall>j. j \<noteq> i \<longrightarrow> instances_pool t' j = instances_pool t j)) \<or>
    (\<exists>t'. lookup_instance d t k = Inr (None, t') \<and> inst_inv d t' \<and> inst_at d t' = inst_at d t \<and>
      instances_pool t' = instances_pool t)"
proof (cases "nb_instances t = of_nat (MAX_INSTANCES - 1)")
  case True
  with inv absent show ?thesis
    by (auto simp: lookup_instance_def insert_instance_def inst_at_def Let_def split: if_splits)
next
  case False
  obtain ret h where add: "hash_add d (instances_hmap t) k = (ret, h)" by (cases "hash_add d (instances_hmap t) k")
  have ok: "rte_hash_ok d" using inv by (simp add: inst_inv_def)
  note addD = hash_addD [OF ok add]
  show ?thesis
  proof (cases "ret < 0")
    case True
    let ?t = "t\<lparr>instances_hmap := h\<rparr>"
    have same: "inst_at d ?t = inst_at d t"
      by (rule ext) (simp add: inst_at_def addD(5) [OF True])
    have "inst_inv d ?t"
      using inv addD(1) by (simp add: inst_inv_def same blank_instance_cong [of ?t t])
    moreover have "lookup_instance d t k = Inr (None, ?t)"
      using absent False True add
      by (auto simp: lookup_instance_def insert_instance_def inst_at_def Let_def split: if_splits)
    ultimately show ?thesis using same by auto
  next
    case ret: False
    let ?i = "nat ret"
    let ?t = "t\<lparr>instances_hmap := h,
        instances_pool := (instances_pool t)(?i := (instances_pool t ?i)\<lparr>i_flow_key := k\<rparr>),
        nb_instances := nb_instances t + 1\<rparr>"
    have other: "inst_at d ?t k' = inst_at d t k'" if "k' \<noteq> k" for k'
      using addD(4) [OF that] by (simp add: inst_at_def)
    have self: "inst_at d ?t k = Some ?i" using addD(3) ret by (simp add: inst_at_def)
    have "ret < int (hash_size d h)"
      using hash_lookup_bound [OF ok, of h k] addD(3) ret by simp
    with inv addD(1) have bound: "?i < MAX_INSTANCES" by (auto simp: inst_inv_def)
    have free: "inst_at d t k' \<noteq> Some ?i" for k'
    proof (cases "k' = k")
      case False
      show ?thesis
      proof
        assume "inst_at d t k' = Some ?i"
        with other [OF False] have "hash_lookup d h k' = hash_lookup d h k" "0 \<le> hash_lookup d h k'"
          using addD(3) ret by (auto simp: inst_at_def split: if_splits)
        with hash_lookup_inj [OF ok] False show False by blast
      qed
    qed (use absent in simp)
    have blank: "blank_instance t (replicate 8 0) (instances_pool t ?i)"
      using inv free bound by (simp add: inst_inv_def)
    have "inst_inv d ?t"
      unfolding inst_inv_def
    proof (intro conjI allI impI)
      fix fk i assume "inst_at d ?t fk = Some i"
      then show "i_flow_key (instances_pool ?t i) = fk" "wf_instance (instances_pool ?t i)"
        using self other [of fk] inv free [of fk] wf_blank [OF blank_rekey [OF blank] len]
        by (cases "fk = k"; auto simp: inst_inv_def)+
    next
      fix i assume "i < MAX_INSTANCES" "\<forall>fk. inst_at d ?t fk \<noteq> Some i"
      moreover from this self have "i \<noteq> ?i" by auto
      moreover have "\<forall>fk. inst_at d t fk \<noteq> Some i"
        using calculation(2) other absent by (metis option.distinct(1))
      ultimately show "blank_instance ?t (replicate 8 0) (instances_pool ?t i)"
        using inv by (simp add: inst_inv_def blank_instance_cong [of ?t t])
    qed (use ok inv addD(1) in \<open>simp_all add: inst_inv_def\<close>)
    moreover have "lookup_instance d t k = Inr (Some ?i, ?t)"
      using absent False ret add bound
      by (auto simp: lookup_instance_def insert_instance_def inst_at_def Let_def split: if_splits)
    ultimately show ?thesis using self other blank_rekey [OF blank, of k] by auto
  qed
qed

lemma destroy_present:
  assumes inv: "inst_inv d t" and present: "inst_at d t k = Some i"
  shows "\<exists>t'. destroy_instance d t i = Inr (int i, t') \<and> inst_inv d t' \<and> inst_at d t' k = None \<and>
    (\<forall>k'. k' \<noteq> k \<longrightarrow> inst_at d t' k' = inst_at d t k') \<and>
    (\<forall>j. j \<noteq> i \<longrightarrow> instances_pool t' j = instances_pool t j) \<and>
    instances_pool t' i = init_instance (instances_pool t i) t'"
proof -
  obtain ret h where del: "hash_del d (instances_hmap t) k = (ret, h)" by (cases "hash_del d (instances_hmap t) k")
  have ok: "rte_hash_ok d" using inv by (simp add: inst_inv_def)
  note delD = hash_delD [OF ok del]
  have key: "i_flow_key (instances_pool t i) = k" using inv present by (auto simp: inst_inv_def)
  have ret: "ret = int i" using delD(2) present by (auto simp: inst_at_def split: if_splits)
  let ?t = "t\<lparr>instances_hmap := h, instances_pool :=
      (instances_pool t)(i := init_instance (instances_pool t i) (t\<lparr>instances_hmap := h\<rparr>))\<rparr>"
  have other: "inst_at d ?t k' = inst_at d t k'" if "k' \<noteq> k" for k'
    using delD(4) [OF that] by (simp add: inst_at_def)
  have self: "inst_at d ?t k = None" using delD(3) by (simp add: inst_at_def)
  have "inst_inv d ?t"
    unfolding inst_inv_def
  proof (intro conjI allI impI)
    fix fk j assume j: "inst_at d ?t fk = Some j"
    with self other have "fk \<noteq> k" "inst_at d t fk = Some j" by (metis option.distinct(1))+
    moreover from this inst_at_inj [OF inv present, of fk] have "j \<noteq> i" by auto
    ultimately show "i_flow_key (instances_pool ?t j) = fk" "wf_instance (instances_pool ?t j)"
      using inv by (auto simp: inst_inv_def)
  next
    fix j assume j: "j < MAX_INSTANCES" "\<forall>fk. inst_at d ?t fk \<noteq> Some j"
    show "blank_instance ?t (replicate 8 0) (instances_pool ?t j)"
    proof (cases "j = i")
      case True
      then show ?thesis by (simp add: init_instance_blank)
    next
      case False
      with j other present have "\<forall>fk. inst_at d t fk \<noteq> Some j" by (metis option.inject)
      with j False inv show ?thesis by (simp add: inst_inv_def blank_instance_cong [of ?t t])
    qed
  qed (use ok inv delD(1) in \<open>simp_all add: inst_inv_def\<close>)
  moreover have "destroy_instance d t i = Inr (int i, ?t)"
    using inst_at_bound [OF inv present] key del ret by (simp add: destroy_instance_def Let_def)
  moreover have "init_instance (instances_pool t i) (t\<lparr>instances_hmap := h\<rparr>) =
      init_instance (instances_pool t i) ?t" by (simp add: init_instance_def)
  ultimately show ?thesis using self other by auto
qed

interpretation flows: flow_store "lookup_instance d" "destroy_instance d" "inst_at d" instances_pool
  blank_instance "\<lambda>k. length k = 8" "inst_inv d" for d
proof unfold_locales
  fix t k i assume "inst_inv d t" "inst_at d t k = Some i"
  then show "\<exists>t'. destroy_instance d t i = Inr (int i, t') \<and> inst_inv d t' \<and> inst_at d t' k = None \<and>
      (\<forall>k'. k' \<noteq> k \<longrightarrow> inst_at d t' k' = inst_at d t k') \<and>
      (\<forall>j. j \<noteq> i \<longrightarrow> instances_pool t' j = instances_pool t j)"
    using destroy_present [of d t k i] by blast
qed (erule (1) lookup_present, erule (2) lookup_new, erule (2) inst_at_inj)

section \<open>Sequences of operations\<close>

text \<open>The abstract store: the data of each live flow.\<close>

definition flow_map :: "'h dpdk \<Rightarrow> 'h xfsm_table \<Rightarrow> flow_key \<Rightarrow> xfsm_instance option" where
  "flow_map d t fk = map_option (instances_pool t) (inst_at d t fk)"

lemma flow_map_view: "flow_map d t = flows.view d t"
  by (simp add: flow_map_def flows.view_def fun_eq_iff)

datatype inst_op = Lookup_Flow flow_key | Destroy_Slot nat

definition inst_step :: "'h dpdk \<Rightarrow> inst_op \<Rightarrow> 'h xfsm_table \<Rightarrow> 'h xfsm_table res" where
  "inst_step d op t =
     (case op of
        Lookup_Flow fk \<Rightarrow> res_bind (lookup_instance d t fk) (\<lambda>r. Inr (snd r))
      | Destroy_Slot i \<Rightarrow> res_bind (destroy_instance d t i) (\<lambda>r. Inr (snd r)))"

text \<open>Once the counter has reached its limit no operation moves it.\<close>

interpretation counter: step_invariant "inst_step d"
  "\<lambda>t. nb_instances t = of_nat (MAX_INSTANCES - 1)" for d
  by unfold_locales
    (auto simp: inst_step_def lookup_instance_def insert_instance_def destroy_instance_def Let_def
      split: inst_op.splits prod.splits if_splits)

lemma lookup_nb:
  "inst_at d t fk = None \<Longrightarrow> lookup_instance d t fk = Inr (Some i, t') \<Longrightarrow>
     nb_instances t' = nb_instances t + 1 \<and> default_state t' = default_state t"
  by (auto simp: lookup_instance_def insert_instance_def inst_at_def Let_def
      split: prod.splits if_splits)

lemma destroy_nb: "destroy_instance d t i = Inr (r, t') \<Longrightarrow>
    nb_instances t' = nb_instances t \<and> default_state t' = default_state t"
  by (auto simp: destroy_instance_def Let_def split: prod.splits if_splits)

text \<open>Creation establishes the invariant, with no live flow.\<close>

lemma create_inst_inv:
  assumes c: "xfsm_table_create d names rows sz init conds nb lk tid = Inr (names', t)"
    and ok: "rte_hash_ok d"
  shows "inst_inv d t \<and> inst_at d t fk = None"
proof -
  have "\<exists>ns. instances_hmap t = rte_hash_create d ns (''instances_hash'', tid, rte_lcore_id d) 1000000"
    by (rule exI [of _ "case rte_hash_create d names (''entries_hash'', tid, rte_lcore_id d) 10 of
          None \<Rightarrow> names | Some _ \<Rightarrow> (''entries_hash'', tid, rte_lcore_id d) # names"])
      (use c in \<open>auto simp: xfsm_table_create_def Let_def split: if_splits\<close>)
  then obtain ns where h: "instances_hmap t =
      rte_hash_create d ns (''instances_hash'', tid, rte_lcore_id d) 1000000" by blast
  have "hash_lookup d (instances_hmap t) k < 0" and "hash_size d (instances_hmap t) \<le> 1000000" for k
    using rte_hash_create_empty [OF ok] rte_hash_create_size [OF ok]
    by (auto simp: h hash_lookup_def hash_size_def split: option.splits)
  then have none: "inst_at d t k = None" for k by (simp add: inst_at_def not_le)
  have "blank_instance t (replicate 8 0) (instances_pool t i)" if "i < 1000000" for i
    by (rule xfsm_table_createE [OF c]) (use that in \<open>auto simp: blank_instance_def init_instance_def\<close>)
  with none ok \<open>hash_size d (instances_hmap t) \<le> 1000000\<close> show ?thesis by (simp add: inst_inv_def)
qed

text \<open>The table of two rows, before and after its first flow.\<close>

abbreviation (input) demo_fk :: flow_key where "demo_fk \<equiv> replicate 8 7"

lemma slot_find_replicate: "0 < n \<Longrightarrow> slot_find (replicate n x) x = Some 0"
  by (cases n) (simp_all add: slot_find_Cons)

lemma demo_flow:
  "\<exists>names t t1. demo_create [demo_row 0 1, demo_row 1 0] = Inr (names, t) \<and> inst_inv slot_dpdk t \<and>
     inst_at slot_dpdk t demo_fk = None \<and> lookup_instance slot_dpdk t demo_fk = Inr (Some 0, t1) \<and>
     inst_inv slot_dpdk t1 \<and> inst_at slot_dpdk t1 demo_fk = Some 0"
proof -
  obtain names t where c: "demo_create [demo_row 0 1, demo_row 1 0] = Inr (names, t)"
    using demo_create_two by blast
  then have "instances_hmap t = Some (replicate 1000000 None)"
    by (auto simp: demo_create_def xfsm_table_create_def Let_def split: if_splits)
  moreover have "nb_instances t = 0" using c unfolding demo_create_def by (rule xfsm_table_createE)
  ultimately have "\<exists>t1. lookup_instance slot_dpdk t demo_fk = Inr (Some 0, t1)"
    by (simp add: lookup_instance_def insert_instance_def hash_lookup_def hash_add_def slot_lookup_def
        slot_add_def slot_find_fresh slot_find_replicate)
  then obtain t1 where t1: "lookup_instance slot_dpdk t demo_fk = Inr (Some 0, t1)" ..
  have inv: "inst_inv slot_dpdk t" and none: "inst_at slot_dpdk t demo_fk = None"
    using create_inst_inv [OF c [unfolded demo_create_def] slot_hash_ok] by blast+
  from flows.get_cases [OF inv, of demo_fk] t1 none
  have "inst_inv slot_dpdk t1" "inst_at slot_dpdk t1 demo_fk = Some 0" by auto
  with c inv none t1 show ?thesis by blast
qed

section \<open>Properties\<close>

text \<open>
  C4: \<open>lookup_instance\<close> is find-or-create on a map from flow keys to instances. It always
  returns. A live flow gets its own instance and nothing changes. An unknown flow gets a
  blank instance, whose registers are zero and whose key is the flow's, and every other
  flow keeps its instance; or it gets NULL and the map is unchanged.
\<close>

theorem lookup_instance_refines:
  assumes "inst_inv d t" and "length fk = 8"
  shows "\<exists>r t'. lookup_instance d t fk = Inr (r, t') \<and> inst_inv d t' \<and>
    (case flow_map d t fk of
       Some x \<Rightarrow> t' = t \<and> (\<exists>i. r = Some i \<and> instances_pool t i = x)
     | None \<Rightarrow>
         (\<exists>i x. r = Some i \<and> instances_pool t' i = x \<and> blank_instance t fk x \<and>
            flow_map d t' = (flow_map d t)(fk \<mapsto> x)) \<or>
         (r = None \<and> flow_map d t' = flow_map d t))"
proof (rule flows.get_cases [OF assms])
  fix i assume "lookup_instance d t fk = Inr (Some i, t)" "inst_at d t fk = Some i"
  with assms(1) show ?thesis by (simp add: flow_map_def)
next
  fix i t' assume "inst_at d t fk = None" "lookup_instance d t fk = Inr (Some i, t')" "inst_inv d t'"
    "blank_instance t fk (instances_pool t' i)"
    "flows.view d t' = (flows.view d t)(fk \<mapsto> instances_pool t' i)"
  then show ?thesis by (simp add: flow_map_view [symmetric]) (simp add: flow_map_def)
next
  fix t' assume "inst_at d t fk = None" "lookup_instance d t fk = Inr (None, t')" "inst_inv d t'"
    "flows.view d t' = flows.view d t"
  then show ?thesis by (simp add: flow_map_view [symmetric]) (simp add: flow_map_def)
qed

theorem lookup_instance_refines_witness:
  "\<exists>names t r t'. demo_create [demo_row 0 1, demo_row 1 0] = Inr (names, t) \<and>
     lookup_instance slot_dpdk t demo_fk = Inr (r, t') \<and> inst_inv slot_dpdk t'"
  using demo_flow lookup_instance_refines [of slot_dpdk _ demo_fk] by fastforce

text \<open>
  C5: Destroying the instance of a live flow returns its slot, removes that flow from the
  map and leaves every other flow's instance as it was.
\<close>

theorem destroy_instance_refines:
  assumes "inst_inv d t" and "inst_at d t fk = Some i"
  shows "\<exists>t'. destroy_instance d t i = Inr (int i, t') \<and> inst_inv d t' \<and>
    flow_map d t' = (flow_map d t)(fk := None)"
  using flows.del_view [OF assms] by (simp add: flow_map_view)

theorem destroy_instance_refines_witness:
  "\<exists>t t'. inst_at slot_dpdk t demo_fk = Some 0 \<and> destroy_instance slot_dpdk t 0 = Inr (0, t') \<and>
     flow_map slot_dpdk t' demo_fk = None"
proof -
  obtain t where "inst_inv slot_dpdk t" "inst_at slot_dpdk t demo_fk = Some 0" using demo_flow by blast
  with destroy_instance_refines [of slot_dpdk t demo_fk 0] show ?thesis by fastforce
qed

text \<open>
  The instance counter leaks. Creating an instance and destroying it again restores the
  map of flows but leaves \<open>nb_instances\<close> one higher; and once the counter has reached
  999999, after any sequence of further operations, destructions included, every flow that
  is not live is refused.
\<close>

theorem instance_counter_leaks:
  assumes "inst_inv d t" and "length fk = 8" and "inst_at d t fk = None"
  shows "(\<forall>i t1. lookup_instance d t fk = Inr (Some i, t1) \<longrightarrow>
      (\<exists>t2. destroy_instance d t1 i = Inr (int i, t2) \<and> flow_map d t2 = flow_map d t \<and>
            nb_instances t2 = nb_instances t + 1)) \<and>
    (nb_instances t = of_nat (MAX_INSTANCES - 1) \<longrightarrow>
      (\<forall>ops t'. run_steps (inst_step d) ops t = Inr t' \<longrightarrow>
         (\<forall>k. inst_at d t' k = None \<longrightarrow> lookup_instance d t' k = Inr (None, t'))))"
proof (intro conjI allI impI)
  fix i t1 assume t1: "lookup_instance d t fk = Inr (Some i, t1)"
  have none: "flow_map d t fk = None" using assms(3) by (simp add: flow_map_def)
  from flows.get_cases [OF assms(1,2)] t1 assms(3) have inv: "inst_inv d t1"
    and at: "inst_at d t1 fk = Some i" and map: "\<exists>x. flow_map d t1 = (flow_map d t)(fk \<mapsto> x)"
    by (auto simp: flow_map_view)
  from flows.del_view [OF inv at] obtain t2 where t2: "destroy_instance d t1 i = Inr (int i, t2)"
    "flow_map d t2 = (flow_map d t1)(fk := None)" by (auto simp: flow_map_view)
  moreover from map t2(2) none have "flow_map d t2 = flow_map d t" by (auto simp: fun_eq_iff)
  moreover have "nb_instances t2 = nb_instances t + 1"
    using lookup_nb [OF assms(3) t1] destroy_nb [OF t2(1)] by simp
  ultimately show "\<exists>t2. destroy_instance d t1 i = Inr (int i, t2) \<and> flow_map d t2 = flow_map d t \<and>
      nb_instances t2 = nb_instances t + 1" by blast
next
  fix ops t' k
  assume full: "nb_instances t = of_nat (MAX_INSTANCES - 1)" "run_steps (inst_step d) ops t = Inr t'"
    and none: "inst_at d t' k = None"
  from full have "nb_instances t' = of_nat (MAX_INSTANCES - 1)" by (rule counter.run_keeps)
  with none show "lookup_instance d t' k = Inr (None, t')"
    by (auto simp: lookup_instance_def insert_instance_def inst_at_def Let_def split: if_splits)
qed

theorem instance_counter_leaks_witness:
  "\<exists>t t1 t2. lookup_instance slot_dpdk t demo_fk = Inr (Some 0, t1) \<and>
     destroy_instance slot_dpdk t1 0 = Inr (0, t2) \<and> flow_map slot_dpdk t2 = flow_map slot_dpdk t \<and>
     nb_instances t2 = nb_instances t + 1"
proof -
  obtain t t1 where "inst_inv slot_dpdk t" "inst_at slot_dpdk t demo_fk = None"
    "lookup_instance slot_dpdk t demo_fk = Inr (Some 0, t1)" using demo_flow by blast
  with instance_counter_leaks [of slot_dpdk t demo_fk] show ?thesis by fastforce
qed

text \<open>
  A flow's first instance ignores the configured initial state. The pool is initialised
  before the table's default state is set, so the first instance a slot gives out starts in
  state 0 whatever \<open>initial_state\<close> is; only an instance that was destroyed is reset to it.
\<close>

theorem first_state_is_zero:
  assumes c: "xfsm_table_create d names rows sz init conds nb lk tid = Inr (names', t)"
    and ok: "rte_hash_ok d" and len: "length fk = 8"
    and new: "lookup_instance d t fk = Inr (Some i, t1)"
  shows "current_state (instances_pool t1 i) = 0 \<and>
    (\<exists>t2. destroy_instance d t1 i = Inr (int i, t2) \<and> current_state (instances_pool t2 i) = ucast init)"
proof -
  have inv: "inst_inv d t" and none: "inst_at d t k = None" for k using create_inst_inv [OF c ok] by blast+
  from flows.get_cases [OF inv len] new none have inv1: "inst_inv d t1"
    and at: "inst_at d t1 fk = Some i" by auto
  from inst_at_bound [OF inv1 at] have i: "i < 1000000" .
  have "current_state (instances_pool t i) = 0" and dflt: "default_state t = ucast init"
    using i by (auto intro: xfsm_table_createE [OF c])
  moreover have "current_state (instances_pool t1 i) = current_state (instances_pool t i)"
    using new none [of fk]
    by (auto simp: lookup_instance_def insert_instance_def inst_at_def Let_def split: prod.splits if_splits)
  moreover from destroy_present [OF inv1 at] obtain t2 where
    t2: "destroy_instance d t1 i = Inr (int i, t2)" "instances_pool t2 i = init_instance (instances_pool t1 i) t2"
    by blast
  moreover have "default_state t2 = default_state t"
    using lookup_nb [OF none new] destroy_nb [OF t2(1)] by simp
  ultimately show ?thesis by (auto simp: init_instance_def)
qed

theorem first_state_is_zero_witness:
  "\<exists>names t t1 t2. demo_create [demo_row 0 1, demo_row 1 0] = Inr (names, t) \<and>
     lookup_instance slot_dpdk t demo_fk = Inr (Some 0, t1) \<and>
     current_state (instances_pool t1 0) = 0 \<and>
     destroy_instance slot_dpdk t1 0 = Inr (0, t2) \<and> current_state (instances_pool t2 0) = 3"
proof -
  obtain names t t1 where c: "demo_create [demo_row 0 1, demo_row 1 0] = Inr (names, t)"
    and t1: "lookup_instance slot_dpdk t demo_fk = Inr (Some 0, t1)" using demo_flow by blast
  with first_state_is_zero [OF c [unfolded demo_create_def] slot_hash_ok _ t1] show ?thesis by fastforce
qed

end
