(* ===== verification/Pipeline_Safety.thy ===== *)
theory Pipeline_Safety
  imports Pipeline
begin

text \<open>
  The well-formedness of a loaded pipeline and its preservation: what configuration makes
  the packet loop free of memory errors. A configuration is static when every index in its
  conditions, key and actions is inside its array, and every header field it uses is one the
  parser sets for each packet and that can be read.
\<close>

section \<open>Static configuration\<close>

definition field_static :: "nat \<Rightarrow> bool" where
  "field_static n \<longleftrightarrow> (\<exists>h. n = hdr_index h \<and> always_set h \<and> field_len h \<noteq> 6)"

definition operand_static :: "xfsm_value_type \<Rightarrow> u64 \<Rightarrow> bool" where
  "operand_static ty v \<longleftrightarrow>
     (case ty of
        XFSM_REGISTER \<Rightarrow> unat v < NUM_REGISTERS
      | XFSM_GLOBAL_REGISTER \<Rightarrow> unat v < NUM_GLOBAL_REGISTERS
      | XFSM_HDR_FIELD \<Rightarrow> field_static (unat v)
      | _ \<Rightarrow> True)"

definition condition_static :: "xfsm_condition \<Rightarrow> bool" where
  "condition_static c \<longleftrightarrow>
     operand_static (c_type1 c) (c_value1 c) \<and> operand_static (c_type2 c) (c_value2 c)"

definition action_static :: "xfsm_action \<Rightarrow> bool" where
  "action_static a \<longleftrightarrow>
     (if a_type a = XFSM_SETFIELD
      then a_type1 a = XFSM_HDR_FIELD \<and>
        (\<exists>h. unat (a_value1 a) = hdr_index h \<and> always_set h)
      else operand_static (a_type1 a) (a_value1 a)) \<and>
     operand_static (a_type2 a) (a_value2 a) \<and> operand_static (a_type3 a) (a_value3 a) \<and>
     (a_type a = XFSM_UPDATE \<longrightarrow> unat (a_output a) < 32)"

definition entry_static :: "xfsm_table_entry \<Rightarrow> bool" where
  "entry_static e \<longleftrightarrow>
     wf_entry e \<and> unat (nb_actions e) \<le> MAX_ACTIONS \<and>
     (\<forall>i < unat (nb_actions e). action_static (e_actions e ! i))"

definition key_static :: "lookup_key \<Rightarrow> bool" where
  "key_static lk \<longleftrightarrow>
     length (lk_fld lk) = LOOKUP_KEY_SIZE \<and> unat (lk_size lk) < LOOKUP_KEY_SIZE \<and>
     unat (biflow_no lk) \<le> 4 \<and>
     (\<forall>i < unat (lk_size lk). field_static (hdr_index (lk_fld lk ! i)))"

definition rows :: "'h xfsm_table \<Rightarrow> xfsm_table_entry set" where
  "rows t = (\<Union>blk \<in> set (state_entries_pool t). set (hm_entries blk))"

definition config_ok :: "'h dpdk \<Rightarrow> 'h xfsm_table \<Rightarrow> bool" where
  "config_ok d t \<longleftrightarrow>
     length (conditions t) = MAX_CONDITIONS \<and> unat (nb_conditions t) \<le> MAX_CONDITIONS \<and>
     (\<forall>i < unat (nb_conditions t). condition_static (conditions t ! i)) \<and>
     key_static (t_lookup_key t) \<and>
     (\<forall>s. 0 \<le> hash_lookup d (entries_hmap t) [s] \<longrightarrow>
        nat (hash_lookup d (entries_hmap t) [s]) < length (state_entries_pool t)) \<and>
     (\<forall>e \<in> rows t. entry_static e)"

definition same_config :: "'h xfsm_table \<Rightarrow> 'h xfsm_table \<Rightarrow> bool" where
  "same_config t t' \<longleftrightarrow>
     conditions t' = conditions t \<and> nb_conditions t' = nb_conditions t \<and>
     t_lookup_key t' = t_lookup_key t \<and> entries_hmap t' = entries_hmap t \<and>
     state_entries_pool t' = state_entries_pool t \<and> default_state t' = default_state t"

lemma same_config_refl [simp]: "same_config t t"
  by (simp add: same_config_def)

lemma same_config_trans: "same_config a b \<Longrightarrow> same_config b c \<Longrightarrow> same_config a c"
  by (simp add: same_config_def)

lemma config_ok_cong: "same_config t t' \<Longrightarrow> config_ok d t' = config_ok d t"
  by (simp add: same_config_def config_ok_def rows_def)

lemma rows_cong: "same_config t t' \<Longrightarrow> rows t' = rows t"
  by (simp add: same_config_def rows_def)

definition wf_table :: "'h dpdk \<Rightarrow> 'h xfsm_table \<Rightarrow> bool" where
  "wf_table d t \<longleftrightarrow>
     wf_fields (pkt_fields t) \<and> length (global_registers t) = NUM_GLOBAL_REGISTERS \<and>
     config_ok d t \<and> inst_inv d t"

section \<open>The operations keep the table well formed\<close>

lemma inst_inv_cong:
  "instances_hmap t' = instances_hmap t \<Longrightarrow> instances_pool t' = instances_pool t \<Longrightarrow>
     default_state t' = default_state t \<Longrightarrow> inst_inv d t' = inst_inv d t"
  by (simp add: inst_inv_def inst_at_def blank_instance_def init_instance_def)

lemma inst_at_set_inst [simp]: "inst_at d (set_inst t j inst) = inst_at d t"
  by (simp add: fun_eq_iff inst_at_def set_inst_def)

lemma inst_inv_set_inst:
  assumes "inst_inv d t" and "inst_at d t k = Some j" and "i_flow_key inst = k" and "wf_instance inst"
  shows "inst_inv d (set_inst t j inst)"
proof -
  let ?t = "set_inst t j inst"
  have fields: "instances_hmap ?t = instances_hmap t" "instances_pool ?t = (instances_pool t)(j := inst)"
    "\<And>fk x. blank_instance ?t fk x = blank_instance t fk x"
    by (simp_all add: blank_instance_def init_instance_def set_inst_def)
  have live: "i_flow_key (instances_pool ?t i) = fk \<and> wf_instance (instances_pool ?t i)"
    if "inst_at d t fk = Some i" for fk i
  proof (cases "i = j")
    case True
    with inst_at_inj [OF assms(1), of fk j k] that assms(2-4) fields(2) show ?thesis by simp
  next
    case False
    with assms(1) that fields(2) show ?thesis by (simp add: inst_inv_def)
  qed
  have free: "blank_instance t (replicate 8 0) (instances_pool ?t i)"
    if "i < 1000000" "\<forall>fk. inst_at d t fk \<noteq> Some i" for i
    using assms(1,2) that fields(2) by (cases "i = j") (simp_all add: inst_inv_def)
  show ?thesis
    unfolding inst_inv_def inst_at_set_inst fields(3)
    using assms(1) live free fields(1) by (simp add: inst_inv_def)
qed

lemma set_inst_fields [simp]:
  "pkt_fields (set_inst t j x) = pkt_fields t" "global_registers (set_inst t j x) = global_registers t"
  "instances_pool (set_inst t j x) = (instances_pool t)(j := x)"
  "same_config t (set_inst t j x)"
  by (simp_all add: set_inst_def same_config_def)

lemma wf_table_set_inst:
  "wf_table d t \<Longrightarrow> inst_at d t k = Some j \<Longrightarrow> i_flow_key x = k \<Longrightarrow> wf_instance x \<Longrightarrow>
     wf_table d (set_inst t j x)"
  using config_ok_cong [of t "set_inst t j x" d]
  by (simp add: wf_table_def inst_inv_set_inst)

lemma lookup_instance_frame:
  "lookup_instance d t fk = Inr (r, t') \<Longrightarrow> same_config t t' \<and> pkt_fields t' = pkt_fields t \<and>
     global_registers t' = global_registers t \<and> in_port t' = in_port t \<and> curr_pkt t' = curr_pkt t"
  by (auto simp: lookup_instance_def insert_instance_def same_config_def Let_def
      split: prod.splits if_splits)

lemma destroy_instance_frame:
  "destroy_instance d t i = Inr (r, t') \<Longrightarrow> same_config t t' \<and> pkt_fields t' = pkt_fields t \<and>
     global_registers t' = global_registers t"
  by (auto simp: destroy_instance_def same_config_def Let_def split: prod.splits if_splits)

lemma tbl_core_frame:
  assumes "tbl_core t' = tbl_core t"
  shows "same_config t t'" and "pkt_fields t' = pkt_fields t" and "inst_inv d t' = inst_inv d t"
    and "inst_at d t' = inst_at d t" and "instances_pool t' = instances_pool t"
proof -
  have "same_config t t' \<and> pkt_fields t' = pkt_fields t \<and> instances_hmap t' = instances_hmap t \<and>
      instances_pool t' = instances_pool t \<and> default_state t' = default_state t"
    using assms by (cases t; cases t'; simp add: tbl_core_def same_config_def)
  then show "same_config t t'" and "pkt_fields t' = pkt_fields t" and "inst_inv d t' = inst_inv d t"
    and "inst_at d t' = inst_at d t" and "instances_pool t' = instances_pool t"
    using inst_inv_cong [of t' t d] by (simp_all add: inst_at_def fun_eq_iff)
qed

text \<open>The fields of a parsed packet that a static configuration uses are readable.\<close>

definition parsed :: "pktmem \<Rightarrow> xfsm_fields_tlv list \<Rightarrow> bool" where
  "parsed mem fs \<longleftrightarrow> wf_fields fs \<and>
     (\<forall>h q. always_set h \<and> field_ptr fs h = Some q \<longrightarrow> readable mem q (field_len h))"

lemma operand_static_ok:
  assumes "parsed mem (pkt_fields t)" and "length (global_registers t) = 32" and "wf_instance inst"
    and "operand_static ty v"
  shows "operand_ok mem t inst ty v"
  using assms
  by (cases ty) (auto simp: operand_static_def operand_ok_def parsed_def field_static_def wf_instance_def)

lemma condition_static_ok:
  "parsed mem (pkt_fields t) \<Longrightarrow> length (global_registers t) = 32 \<Longrightarrow> wf_instance inst \<Longrightarrow>
     condition_static c \<Longrightarrow> condition_ok mem t inst c"
  by (simp add: condition_static_def condition_ok_def operand_static_ok)

lemma action_static_ok:
  assumes "parsed mem (pkt_fields t)" and "length (global_registers t) = 32" and "wf_instance inst"
    and "action_static a"
  shows "action_ok mem t inst a"
  using assms operand_static_ok [OF assms(1-3)]
  by (fastforce simp: action_static_def action_ok_def parsed_def)

lemma conditions_returns:
  assumes "parsed mem (pkt_fields t)" and "length (global_registers t) = 32" and "wf_instance inst"
    and "config_ok d t"
  shows "\<exists>rs. xfsm_evaluate_conditions mem t inst = Inr (inst\<lparr>results := rs\<rparr>) \<and> length rs = 16"
proof -
  let ?n = "unat (nb_conditions t)"
  have n: "?n \<le> length (conditions t)" "?n \<le> length (results inst)"
    using assms(3,4) by (simp_all add: config_ok_def wf_instance_def)
  have "\<exists>r. evaluate_condition mem t (conditions t ! i) inst = Inr r" if "i < ?n" for i
    using that assms(4)
    by (intro evaluate_condition_ok condition_static_ok assms(2,3))
      (use assms(1) in \<open>simp_all add: parsed_def config_ok_def\<close>)
  then obtain inst' where "xfsm_evaluate_conditions mem t inst = Inr inst'"
    using condition_loop_total [OF n] by (auto simp: xfsm_evaluate_conditions_def)
  with evaluate_conditionsD [OF this] assms(3) show ?thesis by (auto simp: wf_instance_def)
qed

lemma scan_entries_mem: "scan_entries nb ir es = Inr (Some e) \<Longrightarrow> e \<in> set es"
  by (induction es) (auto split: if_splits)

lemma table_lookup_returns:
  assumes "config_ok d t" and "wf_instance inst"
  shows "\<exists>m. xfsm_table_lookup d t inst = Inr m \<and> (\<forall>e. m = Some e \<longrightarrow> e \<in> rows t)"
proof (cases "0 \<le> hash_lookup d (entries_hmap t) [current_state inst]")
  case True
  let ?blk = "state_entries_pool t ! nat (hash_lookup d (entries_hmap t) [current_state inst])"
  from True assms(1) have pos: "nat (hash_lookup d (entries_hmap t) [current_state inst]) <
      length (state_entries_pool t)" by (simp add: config_ok_def)
  then have sub: "set (hm_entries ?blk) \<subseteq> rows t" unfolding rows_def using nth_mem by blast
  with assms have "scan_entries (unat (nb_conditions t)) (results inst) (hm_entries ?blk) =
      Inr (find (row_matches (unat (nb_conditions t)) (results inst)) (hm_entries ?blk))"
    by (intro scan_entries_spec) (auto simp: config_ok_def wf_instance_def entry_static_def wf_entry_def)
  with True pos sub show ?thesis
    by (auto simp: xfsm_table_lookup_def Let_def find_Some_iff subset_iff intro!: nth_mem)
qed (simp add: xfsm_table_lookup_def)

lemma actions_return:
  assumes "parsed mem (pkt_fields t)" and "length (global_registers t) = 32" and "wf_instance inst"
    and "entry_static e"
  shows "returns_or arith_faults (xfsm_execute_actions d e
      \<lparr>x_mem = mem, x_tbl = t, x_inst = inst, x_tx = tx, x_reg1 = 0, x_reg2 = 0, x_reg3 = 0\<rparr>)"
    and "xfsm_execute_actions d e
      \<lparr>x_mem = mem, x_tbl = t, x_inst = inst, x_tx = tx, x_reg1 = 0, x_reg2 = 0, x_reg3 = 0\<rparr> = Inr s
      \<Longrightarrow> wf_exec s \<and> tbl_core (x_tbl s) = tbl_core t \<and> i_flow_key (x_inst s) = i_flow_key inst \<and>
        same_shape mem (x_mem s) \<and> (\<exists>tx'. x_tx s = tx @ tx')"
proof -
  let ?s = "\<lparr>x_mem = mem, x_tbl = t, x_inst = inst, x_tx = tx, x_reg1 = 0, x_reg2 = 0, x_reg3 = 0\<rparr>"
  have wf: "wf_exec ?s \<and> exec_inv ?s ?s"
    using assms(1-3) by (simp add: wf_exec_def exec_inv_def parsed_def)
  have ok: "\<forall>i \<in> set [0..<unat (nb_actions e)]. actions_ok ?s e i"
    using assms action_static_ok [OF assms(1-3)]
    by (auto simp: actions_ok_def entry_static_def wf_entry_def)
  show "returns_or arith_faults (xfsm_execute_actions d e ?s)"
    using action_run.run_returns [of ?s ?s "[0..<unat (nb_actions e)]" e d] wf ok
    by (simp add: xfsm_execute_actions_def)
  show "wf_exec s \<and> tbl_core (x_tbl s) = tbl_core t \<and> i_flow_key (x_inst s) = i_flow_key inst \<and>
      same_shape mem (x_mem s) \<and> (\<exists>tx'. x_tx s = tx @ tx')" if "xfsm_execute_actions d e ?s = Inr s"
    using action_keep.run_keeps [of ?s ?s d e "[0..<unat (nb_actions e)]" s] wf that
    by (auto simp: xfsm_execute_actions_def exec_inv_def exec_frame_def dest: inst_coreD(3))
qed

section \<open>The flow key of a static configuration\<close>

lemma key_step_returns:
  assumes "parsed mem (pkt_fields t)" and "key_static (t_lookup_key t)" and "length key = 8"
    and "i < unat (lk_size (t_lookup_key t))"
  shows "\<exists>key'. key_step mem t i key = Inr key'"
proof -
  from assms(2,4) have i: "i < 7" "i < length (lk_fld (t_lookup_key t))"
    and st: "field_static (hdr_index (lk_fld (t_lookup_key t) ! i))"
    by (auto simp: key_static_def)
  let ?h = "lk_fld (t_lookup_key t) ! i"
  from st assms(1) obtain r where
    "get_hdr_value mem (in_port t) (pkt_fields t ! hdr_index ?h) (wide_read key i) = Inr r"
    using get_hdr_value_ok [of "pkt_fields t" ?h mem "in_port t" "wide_read key i"]
    by (auto simp: field_static_def parsed_def)
  with i assms(1,3) show ?thesis
    by (cases r) (simp add: key_step_def wide_write_def parsed_def)
qed

interpretation key_run: step_progress "key_step mem t"
  "\<lambda>key. length key = 8 \<and> parsed mem (pkt_fields t) \<and> key_static (t_lookup_key t)"
  "\<lambda>i. i < unat (lk_size (t_lookup_key t))" "{}" for mem t
  by unfold_locales (auto simp: returns_or_empty key_step_length intro: key_step_returns)

lemma key_extract_returns:
  assumes "parsed mem (pkt_fields t)" and "key_static (t_lookup_key t)" and "length key = 8"
  shows "\<exists>key'. key_extract mem t key = Inr (True, key') \<and> length key' = 8"
proof -
  let ?n = "unat (lk_size (t_lookup_key t))"
  have "returns_or {} (run_steps (key_step mem t) [0..<?n] key)"
    by (rule key_run.run_returns) (use assms in auto)
  then obtain ks where ks: "run_steps (key_step mem t) [0..<?n] key = Inr ks"
    by (auto simp: returns_or_empty)
  have len: "length ks = 8" by (rule key_len.run_keeps [OF assms(3) ks])
  with key_extract_loop [OF ks len] assms(2) show ?thesis by (simp add: key_static_def)
qed

section \<open>A stage\<close>

text \<open>The packet a stage works on, and the faults it can end in.\<close>

definition pkt_ok :: "pktmem \<Rightarrow> nat \<Rightarrow> bool" where
  "pkt_ok mem m \<longleftrightarrow> (\<exists>b. mem m = Some b \<and> 60 \<le> length (m_data b))"

abbreviation packet_faults :: "fault set" where
  "packet_faults \<equiv> {UB SignedOvf, UB DivZero, UB NullPtr}"

lemma pkt_ok_shape: "same_shape mem mem' \<Longrightarrow> pkt_ok mem m \<Longrightarrow> pkt_ok mem' m"
  unfolding pkt_ok_def by (metis same_shapeD)

lemma returns_or_mono: "returns_or A m \<Longrightarrow> A \<subseteq> B \<Longrightarrow> returns_or B m"
  by (auto simp: returns_or_def)

text \<open>Parsing keeps a table well formed and makes the fields it always sets readable.\<close>

lemma parse_step_ok:
  assumes "wf_table d t" and b: "mem m = Some b" "60 \<le> length (m_data b)"
  shows "\<exists>t2. parse_pkt_header mem (t\<lparr>curr_pkt := Some m, in_port := port\<rparr>) (Some m) = Inr (uint (m_data b ! 23), t2) \<and>
    wf_table d t2 \<and> same_config t t2 \<and> parsed mem (pkt_fields t2) \<and> instances_pool t2 = instances_pool t \<and>
    inst_at d t2 = inst_at d t \<and> instances_hmap t2 = instances_hmap t \<and> nb_instances t2 = nb_instances t \<and>
    in_port t2 = port \<and> curr_pkt t2 = Some m"
proof -
  let ?t1 = "t\<lparr>curr_pkt := Some m, in_port := port\<rparr>"
  have wf1: "wf_fields (pkt_fields ?t1)" using assms(1) by (simp add: wf_table_def)
  obtain t2 where t2: "parse_pkt_header mem ?t1 (Some m) = Inr (uint (m_data b ! 23), t2)"
    using parse_total [of ?t1 mem m b] wf1 b by auto
  have frame: "t2 = ?t1\<lparr>pkt_fields := pkt_fields t2\<rparr>" by (rule parse_frame [OF t2])
  have cfg: "same_config t t2" by (subst frame) (simp add: same_config_def)
  have parsed: "parsed mem (pkt_fields t2)"
    unfolding parsed_def
    using parse_wf [OF wf1 t2] parse_always_set_readable [OF t2 wf1 b(1)] b(2) by auto
  have inst: "inst_inv d t2 = inst_inv d t" "inst_at d t2 = inst_at d t"
    "instances_pool t2 = instances_pool t" "global_registers t2 = global_registers t"
    "instances_hmap t2 = instances_hmap t" "nb_instances t2 = nb_instances t" "in_port t2 = port" "curr_pkt t2 = Some m"
    by (subst frame, rule inst_inv_cong, simp_all) (subst frame, simp add: inst_at_def fun_eq_iff)+
  have "wf_table d t2"
    using assms(1) inst parsed config_ok_cong [OF cfg] by (simp add: wf_table_def parsed_def)
  with t2 cfg parsed inst show ?thesis by blast
qed

lemma stage_front_ok:
  assumes "wf_table d t" and "pkt_ok mem m" and "length fk = 8" and "rte_get_tsc_hz d \<noteq> 0"
  shows "\<exists>t1 mem1 fk1. stage_front d tsc i m t mem fk = Inr (t1, mem1, True, fk1) \<and>
    wf_table d t1 \<and> same_config t t1 \<and> parsed mem1 (pkt_fields t1) \<and> length fk1 = 8 \<and>
    same_shape mem mem1 \<and> instances_pool t1 = instances_pool t \<and> inst_at d t1 = inst_at d t \<and>
    instances_hmap t1 = instances_hmap t \<and> nb_instances t1 = nb_instances t"
proof -
  from assms(2) obtain b where b: "mem m = Some b" "60 \<le> length (m_data b)" by (auto simp: pkt_ok_def)
  let ?b1 = "b\<lparr>m_timestamp := (tsc * 1000000) div rte_get_tsc_hz d\<rparr>"
  let ?mem1 = "mem(m \<mapsto> ?b1)"
  have shape: "same_shape mem ?mem1" using b by (simp add: same_shape_def)
  obtain t2 where t2: "parse_pkt_header ?mem1 (t\<lparr>curr_pkt := Some m, in_port := of_nat (i + 1)\<rparr>) (Some m) =
      Inr (uint (m_data ?b1 ! 23), t2)"
    and wf2: "wf_table d t2" and cfg: "same_config t t2" and parsed: "parsed ?mem1 (pkt_fields t2)"
    and inst: "instances_pool t2 = instances_pool t" "inst_at d t2 = inst_at d t"
      "instances_hmap t2 = instances_hmap t" "nb_instances t2 = nb_instances t"
    using parse_step_ok [OF assms(1), of ?mem1 m ?b1 "of_nat (i + 1)"] b(2) by auto
  have "key_static (t_lookup_key t2)" using wf2 by (simp add: wf_table_def config_ok_def)
  from key_extract_returns [OF parsed this assms(3)] obtain fk1 where
    fk1: "key_extract ?mem1 t2 fk = Inr (True, fk1)" "length fk1 = 8" by blast
  have "stage_front d tsc i m t mem fk = Inr (t2, ?mem1, True, fk1)"
    using b(1) assms(4) t2 fk1(1) by (simp add: stage_front_def Let_def)
  with wf2 cfg parsed fk1(2) shape inst show ?thesis by blast
qed

lemma flow_map_set_inst:
  assumes "inst_inv d t" and "inst_at d t fk = Some j" and "k \<noteq> fk"
  shows "flow_map d (set_inst t j x) k = flow_map d t k"
  using inst_at_inj [OF assms(1) _ assms(2), of k] assms(3)
  by (cases "inst_at d t k") (auto simp: flow_map_def)

lemma flow_map_core:
  assumes "tbl_core t' = tbl_core t"
  shows "flow_map d t' = flow_map d t"
  unfolding flow_map_def fun_eq_iff tbl_core_frame(4,5) [OF assms] by simp

text \<open>What a stage promises of its result, for the packet's flow \<open>fk\<close>.\<close>

definition stage_post ::
  "'h dpdk \<Rightarrow> flow_key \<Rightarrow> 'h xfsm_table \<Rightarrow> pktmem \<Rightarrow> tx_event list \<Rightarrow>
     (verdict \<times> 'h xfsm_table \<times> pktmem \<times> tx_event list) res \<Rightarrow> bool" where
  "stage_post d fk t mem tx r \<longleftrightarrow>
     (case r of
        Inl f \<Rightarrow> f \<in> packet_faults
      | Inr (v, t', mem', tx') \<Rightarrow>
          wf_table d t' \<and> same_config t t' \<and> same_shape mem mem' \<and> (\<exists>ext. tx' = tx @ ext) \<and>
          (\<forall>k. k \<noteq> fk \<longrightarrow> flow_map d t' k = flow_map d t k) \<and>
          (\<forall>s. v = To_Stage s \<longrightarrow> (\<exists>e \<in> rows t. s = unat (e_next_stage e))))"

lemma stage_act_ok:
  assumes "wf_table d t" and "parsed mem (pkt_fields t)" and at: "inst_at d t fk = Some j"
    and inst: "wf_instance inst" "i_flow_key inst = fk" and e: "e \<in> rows t"
  shows "stage_post d fk t mem tx (stage_act d mem tx t j inst e)"
proof -
  have glob: "length (global_registers t) = 32" and st: "entry_static e"
    using assms(1) e by (auto simp: wf_table_def config_ok_def)
  note ex = actions_return [OF assms(2) glob inst(1) st, of d tx]
  show ?thesis
  proof (cases "xfsm_execute_actions d e \<lparr>x_mem = mem, x_tbl = t, x_inst = inst, x_tx = tx,
      x_reg1 = 0, x_reg2 = 0, x_reg3 = 0\<rparr>")
    case (Inl f)
    with ex(1) show ?thesis by (simp add: stage_act_def stage_post_def) blast
  next
    case (Inr s)
    note s = ex(2) [OF Inr]
    note core = tbl_core_frame [OF s [THEN conjunct2, THEN conjunct1]]
    have wf1: "wf_table d (x_tbl s)"
      using assms(1) core s config_ok_cong [OF core(1)] by (auto simp: wf_table_def wf_exec_def)
    have x: "wf_instance (x_inst s)" "i_flow_key (x_inst s) = fk" using s inst by (auto simp: wf_exec_def)
    let ?t = "set_inst (x_tbl s) j (x_inst s)"
    have at1: "inst_at d (x_tbl s) fk = Some j" and at2: "inst_at d ?t fk = Some j"
      using core(4) at by simp_all
    have wf2: "wf_table d ?t" by (rule wf_table_set_inst [OF wf1 at1 x(2,1)])
    have cfg: "same_config t ?t" using core(1) by (blast intro: same_config_trans set_inst_fields)
    have flows: "flow_map d ?t k = flow_map d t k" if "k \<noteq> fk" for k
      using flow_map_set_inst [OF _ at1 that] flow_map_core [OF s [THEN conjunct2, THEN conjunct1]] wf1
      by (simp add: wf_table_def)
    show ?thesis
    proof (cases "destroy (x_inst s)")
      case True
      from flows.del_view [OF _ at2] wf2 obtain t3 where
        t3: "destroy_instance d ?t j = Inr (int j, t3)" "inst_inv d t3"
          "flow_map d t3 = (flow_map d ?t)(fk := None)" by (auto simp: wf_table_def flow_map_view)
      note fr = destroy_instance_frame [OF t3(1)]
      then have "wf_table d t3"
        using wf2 t3(2) config_ok_cong [of ?t t3 d] by (simp add: wf_table_def)
      moreover have "same_config t t3" using cfg fr by (blast intro: same_config_trans)
      moreover have "flow_map d t3 k = flow_map d t k" if "k \<noteq> fk" for k
        using t3(3) flows [OF that] that by simp
      ultimately show ?thesis
        using Inr True t3(1) s by (simp add: stage_act_def stage_post_def Let_def)
    next
      case False
      let ?w = "(x_inst s)\<lparr>current_state := e_next_state e\<rparr>"
      have "wf_table d (set_inst ?t j ?w)"
        by (rule wf_table_set_inst [OF wf2 at2]) (use x in \<open>simp_all add: wf_instance_def\<close>)
      moreover have "same_config t (set_inst ?t j ?w)"
        using cfg by (blast intro: same_config_trans set_inst_fields)
      moreover have "flow_map d (set_inst ?t j ?w) k = flow_map d t k" if "k \<noteq> fk" for k
        using flow_map_set_inst [OF _ at2 that] flows [OF that] wf2 by (simp add: wf_table_def)
      ultimately show ?thesis using Inr False s e by (auto simp: stage_act_def stage_post_def Let_def)
    qed
  qed
qed

lemma stage_post_cong:
  "same_config t t1 \<Longrightarrow> (\<And>k. k \<noteq> fk \<Longrightarrow> flow_map d t1 k = flow_map d t k) \<Longrightarrow>
     stage_post d fk t1 mem tx r \<Longrightarrow> stage_post d fk t mem tx r"
  by (auto simp: stage_post_def rows_cong split: sum.splits dest: same_config_trans)

lemma stage_match_ok:
  assumes "wf_table d t" and "parsed mem (pkt_fields t)" and "length fk = 8"
  shows "stage_post d fk t mem tx (stage_match d mem tx t fk)"
proof -
  have inv: "inst_inv d t" using assms(1) by (simp add: wf_table_def)
  obtain io t1 where l: "lookup_instance d t fk = Inr (io, t1)"
    using flows.get_returns [OF inv assms(3)] by blast
  show ?thesis
  proof (cases io)
    case None
    with l show ?thesis by (simp add: stage_match_def stage_post_def)
  next
    case (Some j)
    note fr = lookup_instance_frame [OF l]
    have inv1: "inst_inv d t1" by (rule flows.get_inv [OF inv assms(3) l])
    have at1: "inst_at d t1 fk = Some j"
      by (rule flows.get_at [OF inv assms(3)]) (use l Some in simp)
    have wf1: "wf_table d t1"
      using assms(1) fr inv1 config_ok_cong [of t t1 d] by (simp add: wf_table_def)
    let ?x = "instances_pool t1 j"
    have x: "wf_instance ?x" "i_flow_key ?x = fk" using inv1 at1 by (auto simp: inst_inv_def)
    obtain rs where ev: "xfsm_evaluate_conditions mem t1 ?x = Inr (?x\<lparr>results := rs\<rparr>)" "length rs = 16"
      using conditions_returns [OF _ _ x(1), of mem t1 d] assms(2) fr wf1 by (auto simp: wf_table_def)
    let ?y = "?x\<lparr>results := rs\<rparr>"
    let ?t2 = "set_inst t1 j ?y"
    have y: "wf_instance ?y" "i_flow_key ?y = fk" using x ev(2) by (auto simp: wf_instance_def)
    have wf2: "wf_table d ?t2" by (rule wf_table_set_inst [OF wf1 at1 y(2,1)])
    have cfg2: "same_config t ?t2" using fr by (blast intro: same_config_trans set_inst_fields)
    obtain mo where mo: "xfsm_table_lookup d ?t2 ?y = Inr mo" "\<And>e. mo = Some e \<Longrightarrow> e \<in> rows ?t2"
      using table_lookup_returns [of d ?t2 ?y] wf2 y(1) by (auto simp: wf_table_def)
    have flows: "flow_map d ?t2 k = flow_map d t k" if "k \<noteq> fk" for k
      using flow_map_set_inst [OF inv1 at1 that] flows.get_isolated [OF inv assms(3) l that]
      by (simp add: flow_map_view)
    have "stage_post d fk ?t2 mem tx (stage_match d mem tx t fk)"
    proof (cases mo)
      case None
      with l Some ev mo(1) wf2 show ?thesis by (simp add: stage_match_def stage_post_def Let_def)
    next
      case (Some e)
      have "stage_post d fk ?t2 mem tx (stage_act d mem tx ?t2 j ?y e)"
        by (rule stage_act_ok [OF wf2 _ _ y mo(2) [OF Some]]) (use assms(2) fr at1 in simp_all)
      with l \<open>io = Some j\<close> ev mo(1) Some show ?thesis by (simp add: stage_match_def Let_def)
    qed
    with cfg2 flows show ?thesis by (rule stage_post_cong)
  qed
qed

section \<open>A packet\<close>

text \<open>
  The pipeline only goes forward: every row of a loaded table leads out or to a later stage
  that is loaded, and stage 0 is loaded.
\<close>

definition forward :: "'h xfsm_table option list \<Rightarrow> bool" where
  "forward ts \<longleftrightarrow> length ts = MAX_STAGES \<and> ts ! 0 \<noteq> None \<and>
     (\<forall>s < MAX_STAGES. \<forall>t. ts ! s = Some t \<longrightarrow>
        (\<forall>e \<in> rows t. e_next_stage e = NULL_STAGE \<or>
           (s < unat (e_next_stage e) \<and> unat (e_next_stage e) < MAX_STAGES \<and>
            ts ! unat (e_next_stage e) \<noteq> None)))"

definition wf_worker :: "'h dpdk \<Rightarrow> 'h worker \<Rightarrow> bool" where
  "wf_worker d w \<longleftrightarrow>
     forward (tables (w_pipe w)) \<and> length (w_fk w) = 8 \<and> rte_get_tsc_hz d \<noteq> 0 \<and>
     (\<forall>t. Some t \<in> set (tables (w_pipe w)) \<longrightarrow> wf_table d t)"

lemma forward_update:
  assumes "forward ts" and "ts ! s = Some t" and "s < 8" and "same_config t t'"
  shows "forward (ts[s := Some t'])"
proof -
  have none: "ts[s := Some t'] ! k \<noteq> None \<longleftrightarrow> ts ! k \<noteq> None" if "k < 8" for k
    using assms that by (cases "k = s") (auto simp: forward_def)
  have "rows u = rows u'" if "ts[s := Some t'] ! k = Some u" "ts ! k = Some u'" "k < 8" for k u u'
    using assms that rows_cong [OF assms(4)] by (cases "k = s") (auto simp: forward_def)
  then show ?thesis
    using assms(1) none unfolding forward_def
    by (metis (no_types, lifting) length_list_update not_None_eq zero_less_numeral)
qed

text \<open>One stage keeps the worker well formed; the next stage is later and loaded.\<close>

definition packet_post :: "'h dpdk \<Rightarrow> nat \<Rightarrow> 'h worker \<Rightarrow> 'h worker \<Rightarrow> bool" where
  "packet_post d m w w' \<longleftrightarrow>
     wf_worker d w' \<and> same_shape (w_mem w) (w_mem w') \<and> (\<exists>ext. w_tx w' = w_tx w @ ext) \<and>
     w_freed w' = w_freed w"

lemma process_stage_ok:
  assumes wf: "wf_worker d w" and pkt: "pkt_ok (w_mem w) m" and s: "s < 8"
    and t: "tables (w_pipe w) ! s = Some t"
  shows "case process_stage d tsc i m s w of
      Inl f \<Rightarrow> f \<in> packet_faults
    | Inr (v, w') \<Rightarrow> packet_post d m w w' \<and>
        (\<forall>s'. v = To_Stage s' \<longrightarrow> s' = 255 \<or> (s < s' \<and> s' < 8 \<and> tables (w_pipe w') ! s' \<noteq> None))"
proof -
  let ?ts = "tables (w_pipe w)"
  have len: "length ?ts = 8" using wf by (simp add: wf_worker_def forward_def)
  with t s have "Some t \<in> set ?ts" by (metis nth_mem)
  with wf have wft: "wf_table d t" by (simp add: wf_worker_def)
  obtain t1 mem1 fk1 where f: "stage_front d tsc i m t (w_mem w) (w_fk w) = Inr (t1, mem1, True, fk1)"
    "wf_table d t1" "same_config t t1" "parsed mem1 (pkt_fields t1)" "length fk1 = 8"
    "same_shape (w_mem w) mem1" "instances_pool t1 = instances_pool t" "inst_at d t1 = inst_at d t"
    using stage_front_ok [OF wft pkt, of "w_fk w" tsc i] wf by (auto simp: wf_worker_def)
  have "flow_map d t1 k = flow_map d t k" for k using f(7,8) by (simp add: flow_map_def)
  note post = stage_post_cong [OF f(3) this stage_match_ok [OF f(2,4,5), of "w_tx w"]]
  show ?thesis
  proof (cases "stage_match d mem1 (w_tx w) t1 fk1")
    case (Inl g)
    with post f(1) t len s show ?thesis by (simp add: process_stage_def stage_post_def)
  next
    case (Inr r)
    obtain v t2 mem2 tx2 where r: "r = (v, t2, mem2, tx2)" by (cases r)
    from post Inr r have p: "wf_table d t2" "same_config t t2" "same_shape mem1 mem2"
      "\<exists>ext. tx2 = w_tx w @ ext" "\<And>s'. v = To_Stage s' \<Longrightarrow> \<exists>e \<in> rows t. s' = unat (e_next_stage e)"
      by (auto simp: stage_post_def)
    have fwd: "forward (?ts[s := Some t2])"
      using wf t s p(2) by (intro forward_update) (simp_all add: wf_worker_def)
    have "wf_table d u" if "Some u \<in> set (?ts[s := Some t2])" for u
      using that p(1) wf set_update_subset_insert [of ?ts s "Some t2"] by (auto simp: wf_worker_def)
    with fwd f(5,6) p(3,4) wf have "packet_post d m w
        (w\<lparr>w_fk := fk1, w_pipe := (w_pipe w)\<lparr>tables := ?ts[s := Some t2]\<rparr>, w_mem := mem2, w_tx := tx2\<rparr>)"
      by (auto simp: packet_post_def wf_worker_def dest: same_shape_trans)
    moreover have "s' = 255 \<or> (s < s' \<and> s' < 8 \<and> ?ts[s := Some t2] ! s' \<noteq> None)"
      if "v = To_Stage s'" for s'
      using p(5) [OF that] wf t s len by (fastforce simp: wf_worker_def forward_def nth_list_update)
    ultimately show ?thesis
      using f(1) Inr r t len s by (simp add: process_stage_def Let_def put_table_def)
  qed
qed

lemma run_stages_ok:
  assumes "wf_worker d w" and "pkt_ok (w_mem w) m" and "s = 255 \<or> s < 8 \<and> tables (w_pipe w) ! s \<noteq> None"
    and "s < 8 \<Longrightarrow> 8 - s \<le> fuel"
  shows "case run_stages fuel d tsc i m s w of
      Inl f \<Rightarrow> f \<in> packet_faults | Inr w' \<Rightarrow> packet_post d m w w'"
  using assms
proof (induction fuel arbitrary: s w)
  case 0
  then show ?case by (auto simp: run_stages.simps packet_post_def intro: exI [of _ "[]"])
next
  case (Suc fuel)
  show ?case
  proof (cases "s = 255")
    case True
    with Suc.prems show ?thesis by (auto simp: run_stages.simps packet_post_def intro: exI [of _ "[]"])
  next
    case False
    with Suc.prems obtain t where t: "s < 8" "tables (w_pipe w) ! s = Some t" by auto
    note st = process_stage_ok [OF Suc.prems(1,2) t, of tsc i]
    show ?thesis
    proof (cases "process_stage d tsc i m s w")
      case (Inl f)
      with st False show ?thesis by (simp add: run_stages.simps)
    next
      case (Inr r)
      obtain v w' where r: "r = (v, w')" by (cases r)
      with st Inr have post: "packet_post d m w w'"
        and next_stage: "\<And>s'. v = To_Stage s' \<Longrightarrow> s' = 255 \<or> (s < s' \<and> s' < 8 \<and> tables (w_pipe w') ! s' \<noteq> None)"
        by auto
      show ?thesis
      proof (cases v)
        case To_Free
        with Inr r False post show ?thesis by (simp add: run_stages.simps)
      next
        case (To_Stage s')
        have "wf_worker d w'" "pkt_ok (w_mem w') m"
          using post Suc.prems(2) by (auto simp: packet_post_def intro: pkt_ok_shape)
        with Suc.IH [of w' s'] next_stage [OF To_Stage] Suc.prems(4) t(1)
        have "case run_stages fuel d tsc i m s' w' of
            Inl f \<Rightarrow> f \<in> packet_faults | Inr w'' \<Rightarrow> packet_post d m w' w''" by auto
        with Inr r False To_Stage post show ?thesis
          by (auto simp: run_stages.simps packet_post_def split: sum.splits dest: same_shape_trans)
      qed
    qed
  qed
qed

section \<open>Bursts and turns of the loop\<close>

lemma process_packet_ok:
  assumes "wf_worker d w" and "pkt_ok (w_mem w) m" and "8 \<le> fuel"
  shows "case process_packet fuel d tsc i m w of
      Inl f \<Rightarrow> f \<in> packet_faults
    | Inr w' \<Rightarrow> wf_worker d w' \<and> w_mem w' m = None \<and> w_freed w' = w_freed w @ [m] \<and>
        (\<forall>k. k \<noteq> m \<and> pkt_ok (w_mem w) k \<longrightarrow> pkt_ok (w_mem w') k)"
proof -
  have "tables (w_pipe w) ! 0 \<noteq> None" using assms(1) by (simp add: wf_worker_def forward_def)
  with run_stages_ok [OF assms(1,2), of 0 fuel tsc i] assms(3)
  have run: "case run_stages fuel d tsc i m 0 w of
      Inl f \<Rightarrow> f \<in> packet_faults | Inr w' \<Rightarrow> packet_post d m w w'" by auto
  then show ?thesis
    by (auto simp: process_packet_def free_pkt_def packet_post_def wf_worker_def pkt_ok_def
        split: sum.splits dest: same_shapeD)
qed

lemma packets_ok:
  assumes "wf_worker d w" and "\<forall>p \<in> set ps. pkt_ok (w_mem w) (fst p)" and "distinct (map fst ps)"
    and "8 \<le> fuel"
  shows "case run_steps (\<lambda>(m, b). process_packet fuel d tsc i m) ps w of
      Inl f \<Rightarrow> f \<in> packet_faults
    | Inr w' \<Rightarrow> wf_worker d w' \<and> w_freed w' = w_freed w @ map fst ps"
  using assms(1-3)
proof (induction ps arbitrary: w)
  case (Cons p ps)
  obtain m b where p: "p = (m, b)" by (cases p)
  have ok: "pkt_ok (w_mem w) m" using Cons.prems(2) p by simp
  note one = process_packet_ok [OF Cons.prems(1) ok assms(4), of tsc i]
  show ?case
  proof (cases "process_packet fuel d tsc i m w")
    case (Inl f)
    with one p show ?thesis by simp
  next
    case (Inr w1)
    with one Cons.prems p have "wf_worker d w1" "\<forall>p \<in> set ps. pkt_ok (w_mem w1) (fst p)"
      "w_freed w1 = w_freed w @ [m]" by auto
    with Cons.IH [of w1] Cons.prems(3) Inr p show ?thesis by (auto split: sum.splits)
  qed
qed simp

definition burst_ok :: "nat \<times> (nat \<times> mbuf) list \<Rightarrow> bool" where
  "burst_ok burst \<longleftrightarrow> distinct (map fst (snd burst)) \<and> (\<forall>(m, b) \<in> set (snd burst). 60 \<le> length (m_data b))"

lemma receive_ok:
  "burst_ok burst \<Longrightarrow> p \<in> set (snd burst) \<Longrightarrow> pkt_ok (w_mem (receive (snd burst) w)) (fst p)"
  by (cases p) (auto simp: burst_ok_def receive_def pkt_ok_def map_add_Some_iff)

lemma wf_receive [simp]: "wf_worker d (receive ps w) = wf_worker d w"
  by (simp add: wf_worker_def receive_def)

lemma process_burst_ok:
  assumes "wf_worker d w" and "burst_ok burst" and "8 \<le> fuel"
  shows "case process_burst fuel d tsc burst w of
      Inl f \<Rightarrow> f \<in> packet_faults
    | Inr w' \<Rightarrow> wf_worker d w' \<and> w_freed w' = w_freed w @ map fst (snd burst)"
proof -
  let ?w = "receive (snd burst) w"
  have "wf_worker d ?w" and "\<forall>p \<in> set (snd burst). pkt_ok (w_mem ?w) (fst p)"
    and "distinct (map fst (snd burst))" and "w_freed ?w = w_freed w"
    using assms(1,2) receive_ok [OF assms(2)] by (auto simp: burst_ok_def) (simp add: receive_def)
  with packets_ok [OF _ _ _ assms(3), of d ?w "snd burst" tsc "fst burst"] show ?thesis
    by (simp add: process_burst_def split: sum.splits)
qed

interpretation burst_run: step_guarded "process_burst fuel d tsc"
  "\<lambda>w. wf_worker d w \<and> 8 \<le> fuel" burst_ok packet_faults for fuel d tsc
proof unfold_locales
  fix w burst assume "wf_worker d w \<and> 8 \<le> fuel" "burst_ok burst"
  with process_burst_ok [of d w burst fuel tsc]
  show "case process_burst fuel d tsc burst w of Inl f \<Rightarrow> f \<in> packet_faults
    | Inr w' \<Rightarrow> wf_worker d w' \<and> 8 \<le> fuel" by (auto split: sum.splits)
qed

end
