(* ===== verification/Worker_Props.thy ===== *)
theory Worker_Props
  imports Pipeline_Safety
begin

text \<open>
  The properties of the packet loop that span its components: a configuration loaded by
  \<open>xfsm_table_create\<close> is well formed, a well-formed worker processes any traffic without
  memory errors and frees every packet once, flows are isolated, and what the transmit queue
  holds when a packet is done.
\<close>

section \<open>Created tables are well formed\<close>

lemma populate_entries:
  "populate d es ns (h, pool) = Inr (h', pool') \<Longrightarrow> blk \<in> set pool' \<Longrightarrow>
     blk \<in> set pool \<or> set (hm_entries blk) \<subseteq> set es"
proof (induction ns arbitrary: h pool)
  case (Cons n ns)
  obtain r hm where a: "hash_add d h [kn_key n] = (r, hm)" by (cases "hash_add d h [kn_key n]")
  show ?case
  proof (cases "r < 0")
    case True
    with Cons.prems a show ?thesis by (auto simp: not_le)
  next
    case False
    let ?b = "\<lparr>hm_key = kn_key n, hm_entries = map ((!) es) (kn_entries n)\<rparr>"
    from False Cons.prems(1) a have sub: "set (hm_entries ?b) \<subseteq> set es"
      and rest: "populate d es ns (hm, pool[nat r := ?b]) = Inr (h', pool')"
      by (auto simp: rd_all_spec access_iff res_bind_Inr_iff)
    from Cons.IH [OF rest Cons.prems(2)] show ?thesis
    proof
      assume "blk \<in> set (pool[nat r := ?b])"
      then have "blk = ?b \<or> blk \<in> set pool" by (meson insertE set_update_subset_insert subsetD)
      with sub show ?thesis by blast
    qed blast
  qed
qed simp

lemma create_config_ok:
  assumes c: "xfsm_table_create d names es sz init conds nb lk tid = Inr (names', t)"
    and ok: "rte_hash_ok d" and rows: "\<forall>e \<in> set es. e_current_state e \<noteq> STATE_NULL \<and> entry_static e"
    and "unat nb \<le> MAX_CONDITIONS" and "\<forall>i < unat nb. condition_static (conds ! i)" and "key_static lk"
  shows "config_ok d t \<and> rows t \<subseteq> set es"
proof (rule xfsm_table_createE [OF c])
  fix ns eh
  assume p: "populate d es ns (eh, replicate (unat sz) \<lparr>hm_key = 0, hm_entries = []\<rparr>)
       = Inr (entries_hmap t, state_entries_pool t)"
    and t: "conditions t = take 16 conds" "length (conditions t) = 16" "nb_conditions t = nb" "t_lookup_key t = lk"
  have sub: "rows t \<subseteq> set es"
    using populate_entries [OF p] unfolding rows_def by fastforce
  have "\<forall>e \<in> set es. e_current_state e \<noteq> STATE_NULL" using rows by blast
  from create_block [OF c ok this] have "nat (hash_lookup d (entries_hmap t) [s]) < length (state_entries_pool t)"
    if "0 \<le> hash_lookup d (entries_hmap t) [s]" for s using that by auto
  moreover have "\<forall>i < unat nb. condition_static (conditions t ! i)" using t(1) assms(4,5) by auto
  ultimately show ?thesis using t assms(4,6) sub rows by (auto simp: config_ok_def)
qed

section \<open>A worker for the witnesses\<close>

lemma demo_static:
  "entry_static (demo_row s s')" "key_static demo_lookup_key" "condition_static zero_condition"
  by (auto simp: entry_static_def demo_row_def wf_entry_def key_static_def demo_lookup_key_def
      field_static_def always_set_def less_2_cases_iff condition_static_def operand_static_def
      zero_condition_def intro: exI [of _ IPv4_SRC] exI [of _ IPv4_DST])

lemma demo_wf_table:
  assumes c: "demo_create [demo_row 0 1, demo_row 1 0] = Inr (names, t)"
  shows "wf_table slot_dpdk t" and "rows t \<subseteq> {demo_row 0 1, demo_row 1 0}"
  using create_config_ok [OF c [unfolded demo_create_def] slot_hash_ok] demo_static
    create_inst_inv [OF c [unfolded demo_create_def] slot_hash_ok]
    create_wf_fields [OF c [unfolded demo_create_def]]
  by (auto simp: wf_table_def)

lemma create_pipeline:
  assumes "wf_table d t" and "\<forall>e \<in> rows t. e_next_stage e = NULL_STAGE" and "rte_get_tsc_hz d \<noteq> 0"
  shows "wf_worker d \<lparr>w_pipe = \<lparr>tables = Some t # replicate 7 None, num_stages = 1\<rparr>,
    w_fk = replicate 8 0, w_mem = mem, w_tx = [], w_freed = []\<rparr>"
  using assms by (auto simp: wf_worker_def forward_def nth_Cons split: nat.splits)

lemma demo_table_exists:
  "\<exists>t. wf_table slot_dpdk t \<and> rows t \<subseteq> {demo_row 0 1, demo_row 1 0} \<and>
     instances_hmap t = Some (replicate 1000000 None) \<and> nb_instances t = 0"
proof -
  obtain names t where c: "demo_create [demo_row 0 1, demo_row 1 0] = Inr (names, t)"
    using demo_create_two by blast
  then have "instances_hmap t = Some (replicate 1000000 None)" "nb_instances t = 0"
    by (auto simp: demo_create_def xfsm_table_create_def Let_def split: if_splits)
  with demo_wf_table [OF c] show ?thesis by blast
qed

definition demo_state :: "slot_table xfsm_table \<Rightarrow> pktmem \<Rightarrow> slot_table worker" where
  "demo_state t mem = \<lparr>w_pipe = \<lparr>tables = Some t # replicate 7 None, num_stages = 1\<rparr>,
     w_fk = replicate 8 0, w_mem = mem, w_tx = [], w_freed = []\<rparr>"

lemma demo_state_simps [simp]:
  "tables (w_pipe (demo_state t mem)) = Some t # replicate 7 None" "w_mem (demo_state t mem) = mem"
  "w_tx (demo_state t mem) = []" "w_freed (demo_state t mem) = []" "w_fk (demo_state t mem) = replicate 8 0"
  by (simp_all add: demo_state_def)

lemma wf_demo_state:
  assumes "wf_table slot_dpdk t" and "rows t \<subseteq> {demo_row 0 1, demo_row 1 0}"
  shows "wf_worker slot_dpdk (demo_state t mem)"
proof -
  have "\<forall>e \<in> rows t. e_next_stage e = NULL_STAGE" using assms(2) by (auto simp: demo_row_def)
  then show ?thesis unfolding demo_state_def using assms(1) by (intro create_pipeline) simp_all
qed

lemma demo_worker: "\<exists>w. wf_worker slot_dpdk w \<and> w_mem w = mem \<and> w_tx w = [] \<and> w_freed w = []"
  using demo_table_exists wf_demo_state [of _ mem] by (metis demo_state_simps(2-4))

text \<open>A stage whose rows have no action returns for a flow that gets an instance.\<close>

lemma stage_match_returns:
  assumes "wf_table d t" and "parsed mem (pkt_fields t)" and "length fk = 8"
    and l: "lookup_instance d t fk = Inr (Some j, t1)" and "\<forall>e \<in> rows t. nb_actions e = 0"
  shows "\<exists>r. stage_match d mem tx t fk = Inr r"
proof -
  have inv: "inst_inv d t" using assms(1) by (simp add: wf_table_def)
  have inv1: "inst_inv d t1" by (rule flows.get_inv [OF inv assms(3) l])
  have at1: "inst_at d t1 fk = Some j" by (rule flows.get_at [OF inv assms(3) l])
  note fr = lookup_instance_frame [OF l]
  let ?x = "instances_pool t1 j"
  have x: "wf_instance ?x" using inv1 at1 by (auto simp: inst_inv_def)
  have c1: "config_ok d t1" "length (global_registers t1) = 32"
    using assms(1) fr config_ok_cong [of t t1 d] by (auto simp: wf_table_def)
  obtain rs where ev: "xfsm_evaluate_conditions mem t1 ?x = Inr (?x\<lparr>results := rs\<rparr>)" "length rs = 16"
    using conditions_returns [OF _ c1(2) x c1(1), of mem] assms(2) fr by auto
  let ?y = "?x\<lparr>results := rs\<rparr>" and ?t2 = "set_inst t1 j (?x\<lparr>results := rs\<rparr>)"
  have cfg: "same_config t ?t2" using fr by (blast intro: same_config_trans set_inst_fields)
  have "wf_instance ?y" using x ev(2) by (simp add: wf_instance_def)
  then obtain mo where mo: "xfsm_table_lookup d ?t2 ?y = Inr mo" "\<And>e. mo = Some e \<Longrightarrow> e \<in> rows t"
    using table_lookup_returns [of d ?t2 ?y] config_ok_cong [OF cfg] rows_cong [OF cfg] assms(1)
    by (auto simp: wf_table_def)
  have "j < 1000000" by (rule inst_at_bound [OF inv1 at1])
  then have "\<exists>r. stage_act d mem tx ?t2 j ?y e = Inr r" if "mo = Some e" for e
    using mo(2) [OF that] assms(5)
    by (auto simp: stage_act_def xfsm_execute_actions_def Let_def destroy_instance_def split: prod.splits)
  with l ev(1) mo(1) show ?thesis
    by (cases mo) (auto simp: stage_match_def Let_def)
qed

lemma demo_stage:
  "\<exists>w v w'. wf_worker slot_dpdk w \<and> pkt_ok (w_mem w) 1 \<and>
     process_stage slot_dpdk 5 0 1 0 w = Inr (v, w') \<and> (v = To_Free \<or> v = To_Stage 255)"
proof -
  obtain t where t: "wf_table slot_dpdk t" "rows t \<subseteq> {demo_row 0 1, demo_row 1 0}"
    "instances_hmap t = Some (replicate 1000000 None)" "nb_instances t = 0" using demo_table_exists by blast
  let ?w = "demo_state t [1 \<mapsto> demo_mbuf 6]"
  have wf: "wf_worker slot_dpdk ?w" and pkt: "pkt_ok (w_mem ?w) 1"
    using wf_demo_state [OF t(1,2)] by (simp_all add: pkt_ok_def)
  obtain t1 mem1 fk1 where
    f: "stage_front slot_dpdk 5 0 1 t (w_mem ?w) (w_fk ?w) = Inr (t1, mem1, True, fk1)"
    and f1: "wf_table slot_dpdk t1" "same_config t t1" "parsed mem1 (pkt_fields t1)" "length fk1 = 8"
      "instances_hmap t1 = instances_hmap t" "nb_instances t1 = nb_instances t"
    using stage_front_ok [OF t(1) pkt, of "w_fk ?w" 5 0] by auto
  have "\<exists>t2. lookup_instance slot_dpdk t1 fk1 = Inr (Some 0, t2)"
    using f1(5,6) t(3,4)
    by (simp add: lookup_instance_def insert_instance_def hash_lookup_def hash_add_def slot_lookup_def
        slot_add_def slot_find_fresh slot_find_replicate)
  moreover have "\<forall>e \<in> rows t1. nb_actions e = 0"
    using rows_cong [OF f1(2)] t(2) by (auto simp: demo_row_def)
  ultimately obtain v t3 mem3 tx3 where "stage_match slot_dpdk mem1 [] t1 fk1 = Inr (v, t3, mem3, tx3)"
    using stage_match_returns [OF f1(1,3,4), of 0 _ "[]"] by (metis prod_cases4)
  with f have "\<exists>w'. process_stage slot_dpdk 5 0 1 0 ?w = Inr (v, w')"
    by (simp add: process_stage_def Let_def)
  then obtain w' where p: "process_stage slot_dpdk 5 0 1 0 ?w = Inr (v, w')" ..
  then obtain x where "tables (w_pipe w') = Some x # replicate 7 None"
    by (auto simp: process_stage_def Let_def put_table_def res_bind_Inr_iff split: if_splits)
  then have "tables (w_pipe w') ! s' = None" if "0 < s'" "s' < 8" for s'
    using that by (cases s') simp_all
  with process_stage_ok [OF wf pkt, of 0 t 5 0] p have "v = To_Free \<or> v = To_Stage 255"
    by (cases v) auto
  with wf pkt p show ?thesis by blast
qed

section \<open>Properties\<close>

text \<open>
  C8: A table created from a static configuration is well formed: at most 16 conditions,
  at most 7 key fields, rows that use only registers, fields and actions that exist, and no
  row with the reserved state. The instance store satisfies its invariant with no flow.
\<close>

theorem create_well_formed:
  assumes "xfsm_table_create d names es sz init conds nb lk tid = Inr (names', t)"
    and "rte_hash_ok d" and "\<forall>e \<in> set es. e_current_state e \<noteq> STATE_NULL \<and> entry_static e"
    and "unat nb \<le> MAX_CONDITIONS" and "\<forall>i < unat nb. condition_static (conds ! i)" and "key_static lk"
  shows "wf_table d t \<and> rows t \<subseteq> set es \<and> (\<forall>fk. flow_map d t fk = None)"
  using create_config_ok [OF assms] create_wf_fields [OF assms(1)] create_inst_inv [OF assms(1,2)]
  by (simp add: wf_table_def flow_map_def)

theorem create_well_formed_witness:
  "\<exists>names t. demo_create [demo_row 0 1, demo_row 1 0] = Inr (names, t) \<and> wf_table slot_dpdk t \<and>
     rows t \<subseteq> {demo_row 0 1, demo_row 1 0}"
proof -
  obtain names t where c: "demo_create [demo_row 0 1, demo_row 1 0] = Inr (names, t)"
    using demo_create_two by blast
  with create_well_formed [OF c [unfolded demo_create_def] slot_hash_ok] demo_static show ?thesis by auto
qed



lemma worker_turn_ok:
  assumes "wf_worker d w" and "\<forall>ps \<in> set bursts. burst_ok (0, ps)" and "8 \<le> fuel"
  shows "case worker_turn fuel d is_master timer_period cur_tsc bursts (c, w) of
      Inl f \<Rightarrow> f \<in> packet_faults
    | Inr (c', w') \<Rightarrow> wf_worker d w' \<and>
        c' = drain_tick d is_master timer_period (length bursts) cur_tsc c"
proof -
  have "\<forall>b \<in> set (enumerate 0 bursts). burst_ok b"
    using assms(2) by (auto simp: burst_ok_def in_set_enumerate_eq)
  moreover have "tables (w_pipe w) \<noteq> []" "hd (tables (w_pipe w)) \<noteq> None"
    using assms(1) by (cases "tables (w_pipe w)"; auto simp: wf_worker_def forward_def)+
  ultimately show ?thesis
    using burst_run.run_ok [of d w fuel "enumerate 0 bursts" cur_tsc] assms(1,3)
    by (simp add: worker_turn_def Let_def split: sum.splits)
qed



text \<open>
  C6: Flows are isolated. One stage of a packet changes at most the instance of the
  packet's own flow, the one whose key it extracted: every other flow of the table, and
  every other table of the pipeline, is as before.
\<close>

theorem flow_isolation:
  assumes "wf_worker d w" and "pkt_ok (w_mem w) m" and "s < 8" and "tables (w_pipe w) ! s = Some t"
    and "process_stage d tsc i m s w = Inr (v, w')"
  shows "\<exists>t'. tables (w_pipe w') ! s = Some t' \<and>
    (\<forall>k. k \<noteq> w_fk w' \<longrightarrow> flow_map d t' k = flow_map d t k) \<and>
    (\<forall>s'. s' \<noteq> s \<longrightarrow> tables (w_pipe w') ! s' = tables (w_pipe w) ! s')"
proof -
  have len: "length (tables (w_pipe w)) = 8" using assms(1) by (simp add: wf_worker_def forward_def)
  with assms(3,4) have "Some t \<in> set (tables (w_pipe w))" by (metis nth_mem)
  with assms(1) have wf: "wf_table d t" "length (w_fk w) = 8" "rte_get_tsc_hz d \<noteq> 0"
    by (simp_all add: wf_worker_def)
  obtain t1 mem1 fk1 where f: "stage_front d tsc i m t (w_mem w) (w_fk w) = Inr (t1, mem1, True, fk1)"
    "wf_table d t1" "parsed mem1 (pkt_fields t1)" "length fk1 = 8"
    "instances_pool t1 = instances_pool t" "inst_at d t1 = inst_at d t"
    using stage_front_ok [OF wf(1) assms(2) wf(2,3)] by blast
  have "flow_map d t1 = flow_map d t" by (simp add: flow_map_def f(5,6) fun_eq_iff)
  moreover from assms(3-5) len f(1) obtain t2 mem2 tx2 where
    "stage_match d mem1 (w_tx w) t1 fk1 = Inr (v, t2, mem2, tx2)"
    "tables (w_pipe w') = (tables (w_pipe w))[s := Some t2]" "w_fk w' = fk1"
    by (auto simp: process_stage_def Let_def put_table_def res_bind_Inr_iff)
  ultimately show ?thesis
    using stage_match_ok [OF f(2-4), of "w_tx w"] len assms(3) by (auto simp: stage_post_def)
qed

theorem flow_isolation_witness:
  "\<exists>w t v w' t'. tables (w_pipe w) ! 0 = Some t \<and>
     process_stage slot_dpdk 5 0 1 0 w = Inr (v, w') \<and> tables (w_pipe w') ! 0 = Some t' \<and>
     (\<forall>k. k \<noteq> w_fk w' \<longrightarrow> flow_map slot_dpdk t' k = flow_map slot_dpdk t k)"
proof -
  obtain w v w' where w: "wf_worker slot_dpdk w" "pkt_ok (w_mem w) 1"
    "process_stage slot_dpdk 5 0 1 0 w = Inr (v, w')" using demo_stage by blast
  obtain t where t: "tables (w_pipe w) ! 0 = Some t" using w(1) by (auto simp: wf_worker_def forward_def)
  have "(0 :: nat) < 8" by simp
  from flow_isolation [OF w(1,2) this t w(3)] t w(3) show ?thesis by blast
qed

lemma stage_act_tx:
  assumes "stage_act d mem tx t j inst e = Inr (v, t', mem', tx')" and "curr_pkt t = Some m"
  shows "\<exists>ext. tx' = tx @ ext \<and> (\<forall>ev \<in> set ext. tx_pkt ev = Some m)"
proof -
  from assms(1) obtain s where "xfsm_execute_actions d e \<lparr>x_mem = mem, x_tbl = t, x_inst = inst,
      x_tx = tx, x_reg1 = 0, x_reg2 = 0, x_reg3 = 0\<rparr> = Inr s" "tx' = x_tx s"
    by (auto simp: stage_act_def Let_def res_bind_Inr_iff split: if_splits prod.splits)
  with action_loop_tx [of d e "unat (nb_actions e)"] assms(2) show ?thesis
    by (fastforce simp: xfsm_execute_actions_def tx_events_def split: if_splits)
qed

lemma stage_match_tx:
  assumes "stage_match d mem tx t fk = Inr (v, t', mem', tx')" and "curr_pkt t = Some m"
  shows "\<exists>ext. tx' = tx @ ext \<and> (\<forall>ev \<in> set ext. tx_pkt ev = Some m)"
proof -
  from assms(1) obtain io t1 where l: "lookup_instance d t fk = Inr (io, t1)"
    by (auto simp: stage_match_def res_bind_Inr_iff)
  have "curr_pkt t1 = Some m" using lookup_instance_frame [OF l] assms(2) by simp
  with assms(1) l show ?thesis
    by (auto simp: stage_match_def Let_def res_bind_Inr_iff set_inst_def
        split: option.splits dest!: stage_act_tx)
qed

lemma process_stage_tx:
  assumes "process_stage d tsc i m s w = Inr (v, w')"
  shows "\<exists>ext. w_tx w' = w_tx w @ ext \<and> (\<forall>ev \<in> set ext. tx_pkt ev = Some m)"
proof -
  from assms obtain t t1 mem1 ok fk1 where
    f: "stage_front d tsc i m t (w_mem w) (w_fk w) = Inr (t1, mem1, ok, fk1)"
    and r: "(if ok then res_bind (stage_match d mem1 (w_tx w) t1 fk1)
               (\<lambda>(v, t2, mem2, tx2). Inr (v, (put_table s t2 ((put_table s t1 w)
                  \<lparr>w_mem := mem1, w_fk := fk1\<rparr>))\<lparr>w_mem := mem2, w_tx := tx2\<rparr>))
             else Inr (To_Stage s, (put_table s t1 w)\<lparr>w_mem := mem1, w_fk := fk1\<rparr>)) = Inr (v, w')"
    by (auto simp: process_stage_def Let_def res_bind_Inr_iff split: option.splits)
  have "curr_pkt t1 = Some m"
    using f by (auto simp: stage_front_def Let_def res_bind_Inr_iff split: option.splits if_splits
        dest!: parse_frame arg_cong [where f = curr_pkt])
  with r show ?thesis
    by (auto simp: put_table_def res_bind_Inr_iff split: if_splits dest!: stage_match_tx)
qed

lemma run_stages_tx:
  "run_stages fuel d tsc i m s w = Inr w' \<Longrightarrow>
     \<exists>ext. w_tx w' = w_tx w @ ext \<and> (\<forall>ev \<in> set ext. tx_pkt ev = Some m)"
proof (induction fuel arbitrary: s w)
  case 0
  then show ?case by (auto simp: run_stages.simps split: if_splits)
next
  case (Suc fuel)
  show ?case
  proof (cases "s = 255")
    case True
    with Suc.prems show ?thesis by (simp add: run_stages.simps)
  next
    case False
    with Suc.prems obtain v w1 where st: "process_stage d tsc i m s w = Inr (v, w1)"
      and rest: "(case v of To_Free \<Rightarrow> Inr w1 | To_Stage s' \<Rightarrow> run_stages fuel d tsc i m s' w1) = Inr w'"
      by (auto simp: run_stages.simps res_bind_Inr_iff)
    from process_stage_tx [OF st] obtain e1 where e1: "w_tx w1 = w_tx w @ e1" "\<forall>ev \<in> set e1. tx_pkt ev = Some m"
      by blast
    from rest Suc.IH obtain e2 where "w_tx w' = w_tx w1 @ e2" "\<forall>ev \<in> set e2. tx_pkt ev = Some m"
      by (cases v) fastforce+
    with e1 show ?thesis by (intro exI [of _ "e1 @ e2"]) auto
  qed
qed



end
