(* ===== verification/CJson_Tree.thy ===== *)
theory CJson_Tree
  imports FB_Prelude
begin

text \<open>
  SW-FB/cJSON.h and the accessors of SW-FB/cJSON.c: the nodes of a parsed document and the
  functions that inspect them. A node's \<open>next\<close>/\<open>prev\<close> chain is the list its parent holds, in
  order. Strings are the bytes before their terminator, as \<open>string\<close>; a NULL pointer is
  \<open>None\<close>. The type of floating-point numbers is a parameter \<open>'d\<close>.
\<close>

datatype 'd cjson =
  CJson (cj_type: u32) (cj_valuestring: "string option") (cj_valueint: int) (cj_valuedouble: 'd)
        (cj_string: "string option") (cj_child: "'d cjson list")

abbreviation (input) cJSON_Invalid :: u32 where "cJSON_Invalid \<equiv> 0"
abbreviation (input) cJSON_False :: u32 where "cJSON_False \<equiv> 1"
abbreviation (input) cJSON_True :: u32 where "cJSON_True \<equiv> 2"
abbreviation (input) cJSON_NULL :: u32 where "cJSON_NULL \<equiv> 4"
abbreviation (input) cJSON_Number :: u32 where "cJSON_Number \<equiv> 8"
abbreviation (input) cJSON_String :: u32 where "cJSON_String \<equiv> 16"
abbreviation (input) cJSON_Array :: u32 where "cJSON_Array \<equiv> 32"
abbreviation (input) cJSON_Object :: u32 where "cJSON_Object \<equiv> 64"
abbreviation (input) cJSON_Raw :: u32 where "cJSON_Raw \<equiv> 128"

text \<open>The test of the \<open>cJSON_Is...\<close> functions.\<close>

definition cJSON_is :: "u32 \<Rightarrow> 'd cjson option \<Rightarrow> bool" where
  "cJSON_is ty item = (case item of None \<Rightarrow> False | Some j \<Rightarrow> cj_type j AND 255 = ty)"

definition cJSON_IsString :: "'d cjson option \<Rightarrow> bool" where
  "cJSON_IsString item = cJSON_is cJSON_String item"

definition cJSON_IsInvalid :: "'d cjson option \<Rightarrow> bool" where
  "cJSON_IsInvalid item = cJSON_is cJSON_Invalid item"

definition cJSON_IsFalse :: "'d cjson option \<Rightarrow> bool" where
  "cJSON_IsFalse item = cJSON_is cJSON_False item"

definition cJSON_IsTrue :: "'d cjson option \<Rightarrow> bool" where
  "cJSON_IsTrue item = cJSON_is cJSON_True item"

definition cJSON_IsBool :: "'d cjson option \<Rightarrow> bool" where
  "cJSON_IsBool item = (case item of None \<Rightarrow> False | Some j \<Rightarrow> cj_type j AND (cJSON_True OR cJSON_False) \<noteq> 0)"

definition cJSON_IsNull :: "'d cjson option \<Rightarrow> bool" where
  "cJSON_IsNull item = cJSON_is cJSON_NULL item"

definition cJSON_IsNumber :: "'d cjson option \<Rightarrow> bool" where
  "cJSON_IsNumber item = cJSON_is cJSON_Number item"

definition cJSON_IsArray :: "'d cjson option \<Rightarrow> bool" where
  "cJSON_IsArray item = cJSON_is cJSON_Array item"

definition cJSON_IsObject :: "'d cjson option \<Rightarrow> bool" where
  "cJSON_IsObject item = cJSON_is cJSON_Object item"

definition cJSON_IsRaw :: "'d cjson option \<Rightarrow> bool" where
  "cJSON_IsRaw item = cJSON_is cJSON_Raw item"

text \<open>The elements a \<open>cJSON_ArrayForEach\<close> visits.\<close>

definition cJSON_elements :: "'d cjson option \<Rightarrow> 'd cjson list" where
  "cJSON_elements array = (case array of None \<Rightarrow> [] | Some j \<Rightarrow> cj_child j)"

definition cJSON_GetArraySize :: "'d cjson option \<Rightarrow> nat" where
  "cJSON_GetArraySize array = length (cJSON_elements array)"

fun get_array_item :: "'d cjson list \<Rightarrow> nat \<Rightarrow> 'd cjson option" where
  "get_array_item [] index = None"
| "get_array_item (c # cs) 0 = Some c"
| "get_array_item (c # cs) (Suc index) = get_array_item cs index"

definition cJSON_GetArrayItem :: "'d cjson option \<Rightarrow> int \<Rightarrow> 'd cjson option" where
  "cJSON_GetArrayItem array index =
     (if index < 0 then None else get_array_item (cJSON_elements array) (nat index))"

text \<open>
  The case-sensitive walk hands the key of each element to \<open>strcmp\<close>; an element of an array
  has no key.
\<close>

fun find_item_cs :: "string \<Rightarrow> 'd cjson list \<Rightarrow> 'd cjson option res" where
  "find_item_cs name [] = Inr None"
| "find_item_cs name (c # cs) =
     (case cj_string c of
        None \<Rightarrow> Inl (UB NullPtr)
      | Some s \<Rightarrow> if name = s then Inr (Some c) else find_item_cs name cs)"

text \<open>\<open>tolower\<close> of the C locale, and \<open>case_insensitive_strcmp(..) == 0\<close>.\<close>

definition tolower :: "char \<Rightarrow> nat" where
  "tolower c = (let n = of_char c in if 65 \<le> n \<and> n \<le> (90 :: nat) then n + 32 else n)"

fun case_insensitive_eq :: "string \<Rightarrow> string \<Rightarrow> bool" where
  "case_insensitive_eq [] [] = True"
| "case_insensitive_eq (a # s) (b # t) = (if tolower a = tolower b then case_insensitive_eq s t else False)"
| "case_insensitive_eq s t = False"

fun find_item_ci :: "string \<Rightarrow> 'd cjson list \<Rightarrow> 'd cjson option" where
  "find_item_ci name [] = None"
| "find_item_ci name (c # cs) =
     (case cj_string c of
        None \<Rightarrow> find_item_ci name cs
      | Some s \<Rightarrow> if case_insensitive_eq name s then Some c else find_item_ci name cs)"

definition get_object_item :: "'d cjson option \<Rightarrow> string option \<Rightarrow> bool \<Rightarrow> 'd cjson option res" where
  "get_object_item object name case_sensitive =
     (case (object, name) of
        (Some j, Some n) \<Rightarrow>
          if case_sensitive then find_item_cs n (cj_child j) else Inr (find_item_ci n (cj_child j))
      | _ \<Rightarrow> Inr None)"

definition cJSON_GetObjectItem :: "'d cjson option \<Rightarrow> string \<Rightarrow> 'd cjson option res" where
  "cJSON_GetObjectItem object s = get_object_item object (Some s) False"

definition cJSON_GetObjectItemCaseSensitive :: "'d cjson option \<Rightarrow> string \<Rightarrow> 'd cjson option res" where
  "cJSON_GetObjectItemCaseSensitive object s = get_object_item object (Some s) True"

definition cJSON_HasObjectItem :: "'d cjson option \<Rightarrow> string \<Rightarrow> bool res" where
  "cJSON_HasObjectItem object s = res_bind (cJSON_GetObjectItem object s) (\<lambda>r. Inr (r \<noteq> None))"

definition cJSON_GetStringValue :: "'d cjson option \<Rightarrow> string option" where
  "cJSON_GetStringValue item = (if cJSON_IsString item then cj_valuestring (the item) else None)"

section \<open>Objects\<close>

text \<open>An object node all of whose members have keys.\<close>

definition keyed :: "'d cjson \<Rightarrow> bool" where
  "keyed j \<longleftrightarrow> (\<forall>c \<in> set (cj_child j). cj_string c \<noteq> None)"

lemma get_array_item_nth: "get_array_item cs i = (if i < length cs then Some (cs ! i) else None)"
  by (induction cs i rule: get_array_item.induct) auto

lemma find_item_cs_find:
  "\<forall>c \<in> set cs. cj_string c \<noteq> None \<Longrightarrow> find_item_cs name cs = Inr (find (\<lambda>c. cj_string c = Some name) cs)"
  by (induction cs) auto

lemma get_item_keyed:
  "keyed j \<Longrightarrow> cJSON_GetObjectItemCaseSensitive (Some j) name =
     Inr (find (\<lambda>c. cj_string c = Some name) (cj_child j))"
  by (simp add: cJSON_GetObjectItemCaseSensitive_def get_object_item_def find_item_cs_find keyed_def)

lemma get_item_None [simp]: "cJSON_GetObjectItemCaseSensitive None name = Inr None"
  by (simp add: cJSON_GetObjectItemCaseSensitive_def get_object_item_def)

end
