(* ===== verification/Loader.thy ===== *)
theory Loader
  imports CJson_Tree Pipeline
begin

text \<open>
  SW-FB/loader.c and the loading part of \<open>fb_worker_main_loop\<close>: from the parsed document of
  a compiled program to the tables of a pipeline. Memory from \<open>malloc\<close> is not initialised;
  what it holds, and the value of a function that returns without a \<open>return\<close> statement, are
  parameters (\<open>loader_env\<close>). The document is not changed: the nodes passed to \<open>cJSON_free\<close>
  are not visited again.
\<close>

section \<open>Numbers\<close>

definition isspace :: "char \<Rightarrow> bool" where
  "isspace c \<longleftrightarrow> of_char c = (32 :: nat) \<or> (9 \<le> (of_char c :: nat) \<and> of_char c \<le> (13 :: nat))"

definition isdigit :: "char \<Rightarrow> bool" where
  "isdigit c \<longleftrightarrow> 48 \<le> (of_char c :: nat) \<and> of_char c \<le> (57 :: nat)"

definition digits_value :: "string \<Rightarrow> nat" where
  "digits_value ds = fold (\<lambda>c n. 10 * n + (of_char c - 48)) ds 0"

text \<open>
  \<open>strtoul(str, &endptr, 10)\<close> of the C library: the value, whether \<open>errno\<close> is \<open>ERANGE\<close>, and
  whether nothing was converted (\<open>endptr == str\<close>).
\<close>

definition strtoul :: "string \<Rightarrow> u64 \<times> bool \<times> bool" where
  "strtoul s =
     (let s1 = dropWhile isspace s;
          (neg, s2) = (case s1 of
             c # r \<Rightarrow> if c = CHR ''-'' then (True, r) else if c = CHR ''+'' then (False, r) else (False, s1)
           | [] \<Rightarrow> (False, s1));
          ds = takeWhile isdigit s2;
          n = digits_value ds
      in if ds = [] then (0, False, True)
         else if 2 ^ 64 \<le> n then (- 1, True, False)
         else (if neg then - of_nat n else of_nat n, False, False))"

abbreviation (input) LONG_MAX :: u64 where "LONG_MAX \<equiv> 0x7FFFFFFFFFFFFFFF"
abbreviation (input) LONG_MIN :: u64 where "LONG_MIN \<equiv> 0x8000000000000000"

text \<open>\<open>None\<close> is \<open>RETURN_ERROR\<close>.\<close>

definition str_to_uint64 :: "string \<Rightarrow> u64 option" where
  "str_to_uint64 str =
     (case strtoul str of
        (v, erange, none) \<Rightarrow>
          if (erange \<and> (v = LONG_MAX \<or> v = LONG_MIN)) \<or> (erange \<and> v = 0) \<or> none then None else Some v)"

definition str_to_uint32 :: "string \<Rightarrow> u32 option" where
  "str_to_uint32 str =
     (case strtoul str of
        (v, erange, none) \<Rightarrow>
          let val = ucast v in
          if (erange \<and> (val = ucast LONG_MAX \<or> val = ucast LONG_MIN)) \<or> (erange \<and> val = 0) \<or> none
          then None else Some val)"

definition str_to_uint8 :: "string \<Rightarrow> u8 option" where
  "str_to_uint8 str =
     (case strtoul str of
        (v, erange, none) \<Rightarrow>
          let val = ucast v in
          if (erange \<and> (val = ucast LONG_MAX \<or> val = ucast LONG_MIN)) \<or> (erange \<and> val = 0) \<or> none
          then None else Some val)"

section \<open>Enumerations\<close>

definition str_to_condition_type :: "string \<Rightarrow> xfsm_condition_types option" where
  "str_to_condition_type str =
     (if str = ''XTRA_LESS'' then Some XFSM_LESS
      else if str = ''XTRA_LESS_EQ'' then Some XFSM_LESS_EQ
      else if str = ''XTRA_GREATER'' then Some XFSM_GREATER
      else if str = ''XTRA_GREATER_EQ'' then Some XFSM_GREATER_EQ
      else if str = ''XTRA_EQUAL'' then Some XFSM_EQUAL
      else if str = ''XTRA_NOT_EQUAL'' then Some XFSM_NOT_EQUAL
      else None)"

definition str_to_event_field :: "string \<Rightarrow> hdr_fields option" where
  "str_to_event_field str = (if str = ''XTRA_PKT_RCVD_PORT'' then Some XFSM_IN_PORT else None)"

definition str_to_header_field :: "string \<Rightarrow> hdr_fields option" where
  "str_to_header_field str =
     (if str = ''eth.src'' then Some SRC_MAC
      else if str = ''eth.dst'' then Some DST_MAC
      else if str = ''eth.type'' then Some ETH_TYPE
      else if str = ''ipv4.src'' then Some IPv4_SRC
      else if str = ''ipv4.dst'' then Some IPv4_DST
      else if str = ''ipv4.proto'' then Some IPv4_PROTO
      else if str = ''ipv4.tos'' then Some IPv4_TOS
      else if str = ''tcp.sport'' then Some TCP_SPORT
      else if str = ''tcp.dport'' then Some TCP_DPORT
      else if str = ''udp.sport'' then Some UDP_SPORT
      else if str = ''udp.dport'' then Some UDP_DPORT
      else if str = ''XTRA_TIMESTAMP'' then Some XFSM_TIMESTAMP
      else None)"

definition str_to_result :: "string \<Rightarrow> xfsm_results option" where
  "str_to_result str =
     (if str = ''XTRA_TRUE'' then Some XFSM_TRUE
      else if str = ''XTRA_FALSE'' then Some XFSM_FALSE
      else if str = ''XTRA_DONT_CARE'' then Some XFSM_DONT_CARE
      else None)"

definition str_to_value_type :: "string \<Rightarrow> xfsm_value_type option" where
  "str_to_value_type str =
     (if str = ''XTRA_LOCAL_REGISTER'' then Some XFSM_REGISTER
      else if str = ''XTRA_GLOBAL_REGISTER'' then Some XFSM_GLOBAL_REGISTER
      else if str = ''XTRA_INTEGER_CONST'' then Some XFSM_CONSTANT
      else if str = ''XTRA_PKT_FIELD'' \<or> str = ''XTRA_EVENT_FIELD'' \<or> str = ''XTRA_READ_ONLY_REGISTER''
      then Some XFSM_HDR_FIELD
      else None)"

definition str_to_action_type :: "string \<Rightarrow> (xfsm_action_types \<times> xfsm_opcodes) option" where
  "str_to_action_type str =
     (if str = ''XTRA_SUM'' then Some (XFSM_UPDATE, XFSM_SUM)
      else if str = ''XTRA_MINUS'' then Some (XFSM_UPDATE, XFSM_MINUS)
      else if str = ''XTRA_MULTIPLY'' then Some (XFSM_UPDATE, XFSM_MULTIPLY)
      else if str = ''XTRA_DIVIDE'' then Some (XFSM_UPDATE, XFSM_DIVIDE)
      else if str = ''XTRA_MODULO'' then Some (XFSM_UPDATE, XFSM_MODULO)
      else if str = ''XTRA_MAX'' then Some (XFSM_UPDATE, XFSM_MAX)
      else if str = ''XTRA_MIN'' then Some (XFSM_UPDATE, XFSM_MIN)
      else if str = ''XTRA_SENDPKT'' then Some (XFSM_SENDPKT, XFSM_SUM)
      else if str = ''XTRA_SETFIELD'' then Some (XFSM_SETFIELD, XFSM_SUM)
      else if str = ''XTRA_DELETEINST'' then Some (XFSM_DESTROY, XFSM_SUM)
      else None)"

section \<open>Operands\<close>

text \<open>
  \<open>junk_...\<close> are the contents of fresh blocks, by the position of the block in its array;
  \<open>fall_off\<close> is what the caller of \<open>get_out_operand\<close> sees when control reaches its end.
\<close>

record loader_env =
  junk_condition :: "nat \<Rightarrow> xfsm_condition"
  junk_conds :: "xfsm_condition list"
  junk_entry :: "nat \<Rightarrow> xfsm_table_entry"
  junk_action :: "nat \<Rightarrow> nat \<Rightarrow> xfsm_action"
  junk_key :: lookup_key
  fall_off :: int

text \<open>\<open>!cJSON_IsString(j) || j->valuestring == NULL || f(j->valuestring) != RETURN_SUCCESS\<close>.\<close>

definition parse_str :: "(string \<Rightarrow> 'a option) \<Rightarrow> 'd cjson option \<Rightarrow> 'a option" where
  "parse_str f j = (case cJSON_GetStringValue j of None \<Rightarrow> None | Some s \<Rightarrow> f s)"

text \<open>The 32-bit store of an enumerator into the low half of a 64-bit member.\<close>

definition store_field :: "hdr_fields \<Rightarrow> u64 \<Rightarrow> u64" where
  "store_field h v = (v AND push_bit 32 (- 1)) OR of_nat (hdr_index h)"

definition get_operand :: "'d cjson option \<Rightarrow> u64 \<Rightarrow> (xfsm_value_type \<times> u64) option res" where
  "get_operand operand junk =
     res_bind (cJSON_GetObjectItemCaseSensitive operand ''type'')
      (\<lambda>type_json.
        case parse_str str_to_value_type type_json of
          None \<Rightarrow> Inr None
        | Some ty \<Rightarrow>
            if ty = XFSM_REGISTER \<or> ty = XFSM_GLOBAL_REGISTER then
              res_bind (cJSON_GetObjectItemCaseSensitive operand ''name'')
                (\<lambda>name. Inr (map_option (Pair ty) (parse_str str_to_uint64 name)))
            else if ty = XFSM_CONSTANT then
              res_bind (cJSON_GetObjectItemCaseSensitive operand ''value'')
                (\<lambda>value. Inr (map_option (Pair ty) (parse_str str_to_uint64 value)))
            else if ty = XFSM_HDR_FIELD then
              res_bind (cJSON_GetObjectItemCaseSensitive operand ''value'')
                (\<lambda>value.
                  res_bind (if cJSON_GetStringValue value = None
                            then cJSON_GetObjectItemCaseSensitive operand ''name'' else Inr value)
                    (\<lambda>value.
                      Inr (case cJSON_GetStringValue value of
                             None \<Rightarrow> None
                           | Some s \<Rightarrow>
                              (case str_to_event_field s of
                                 Some h \<Rightarrow> Some (ty, store_field h junk)
                               | None \<Rightarrow>
                                  (case str_to_header_field s of
                                     Some h \<Rightarrow> Some (ty, store_field h junk)
                                   | None \<Rightarrow> None)))))
            else Inr (Some (ty, junk)))"

text \<open>The result is the value returned and what was stored, when it got that far.\<close>

definition get_out_operand ::
  "loader_env \<Rightarrow> 'd cjson option \<Rightarrow> (int \<times> (xfsm_value_type \<times> u8) option) res" where
  "get_out_operand env operand =
     res_bind (cJSON_GetObjectItemCaseSensitive operand ''type'')
      (\<lambda>type_json.
        case parse_str str_to_value_type type_json of
          None \<Rightarrow> Inr (-1, None)
        | Some ty \<Rightarrow>
            if ty = XFSM_REGISTER \<or> ty = XFSM_GLOBAL_REGISTER then
              res_bind (cJSON_GetObjectItemCaseSensitive operand ''name'')
                (\<lambda>name. Inr (case parse_str str_to_uint8 name of
                     None \<Rightarrow> (-1, None) | Some v \<Rightarrow> (fall_off env, Some (ty, v))))
            else Inr (-1, None))"

text \<open>\<open>if (...) exit(EXIT_FAILURE)\<close>.\<close>

definition or_exit :: "'a option \<Rightarrow> 'a res" where
  "or_exit x = (case x of None \<Rightarrow> Inl Exit | Some v \<Rightarrow> Inr v)"

section \<open>Conditions\<close>

definition load_condition ::
  "loader_env \<Rightarrow> 'd cjson \<Rightarrow> xfsm_condition option list \<Rightarrow> xfsm_condition option list res" where
  "load_condition env condition arr =
     res_bind (cJSON_GetObjectItemCaseSensitive (Some condition) ''id'') (\<lambda>id_json.
     res_bind (cJSON_GetObjectItemCaseSensitive (Some condition) ''opcode'') (\<lambda>opcode.
     res_bind (cJSON_GetObjectItemCaseSensitive (Some condition) ''op0'') (\<lambda>op0.
     res_bind (cJSON_GetObjectItemCaseSensitive (Some condition) ''op1'') (\<lambda>op1.
     res_bind (or_exit (parse_str str_to_uint32 id_json)) (\<lambda>id_val.
     let i = unat id_val; c = junk_condition env i in
     res_bind (wr arr i (Some c)) (\<lambda>arr'.
     res_bind (or_exit (parse_str str_to_condition_type opcode)) (\<lambda>ct.
     res_bind (get_operand op0 (c_value1 c)) (\<lambda>r0. res_bind (or_exit r0) (\<lambda>(ty1, v1).
     res_bind (get_operand op1 (c_value2 c)) (\<lambda>r1. res_bind (or_exit r1) (\<lambda>(ty2, v2).
     Inr (arr'[i := Some \<lparr>c_type1 = ty1, c_type2 = ty2, c_value1 = v1, c_value2 = v2,
                          condition_type = ct\<rparr>]))))))))))))"

definition json_to_conditions ::
  "loader_env \<Rightarrow> 'd cjson option \<Rightarrow> (nat \<times> xfsm_condition option list) res" where
  "json_to_conditions env conds_json =
     (let cs = cJSON_elements conds_json; num = length cs in
      if num \<ge> 255 then Inl Exit
      else res_bind (run_steps (load_condition env) cs (replicate num None)) (\<lambda>arr. Inr (num, arr)))"

section \<open>Actions\<close>

text \<open>The missing opcode: the error message itself dereferences the NULL pointer.\<close>

definition load_action :: "loader_env \<Rightarrow> nat \<Rightarrow> nat \<Rightarrow> 'd cjson \<Rightarrow> xfsm_action res" where
  "load_action env row i action =
     res_bind (cJSON_GetObjectItemCaseSensitive (Some action) ''opcode'') (\<lambda>opcode.
     res_bind (case parse_str str_to_action_type opcode of
                 None \<Rightarrow> (if opcode = None then Inl (UB NullPtr) else Inl Exit)
               | Some to \<Rightarrow> Inr to) (\<lambda>(ty, opc).
     res_bind (cJSON_GetObjectItemCaseSensitive (Some action) ''op0'') (\<lambda>op0.
     res_bind (cJSON_GetObjectItemCaseSensitive (Some action) ''op1'') (\<lambda>op1.
     res_bind (cJSON_GetObjectItemCaseSensitive (Some action) ''op2'') (\<lambda>op2.
     let a = (junk_action env row i)\<lparr>a_type := ty, a_opcode := opc\<rparr> in
     case ty of
       XFSM_UPDATE \<Rightarrow>
         res_bind (get_operand op0 (a_value1 a)) (\<lambda>r0. res_bind (or_exit r0) (\<lambda>(ty1, v1).
         res_bind (get_operand op1 (a_value2 a)) (\<lambda>r1. res_bind (or_exit r1) (\<lambda>(ty2, v2).
         res_bind (get_out_operand env op2) (\<lambda>(ret, out).
         if ret = -1 then Inl Exit
         else let a' = a\<lparr>a_type1 := ty1, a_value1 := v1, a_type2 := ty2, a_value2 := v2\<rparr> in
              Inr (case out of None \<Rightarrow> a' | Some (oty, ov) \<Rightarrow> a'\<lparr>a_out_type := oty, a_output := ov\<rparr>))))))
     | XFSM_SENDPKT \<Rightarrow>
         res_bind (get_operand op0 (a_value1 a)) (\<lambda>r0. res_bind (or_exit r0) (\<lambda>(ty1, v1).
         res_bind (get_operand op1 (a_value2 a)) (\<lambda>r1. res_bind (or_exit r1) (\<lambda>(ty2, v2).
         Inr (a\<lparr>a_type1 := ty1, a_value1 := v1, a_type2 := ty2, a_value2 := v2\<rparr>)))))
     | XFSM_SETFIELD \<Rightarrow>
         res_bind (get_operand op0 (a_value1 a)) (\<lambda>r0. res_bind (or_exit r0) (\<lambda>(ty1, v1).
         res_bind (get_operand op1 (a_value2 a)) (\<lambda>r1. res_bind (or_exit r1) (\<lambda>(ty2, v2).
         res_bind (get_operand op2 (a_value3 a)) (\<lambda>r2.
         case r2 of
           None \<Rightarrow> (if op2 = None then Inl (UB NullPtr) else Inl Exit)
         | Some (ty3, v3) \<Rightarrow>
             Inr (a\<lparr>a_type1 := ty1, a_value1 := v1, a_type2 := ty2, a_value2 := v2,
                    a_type3 := ty3, a_value3 := v3\<rparr>))))))
     | XFSM_DESTROY \<Rightarrow> Inl Exit)))))"

text \<open>\<open>*num\<close> is a 16-bit counter; the array is allocated with it.\<close>

definition json_to_actions :: "loader_env \<Rightarrow> nat \<Rightarrow> 'd cjson option \<Rightarrow> (u16 \<times> xfsm_action option list) res"
  where
  "json_to_actions env row actions =
     (let as = cJSON_elements actions; num = of_nat (length as) :: u16 in
      res_bind
        (run_steps
          (\<lambda>(i, action) arr.
             res_bind (wr arr i None)
              (\<lambda>arr'. res_bind (load_action env row i action) (\<lambda>a. Inr (arr'[i := Some a]))))
          (enumerate 0 as) (replicate (unat num) None))
        (\<lambda>arr. Inr (num, arr)))"

section \<open>Table rows\<close>

definition load_result :: "nat \<times> 'd cjson \<Rightarrow> xfsm_results list \<Rightarrow> xfsm_results list res" where
  "load_result ic res0 =
     (case ic of (i, condition) \<Rightarrow>
       if i \<ge> 16 then Inl Exit
       else
        res_bind (cJSON_GetObjectItemCaseSensitive (Some condition) ''id'') (\<lambda>id_json.
        res_bind (cJSON_GetObjectItemCaseSensitive (Some condition) ''result'') (\<lambda>result.
        res_bind (or_exit (parse_str str_to_uint32 id_json)) (\<lambda>id_val.
        if id_val \<ge> 16 then Inl Exit
        else res_bind (or_exit (parse_str str_to_result result)) (\<lambda>r. wr res0 (unat id_val) r)))))"

definition copy_actions :: "nat \<Rightarrow> xfsm_action option list \<Rightarrow> xfsm_action list \<Rightarrow> xfsm_action list res" where
  "copy_actions n src dst =
     run_steps
       (\<lambda>j acc. res_bind (rd src j)
          (\<lambda>p. case p of None \<Rightarrow> Inl (UB Indeterminate) | Some a \<Rightarrow> wr acc j a))
       [0..<n] dst"

definition json_to_table_entry :: "loader_env \<Rightarrow> nat \<Rightarrow> 'd cjson \<Rightarrow> xfsm_table_entry res" where
  "json_to_table_entry env row json =
     (let j = Some json; junk = junk_entry env row in
      res_bind (cJSON_GetObjectItemCaseSensitive j ''state'') (\<lambda>cs_json.
      res_bind (cJSON_GetObjectItemCaseSensitive j ''next_state'') (\<lambda>ns_json.
      res_bind (cJSON_GetObjectItemCaseSensitive j ''next_stage'') (\<lambda>ng_json.
      res_bind (cJSON_GetObjectItemCaseSensitive j ''condition_results'') (\<lambda>conds_json.
      res_bind (cJSON_GetObjectItemCaseSensitive j ''actions'') (\<lambda>actions.
      res_bind (or_exit (parse_str str_to_uint32 cs_json)) (\<lambda>cs.
      res_bind (or_exit (parse_str str_to_uint32 ns_json)) (\<lambda>ns.
      res_bind (or_exit (parse_str str_to_uint8 ng_json)) (\<lambda>ng.
      res_bind (run_steps load_result (enumerate 0 (cJSON_elements conds_json))
                  (replicate MAX_CONDITIONS XFSM_DONT_CARE)) (\<lambda>rs.
      res_bind (json_to_actions env row actions) (\<lambda>(num, ptr).
      res_bind (copy_actions (unat num) ptr (e_actions junk)) (\<lambda>as.
      Inr (junk\<lparr>e_current_state := cs, e_next_state := ns, e_next_stage := ng, e_results := rs,
                nb_actions := num, e_actions := as\<rparr>)))))))))))))"

section \<open>Lookup key and table\<close>

text \<open>\<open>value->valuestring\<close> and its comparison are not guarded; \<open>biflow_no\<close> is not set.\<close>

definition load_key_field :: "'d cjson \<Rightarrow> lookup_key \<Rightarrow> lookup_key res" where
  "load_key_field fld_json lk =
     res_bind (cJSON_GetObjectItemCaseSensitive (Some fld_json) ''value'') (\<lambda>value.
       case value of
         None \<Rightarrow> Inl (UB NullPtr)
       | Some v \<Rightarrow>
          (case cj_valuestring v of
             None \<Rightarrow> Inl (UB NullPtr)
           | Some s \<Rightarrow>
              res_bind (or_exit (str_to_header_field s)) (\<lambda>h.
              res_bind (wr (lk_fld lk) (unat (lk_size lk)) h) (\<lambda>fld.
              Inr (lk\<lparr>lk_fld := fld, lk_size := lk_size lk + 1\<rparr>)))))"

definition json_to_lookup_key :: "loader_env \<Rightarrow> 'd cjson option \<Rightarrow> lookup_key res" where
  "json_to_lookup_key env flds =
     run_steps load_key_field (cJSON_elements flds) ((junk_key env)\<lparr>lk_size := 0\<rparr>)"

definition copy_conditions ::
  "nat \<Rightarrow> xfsm_condition option list \<Rightarrow> xfsm_condition list \<Rightarrow> xfsm_condition list res" where
  "copy_conditions n src dst =
     run_steps
       (\<lambda>j acc. res_bind (rd src j)
          (\<lambda>p. case p of None \<Rightarrow> Inl (UB Indeterminate) | Some c \<Rightarrow> wr acc j c))
       [0..<n] dst"

text \<open>
  \<open>conditions_number\<close> is the low byte of the count the callee writes through an \<open>int *\<close>; the
  three bytes behind it on the stack, which the call also overwrites, are not modelled. The
  rows are counted in a \<open>uint8_t\<close>. Every table gets the id 0.
\<close>

definition json_to_table ::
  "loader_env \<Rightarrow> 'h dpdk \<Rightarrow> 'd cjson option \<Rightarrow> obj_name list \<Rightarrow> (obj_name list \<times> 'h xfsm_table) res" where
  "json_to_table env d table names =
     res_bind (cJSON_GetObjectItemCaseSensitive table ''conditions'') (\<lambda>conds_json.
     res_bind (json_to_conditions env conds_json) (\<lambda>(num, arr).
     let conditions_number = of_nat num :: u8 in
     res_bind (cJSON_GetObjectItemCaseSensitive table ''initial_state'') (\<lambda>is_json.
     res_bind (or_exit (parse_str str_to_uint8 is_json)) (\<lambda>initial_state.
     res_bind (cJSON_GetObjectItemCaseSensitive table ''table_rows'') (\<lambda>rows_json.
     let row_list = cJSON_elements rows_json; table_size = of_nat (length row_list) :: u8 in
     res_bind
       (run_steps
         (\<lambda>(i, r) acc. res_bind (json_to_table_entry env i r) (\<lambda>e. wr acc i (Some e)))
         (enumerate 0 row_list) (replicate (unat table_size) None)) (\<lambda>entries.
     res_bind (cJSON_GetObjectItemCaseSensitive table ''flow_key'') (\<lambda>key_json.
     res_bind (json_to_lookup_key env key_json) (\<lambda>lk.
     res_bind (copy_conditions (unat conditions_number) arr (junk_conds env)) (\<lambda>conds.
     xfsm_table_create d names (map the entries) table_size initial_state conds conditions_number lk 0)))))))))"

text \<open>The loading loop of the worker: eight table pointers, one per stage.\<close>

definition load_stage ::
  "loader_env \<Rightarrow> 'h dpdk \<Rightarrow> 'd cjson \<Rightarrow> obj_name list \<times> 'h xfsm_pipeline \<Rightarrow>
     (obj_name list \<times> 'h xfsm_pipeline) res" where
  "load_stage env d s st =
     (case st of (names, p) \<Rightarrow>
       res_bind (cJSON_GetObjectItemCaseSensitive (Some s) ''table'') (\<lambda>table.
       res_bind (json_to_table env d table names) (\<lambda>(names', t).
       res_bind (wr (tables p) (unat (num_stages p)) (Some t)) (\<lambda>ts.
       Inr (names', p\<lparr>tables := ts, num_stages := num_stages p + 1\<rparr>)))))"

definition load_pipeline ::
  "loader_env \<Rightarrow> 'h dpdk \<Rightarrow> 'd cjson option \<Rightarrow> obj_name list \<Rightarrow> (obj_name list \<times> 'h xfsm_pipeline) res" where
  "load_pipeline env d json names =
     res_bind (cJSON_GetObjectItemCaseSensitive json ''stages'') (\<lambda>stages.
       run_steps (load_stage env d) (cJSON_elements stages)
         (names, \<lparr>tables = replicate MAX_STAGES None, num_stages = 0\<rparr>))"

end
