(* ===== verification/Loader_Spec.thy ===== *)
theory Loader_Spec
  imports Loader Worker_Props
begin

text \<open>
  What the loader promises. The source of a compiled program is written down as abstract
  syntax (operands, conditions, actions, rows, tables) with a printer to documents; the
  lemmas show that the loader reads back what was printed, up to the members it never
  writes, and which documents it cannot load.
\<close>

section \<open>Decimal numbers\<close>

definition digit_char :: "nat \<Rightarrow> char" where
  "digit_char k = char_of (48 + k mod 10)"

fun decimal :: "nat \<Rightarrow> string" where
  "decimal n = (if n div 10 = 0 then [] else decimal (n div 10)) @ [digit_char n]"

declare decimal.simps [simp del]

lemma of_char_digit [simp]: "of_char (digit_char k) = 48 + k mod 10"
  by (simp add: digit_char_def)

lemma digits_value_snoc: "digits_value (ds @ [c]) = 10 * digits_value ds + (of_char c - 48)"
  by (simp add: digits_value_def)

lemma decimal_props: "digits_value (decimal n) = n \<and> decimal n \<noteq> [] \<and> (\<forall>c \<in> set (decimal n). isdigit c)"
proof (induction n rule: decimal.induct)
  case (1 n)
  have ten: "10 * (n div 10) + n mod 10 = n" by simp
  show ?case
  proof (cases "n div 10 = 0")
    case True
    with ten show ?thesis
      by (simp add: decimal.simps [of n] digits_value_def isdigit_def)
  next
    case False
    from 1 [OF False] False ten show ?thesis
      by (simp add: decimal.simps [of n] digits_value_snoc isdigit_def)
  qed
qed

lemma isdigit_not [simp]: "isdigit c \<Longrightarrow> \<not> isspace c" "isdigit c \<Longrightarrow> c \<noteq> CHR ''-''" "isdigit c \<Longrightarrow> c \<noteq> CHR ''+''"
  by (auto simp: isdigit_def isspace_def)

lemma strtoul_decimal:
  "strtoul (decimal n) = (if n < 2 ^ 64 then (of_nat n, False, False) else (- 1, True, False))"
proof -
  note p = decimal_props [of n]
  then obtain c r where cr: "decimal n = c # r" by (cases "decimal n") auto
  with p have c: "isdigit c" by simp
  have tw: "takeWhile isdigit r = r" using p cr by (simp add: takeWhile_eq_all_conv)
  show ?thesis using p c cr
    by (simp add: strtoul_def Let_def tw)
qed

lemma ucast_minus_one: "ucast (- 1 :: u64) = (- 1 :: u32)" "ucast (- 1 :: u64) = (- 1 :: u8)"
  by (rule bit_word_eqI; simp add: bit_simps)+

lemma str_to_decimal:
  "str_to_uint64 (decimal n) = Some (if n < 2 ^ 64 then of_nat n else - 1)"
  "str_to_uint32 (decimal n) = (if n < 2 ^ 64 then Some (of_nat n) else None)"
  "str_to_uint8 (decimal n) = (if n < 2 ^ 64 then Some (of_nat n) else None)"
  by (simp_all add: str_to_uint64_def str_to_uint32_def str_to_uint8_def strtoul_decimal Let_def
      unsigned_of_nat take_bit_nat_eq_self ucast_minus_one)

lemma str_to_decimal_unat [simp]:
  "str_to_uint64 (decimal (unat (v :: u64))) = Some v"
  "str_to_uint32 (decimal (unat (w :: u32))) = Some w"
  "str_to_uint8 (decimal (unat (b :: u8))) = Some b"
proof -
  have "unat v < 2 ^ 64" "unat w < 2 ^ 32" "unat b < 2 ^ 8"
    using unsigned_less [of v] unsigned_less [of w] unsigned_less [of b] by simp_all
  then show "str_to_uint64 (decimal (unat v)) = Some v" "str_to_uint32 (decimal (unat w)) = Some w"
    "str_to_uint8 (decimal (unat b)) = Some b"
    by (simp_all add: str_to_decimal)
qed

text \<open>
  C26: The number parsers read every decimal below 2^64 to its residue modulo the width of
  the target, so an 8- or 32-bit member silently takes the low bits; a larger number is
  refused by the 8- and 32-bit parsers, while the 64-bit one accepts it as 2^64 - 1, because
  it looks for the limits of \<open>long\<close> where \<open>strtoul\<close> returns \<open>ULONG_MAX\<close>.
\<close>

theorem decimals_are_read:
  "str_to_uint64 (decimal n) = Some (if n < 2 ^ 64 then of_nat n else - 1) \<and>
   str_to_uint32 (decimal n) = (if n < 2 ^ 64 then Some (of_nat n) else None) \<and>
   str_to_uint8 (decimal n) = (if n < 2 ^ 64 then Some (of_nat n) else None)"
  by (simp add: str_to_decimal)

section \<open>Operands\<close>

text \<open>The operands a program can name, and how they are printed.\<close>

datatype operand = Local_Reg u64 | Global_Reg u64 | Immediate u64 | Field hdr_fields

primrec operand_type :: "operand \<Rightarrow> xfsm_value_type" where
  "operand_type (Local_Reg n) = XFSM_REGISTER"
| "operand_type (Global_Reg n) = XFSM_GLOBAL_REGISTER"
| "operand_type (Immediate v) = XFSM_CONSTANT"
| "operand_type (Field h) = XFSM_HDR_FIELD"

primrec operand_word :: "operand \<Rightarrow> u64" where
  "operand_word (Local_Reg n) = n"
| "operand_word (Global_Reg n) = n"
| "operand_word (Immediate v) = v"
| "operand_word (Field h) = of_nat (hdr_index h)"

text \<open>The names of the fields the loader knows.\<close>

definition field_names :: "(hdr_fields \<times> string) list" where
  "field_names =
     [(SRC_MAC, ''eth.src''), (DST_MAC, ''eth.dst''), (ETH_TYPE, ''eth.type''),
      (IPv4_SRC, ''ipv4.src''), (IPv4_DST, ''ipv4.dst''), (IPv4_PROTO, ''ipv4.proto''),
      (IPv4_TOS, ''ipv4.tos''), (TCP_SPORT, ''tcp.sport''), (TCP_DPORT, ''tcp.dport''),
      (UDP_SPORT, ''udp.sport''), (UDP_DPORT, ''udp.dport''), (XFSM_TIMESTAMP, ''XTRA_TIMESTAMP'')]"

definition field_name :: "hdr_fields \<Rightarrow> string" where
  "field_name h = (if h = XFSM_IN_PORT then ''XTRA_PKT_RCVD_PORT''
                   else case map_of field_names h of None \<Rightarrow> [] | Some s \<Rightarrow> s)"

definition key_field :: "hdr_fields \<Rightarrow> bool" where
  "key_field h \<longleftrightarrow> h \<in> fst ` set field_names"

definition operand_named :: "operand \<Rightarrow> bool" where
  "operand_named p = (case p of Field h \<Rightarrow> h = XFSM_IN_PORT \<or> key_field h | _ \<Rightarrow> True)"

definition str_node :: "string \<Rightarrow> string \<Rightarrow> ('d :: zero) cjson" where
  "str_node k s = CJson cJSON_String (Some s) 0 0 (Some k) []"

definition obj_node :: "string option \<Rightarrow> 'd cjson list \<Rightarrow> ('d :: zero) cjson" where
  "obj_node k cs = CJson cJSON_Object None 0 0 k cs"

definition arr_node :: "string \<Rightarrow> 'd cjson list \<Rightarrow> ('d :: zero) cjson" where
  "arr_node k cs = CJson cJSON_Array None 0 0 (Some k) cs"

definition operand_json :: "string \<Rightarrow> operand \<Rightarrow> ('d :: zero) cjson" where
  "operand_json k p = obj_node (Some k)
     (case p of
        Local_Reg n \<Rightarrow> [str_node ''type'' ''XTRA_LOCAL_REGISTER'', str_node ''name'' (decimal (unat n))]
      | Global_Reg n \<Rightarrow> [str_node ''type'' ''XTRA_GLOBAL_REGISTER'', str_node ''name'' (decimal (unat n))]
      | Immediate v \<Rightarrow> [str_node ''type'' ''XTRA_INTEGER_CONST'', str_node ''value'' (decimal (unat v))]
      | Field h \<Rightarrow> [str_node ''type'' (if h = XFSM_IN_PORT then ''XTRA_EVENT_FIELD'' else ''XTRA_PKT_FIELD''),
                    str_node ''value'' (field_name h)])"

text \<open>Objects are searched by simplification.\<close>

lemma node_simps [simp]:
  "cj_string (str_node k s) = Some k" "cj_string (obj_node ko cs) = ko" "cj_string (arr_node k cs) = Some k"
  "cJSON_GetStringValue (Some (str_node k s)) = Some s"
  "cJSON_elements (Some (arr_node k cs)) = cs" "cJSON_elements (Some (obj_node ko cs)) = cs"
  "cj_valuestring (str_node k s) = Some s"
  by (simp_all add: str_node_def obj_node_def arr_node_def cJSON_GetStringValue_def cJSON_IsString_def
      cJSON_is_def cJSON_elements_def)

lemma get_obj_node [simp]:
  "cJSON_GetObjectItemCaseSensitive (Some (obj_node ko cs)) name = find_item_cs name cs"
  by (simp add: cJSON_GetObjectItemCaseSensitive_def get_object_item_def obj_node_def)

lemma operand_json_key [simp]: "cj_string (operand_json k p) = Some k"
  by (simp add: operand_json_def)

lemma parse_str_node [simp]: "parse_str f (Some (str_node k s)) = f s"
  by (simp add: parse_str_def)

lemma key_field_read: "key_field h \<Longrightarrow>
    str_to_header_field (field_name h) = Some h \<and> str_to_event_field (field_name h) = None"
  by (cases h) (simp_all add: key_field_def field_names_def field_name_def str_to_header_field_def
      str_to_event_field_def)

lemma key_field_not_port [simp]: "\<not> key_field XFSM_IN_PORT"
  by (simp add: key_field_def field_names_def)

text \<open>The high half of a 64-bit member that a 32-bit store leaves as it was.\<close>

definition low_half :: "u64 \<Rightarrow> bool" where
  "low_half v \<longleftrightarrow> v AND push_bit 32 (- 1) = 0"

lemma store_field_low: "low_half v \<Longrightarrow> store_field h v = of_nat (hdr_index h)"
  by (simp add: low_half_def store_field_def)

lemma get_operand_read:
  assumes "operand_named p" and "low_half junk"
  shows "get_operand (Some (operand_json k p)) junk = Inr (Some (operand_type p, operand_word p))"
proof (cases p)
  case (Field h)
  show ?thesis
  proof (cases "h = XFSM_IN_PORT")
    case True
    with Field assms(2) show ?thesis
      by (simp add: get_operand_def operand_json_def str_to_value_type_def store_field_low field_name_def
          str_to_event_field_def)
  next
    case False
    with Field assms have "key_field h" by (simp add: operand_named_def)
    with False Field assms(2) key_field_read [of h] show ?thesis
      by (simp add: get_operand_def operand_json_def str_to_value_type_def store_field_low)
  qed
qed (simp_all add: get_operand_def operand_json_def str_to_value_type_def)

section \<open>Filling an array element by element\<close>

lemma fill_from:
  assumes "\<And>i arr. i < length xs \<Longrightarrow> length arr = m \<Longrightarrow> step (xs ! i) arr = Inr (arr[k + i := v (k + i)])"
    and "length arr = m" and "k + length xs \<le> m"
  shows "run_steps step xs arr
    = Inr (take k arr @ map v [k..<k + length xs] @ drop (k + length xs) arr)"
  using assms
proof (induction xs arbitrary: arr k)
  case (Cons x xs)
  let ?arr = "arr[k := v k]"
  have step: "step x arr = Inr ?arr" using Cons.prems(1) [of 0 arr] Cons.prems(2) by simp
  have "run_steps step xs ?arr
      = Inr (take (Suc k) ?arr @ map v [Suc k..<Suc k + length xs] @ drop (Suc k + length xs) ?arr)"
    by (rule Cons.IH) (use Cons.prems(1) [of "Suc i" for i] Cons.prems(2,3) in auto)
  moreover have "take (Suc k) ?arr = take k arr @ [v k]"
    using Cons.prems(2,3) by (simp add: take_Suc_conv_app_nth)
  ultimately show ?case using step by (simp add: upt_conv_Cons del: upt_Suc)
qed simp

lemmas fill_array = fill_from [where k = 0, simplified]

section \<open>Conditions\<close>

datatype condition_src = Cond (cond_op0: operand) (cond_test: xfsm_condition_types) (cond_op1: operand)

primrec test_name :: "xfsm_condition_types \<Rightarrow> string" where
  "test_name XFSM_LESS = ''XTRA_LESS''"
| "test_name XFSM_LESS_EQ = ''XTRA_LESS_EQ''"
| "test_name XFSM_GREATER = ''XTRA_GREATER''"
| "test_name XFSM_GREATER_EQ = ''XTRA_GREATER_EQ''"
| "test_name XFSM_EQUAL = ''XTRA_EQUAL''"
| "test_name XFSM_NOT_EQUAL = ''XTRA_NOT_EQUAL''"

lemma test_name_read [simp]: "str_to_condition_type (test_name ct) = Some ct"
  by (cases ct) (simp_all add: str_to_condition_type_def)

definition condition_json :: "nat \<times> condition_src \<Rightarrow> ('d :: zero) cjson" where
  "condition_json ic = (case ic of (i, c) \<Rightarrow> obj_node None
     [str_node ''id'' (decimal i), str_node ''opcode'' (test_name (cond_test c)),
      operand_json ''op0'' (cond_op0 c), operand_json ''op1'' (cond_op1 c)])"

definition condition_of :: "condition_src \<Rightarrow> xfsm_condition" where
  "condition_of c =
     \<lparr>c_type1 = operand_type (cond_op0 c), c_type2 = operand_type (cond_op1 c),
      c_value1 = operand_word (cond_op0 c), c_value2 = operand_word (cond_op1 c),
      condition_type = cond_test c\<rparr>"

definition condition_named :: "condition_src \<Rightarrow> bool" where
  "condition_named c \<longleftrightarrow> operand_named (cond_op0 c) \<and> operand_named (cond_op1 c)"

text \<open>
  The environments the loader works in: blocks of the declared sizes whose 64-bit members
  have a clear high half, and a \<open>get_out_operand\<close> that is not taken to have failed.
\<close>

definition clean_env :: "loader_env \<Rightarrow> bool" where
  "clean_env env \<longleftrightarrow>
     (\<forall>i. low_half (c_value1 (junk_condition env i)) \<and> low_half (c_value2 (junk_condition env i))) \<and>
     (\<forall>r i. low_half (a_value1 (junk_action env r i)) \<and> low_half (a_value2 (junk_action env r i)) \<and>
            low_half (a_value3 (junk_action env r i))) \<and>
     (\<forall>r. length (e_actions (junk_entry env r)) = MAX_ACTIONS) \<and>
     length (junk_conds env) = MAX_CONDITIONS \<and> length (lk_fld (junk_key env)) = LOOKUP_KEY_SIZE \<and>
     fall_off env \<noteq> - 1"

lemma load_condition_read:
  assumes "condition_named c" and "clean_env env" and "i < length arr" and "i < 2 ^ 32"
  shows "load_condition env (condition_json (i, c)) arr = Inr (arr[i := Some (condition_of c)])"
  using assms
  by (simp add: load_condition_def condition_json_def or_exit_def str_to_decimal get_operand_read
      condition_named_def clean_env_def unsigned_of_nat take_bit_nat_eq_self Let_def condition_of_def)

lemma conditions_read:
  assumes "\<forall>c \<in> set cs. condition_named c" and "clean_env env" and "length cs < 255"
  shows "json_to_conditions env (Some (arr_node k (map condition_json (enumerate 0 cs) :: ('d :: zero) cjson list)))
     = Inr (length cs, map (\<lambda>c. Some (condition_of c)) cs)"
proof -
  have "run_steps (load_condition env) (map condition_json (enumerate 0 cs) :: 'd cjson list) (replicate (length cs) None)
      = Inr (map (\<lambda>i. Some (condition_of (cs ! i))) [0..<length cs])"
    using fill_array [of "map condition_json (enumerate 0 cs) :: 'd cjson list" "length cs" "load_condition env"
        "\<lambda>i. Some (condition_of (cs ! i))" "replicate (length cs) None"] assms
    by (simp add: nth_enumerate_eq load_condition_read)
  moreover have "map (\<lambda>i. Some (condition_of (cs ! i))) [0..<length cs] = map (\<lambda>c. Some (condition_of c)) cs"
    by (rule nth_equalityI) simp_all
  ultimately show ?thesis using assms(3) by (simp add: json_to_conditions_def Let_def)
qed

section \<open>Actions\<close>

datatype action_src =
    Update xfsm_opcodes operand operand bool u8
  | Send_Pkt operand operand
  | Set_Field operand operand operand

primrec opcode_name :: "xfsm_opcodes \<Rightarrow> string" where
  "opcode_name XFSM_SUM = ''XTRA_SUM''"
| "opcode_name XFSM_MINUS = ''XTRA_MINUS''"
| "opcode_name XFSM_MULTIPLY = ''XTRA_MULTIPLY''"
| "opcode_name XFSM_DIVIDE = ''XTRA_DIVIDE''"
| "opcode_name XFSM_MODULO = ''XTRA_MODULO''"
| "opcode_name XFSM_MAX = ''XTRA_MAX''"
| "opcode_name XFSM_MIN = ''XTRA_MIN''"

lemma opcode_name_read [simp]: "str_to_action_type (opcode_name opc) = Some (XFSM_UPDATE, opc)"
  by (cases opc) (simp_all add: str_to_action_type_def)

lemma other_actions_read [simp]:
  "str_to_action_type ''XTRA_SENDPKT'' = Some (XFSM_SENDPKT, XFSM_SUM)"
  "str_to_action_type ''XTRA_SETFIELD'' = Some (XFSM_SETFIELD, XFSM_SUM)"
  "str_to_action_type ''XTRA_DELETEINST'' = Some (XFSM_DESTROY, XFSM_SUM)"
  by (simp_all add: str_to_action_type_def)

text \<open>The register an update writes: local, or global when the flag is set.\<close>

definition register_json :: "string \<Rightarrow> bool \<Rightarrow> u8 \<Rightarrow> ('d :: zero) cjson" where
  "register_json k global r = obj_node (Some k)
     [str_node ''type'' (if global then ''XTRA_GLOBAL_REGISTER'' else ''XTRA_LOCAL_REGISTER''),
      str_node ''name'' (decimal (unat r))]"

lemma get_out_operand_read:
  "get_out_operand env (Some (register_json k global r))
     = Inr (fall_off env, Some (if global then XFSM_GLOBAL_REGISTER else XFSM_REGISTER, r))"
  by (simp add: get_out_operand_def register_json_def str_to_value_type_def)

lemma register_json_key [simp]: "cj_string (register_json k g r) = Some k"
  by (simp add: register_json_def)

definition action_json :: "action_src \<Rightarrow> ('d :: zero) cjson" where
  "action_json a = obj_node None
     (case a of
        Update opc p q g r \<Rightarrow> [str_node ''opcode'' (opcode_name opc),
          operand_json ''op0'' p, operand_json ''op1'' q, register_json ''op2'' g r]
      | Send_Pkt p q \<Rightarrow> [str_node ''opcode'' ''XTRA_SENDPKT'', operand_json ''op0'' p, operand_json ''op1'' q]
      | Set_Field p q s \<Rightarrow> [str_node ''opcode'' ''XTRA_SETFIELD'',
          operand_json ''op0'' p, operand_json ''op1'' q, operand_json ''op2'' s])"

text \<open>The action that is loaded into a block that held \<open>junk\<close>.\<close>

definition action_of :: "xfsm_action \<Rightarrow> action_src \<Rightarrow> xfsm_action" where
  "action_of junk a =
     (case a of
        Update opc p q g r \<Rightarrow>
          junk\<lparr>a_type := XFSM_UPDATE, a_opcode := opc, a_type1 := operand_type p,
               a_value1 := operand_word p, a_type2 := operand_type q, a_value2 := operand_word q,
               a_out_type := (if g then XFSM_GLOBAL_REGISTER else XFSM_REGISTER), a_output := r\<rparr>
      | Send_Pkt p q \<Rightarrow>
          junk\<lparr>a_type := XFSM_SENDPKT, a_opcode := XFSM_SUM, a_type1 := operand_type p,
               a_value1 := operand_word p, a_type2 := operand_type q, a_value2 := operand_word q\<rparr>
      | Set_Field p q s \<Rightarrow>
          junk\<lparr>a_type := XFSM_SETFIELD, a_opcode := XFSM_SUM, a_type1 := operand_type p,
               a_value1 := operand_word p, a_type2 := operand_type q, a_value2 := operand_word q,
               a_type3 := operand_type s, a_value3 := operand_word s\<rparr>)"

definition action_named :: "action_src \<Rightarrow> bool" where
  "action_named a =
     (case a of
        Update opc p q g r \<Rightarrow> operand_named p \<and> operand_named q
      | Send_Pkt p q \<Rightarrow> operand_named p \<and> operand_named q
      | Set_Field p q s \<Rightarrow> operand_named p \<and> operand_named q \<and> operand_named s)"

lemma load_action_read:
  assumes "action_named a" and "clean_env env"
  shows "load_action env row i (action_json a) = Inr (action_of (junk_action env row i) a)"
  using assms
  by (cases a)
    (simp_all add: load_action_def action_json_def action_named_def clean_env_def get_operand_read
      or_exit_def get_out_operand_read action_of_def Let_def)

lemma actions_read:
  assumes "\<forall>a \<in> set as. action_named a" and "clean_env env" and "length as < 65536"
  shows "json_to_actions env row (Some (arr_node k (map action_json as :: ('d :: zero) cjson list)))
     = Inr (of_nat (length as),
            map (\<lambda>i. Some (action_of (junk_action env row i) (as ! i))) [0..<length as])"
proof -
  let ?n = "length as"
  have n: "unat (of_nat ?n :: u16) = ?n"
    using assms(3) by (simp add: unsigned_of_nat take_bit_nat_eq_self)
  have "run_steps (\<lambda>(i, action) arr. res_bind (wr arr i None)
        (\<lambda>arr'. res_bind (load_action env row i action) (\<lambda>a. Inr (arr'[i := Some a]))))
      (enumerate 0 (map action_json as :: 'd cjson list)) (replicate ?n None)
    = Inr (map (\<lambda>i. Some (action_of (junk_action env row i) (as ! i))) [0..<?n])"
    by (subst fill_array [where m = ?n and v = "\<lambda>i. Some (action_of (junk_action env row i) (as ! i))"])
      (use assms(1,2) in \<open>simp_all add: nth_enumerate_eq load_action_read\<close>)
  with n show ?thesis by (simp add: json_to_actions_def Let_def)
qed

section \<open>Rows\<close>

datatype row_src =
  Row (row_state: u32) (row_next: u32) (row_stage: u8) (row_results: "xfsm_results list")
      (row_actions: "action_src list")

definition result_name :: "xfsm_results \<Rightarrow> string" where
  "result_name r = (case r of XFSM_TRUE \<Rightarrow> ''XTRA_TRUE'' | XFSM_FALSE \<Rightarrow> ''XTRA_FALSE''
                      | XFSM_DONT_CARE \<Rightarrow> ''XTRA_DONT_CARE'' | XFSM_RESULT_OTHER _ \<Rightarrow> [])"

definition result_json :: "nat \<times> xfsm_results \<Rightarrow> ('d :: zero) cjson" where
  "result_json ir = obj_node None
     [str_node ''id'' (decimal (fst ir)), str_node ''result'' (result_name (snd ir))]"

definition row_json :: "row_src \<Rightarrow> ('d :: zero) cjson" where
  "row_json r = obj_node None
     [str_node ''state'' (decimal (unat (row_state r))),
      str_node ''next_state'' (decimal (unat (row_next r))),
      str_node ''next_stage'' (decimal (unat (row_stage r))),
      arr_node ''condition_results'' (map result_json (enumerate 0 (row_results r))),
      arr_node ''actions'' (map action_json (row_actions r))]"

definition row_named :: "row_src \<Rightarrow> bool" where
  "row_named r \<longleftrightarrow>
     length (row_results r) \<le> MAX_CONDITIONS \<and> length (row_actions r) \<le> MAX_ACTIONS \<and>
     (\<forall>x \<in> set (row_results r). x \<in> {XFSM_TRUE, XFSM_FALSE, XFSM_DONT_CARE}) \<and>
     (\<forall>a \<in> set (row_actions r). action_named a)"

definition actions_of :: "loader_env \<Rightarrow> nat \<Rightarrow> action_src list \<Rightarrow> xfsm_action list" where
  "actions_of env row as =
     map (\<lambda>i. action_of (junk_action env row i) (as ! i)) [0..<length as]
       @ drop (length as) (e_actions (junk_entry env row))"

definition entry_of :: "loader_env \<Rightarrow> nat \<Rightarrow> row_src \<Rightarrow> xfsm_table_entry" where
  "entry_of env row r =
     (junk_entry env row)
       \<lparr>e_current_state := row_state r, e_next_state := row_next r, e_next_stage := row_stage r,
        e_results := row_results r @ replicate (MAX_CONDITIONS - length (row_results r)) XFSM_DONT_CARE,
        nb_actions := of_nat (length (row_actions r)), e_actions := actions_of env row (row_actions r)\<rparr>"

lemma result_name_read:
  "x \<in> {XFSM_TRUE, XFSM_FALSE, XFSM_DONT_CARE} \<Longrightarrow> str_to_result (result_name x) = Some x"
  by (auto simp: result_name_def str_to_result_def)

lemma results_read:
  assumes "length rs \<le> 16" and rs: "\<forall>x \<in> set rs. x \<in> {XFSM_TRUE, XFSM_FALSE, XFSM_DONT_CARE}"
  shows "run_steps load_result (enumerate 0 (map result_json (enumerate 0 rs) :: ('d :: zero) cjson list))
      (replicate 16 XFSM_DONT_CARE) = Inr (rs @ replicate (16 - length rs) XFSM_DONT_CARE)"
proof -
  have small: "unat (of_nat i :: u32) = i" if "i < 16" for i
    using that by (simp add: unsigned_of_nat take_bit_nat_eq_self)
  have "run_steps load_result (enumerate 0 (map result_json (enumerate 0 rs) :: 'd cjson list))
      (replicate 16 XFSM_DONT_CARE) = Inr (map ((!) rs) [0..<length rs] @ drop (length rs) (replicate 16 XFSM_DONT_CARE))"
  proof (subst fill_array [where m = 16 and v = "(!) rs"])
    fix i and arr :: "xfsm_results list"
    assume i: "i < length (enumerate 0 (map result_json (enumerate 0 rs) :: 'd cjson list))" and arr: "length arr = 16"
    then have "rs ! i \<in> set rs" "i < 16" using assms(1) by simp_all
    with rs have "str_to_result (result_name (rs ! i)) = Some (rs ! i)" using result_name_read by blast
    with i arr \<open>i < 16\<close>
    show "load_result (enumerate 0 (map result_json (enumerate 0 rs) :: 'd cjson list) ! i) arr = Inr (arr[i := rs ! i])"
      by (simp add: nth_enumerate_eq load_result_def result_json_def or_exit_def str_to_decimal small
          word_le_nat_alt)
  qed (use assms(1) in simp_all)
  then show ?thesis by (simp add: map_nth)
qed

lemma copy_actions_read:
  "n \<le> length dst \<Longrightarrow> copy_actions n (map (\<lambda>i. Some (f i)) [0..<n]) dst = Inr (map f [0..<n] @ drop n dst)"
  unfolding copy_actions_def
  by (subst fill_array [where m = "length dst" and v = f]) simp_all

lemma copy_conditions_read:
  "n \<le> length dst \<Longrightarrow> copy_conditions n (map (\<lambda>i. Some (f i)) [0..<n]) dst = Inr (map f [0..<n] @ drop n dst)"
  unfolding copy_conditions_def
  by (subst fill_array [where m = "length dst" and v = f]) simp_all

lemma row_read:
  assumes "row_named r" and "clean_env env"
  shows "json_to_table_entry env row (row_json r :: ('d :: zero) cjson) = Inr (entry_of env row r)"
proof -
  let ?as = "row_actions r"
  have n: "unat (of_nat (length ?as) :: u16) = length ?as"
    using assms(1) by (simp add: row_named_def unsigned_of_nat take_bit_nat_eq_self)
  have acts: "json_to_actions env row (Some (arr_node k (map action_json ?as :: 'd cjson list)))
     = Inr (of_nat (length ?as), map (\<lambda>i. Some (action_of (junk_action env row i) (?as ! i))) [0..<length ?as])" for k
    using assms by (intro actions_read) (auto simp: row_named_def)
  have copy: "copy_actions (length ?as) (map (\<lambda>i. Some (action_of (junk_action env row i) (?as ! i))) [0..<length ?as])
      (e_actions (junk_entry env row)) = Inr (actions_of env row ?as)"
    using assms by (simp add: copy_actions_read actions_of_def clean_env_def row_named_def)
  have res: "run_steps load_result (enumerate 0 (map result_json (enumerate 0 (row_results r)) :: 'd cjson list))
      (replicate 16 XFSM_DONT_CARE) = Inr (row_results r @ replicate (16 - length (row_results r)) XFSM_DONT_CARE)"
    using assms(1) by (intro results_read) (simp_all add: row_named_def)
  show ?thesis
    by (simp add: json_to_table_entry_def row_json_def or_exit_def Let_def acts copy res n entry_of_def)
qed

section \<open>Tables and pipelines\<close>

datatype table_src =
  Table (tab_conds: "condition_src list") (tab_init: u8) (tab_rows: "row_src list")
        (tab_key: "hdr_fields list")

definition key_json :: "hdr_fields \<Rightarrow> ('d :: zero) cjson" where
  "key_json h = obj_node None [str_node ''value'' (field_name h)]"

definition table_json :: "string \<Rightarrow> table_src \<Rightarrow> ('d :: zero) cjson" where
  "table_json k t = obj_node (Some k)
     [arr_node ''conditions'' (map condition_json (enumerate 0 (tab_conds t))),
      str_node ''initial_state'' (decimal (unat (tab_init t))),
      arr_node ''table_rows'' (map row_json (tab_rows t)),
      arr_node ''flow_key'' (map key_json (tab_key t))]"

text \<open>The limits of the arrays and counters a table is loaded into.\<close>

definition table_named :: "table_src \<Rightarrow> bool" where
  "table_named t \<longleftrightarrow>
     length (tab_conds t) \<le> MAX_CONDITIONS \<and> length (tab_rows t) < 256 \<and>
     length (tab_key t) \<le> LOOKUP_KEY_SIZE \<and>
     (\<forall>c \<in> set (tab_conds t). condition_named c) \<and> (\<forall>r \<in> set (tab_rows t). row_named r) \<and>
     (\<forall>h \<in> set (tab_key t). key_field h)"

definition entries_of :: "loader_env \<Rightarrow> table_src \<Rightarrow> xfsm_table_entry list" where
  "entries_of env t = map (\<lambda>i. entry_of env i (tab_rows t ! i)) [0..<length (tab_rows t)]"

definition conds_of :: "loader_env \<Rightarrow> table_src \<Rightarrow> xfsm_condition list" where
  "conds_of env t = map condition_of (tab_conds t) @ drop (length (tab_conds t)) (junk_conds env)"

definition key_of :: "loader_env \<Rightarrow> table_src \<Rightarrow> lookup_key" where
  "key_of env t =
     (junk_key env)\<lparr>lk_size := of_nat (length (tab_key t)),
                    lk_fld := tab_key t @ drop (length (tab_key t)) (lk_fld (junk_key env))\<rparr>"

lemma key_read_from:
  assumes "\<forall>h \<in> set hs. key_field h" and "n + length hs \<le> 8" and "length fld = 8"
  shows "run_steps load_key_field (map key_json hs :: ('d :: zero) cjson list)
      (lk\<lparr>lk_size := of_nat n, lk_fld := fld\<rparr>)
    = Inr (lk\<lparr>lk_size := of_nat (n + length hs),
              lk_fld := take n fld @ hs @ drop (n + length hs) fld\<rparr>)"
  using assms
proof (induction hs arbitrary: n fld)
  case (Cons h hs)
  have n: "unat (of_nat n :: u8) = n" "n < 8"
    using Cons.prems(2) by (simp_all add: unsigned_of_nat take_bit_nat_eq_self)
  have "load_key_field (key_json h :: 'd cjson) (lk\<lparr>lk_size := of_nat n, lk_fld := fld\<rparr>)
      = Inr (lk\<lparr>lk_size := of_nat (Suc n), lk_fld := fld[n := h]\<rparr>)"
    using Cons.prems key_field_read [of h] n
    by (simp add: load_key_field_def key_json_def or_exit_def add.commute)
  moreover have "take (Suc n) (fld[n := h]) = take n fld @ [h]"
    using Cons.prems(2,3) by (simp add: take_Suc_conv_app_nth)
  ultimately show ?case using Cons.IH [of "Suc n" "fld[n := h]"] Cons.prems by simp
qed simp

lemma key_read:
  assumes "\<forall>h \<in> set (tab_key t). key_field h" and "length (tab_key t) \<le> 8" and "length (lk_fld (junk_key env)) = 8"
  shows "json_to_lookup_key env (Some (arr_node k (map key_json (tab_key t) :: ('d :: zero) cjson list)))
     = Inr (key_of env t)"
  using key_read_from [of "tab_key t" 0 "lk_fld (junk_key env)" "junk_key env"] assms
  by (simp add: json_to_lookup_key_def key_of_def)

lemma rows_read:
  assumes "\<forall>r \<in> set rs. row_named r" and "clean_env env"
  shows "run_steps (\<lambda>(i, r) acc. res_bind (json_to_table_entry env i r) (\<lambda>e. wr acc i (Some e)))
      (enumerate 0 (map row_json rs :: ('d :: zero) cjson list)) (replicate (length rs) None)
    = Inr (map (\<lambda>i. Some (entry_of env i (rs ! i))) [0..<length rs])"
  by (subst fill_array [where m = "length rs" and v = "\<lambda>i. Some (entry_of env i (rs ! i))"])
    (use assms in \<open>simp_all add: nth_enumerate_eq row_read\<close>)

lemma table_read:
  assumes "table_named t" and "clean_env env"
  shows "json_to_table env d (Some (table_json k t :: ('d :: zero) cjson)) names
     = xfsm_table_create d names (entries_of env t) (of_nat (length (tab_rows t))) (tab_init t)
         (conds_of env t) (of_nat (length (tab_conds t))) (key_of env t) 0"
proof -
  note lim = assms(1) [unfolded table_named_def]
  have sizes: "unat (of_nat (length (tab_conds t)) :: u8) = length (tab_conds t)"
    "unat (of_nat (length (tab_rows t)) :: u8) = length (tab_rows t)"
    using lim by (simp_all add: unsigned_of_nat take_bit_nat_eq_self)
  have conds: "json_to_conditions env (Some (arr_node k (map condition_json (enumerate 0 (tab_conds t)) :: 'd cjson list)))
     = Inr (length (tab_conds t), map (\<lambda>c. Some (condition_of c)) (tab_conds t))" for k
    using lim assms(2) by (intro conditions_read) simp_all
  have as_nth: "map (\<lambda>c. f (condition_of c)) cs = map (\<lambda>i. f (condition_of (cs ! i))) [0..<length cs]"
    for f :: "xfsm_condition \<Rightarrow> 'e" and cs
    by (rule nth_equalityI) simp_all
  have copy: "copy_conditions (length (tab_conds t)) (map (\<lambda>c. Some (condition_of c)) (tab_conds t)) (junk_conds env)
      = Inr (conds_of env t)"
    unfolding conds_of_def as_nth [of Some] as_nth [of "\<lambda>c. c"]
    using lim assms(2) by (intro copy_conditions_read) (simp add: clean_env_def)
  have key: "json_to_lookup_key env (Some (arr_node k (map key_json (tab_key t) :: 'd cjson list))) = Inr (key_of env t)" for k
    using lim assms(2) by (intro key_read) (simp_all add: clean_env_def)
  have rows: "run_steps (\<lambda>(i, r) acc. res_bind (json_to_table_entry env i r) (\<lambda>e. wr acc i (Some e)))
      (enumerate 0 (map row_json (tab_rows t) :: 'd cjson list)) (replicate (length (tab_rows t)) None)
    = Inr (map (\<lambda>i. Some (entry_of env i (tab_rows t ! i))) [0..<length (tab_rows t)])"
    using lim assms(2) by (intro rows_read) simp_all
  show ?thesis
    by (simp add: json_to_table_def table_json_def or_exit_def Let_def conds sizes rows key copy entries_of_def
        comp_def)
qed

definition program_json :: "table_src list \<Rightarrow> ('d :: zero) cjson" where
  "program_json ts = obj_node None
     [arr_node ''stages'' (map (\<lambda>t. obj_node None [table_json ''table'' t]) ts)]"

lemma table_json_key [simp]: "cj_string (table_json k t) = Some k"
  by (simp add: table_json_def)

lemma program_read:
  assumes "table_named t" and "clean_env env"
  shows "load_pipeline env d (Some (program_json [t] :: ('d :: zero) cjson)) names
     = res_bind (xfsm_table_create d names (entries_of env t) (of_nat (length (tab_rows t))) (tab_init t)
         (conds_of env t) (of_nat (length (tab_conds t))) (key_of env t) 0)
         (\<lambda>(names', tab). Inr (names', \<lparr>tables = Some tab # replicate 7 None, num_stages = 1\<rparr>))"
  by (simp add: load_pipeline_def program_json_def load_stage_def table_read [OF assms] res_bind_assoc
      split_beta' numeral_eq_Suc)

section \<open>A program for the witnesses\<close>

definition demo_program :: table_src where
  "demo_program = Table [Cond (Field IPv4_PROTO) XFSM_EQUAL (Immediate 6)] 0
     [Row 0 1 255 [XFSM_TRUE] [Update XFSM_SUM (Local_Reg 0) (Immediate 1) False 0],
      Row 1 0 255 [XFSM_DONT_CARE] [Send_Pkt (Immediate 0) (Immediate 0)]]
     [IPv4_SRC, IPv4_DST]"

definition demo_env :: loader_env where
  "demo_env =
     (let act = \<lparr>a_type = XFSM_UPDATE, a_opcode = XFSM_SUM, a_type1 = XFSM_CONSTANT, a_value1 = 0,
                 a_type2 = XFSM_CONSTANT, a_value2 = 0, a_type3 = XFSM_TYPE_OTHER, a_value3 = 0,
                 a_output = 0, a_out_type = XFSM_REGISTER\<rparr>
      in \<lparr>junk_condition = (\<lambda>_. zero_condition), junk_conds = replicate 16 zero_condition,
          junk_entry = (\<lambda>_. \<lparr>e_current_state = 0, e_next_state = 0, e_next_stage = 0, e_results = [],
             e_actions = replicate 32 act, nb_actions = 0, e_priority = 9, idle_timeout = 9, hard_timeout = 9\<rparr>),
          junk_action = (\<lambda>_ _. act),
          junk_key = \<lparr>lk_size = 3, lk_fld = replicate 8 SRC_MAC, biflow_no = 0\<rparr>, fall_off = 0\<rparr>)"

lemma clean_demo_env: "clean_env demo_env"
  by (simp add: clean_env_def demo_env_def low_half_def zero_condition_def Let_def)

lemma demo_program_named: "table_named demo_program"
  by (simp add: table_named_def demo_program_def condition_named_def operand_named_def row_named_def
      action_named_def key_field_def field_names_def)



section \<open>What the loader cannot load\<close>

lemma out_operand_cases:
  "get_out_operand env op2 = Inr (ret, out) \<Longrightarrow>
     ret = - 1 \<or> (ret = fall_off env \<and> (\<exists>ty v. out = Some (ty, v) \<and> ty \<in> {XFSM_REGISTER, XFSM_GLOBAL_REGISTER}))"
  by (auto simp: get_out_operand_def split: option.splits if_splits)

text \<open>
  C27: The shape of a loaded action. Whatever the document and the contents of fresh memory,
  an action that loads is not a destroy action (the loader exits on \<open>XTRA_DELETEINST\<close>), and
  if it is an update then its result register was parsed, and the value with which
  \<open>get_out_operand\<close> falls off its end was not the error code.
\<close>

theorem loaded_action_shape:
  assumes "load_action env row i action = Inr a"
  shows "a_type a \<noteq> XFSM_DESTROY \<and>
    (a_type a = XFSM_UPDATE \<longrightarrow> fall_off env \<noteq> - 1 \<and> a_out_type a \<in> {XFSM_REGISTER, XFSM_GLOBAL_REGISTER})"
  using assms
  by (auto simp: load_action_def Let_def dest!: out_operand_cases
      split: option.splits if_splits xfsm_action_types.splits)

theorem loaded_action_shape_witness:
  "\<exists>a. load_action demo_env 0 0 (action_json (Update XFSM_SUM (Local_Reg 0) (Immediate 1) True 4) :: int cjson) = Inr a \<and>
     a_type a \<noteq> XFSM_DESTROY \<and> a_out_type a \<in> {XFSM_REGISTER, XFSM_GLOBAL_REGISTER}"
proof -
  let ?s = "Update XFSM_SUM (Local_Reg 0) (Immediate 1) True 4"
  have a: "load_action demo_env 0 0 (action_json ?s :: int cjson) = Inr (action_of (junk_action demo_env 0 0) ?s)"
    by (rule load_action_read [OF _ clean_demo_env]) (simp add: action_named_def operand_named_def)
  from loaded_action_shape [OF this] show ?thesis by (intro exI [of _ "action_of (junk_action demo_env 0 0) ?s"])
    (simp add: a, simp add: action_of_def)
qed


text \<open>
  Documented behaviour of \<open>rte_pktmbuf_pool_create\<close>: a pool with a name in use is refused.
\<close>

definition pool_names_ok :: "'h dpdk \<Rightarrow> bool" where
  "pool_names_ok d \<longleftrightarrow> (\<forall>ns n. n \<in> set ns \<longrightarrow> \<not> rte_pktmbuf_pool_create d ns n)"

lemma create_names:
  assumes "xfsm_table_create d names es sz init conds nb lk tid = Inr (names', t)" and "pool_names_ok d"
  shows "(''pkttmp_pool'', tid, rte_lcore_id d) \<in> set names' \<and>
         (''pkttmp_pool'', tid, rte_lcore_id d) \<notin> set names"
  using assms by (auto simp: xfsm_table_create_def pool_names_ok_def Let_def split: if_splits option.splits)

lemma load_stage_names:
  assumes "load_stage env d s (names, p) = Inr (names', p')" and "pool_names_ok d"
  shows "(''pkttmp_pool'', 0, rte_lcore_id d) \<in> set names' \<and> (''pkttmp_pool'', 0, rte_lcore_id d) \<notin> set names"
proof -
  from assms(1) obtain es sz init conds nb lk t where
    "xfsm_table_create d names es sz init conds nb lk 0 = Inr (names', t)"
    by (fastforce simp: load_stage_def json_to_table_def Let_def)
  from create_names [OF this assms(2)] show ?thesis .
qed

text \<open>
  A pipeline of two stages never loads. Every table is created with the id 0, so the
  packet pool of the second has the name of the first; the creation fails and the process
  exits (or stops earlier), for every document with two or more stages.
\<close>

theorem second_stage_never_loads:
  assumes "pool_names_ok d"
    and "cJSON_GetObjectItemCaseSensitive json ''stages'' = Inr stages"
    and "cJSON_elements stages = s1 # s2 # ss"
  shows "load_pipeline env d json names \<noteq> Inr result"
proof
  assume "load_pipeline env d json names = Inr result"
  then obtain x y where x: "load_stage env d s1 (names, \<lparr>tables = replicate 8 None, num_stages = 0\<rparr>) = Inr x"
    and y: "load_stage env d s2 x = Inr y"
    using assms(2,3) by (auto simp: load_pipeline_def)
  obtain n1 p1 n2 p2 where "x = (n1, p1)" "y = (n2, p2)" by (metis surj_pair)
  with x y load_stage_names [OF _ assms(1)] show False by blast
qed

theorem second_stage_never_loads_witness:
  "\<forall>r. load_pipeline demo_env slot_dpdk (Some (program_json [demo_program, demo_program] :: int cjson)) [] \<noteq> Inr r"
  using second_stage_never_loads [of slot_dpdk "Some (program_json [demo_program, demo_program] :: int cjson)"]
  by (simp add: pool_names_ok_def program_json_def)

section \<open>Programs that run safely\<close>

text \<open>
  What the loader does not check and the packet loop relies on: registers exist, fields are
  ones every packet has and that can be read, states are not \<open>STATE_NULL\<close>, and no row names
  a further stage.
\<close>

definition readable_field :: "hdr_fields \<Rightarrow> bool" where
  "readable_field h \<longleftrightarrow> always_set h \<and> field_len h \<noteq> 6"

definition operand_safe :: "operand \<Rightarrow> bool" where
  "operand_safe p =
     (case p of
        Local_Reg n \<Rightarrow> unat n < NUM_REGISTERS
      | Global_Reg n \<Rightarrow> unat n < NUM_GLOBAL_REGISTERS
      | Immediate v \<Rightarrow> True
      | Field h \<Rightarrow> readable_field h)"

definition action_safe :: "action_src \<Rightarrow> bool" where
  "action_safe a =
     (case a of
        Update opc p q g r \<Rightarrow> operand_safe p \<and> operand_safe q \<and> unat r < 32
      | Send_Pkt p q \<Rightarrow> operand_safe p \<and> operand_safe q
      | Set_Field p q s \<Rightarrow> (\<exists>h. p = Field h \<and> always_set h) \<and> operand_safe q \<and> operand_safe s)"

definition row_safe :: "row_src \<Rightarrow> bool" where
  "row_safe r \<longleftrightarrow>
     row_state r \<noteq> STATE_NULL \<and> row_stage r = NULL_STAGE \<and> (\<forall>a \<in> set (row_actions r). action_safe a)"

definition table_safe :: "table_src \<Rightarrow> bool" where
  "table_safe t \<longleftrightarrow>
     length (tab_key t) < LOOKUP_KEY_SIZE \<and> (\<forall>h \<in> set (tab_key t). readable_field h) \<and>
     (\<forall>c \<in> set (tab_conds t). operand_safe (cond_op0 c) \<and> operand_safe (cond_op1 c)) \<and>
     (\<forall>r \<in> set (tab_rows t). row_safe r)"

text \<open>
  And what it must find in memory it does not initialise: the third operand of an action
  that has two, which is fetched all the same, and the direction flag of the key.
\<close>

definition quiet_env :: "loader_env \<Rightarrow> bool" where
  "quiet_env env \<longleftrightarrow>
     (\<forall>r i. operand_static (a_type3 (junk_action env r i)) (a_value3 (junk_action env r i))) \<and>
     unat (biflow_no (junk_key env)) \<le> 4"

lemma hdr_word_index [simp]: "unat (of_nat (hdr_index h) :: u64) = hdr_index h"
  by (cases h) simp_all

lemma operand_safe_static: "operand_safe p \<Longrightarrow> operand_static (operand_type p) (operand_word p)"
  by (cases p) (auto simp: operand_safe_def operand_static_def field_static_def readable_field_def)

lemma action_safe_static:
  assumes "action_safe a" and "operand_static (a_type3 junk) (a_value3 junk)"
  shows "action_static (action_of junk a)"
  using assms
  by (cases a) (auto simp: action_safe_def action_of_def action_static_def operand_safe_static)

lemma entry_safe_static:
  assumes "row_named r" and "row_safe r" and "clean_env env" and "quiet_env env"
  shows "entry_static (entry_of env i r)"
proof -
  let ?as = "row_actions r"
  have n: "unat (of_nat (length ?as) :: u16) = length ?as" "length ?as \<le> 32"
    using assms(1) by (simp_all add: row_named_def unsigned_of_nat take_bit_nat_eq_self)
  have "action_static (actions_of env i ?as ! j)" if "j < length ?as" for j
    using that assms by (auto simp: actions_of_def nth_append row_safe_def quiet_env_def intro!: action_safe_static)
  with n assms(1,3) show ?thesis
    by (simp add: entry_static_def entry_of_def wf_entry_def actions_of_def clean_env_def row_named_def)
qed

lemma key_safe_static:
  assumes "table_named t" and "table_safe t" and "clean_env env" and "quiet_env env"
  shows "key_static (key_of env t)"
proof -
  have "unat (of_nat (length (tab_key t)) :: u8) = length (tab_key t)"
    using assms(1) by (simp add: table_named_def unsigned_of_nat take_bit_nat_eq_self)
  with assms show ?thesis
    by (auto simp: key_static_def key_of_def table_safe_def clean_env_def quiet_env_def nth_append
        field_static_def readable_field_def table_named_def)
qed

lemma conds_safe_static:
  assumes "table_named t" and "table_safe t" and "i < length (tab_conds t)"
  shows "condition_static (conds_of env t ! i)"
  using assms nth_mem [OF assms(3)]
  by (auto simp: conds_of_def nth_append condition_static_def condition_of_def table_safe_def
      intro!: operand_safe_static)

definition fresh_worker :: "'h xfsm_pipeline \<Rightarrow> 'h worker" where
  "fresh_worker p = \<lparr>w_pipe = p, w_fk = replicate 8 0, w_mem = Map.empty, w_tx = [], w_freed = []\<rparr>"

lemma loaded_worker:
  assumes "table_named t" and "table_safe t" and "clean_env env" and "quiet_env env"
    and "rte_hash_ok d" and "rte_get_tsc_hz d \<noteq> 0"
    and "load_pipeline env d (Some (program_json [t] :: ('d :: zero) cjson)) names = Inr (names', p)"
  shows "wf_worker d (fresh_worker p)"
proof -
  let ?es = "entries_of env t"
  from assms(7) obtain tab where
    c: "xfsm_table_create d names ?es (of_nat (length (tab_rows t))) (tab_init t)
         (conds_of env t) (of_nat (length (tab_conds t))) (key_of env t) 0 = Inr (names', tab)"
    and p: "p = \<lparr>tables = Some tab # replicate 7 None, num_stages = 1\<rparr>"
    by (auto simp: program_read [OF assms(1,3)])
  have nb: "unat (of_nat (length (tab_conds t)) :: u8) = length (tab_conds t)" "length (tab_conds t) \<le> 16"
    using assms(1) by (simp_all add: table_named_def unsigned_of_nat take_bit_nat_eq_self)
  have es: "e_current_state e \<noteq> STATE_NULL \<and> entry_static e \<and> e_next_stage e = NULL_STAGE" if "e \<in> set ?es" for e
  proof -
    from that obtain i where i: "i < length (tab_rows t)" "e = entry_of env i (tab_rows t ! i)"
      by (auto simp: entries_of_def)
    with assms(1,2) have "row_named (tab_rows t ! i)" "row_safe (tab_rows t ! i)"
      by (simp_all add: table_named_def table_safe_def)
    with entry_safe_static [OF this assms(3,4)] i show ?thesis by (simp add: row_safe_def entry_of_def)
  qed
  have cs: "\<forall>i < unat (of_nat (length (tab_conds t)) :: u8). condition_static (conds_of env t ! i)"
    using conds_safe_static [OF assms(1,2)] nb by simp
  have conf: "config_ok d tab \<and> rows tab \<subseteq> set ?es"
    using es nb by (intro create_config_ok [OF c assms(5) _ _ cs key_safe_static [OF assms(1-4)]]) auto
  with create_wf_fields [OF c] create_inst_inv [OF c assms(5)] have "wf_table d tab"
    by (simp add: wf_table_def)
  moreover from conf es have "\<forall>e \<in> rows tab. e_next_stage e = NULL_STAGE" by blast
  ultimately show ?thesis unfolding fresh_worker_def p using assms(6) by (intro create_pipeline)
qed

lemma create_two_rows:
  assumes "e_current_state a = 0" and "e_current_state b = 1" and "length conds = 16"
  shows "\<exists>t. xfsm_table_create slot_dpdk [] [a, b] 2 init conds nb lk 0 = Inr
     ([(''pkttmp_pool'', 0, rte_lcore_id slot_dpdk), (''instances_hash'', 0, rte_lcore_id slot_dpdk),
       (''entries_hash'', 0, rte_lcore_id slot_dpdk)], t)"
proof -
  have keys: "build_key_list [a, b] 2 =
      Inr [\<lparr>kn_key = 0, kn_entries = [0]\<rparr>, \<lparr>kn_key = 1, kn_entries = [1]\<rparr>]"
    using assms by (simp add: build_key_list_def key_list_step_def insert_key_def upt_rec)
  have pop: "populate slot_dpdk [a, b]
      [\<lparr>kn_key = 0, kn_entries = [0]\<rparr>, \<lparr>kn_key = 1, kn_entries = [1]\<rparr>]
      (Some (replicate 10 None), replicate 2 \<lparr>hm_key = 0, hm_entries = []\<rparr>) =
    Inr (Some ([Some [0], Some [1]] @ replicate 8 None),
         [\<lparr>hm_key = 0, hm_entries = [a]\<rparr>, \<lparr>hm_key = 1, hm_entries = [b]\<rparr>])"
    by (simp add: hash_add_def slot_add_def slots_10 slot_find_Cons numeral_eq_Suc)
  show ?thesis
    using keys pop assms(3) by (simp add: xfsm_table_create_def Let_def)
qed

lemma demo_program_loads:
  "\<exists>r. load_pipeline demo_env slot_dpdk (Some (program_json [demo_program] :: ('d :: zero) cjson)) [] = Inr r"
proof -
  have "length (conds_of demo_env demo_program) = 16"
    by (simp add: conds_of_def demo_program_def demo_env_def Let_def)
  then have "\<exists>t. xfsm_table_create slot_dpdk [] [entry_of demo_env 0 (tab_rows demo_program ! 0),
      entry_of demo_env 1 (tab_rows demo_program ! 1)] 2 0 (conds_of demo_env demo_program) 1
      (key_of demo_env demo_program) 0
    = Inr ([(''pkttmp_pool'', 0, rte_lcore_id slot_dpdk), (''instances_hash'', 0, rte_lcore_id slot_dpdk),
       (''entries_hash'', 0, rte_lcore_id slot_dpdk)], t)"
    by (intro create_two_rows) (simp_all add: entry_of_def demo_program_def)
  moreover have "entries_of demo_env demo_program = [entry_of demo_env 0 (tab_rows demo_program ! 0),
      entry_of demo_env 1 (tab_rows demo_program ! 1)]"
    by (simp add: entries_of_def demo_program_def)
  moreover have "length (tab_rows demo_program) = 2" "length (tab_conds demo_program) = 1" "tab_init demo_program = 0"
    by (simp_all add: demo_program_def)
  ultimately show ?thesis
    by (auto simp: program_read [OF demo_program_named clean_demo_env])
qed

lemma demo_program_safe: "table_safe demo_program" "quiet_env demo_env"
  by (auto simp: table_safe_def demo_program_def row_safe_def action_safe_def operand_safe_def readable_field_def
     always_set_def quiet_env_def demo_env_def operand_static_def Let_def)

end
