(* ===== verification/CJson_Parse.thy ===== *)
theory CJson_Parse
  imports CJson_Tree
begin

text \<open>
  The parser of SW-FB/cJSON.c: the parse buffer, strings with their escape sequences, numbers,
  arrays and objects, \<open>cJSON_ParseWithOpts\<close>. Every read of the text and every write of a
  parsed string is checked against its block. Allocation is a parameter: \<open>mem_ok n\<close> tells
  whether the request number \<open>n\<close> succeeds; the buffer counts the requests and the blocks that
  are live. A function that populates an item returns the item as it leaves it, in the error
  case too, since the callers free what was attached so far. The numbers are those of the C
  library, a parameter.
\<close>

section \<open>The parse buffer\<close>

record parse_buffer =
  content :: string          \<comment> \<open>the text with its terminator\<close>
  offset :: nat
  depth :: nat
  requests :: nat
  live :: nat

definition can_read :: "parse_buffer \<Rightarrow> nat \<Rightarrow> bool" where
  "can_read b n \<longleftrightarrow> offset b + n \<le> length (content b)"

definition can_access_at_index :: "parse_buffer \<Rightarrow> nat \<Rightarrow> bool" where
  "can_access_at_index b index \<longleftrightarrow> offset b + index < length (content b)"

text \<open>\<open>can_access_at_index(b, 0) && buffer_at_offset(b)[0] == c\<close>.\<close>

definition at_char :: "parse_buffer \<Rightarrow> char \<Rightarrow> bool" where
  "at_char b c \<longleftrightarrow> can_access_at_index b 0 \<and> content b ! offset b = c"

text \<open>\<open>can_read(b, strlen(s)) && strncmp(buffer_at_offset(b), s, strlen(s)) == 0\<close>.\<close>

definition at_word :: "parse_buffer \<Rightarrow> string \<Rightarrow> bool" where
  "at_word b s \<longleftrightarrow> can_read b (length s) \<and> take (length s) (drop (offset b) (content b)) = s"

definition move :: "nat \<Rightarrow> parse_buffer \<Rightarrow> parse_buffer" where
  "move n b = b\<lparr>offset := offset b + n\<rparr>"

definition step_back :: "parse_buffer \<Rightarrow> parse_buffer" where
  "step_back b = b\<lparr>offset := offset b - 1\<rparr>"

definition buffer_skip_whitespace :: "parse_buffer \<Rightarrow> parse_buffer" where
  "buffer_skip_whitespace b =
     (let b1 = move (length (takeWhile (\<lambda>c. of_char c \<le> (32 :: nat)) (drop (offset b) (content b)))) b
      in if offset b1 = length (content b1) then step_back b1 else b1)"

definition skip_utf8_bom :: "parse_buffer \<Rightarrow> parse_buffer option" where
  "skip_utf8_bom b =
     (if offset b \<noteq> 0 then None
      else if can_access_at_index b 4 \<and> at_word b [CHR 0xEF, CHR 0xBB, CHR 0xBF] then Some (move 3 b)
      else Some b)"

section \<open>Memory\<close>

definition new_block :: "(nat \<Rightarrow> bool) \<Rightarrow> parse_buffer \<Rightarrow> bool \<times> parse_buffer" where
  "new_block mem_ok b =
     (if mem_ok (requests b) then (True, b\<lparr>requests := requests b + 1, live := live b + 1\<rparr>)
      else (False, b\<lparr>requests := requests b + 1\<rparr>))"

definition release :: "nat \<Rightarrow> parse_buffer \<Rightarrow> parse_buffer" where
  "release n b = b\<lparr>live := live b - n\<rparr>"

definition cJSON_New_Item :: "('d :: zero) cjson" where
  "cJSON_New_Item = CJson cJSON_Invalid None 0 0 None []"

text \<open>
  The number of blocks \<open>cJSON_Delete\<close> frees: of an item, and of a chain of items. A referenced
  child or value and a constant key are not owned.
\<close>

abbreviation (input) cJSON_IsReference :: u32 where "cJSON_IsReference \<equiv> 256"
abbreviation (input) cJSON_StringIsConst :: u32 where "cJSON_StringIsConst \<equiv> 512"

primrec owned_blocks :: "'d cjson \<Rightarrow> nat" where
  "owned_blocks (CJson ty vs vi vd st ch) =
     (if ty AND cJSON_IsReference = 0 then sum_list (map owned_blocks ch) + (if vs = None then 0 else 1) else 0) +
     (if ty AND cJSON_StringIsConst = 0 \<and> st \<noteq> None then 1 else 0) + 1"

definition cJSON_Delete :: "'d cjson list \<Rightarrow> parse_buffer \<Rightarrow> parse_buffer" where
  "cJSON_Delete items b = release (sum_list (map owned_blocks items)) b"

section \<open>Numbers\<close>

text \<open>\<open>strtod\<close> and the comparisons and the conversion of its result.\<close>

record 'd numbers =
  strtod :: "string \<Rightarrow> 'd \<times> nat"   \<comment> \<open>the value and the number of characters used\<close>
  num_ge :: "'d \<Rightarrow> int \<Rightarrow> bool"
  num_le :: "'d \<Rightarrow> int \<Rightarrow> bool"
  num_int :: "'d \<Rightarrow> int"

definition INT_MAX :: int where "INT_MAX = 2 ^ 31 - 1"
definition INT_MIN :: int where "INT_MIN = - (2 ^ 31)"

definition number_char :: "char \<Rightarrow> bool" where
  "number_char c \<longleftrightarrow> c \<in> set ''0123456789+-eE.''"

definition parse_number :: "'d numbers \<Rightarrow> 'd cjson \<Rightarrow> parse_buffer \<Rightarrow> bool \<times> 'd cjson \<times> parse_buffer" where
  "parse_number nl item b =
     (let number_c_string = takeWhile number_char (take 63 (drop (offset b) (content b))) in
      case strtod nl number_c_string of
        (number, used) \<Rightarrow>
          if used = 0 then (False, item, b)
          else
            let valueint = if num_ge nl number INT_MAX then INT_MAX
                           else if num_le nl number INT_MIN then INT_MIN else num_int nl number
            in (True, CJson cJSON_Number (cj_valuestring item) valueint number (cj_string item) (cj_child item),
                move used b))"

section \<open>Strings\<close>

text \<open>A digit of \<open>parse_hex4\<close>; any other character makes the whole literal 0.\<close>

definition hex4_digit :: "char \<Rightarrow> u32 option" where
  "hex4_digit c =
     (let n = of_char c :: u32 in
      if 0x30 \<le> n \<and> n \<le> 0x39 then Some (n - 0x30)
      else if 0x41 \<le> n \<and> n \<le> 0x46 then Some (10 + n - 0x41)
      else if 0x61 \<le> n \<and> n \<le> 0x66 then Some (10 + n - 0x61)
      else None)"

fun parse_hex4_from :: "string \<Rightarrow> nat \<Rightarrow> nat \<Rightarrow> u32 \<Rightarrow> u32 res" where
  "parse_hex4_from input i 0 h = Inr h"
| "parse_hex4_from input i (Suc left) h =
     res_bind (rd input i) (\<lambda>c.
       case hex4_digit c of
         None \<Rightarrow> Inr 0
       | Some v \<Rightarrow> parse_hex4_from input (i + 1) left (if left > 0 then push_bit 4 (h + v) else h + v))"

definition parse_hex4 :: "string \<Rightarrow> nat \<Rightarrow> u32 res" where
  "parse_hex4 input i = parse_hex4_from input i 4 0"

text \<open>The bytes of a code point, given their number and the mark of the first.\<close>

fun utf8_tail :: "nat \<Rightarrow> u64 \<Rightarrow> char list \<Rightarrow> u64 \<times> char list" where
  "utf8_tail 0 codepoint out = (codepoint, out)"
| "utf8_tail (Suc n) codepoint out =
     utf8_tail n (drop_bit 6 codepoint) (char_of (unat ((codepoint OR 0x80) AND 0xBF)) # out)"

definition utf8_encode :: "u64 \<Rightarrow> string option" where
  "utf8_encode codepoint =
     (let encode = \<lambda>len mark. case utf8_tail (len - 1) codepoint [] of
            (c, out) \<Rightarrow> Some (char_of (unat (if len > 1 then (c OR mark) AND 0xFF else c AND 0x7F)) # out)
      in if codepoint < 0x80 then encode 1 0
         else if codepoint < 0x800 then encode 2 0xC0
         else if codepoint < 0x10000 then encode 3 0xE0
         else if codepoint \<le> 0x10FFFF then encode 4 0xF0
         else None)"

text \<open>The literal at \<open>p\<close>, before the end of the string at \<open>e\<close>: its length and its bytes.\<close>

definition utf16_literal_to_utf8 :: "string \<Rightarrow> nat \<Rightarrow> nat \<Rightarrow> (nat \<times> string) option res" where
  "utf16_literal_to_utf8 input p e =
     (let finish = \<lambda>len codepoint. Inr (map_option (Pair len) (utf8_encode codepoint)) in
      if e - p < 6 then Inr None
      else res_bind (parse_hex4 input (p + 2)) (\<lambda>first_code.
        if 0xDC00 \<le> first_code \<and> first_code \<le> 0xDFFF then Inr None
        else if 0xD800 \<le> first_code \<and> first_code \<le> 0xDBFF then
          (if e - (p + 6) < 6 then Inr None
           else res_bind (rd input (p + 6)) (\<lambda>s0. res_bind (rd input (p + 7)) (\<lambda>s1.
             if s0 \<noteq> CHR 0x5C \<or> s1 \<noteq> CHR ''u'' then Inr None
             else res_bind (parse_hex4 input (p + 8)) (\<lambda>second_code.
               if second_code < 0xDC00 \<or> 0xDFFF < second_code then Inr None
               else finish 12
                 (0x10000 + (push_bit 10 (ucast (first_code AND 0x3FF)) OR ucast (second_code AND 0x3FF)))))))
        else finish 6 (ucast first_code)))"

text \<open>
  The scan for the closing quote: its position and the number of escape sequences before it,
  \<open>None\<close> when the string ends unexpectedly.
\<close>

function string_end :: "string \<Rightarrow> nat \<Rightarrow> nat \<Rightarrow> (nat \<times> nat) option" where
  "string_end input i skipped =
     (if length input \<le> i then None
      else if input ! i = CHR 0x22 then Some (i, skipped)
      else if input ! i = CHR 0x5C then
        (if length input \<le> i + 1 then None else string_end input (i + 2) (skipped + 1))
      else string_end input (i + 1) skipped)"
  by pat_completeness auto
termination by (relation "measure (\<lambda>(input, i, s). length input - i)") auto

declare string_end.simps [simp del]

definition simple_escape :: "char \<Rightarrow> char option" where
  "simple_escape c =
     (if c = CHR ''b'' then Some (CHR 0x08) else if c = CHR ''f'' then Some (CHR 0x0C)
      else if c = CHR ''n'' then Some (CHR 0x0A) else if c = CHR ''r'' then Some (CHR 0x0D)
      else if c = CHR ''t'' then Some (CHR 0x09)
      else if c = CHR 0x22 \<or> c = CHR 0x5C \<or> c = CHR ''/'' then Some c
      else None)"

text \<open>Writing behind the last byte written to a block of \<open>room\<close> bytes.\<close>

definition put_bytes :: "nat \<Rightarrow> string \<Rightarrow> string \<Rightarrow> string res" where
  "put_bytes room out bs = (if length out + length bs \<le> room then Inr (out @ bs) else Inl (UB OutOfBounds))"

text \<open>
  The copying loop, from \<open>p\<close> to \<open>e\<close>, with what is written so far: the bytes written, or \<open>None\<close>
  for an invalid sequence, and the position reached.
\<close>

function unescape :: "string \<Rightarrow> nat \<Rightarrow> nat \<Rightarrow> nat \<Rightarrow> string \<Rightarrow> (string option \<times> nat) res" where
  "unescape input room e p out =
     (if \<not> p < e then Inr (Some out, p)
      else res_bind (rd input p) (\<lambda>c.
        if c \<noteq> CHR 0x5C then res_bind (put_bytes room out [c]) (\<lambda>out. unescape input room e (p + 1) out)
        else res_bind (rd input (p + 1)) (\<lambda>x.
          case simple_escape x of
            Some y \<Rightarrow> res_bind (put_bytes room out [y]) (\<lambda>out. unescape input room e (p + 2) out)
          | None \<Rightarrow>
              if x = CHR ''u'' then
                res_bind (utf16_literal_to_utf8 input p e) (\<lambda>r.
                  case r of
                    None \<Rightarrow> Inr (None, p)
                  | Some (sequence_length, bytes) \<Rightarrow>
                      if sequence_length = 0 then Inr (None, p)
                      else res_bind (put_bytes room out bytes)
                             (\<lambda>out. unescape input room e (p + sequence_length) out))
              else Inr (None, p))))"
  by pat_completeness auto
termination by (relation "measure (\<lambda>(input, room, e, p, out). e - p)") auto

declare unescape.simps [simp del]

text \<open>
  A string as C sees it ends at its first null byte. The output block has room for
  \<open>allocation_length\<close> bytes and a terminator.
\<close>

definition before_nul :: "string \<Rightarrow> string" where
  "before_nul s = takeWhile (\<lambda>c. c \<noteq> CHR 0x00) s"

definition parse_string ::
  "(nat \<Rightarrow> bool) \<Rightarrow> 'd cjson \<Rightarrow> parse_buffer \<Rightarrow> (bool \<times> 'd cjson \<times> parse_buffer) res" where
  "parse_string mem_ok item b =
     (let input_pointer = offset b + 1; fail = \<lambda>p b. Inr (False, item, b\<lparr>offset := p\<rparr>) in
      res_bind (rd (content b) (offset b)) (\<lambda>c0.
      if c0 \<noteq> CHR 0x22 then fail input_pointer b
      else case string_end (content b) input_pointer 0 of
        None \<Rightarrow> fail input_pointer b
      | Some (input_end, skipped_bytes) \<Rightarrow>
          let allocation_length = input_end - offset b - skipped_bytes in
          (case new_block mem_ok b of (ok, b) \<Rightarrow>
           if \<not> ok then fail input_pointer b
           else res_bind (unescape (content b) (allocation_length + 1) input_end input_pointer []) (\<lambda>(r, p).
             case r of
               None \<Rightarrow> fail p (release 1 b)
             | Some output \<Rightarrow>
                 res_bind (put_bytes (allocation_length + 1) output [CHR 0x00]) (\<lambda>block.
                   Inr (True,
                     CJson cJSON_String (Some (before_nul block)) (cj_valueint item) (cj_valuedouble item)
                       (cj_string item) (cj_child item),
                     b\<lparr>offset := input_end + 1\<rparr>))))))"


section \<open>Values\<close>

definition with_type :: "u32 \<Rightarrow> 'd cjson \<Rightarrow> 'd cjson" where
  "with_type ty item =
     CJson ty (cj_valuestring item) (cj_valueint item) (cj_valuedouble item) (cj_string item) (cj_child item)"

definition with_child :: "'d cjson list \<Rightarrow> 'd cjson \<Rightarrow> 'd cjson" where
  "with_child ch item =
     CJson (cj_type item) (cj_valuestring item) (cj_valueint item) (cj_valuedouble item) (cj_string item) ch"

definition with_valueint :: "int \<Rightarrow> 'd cjson \<Rightarrow> 'd cjson" where
  "with_valueint n item =
     CJson (cj_type item) (cj_valuestring item) n (cj_valuedouble item) (cj_string item) (cj_child item)"

text \<open>The name of a member was parsed as its value.\<close>

definition swap_name :: "'d cjson \<Rightarrow> 'd cjson" where
  "swap_name item =
     CJson (cj_type item) None (cj_valueint item) (cj_valuedouble item) (cj_valuestring item) (cj_child item)"

definition CJSON_NESTING_LIMIT :: nat where "CJSON_NESTING_LIMIT = 1000"

text \<open>
  Arrays and objects collect the chain of their items, which the error exit deletes;
  \<open>close_list\<close> is their common end.
\<close>

definition close_list ::
  "u32 \<Rightarrow> char \<Rightarrow> 'd cjson \<Rightarrow> bool \<times> 'd cjson list \<times> parse_buffer \<Rightarrow> (bool \<times> 'd cjson \<times> parse_buffer) res"
  where
  "close_list ty c item r =
     (case r of (ok, head, b) \<Rightarrow>
        if ok \<and> at_char b c
        then Inr (True, with_type ty (with_child head item), move 1 (b\<lparr>depth := depth b - 1\<rparr>))
        else Inr (False, item, cJSON_Delete head b))"

text \<open>
  The loops over elements and members, and the functions for arrays and objects, take the
  function that parses a value as an argument. The fuel of \<open>parse_value\<close> bounds the nesting
  and the number of turns of each loop.
\<close>

type_synonym 'd value_parser = "'d cjson \<Rightarrow> parse_buffer \<Rightarrow> (bool \<times> 'd cjson \<times> parse_buffer) res"

primrec parse_elements ::
  "(('d :: zero) value_parser) \<Rightarrow> (nat \<Rightarrow> bool) \<Rightarrow> nat \<Rightarrow> 'd cjson list \<Rightarrow> parse_buffer \<Rightarrow>
     (bool \<times> 'd cjson list \<times> parse_buffer) res" where
  "parse_elements pv mem_ok 0 head b = Inl NoFuel"
| "parse_elements pv mem_ok (Suc n) head b =
     (case new_block mem_ok b of (ok, b) \<Rightarrow>
        if \<not> ok then Inr (False, head, b)
        else res_bind (pv cJSON_New_Item (buffer_skip_whitespace (move 1 b)))
          (\<lambda>(ok, it, b).
             if \<not> ok then Inr (False, head @ [it], b)
             else
               let b = buffer_skip_whitespace b in
               if at_char b (CHR '','') then parse_elements pv mem_ok n (head @ [it]) b
               else Inr (True, head @ [it], b)))"

definition parse_array ::
  "(('d :: zero) value_parser) \<Rightarrow> (nat \<Rightarrow> bool) \<Rightarrow> nat \<Rightarrow> 'd value_parser" where
  "parse_array pv mem_ok n item b =
     (if CJSON_NESTING_LIMIT \<le> depth b then Inr (False, item, b)
      else
        let b = b\<lparr>depth := depth b + 1\<rparr> in
        res_bind (rd (content b) (offset b)) (\<lambda>c0.
          if c0 \<noteq> CHR ''['' then Inr (False, item, b)
          else
            let b = buffer_skip_whitespace (move 1 b) in
            if at_char b (CHR '']'') then close_list cJSON_Array (CHR '']'') item (True, [], b)
            else if \<not> can_access_at_index b 0 then Inr (False, item, step_back b)
            else res_bind (parse_elements pv mem_ok n [] (step_back b)) (close_list cJSON_Array (CHR '']'') item)))"

primrec parse_members ::
  "(('d :: zero) value_parser) \<Rightarrow> (nat \<Rightarrow> bool) \<Rightarrow> nat \<Rightarrow> 'd cjson list \<Rightarrow> parse_buffer \<Rightarrow>
     (bool \<times> 'd cjson list \<times> parse_buffer) res" where
  "parse_members pv mem_ok 0 head b = Inl NoFuel"
| "parse_members pv mem_ok (Suc n) head b =
     (case new_block mem_ok b of (ok, b) \<Rightarrow>
        if \<not> ok then Inr (False, head, b)
        else res_bind (parse_string mem_ok cJSON_New_Item (buffer_skip_whitespace (move 1 b)))
          (\<lambda>(ok, it, b).
             if \<not> ok then Inr (False, head @ [it], b)
             else
               let it = swap_name it; b = buffer_skip_whitespace b in
               if \<not> at_char b (CHR '':'') then Inr (False, head @ [it], b)
               else res_bind (pv it (buffer_skip_whitespace (move 1 b)))
                 (\<lambda>(ok, it, b).
                    if \<not> ok then Inr (False, head @ [it], b)
                    else
                      let b = buffer_skip_whitespace b in
                      if at_char b (CHR '','') then parse_members pv mem_ok n (head @ [it]) b
                      else Inr (True, head @ [it], b))))"

definition parse_object ::
  "(('d :: zero) value_parser) \<Rightarrow> (nat \<Rightarrow> bool) \<Rightarrow> nat \<Rightarrow> 'd value_parser" where
  "parse_object pv mem_ok n item b =
     (if CJSON_NESTING_LIMIT \<le> depth b then Inr (False, item, b)
      else
        let b = b\<lparr>depth := depth b + 1\<rparr> in
        if \<not> at_char b (CHR ''{'') then Inr (False, item, b)
        else
          let b = buffer_skip_whitespace (move 1 b) in
          if at_char b (CHR ''}'') then close_list cJSON_Object (CHR ''}'') item (True, [], b)
          else if \<not> can_access_at_index b 0 then Inr (False, item, step_back b)
          else res_bind (parse_members pv mem_ok n [] (step_back b)) (close_list cJSON_Object (CHR ''}'') item))"

primrec parse_value :: "('d :: zero) numbers \<Rightarrow> (nat \<Rightarrow> bool) \<Rightarrow> nat \<Rightarrow> 'd value_parser" where
  "parse_value nl mem_ok 0 = (\<lambda>item b. Inl NoFuel)"
| "parse_value nl mem_ok (Suc n) = (\<lambda>item b.
      if at_word b ''null'' then Inr (True, with_type cJSON_NULL item, move 4 b)
      else if at_word b ''false'' then Inr (True, with_type cJSON_False item, move 5 b)
      else if at_word b ''true'' then Inr (True, with_valueint 1 (with_type cJSON_True item), move 4 b)
      else if at_char b (CHR 0x22) then parse_string mem_ok item b
      else if can_access_at_index b 0 \<and> content b ! offset b \<in> set ''-0123456789''
      then Inr (parse_number nl item b)
      else if at_char b (CHR ''['') then parse_array (parse_value nl mem_ok n) mem_ok n item b
      else if at_char b (CHR ''{'') then parse_object (parse_value nl mem_ok n) mem_ok n item b
      else Inr (False, item, b))"

text \<open>
  The result of a parse: the item or the NULL pointer, the end that is reported, the position
  of the error the library remembers, and the blocks that are live afterwards.
\<close>

record 'd parsed_document =
  doc_item :: "'d cjson option"
  doc_end :: nat
  doc_error :: "nat option"
  doc_live :: nat

definition cJSON_ParseWithOpts ::
  "'d numbers \<Rightarrow> (nat \<Rightarrow> bool) \<Rightarrow> nat \<Rightarrow> string option \<Rightarrow> bool \<Rightarrow> ('d :: zero) parsed_document res" where
  "cJSON_ParseWithOpts nl mem_ok fuel text require_null_terminated =
     (case text of
        None \<Rightarrow> Inr \<lparr>doc_item = None, doc_end = 0, doc_error = None, doc_live = 0\<rparr>
      | Some s \<Rightarrow>
          let b = \<lparr>content = s @ [CHR 0x00], offset = 0, depth = 0, requests = 0, live = 0\<rparr>;
              fail = \<lambda>items b.
                let position = if offset b < length (content b) then offset b else length (content b) - 1
                in Inr \<lparr>doc_item = None, doc_end = position, doc_error = Some position,
                        doc_live = live (cJSON_Delete items b)\<rparr>
          in (case new_block mem_ok b of (ok, b) \<Rightarrow>
              if \<not> ok then fail [] b
              else (case skip_utf8_bom b of
                None \<Rightarrow> fail [cJSON_New_Item] b
              | Some b \<Rightarrow>
                  res_bind (parse_value nl mem_ok fuel cJSON_New_Item (buffer_skip_whitespace b)) (\<lambda>(ok, item, b).
                    if \<not> ok then fail [item] b
                    else if require_null_terminated \<and> \<not> at_char (buffer_skip_whitespace b) (CHR 0x00)
                    then fail [item] (buffer_skip_whitespace b)
                    else
                      let b = if require_null_terminated then buffer_skip_whitespace b else b
                      in Inr \<lparr>doc_item = Some item, doc_end = offset b, doc_error = None, doc_live = live b\<rparr>))))"

definition cJSON_Parse ::
  "'d numbers \<Rightarrow> (nat \<Rightarrow> bool) \<Rightarrow> nat \<Rightarrow> string option \<Rightarrow> ('d :: zero) parsed_document res" where
  "cJSON_Parse nl mem_ok fuel text = cJSON_ParseWithOpts nl mem_ok fuel text False"

end
