(* ===== verification/CJson_Safe.thy ===== *)
theory CJson_Safe
  imports CJson_Parse
begin

text \<open>
  The parser reads only inside the text and writes only inside its blocks, ends, and frees
  what it allocated. A buffer is well formed when its offset is inside the text, whose last
  character is the terminator.
\<close>

section \<open>Buffers\<close>

definition wf_buffer :: "parse_buffer \<Rightarrow> bool" where
  "wf_buffer b \<longleftrightarrow> content b \<noteq> [] \<and> last (content b) = CHR 0x00 \<and> offset b < length (content b)"

lemma move_simps [simp]:
  "content (move n b) = content b" "offset (move n b) = offset b + n" "depth (move n b) = depth b"
  "live (move n b) = live b" "requests (move n b) = requests b"
  by (simp_all add: move_def)

lemma step_back_simps [simp]:
  "content (step_back b) = content b" "offset (step_back b) = offset b - 1" "depth (step_back b) = depth b"
  "live (step_back b) = live b"
  by (simp_all add: step_back_def)

lemma skip_simps [simp]:
  "content (buffer_skip_whitespace b) = content b" "depth (buffer_skip_whitespace b) = depth b"
  "live (buffer_skip_whitespace b) = live b"
  by (simp_all add: buffer_skip_whitespace_def Let_def)

lemma new_block_simps:
  assumes "new_block mem_ok b = (ok, b')"
  shows "content b' = content b" "offset b' = offset b" "depth b' = depth b"
    "live b' = live b + (if ok then 1 else 0)"
  using assms by (auto simp: new_block_def split: if_splits)

lemma skip_offset: "wf_buffer b \<Longrightarrow> offset b \<le> offset (buffer_skip_whitespace b) \<and> wf_buffer (buffer_skip_whitespace b)"
proof -
  assume wf: "wf_buffer b"
  let ?n = "length (takeWhile (\<lambda>c. of_char c \<le> (32 :: nat)) (drop (offset b) (content b)))"
  have "?n \<le> length (drop (offset b) (content b))" by (rule length_takeWhile_le)
  with wf show ?thesis by (auto simp: buffer_skip_whitespace_def Let_def wf_buffer_def)
qed

lemma at_char_next:
  assumes "wf_buffer b" and "at_char b c" and "c \<noteq> CHR 0x00"
  shows "wf_buffer (move 1 b)"
proof -
  have "offset b \<noteq> length (content b) - 1"
    using assms by (metis at_char_def last_conv_nth wf_buffer_def)
  with assms(1) show ?thesis by (auto simp: wf_buffer_def)
qed

lemma before_last:
  assumes "\<not> P (last xs)" and "i < length xs"
  shows "i + length (takeWhile P (take m (drop i xs))) < length xs"
proof (rule ccontr)
  define t where "t = takeWhile P (take m (drop i xs))"
  assume "\<not> i + length (takeWhile P (take m (drop i xs))) < length xs"
  then have far: "length (drop i xs) \<le> length t" by (simp add: t_def)
  have "t = take (length t) (take m (drop i xs))" unfolding t_def by (rule takeWhile_eq_take)
  then have pre: "t = take (min (length t) m) (drop i xs)" by (simp only: take_take)
  then have "length t \<le> m" by (metis length_take min.cobounded2 min.coboundedI2)
  with pre far have "t = drop i xs" by simp
  moreover have "last xs \<in> set (drop i xs)" using assms(2) by (metis drop_eq_Nil last_drop last_in_set not_le)
  ultimately show False using assms(1) set_takeWhileD unfolding t_def by metis
qed

lemma at_word_next:
  assumes "wf_buffer b" and "at_word b s" and "CHR 0x00 \<notin> set s" and "s \<noteq> []"
  shows "wf_buffer (move (length s) b)"
proof -
  have s: "take (length s) (drop (offset b) (content b)) = s" "offset b + length s \<le> length (content b)"
    using assms(2) by (auto simp: at_word_def can_read_def)
  have "offset b + length s \<noteq> length (content b)"
  proof
    assume "offset b + length s = length (content b)"
    with s(1) have "drop (offset b) (content b) = s" by (metis add_diff_cancel_left' length_drop order_refl take_all)
    with assms show False by (metis last_drop last_in_set wf_buffer_def)
  qed
  with s assms(1) show ?thesis by (simp add: wf_buffer_def)
qed

section \<open>Escape sequences\<close>

lemma hex4_digit_bound: "hex4_digit c = Some v \<Longrightarrow> unat v < 16"
  by (auto simp: hex4_digit_def Let_def word_le_nat_alt unat_sub split: if_splits)


text \<open>The value of four hexadecimal digits; 0 if one of them is none.\<close>

definition hex4_value :: "string \<Rightarrow> nat" where
  "hex4_value ds =
     (if \<exists>c \<in> set ds. hex4_digit c = None then 0
      else foldl (\<lambda>h c. h * 16 + unat (the (hex4_digit c))) 0 ds)"

lemma hex4_push: "unat (h :: u32) < 4096 \<Longrightarrow> unat v < 16 \<Longrightarrow> unat (push_bit 4 (h + v)) = (unat h + unat v) * 16"
  by (simp add: push_bit_eq_mult unat_word_ariths)

lemma parse_hex4_spec:
  assumes "i + 4 \<le> length input"
  shows "\<exists>w. parse_hex4 input i = Inr w \<and> unat w = hex4_value (take 4 (drop i input))"
proof -
  have four: "take 4 (drop i input) = [input ! i, input ! (i + 1), input ! (i + 2), input ! (i + 3)]"
    using assms by (intro nth_equalityI) (auto simp: less_Suc_eq numeral_eq_Suc)
  show ?thesis
  proof (cases "\<exists>c \<in> set (take 4 (drop i input)). hex4_digit c = None")
    case True
    then have "parse_hex4 input i = Inr 0"
      using assms unfolding four by (auto simp: parse_hex4_def numeral_eq_Suc split: option.splits)
    with True show ?thesis by (simp add: hex4_value_def)
  next
    case False
    then obtain v0 v1 v2 v3 where v: "hex4_digit (input ! i) = Some v0" "hex4_digit (input ! (i + 1)) = Some v1"
      "hex4_digit (input ! (i + 2)) = Some v2" "hex4_digit (input ! (i + 3)) = Some v3"
      by (auto simp: four)
    note b = v [THEN hex4_digit_bound]
    let ?h1 = "push_bit 4 (0 + v0) :: u32" let ?h2 = "push_bit 4 (?h1 + v1)" let ?h3 = "push_bit 4 (?h2 + v2)"
    have h1: "unat ?h1 = unat v0 * 16" using hex4_push [of 0 v0] b by simp
    then have h2: "unat ?h2 = (unat v0 * 16 + unat v1) * 16" using hex4_push [of ?h1 v1] b by simp
    then have h3: "unat ?h3 = ((unat v0 * 16 + unat v1) * 16 + unat v2) * 16" using hex4_push [of ?h2 v2] b by simp
    have "unat (?h3 + v3) = ((unat v0 * 16 + unat v1) * 16 + unat v2) * 16 + unat v3"
      using h3 b by (simp add: unat_word_ariths)
    moreover have "parse_hex4 input i = Inr (?h3 + v3)"
      using assms v by (simp add: parse_hex4_def numeral_eq_Suc)
    ultimately show ?thesis using False v by (simp add: hex4_value_def four)
  qed
qed

lemma hex4_value_bound: "length ds = 4 \<Longrightarrow> hex4_value ds < 65536"
proof -
  assume "length ds = 4"
  then obtain a b c d where ds: "ds = [a, b, c, d]" by (auto simp: numeral_eq_Suc length_Suc_conv)
  show ?thesis
  proof (cases "\<exists>c \<in> set ds. hex4_digit c = None")
    case False
    then obtain v0 v1 v2 v3 where v: "hex4_digit a = Some v0" "hex4_digit b = Some v1" "hex4_digit c = Some v2"
      "hex4_digit d = Some v3" by (auto simp: ds)
    from v [THEN hex4_digit_bound] v False show ?thesis by (simp add: hex4_value_def ds)
  qed (auto simp: hex4_value_def)
qed

lemma length_utf8_tail: "length (snd (utf8_tail n c out)) = n + length out"
  by (induction n c out rule: utf8_tail.induct) simp_all

lemma length_utf8_encode: "utf8_encode c = Some out \<Longrightarrow> length out \<le> 4 \<and> (c < 0x10000 \<longrightarrow> length out \<le> 3)"
  using length_utf8_tail [of _ c "[]"] by (auto simp: utf8_encode_def Let_def split_beta split: if_splits)

text \<open>A literal inside the string needs at most half as many bytes as it has characters.\<close>

lemma utf16_literal_bounds:
  assumes "p < e" and "e < length input"
  shows "\<exists>r. utf16_literal_to_utf8 input p e = Inr r \<and>
    (\<forall>len bytes. r = Some (len, bytes) \<longrightarrow> p + len \<le> e \<and> (len = 6 \<and> length bytes \<le> 3 \<or> len = 12 \<and> length bytes \<le> 4))"
proof (cases "e - p < 6")
  case False
  then have "p + 2 + 4 \<le> length input" using assms by simp
  from parse_hex4_spec [OF this] hex4_value_bound [of "take 4 (drop (p + 2) input)"] assms False
  obtain w where w: "parse_hex4 input (p + 2) = Inr w" "unat w < 65536" by auto
  have "unat (ucast w :: u64) = unat w"
    using w(2) by (simp add: unsigned_ucast_eq take_bit_nat_eq_self_iff)
  then have small: "(ucast w :: u64) < 0x10000" using w(2) by (simp add: word_less_nat_alt)
  show ?thesis
  proof (cases "0xD800 \<le> w \<and> w \<le> 0xDBFF \<and> 6 \<le> e - (p + 6)")
    case True
    then have "p + 8 + 4 \<le> length input" using assms by arith
    from parse_hex4_spec [OF this] obtain w2 where "parse_hex4 input (p + 8) = Inr w2" by blast
    with True w(1) assms False show ?thesis
      by (auto simp: utf16_literal_to_utf8_def Let_def dest!: length_utf8_encode split: if_splits)
  next
    case F2: False
    with w(1) assms False small show ?thesis
      by (auto simp: utf16_literal_to_utf8_def Let_def dest!: length_utf8_encode split: if_splits)
  qed
qed (simp add: utf16_literal_to_utf8_def)


section \<open>Strings\<close>

text \<open>
  The positions where the scan for the closing quote sees an escape sequence: backslashes, no
  two of them adjacent.
\<close>

definition escapes_in :: "string \<Rightarrow> nat set \<Rightarrow> nat \<Rightarrow> nat \<Rightarrow> bool" where
  "escapes_in input S i e \<longleftrightarrow> S \<subseteq> {i..<e} \<and> (\<forall>j \<in> S. Suc j \<notin> S \<and> input ! j = CHR 0x5C)"

lemma string_end_spec:
  "string_end input i k = Some (e, k') \<Longrightarrow>
     i \<le> e \<and> e < length input \<and> input ! e = CHR 0x22 \<and> (\<exists>S. escapes_in input S i e \<and> k' = k + card S)"
proof (induction input i k rule: string_end.induct)
  case (1 input i k)
  consider "i < length input" "input ! i = CHR 0x22" "e = i" "k' = k"
    | "i + 1 < length input" "input ! i = CHR 0x5C" "string_end input (i + 2) (k + 1) = Some (e, k')"
    | "i < length input" "input ! i \<notin> {CHR 0x22, CHR 0x5C}" "string_end input (i + 1) k = Some (e, k')"
    using "1.prems" by (subst (asm) string_end.simps) (auto split: if_splits)
  then show ?case
  proof cases
    case 1
    then show ?thesis by (auto simp: escapes_in_def intro!: exI [of _ "{}"])
  next
    case 2
    with "1.IH"(1) obtain S where S: "i + 2 \<le> e" "e < length input" "input ! e = CHR 0x22"
      "escapes_in input S (i + 2) e" "k' = k + 1 + card S" by auto
    have "finite S" "i \<notin> S" "Suc i \<notin> S" using S(4) finite_subset by (auto simp: escapes_in_def)
    with S 2 have "escapes_in input (insert i S) i e" "k' = k + card (insert i S)"
      by (auto simp: escapes_in_def)
    with S show ?thesis by (intro conjI exI [of _ "insert i S"]) auto
  next
    case 3
    with "1.IH"(2) obtain S where "i + 1 \<le> e" "e < length input" "input ! e = CHR 0x22"
      "escapes_in input S (i + 1) e" "k' = k + card S" by auto
    then show ?thesis by (intro conjI exI [of _ S]) (auto simp: escapes_in_def)
  qed
qed

lemma sparse_card:
  assumes "\<forall>j \<in> S. Suc j \<notin> S"
  shows "card (S \<inter> {p..<p + 2 * n}) \<le> n"
proof (induction n)
  case (Suc n)
  let ?q = "p + 2 * n"
  have split: "S \<inter> {p..<p + 2 * Suc n} = (S \<inter> {p..<?q}) \<union> (S \<inter> {?q, Suc ?q})" by auto
  have "card (S \<inter> {?q, Suc ?q}) \<le> 1"
  proof (cases "?q \<in> S")
    case True
    with assms have "S \<inter> {?q, Suc ?q} = {?q}" by auto
    then show ?thesis by simp
  next
    case False
    then have "S \<inter> {?q, Suc ?q} \<subseteq> {Suc ?q}" by auto
    from card_mono [OF _ this] show ?thesis by simp
  qed
  then show ?case using Suc.IH card_Un_le [of "S \<inter> {p..<?q}" "S \<inter> {?q, Suc ?q}"] by (simp only: split)
qed simp

lemma card_until:
  "S \<subseteq> {i..<e :: nat} \<Longrightarrow> p \<le> q \<Longrightarrow> card (S \<inter> {..<q}) \<le> card (S \<inter> {..<p}) + card (S \<inter> {p..<q})"
proof -
  assume "S \<subseteq> {i..<e}" and "p \<le> q"
  then have "S \<inter> {..<q} = (S \<inter> {..<p}) \<union> (S \<inter> {p..<q})" by auto
  then show ?thesis by (metis card_Un_le)
qed

lemma card_rest: "S \<subseteq> {i..<e :: nat} \<Longrightarrow> p \<le> e + 1 \<Longrightarrow> card S \<le> card (S \<inter> {..<p}) + (e - p)"
proof -
  assume S: "S \<subseteq> {i..<e}"
  then have "S = S \<inter> {..<e}" by auto
  then have "card S = card (S \<inter> {..<e})" by simp
  also have "\<dots> \<le> card (S \<inter> {..<p}) + card {p..<e}"
  proof -
    have "S \<inter> {..<e} \<subseteq> (S \<inter> {..<p}) \<union> {p..<e}" by auto
    then have "card (S \<inter> {..<e}) \<le> card ((S \<inter> {..<p}) \<union> {p..<e})" by (rule card_mono [rotated]) simp
    then show ?thesis using card_Un_le order_trans by blast
  qed
  finally show ?thesis by simp
qed

text \<open>
  The copying loop stays inside the text and inside its block: what is written so far is at
  most what is read so far less the escape sequences the scan counted there, even where the
  loop no longer agrees with the scan on where a sequence starts.
\<close>

lemma unescape_safe:
  assumes "escapes_in input S i e" and "e < length input" and "i \<le> e"
  defines "room \<equiv> e - i + 1 - card S + 1"
  shows "i \<le> p \<Longrightarrow> p \<le> e + 1 \<Longrightarrow> length out + card (S \<inter> {..<p}) + i \<le> p \<Longrightarrow>
    \<exists>r p'. unescape input room e p out = Inr (r, p') \<and> (\<forall>bs. r = Some bs \<longrightarrow> length bs < room)"
proof (induction "e + 1 - p" arbitrary: p out rule: less_induct)
  case less
  have sub: "S \<subseteq> {i..<e}" and sparse: "\<forall>j \<in> S. Suc j \<notin> S" and bs: "\<forall>j \<in> S. input ! j = CHR 0x5C"
    using assms(1) by (auto simp: escapes_in_def)
  have fits: "length out' < room" if "q \<le> e + 1" "length out' + card (S \<inter> {..<q}) + i \<le> q" for q and out' :: string
    using card_rest [OF sub that(1)] that assms(3) unfolding room_def by linarith
  have step: "\<exists>r p'. res_bind (put_bytes room out ys) (\<lambda>o'. unescape input room e (p + n) o') = Inr (r, p') \<and>
      (\<forall>bs. r = Some bs \<longrightarrow> length bs < room)"
    if "0 < n" "p + n \<le> e + 1" "length ys + card (S \<inter> {p..<p + n}) \<le> n" for n ys
  proof -
    have inv: "length (out @ ys) + card (S \<inter> {..<p + n}) + i \<le> p + n"
      using card_until [OF sub, of p "p + n"] that(3) less.prems(3) by simp
    with fits [OF that(2) inv] less.hyps [of "p + n" "out @ ys"] that less.prems show ?thesis
      by (simp add: put_bytes_def)
  qed
  show ?case
  proof (cases "p < e")
    case False
    with fits [OF less.prems(2,3)] show ?thesis by (simp add: unescape.simps [of input room e p out])
  next
    case True
    then have rd: "rd input p = Inr (input ! p)" "rd input (p + 1) = Inr (input ! (p + 1))" using assms(2) by simp_all
    have one: "card (S \<inter> {p..<p + 1}) \<le> (if input ! p = CHR 0x5C then 1 else 0)"
      using bs by (auto simp: card_le_Suc0_iff_eq)
    have two: "card (S \<inter> {p..<p + 2}) \<le> 1" using sparse_card [OF sparse, of p 1] by simp
    show ?thesis
    proof (cases "input ! p = CHR 0x5C")
      case F: False
      with step [of 1 "[input ! p]"] one True rd show ?thesis
        by (simp add: unescape.simps [of input room e p out])
    next
      case T: True
      show ?thesis
      proof (cases "simple_escape (input ! (p + 1))")
        case (Some y)
        with step [of 2 "[y]"] two True T rd show ?thesis
          by (simp add: unescape.simps [of input room e p out])
      next
        case None
        from utf16_literal_bounds [OF True assms(2)] obtain r where
          r: "utf16_literal_to_utf8 input p e = Inr r"
            "\<forall>len bytes. r = Some (len, bytes) \<longrightarrow> p + len \<le> e \<and> (len = 6 \<and> length bytes \<le> 3 \<or> len = 12 \<and> length bytes \<le> 4)"
          by blast
        show ?thesis
        proof (cases r)
          case None2: None
          then show ?thesis using None r T True rd by (simp add: unescape.simps [of input room e p out])
        next
          case (Some lb)
          obtain len ys where lb: "lb = (len, ys)" by fastforce
          have "0 < len" "p + len \<le> e + 1" "length ys + card (S \<inter> {p..<p + len}) \<le> len"
            using r(2) sparse_card [OF sparse, of p 3] sparse_card [OF sparse, of p 6] by (auto simp: Some lb)
          from step [OF this] None r(1) T True rd show ?thesis
            by (auto simp: unescape.simps [of input room e p out] Some lb)
        qed
      qed
    qed
  qed
qed


section \<open>What a parsing function promises\<close>

text \<open>
  An item to be populated: new, or a member that has its name. The promise: no fault; the text
  is untouched; the blocks allocated less those freed are the ones the item owns more than
  before; and on success the offset has advanced inside the text.
\<close>

definition fresh_item :: "'d cjson \<Rightarrow> bool" where
  "fresh_item item \<longleftrightarrow> cj_child item = [] \<and> cj_valuestring item = None \<and> cj_type item \<in> {cJSON_Invalid, cJSON_String}"

definition populated :: "'d cjson \<Rightarrow> parse_buffer \<Rightarrow> (bool \<times> 'd cjson \<times> parse_buffer) res \<Rightarrow> bool" where
  "populated item b r \<longleftrightarrow>
     (\<exists>ok item' b'. r = Inr (ok, item', b') \<and> content b' = content b \<and>
        live b' + owned_blocks item = live b + owned_blocks item' \<and>
        (ok \<longrightarrow> wf_buffer b' \<and> offset b < offset b' \<and> depth b' = depth b))"

lemma populatedI:
  "r = Inr (ok, item', b') \<Longrightarrow> content b' = content b \<Longrightarrow> live b' + owned_blocks item = live b + owned_blocks item' \<Longrightarrow>
     (ok \<Longrightarrow> wf_buffer b' \<and> offset b < offset b' \<and> depth b' = depth b) \<Longrightarrow> populated item b r"
  by (auto simp: populated_def)

lemma refused: "live b' = live b \<Longrightarrow> content b' = content b \<Longrightarrow> populated item b (Inr (False, item, b'))"
  by (auto simp: populated_def)

lemma owned_fresh:
  assumes "fresh_item item"
  shows "owned_blocks (with_type ty item) = (if ty AND 512 = 0 \<and> cj_string item \<noteq> None then 2 else 1)"
    "owned_blocks item = (if cj_string item \<noteq> None then 2 else 1)"
  using assms by (cases item; auto simp: fresh_item_def with_type_def)+

lemma parse_string_ok:
  assumes "wf_buffer b" and "fresh_item item"
  shows "populated item b (parse_string mem_ok item b)"
proof -
  let ?in = "content b" and ?o = "offset b"
  have rd0: "rd ?in ?o = Inr (?in ! ?o)" using assms(1) by (simp add: wf_buffer_def)
  show ?thesis
  proof (cases "?in ! ?o = CHR 0x22")
    case False
    then show ?thesis by (simp add: parse_string_def rd0 refused)
  next
    case q: True
    show ?thesis
    proof (cases "string_end ?in (?o + 1) 0")
      case None
      then show ?thesis by (simp add: parse_string_def rd0 q refused)
    next
      case (Some es)
      obtain e k where es: "es = (e, k)" by fastforce
      from string_end_spec [OF Some [unfolded es]] obtain S where
        S: "?o + 1 \<le> e" "e < length ?in" "?in ! e = CHR 0x22" "escapes_in ?in S (?o + 1) e" "k = card S" by auto
      have eq: "e - ?o - k + 1 = e - (?o + 1) + 1 - card S + 1" using S(1,5) by simp
      obtain ok b1 where nb: "new_block mem_ok b = (ok, b1)" by fastforce
      note nb1 = new_block_simps [OF nb]
      have "e \<noteq> length ?in - 1" using S(3) assms(1) by (auto simp: wf_buffer_def last_conv_nth)
      then have e1: "e + 1 < length ?in" using S(2) by simp
      from S(4) have "S \<subseteq> {?o + 1..<e}" by (simp add: escapes_in_def)
      then have "S \<inter> {..<?o + 1} = {}" by auto
      with unescape_safe [OF S(4,2,1), of "?o + 1" "[]"] S(1) obtain r p' where
        u: "unescape ?in (e - ?o - k + 1) e (?o + 1) [] = Inr (r, p')"
          "\<forall>bs. r = Some bs \<longrightarrow> length bs < e - ?o - k + 1"
        unfolding eq by auto
      show ?thesis
      proof (cases ok)
        case False
        with nb nb1 Some es q show ?thesis
          by (simp add: parse_string_def rd0 refused)
      next
        case True
        show ?thesis
        proof (cases r)
          case None
          with nb nb1 Some es q True u(1) show ?thesis
            by (simp add: parse_string_def rd0 refused release_def)
        next
          case (Some out)
          have wf: "wf_buffer (b1\<lparr>offset := e + 1\<rparr>)"
            using assms(1) nb1 e1 by (simp add: wf_buffer_def)
          have res: "parse_string mem_ok item b = Inr (True,
              CJson cJSON_String (Some (before_nul (out @ [CHR 0x00]))) (cj_valueint item) (cj_valuedouble item)
                (cj_string item) (cj_child item), b1\<lparr>offset := e + 1\<rparr>)"
            using nb nb1 \<open>string_end ?in (?o + 1) 0 = Some es\<close> es q True u
            by (simp add: parse_string_def rd0 put_bytes_def Some)
          show ?thesis
            by (rule populatedI [OF res])
              (use wf nb1 True S(1) assms(2) owned_fresh(2) [OF assms(2)] in \<open>auto simp: fresh_item_def\<close>)
        qed
      qed
    qed
  qed
qed


section \<open>Arrays and objects\<close>

definition parses_within :: "'d value_parser \<Rightarrow> nat \<Rightarrow> bool" where
  "parses_within pv m \<longleftrightarrow>
     (\<forall>item b. wf_buffer b \<longrightarrow> fresh_item item \<longrightarrow> length (content b) - offset b \<le> m \<longrightarrow> populated item b (pv item b))"

definition collected ::
  "'d cjson list \<Rightarrow> parse_buffer \<Rightarrow> (bool \<times> 'd cjson list \<times> parse_buffer) res \<Rightarrow> bool" where
  "collected head b r \<longleftrightarrow>
     (\<exists>ok head' b'. r = Inr (ok, head', b') \<and> content b' = content b \<and>
        live b' + sum_list (map owned_blocks head) = live b + sum_list (map owned_blocks head') \<and>
        (ok \<longrightarrow> wf_buffer b' \<and> offset b < offset b' \<and> depth b' = depth b))"

lemma collectedI:
  "r = Inr (ok, head', b') \<Longrightarrow> content b' = content b \<Longrightarrow>
     live b' + sum_list (map owned_blocks head) = live b + sum_list (map owned_blocks head') \<Longrightarrow>
     (ok \<Longrightarrow> wf_buffer b' \<and> offset b < offset b' \<and> depth b' = depth b) \<Longrightarrow> collected head b r"
  by (auto simp: collected_def)

lemma new_item_fresh: "fresh_item cJSON_New_Item" "owned_blocks cJSON_New_Item = 1"
  by (simp_all add: fresh_item_def cJSON_New_Item_def)

lemma more_collected:
  assumes "content b' = content b" and "offset b \<le> offset b'" and "depth b' = depth b"
    and "live b' + sum_list (map owned_blocks head) = live b + sum_list (map owned_blocks head')"
    and "collected head' b' r"
  shows "collected head b r"
  using assms by (auto simp: collected_def)

lemma parse_elements_ok:
  assumes "parses_within pv m"
  shows "wf_buffer (move 1 b) \<Longrightarrow> length (content b) - offset b \<le> n \<Longrightarrow> length (content b) - offset b \<le> m + 1 \<Longrightarrow>
    collected head b (parse_elements pv mem_ok n head b)"
proof (induction n arbitrary: head b)
  case 0
  then show ?case by (simp add: wf_buffer_def)
next
  case (Suc n)
  obtain ok b1 where nb: "new_block mem_ok b = (ok, b1)" by fastforce
  note nb1 = new_block_simps [OF nb]
  show ?case
  proof (cases ok)
    case False
    with nb nb1 show ?thesis by (intro collectedI [where ok = False and head' = head and b' = b1]) simp_all
  next
    case True
    let ?b2 = "buffer_skip_whitespace (move 1 b1)"
    have wf1: "wf_buffer (move 1 b1)" using Suc.prems(1) nb1 by (simp add: wf_buffer_def)
    from skip_offset [OF this] nb1 have b2: "wf_buffer ?b2" "offset b < offset ?b2" by auto
    have "length (content ?b2) - offset ?b2 \<le> m" using b2 Suc.prems(3) nb1(1) by simp
    with assms b2(1) new_item_fresh(1) have "populated cJSON_New_Item ?b2 (pv cJSON_New_Item ?b2)"
      unfolding parses_within_def by blast
    then obtain ok2 it b3 where p: "pv cJSON_New_Item ?b2 = Inr (ok2, it, b3)" "content b3 = content b"
      "live b3 + 1 = live b1 + owned_blocks it"
      "ok2 \<longrightarrow> wf_buffer b3 \<and> offset ?b2 < offset b3 \<and> depth b3 = depth b"
      using nb1 by (auto simp: populated_def new_item_fresh(2))
    have acc: "live b3 + sum_list (map owned_blocks head) = live b + sum_list (map owned_blocks (head @ [it]))"
      using p(3) nb1(4) True by simp
    show ?thesis
    proof (cases ok2)
      case False
      with p(1,2) acc nb True show ?thesis
        by (intro collectedI [where ok = False and head' = "head @ [it]" and b' = b3]) simp_all
    next
      case ok2: True
      let ?b4 = "buffer_skip_whitespace b3"
      from ok2 p(4) skip_offset [of b3] b2(2) have b4: "wf_buffer ?b4" "offset b < offset ?b4" "depth ?b4 = depth b" by auto
      show ?thesis
      proof (cases "at_char ?b4 (CHR '','')")
        case False
        with p(1,2) acc nb True ok2 b4 show ?thesis
          by (intro collectedI [where ok = True and head' = "head @ [it]" and b' = ?b4]) simp_all
      next
        case comma: True
        from at_char_next [OF b4(1) comma] have "wf_buffer (move 1 ?b4)" by simp
        moreover have "length (content ?b4) - offset ?b4 \<le> n" "length (content ?b4) - offset ?b4 \<le> m + 1"
          using Suc.prems(2,3) b4(1,2) p(2) unfolding wf_buffer_def by simp_all
        ultimately have "collected (head @ [it]) ?b4 (parse_elements pv mem_ok n (head @ [it]) ?b4)" by (rule Suc.IH)
        then have "collected head b (parse_elements pv mem_ok n (head @ [it]) ?b4)"
          by (rule more_collected [rotated 4]) (use p(2) b4 acc in simp_all)
        with p(1) nb True ok2 comma show ?thesis by simp
      qed
    qed
  qed
qed

lemma close_list_ok:
  assumes "collected [] b r" and "fresh_item item" and "c \<noteq> CHR 0x00" and "ty \<in> {cJSON_Array, cJSON_Object}"
    and "content b0 = content b" and "offset b0 \<le> offset b" and "depth b = depth b0 + 1" and "live b0 = live b"
  shows "populated item b0 (res_bind r (close_list ty c item))"
proof -
  from assms(1) obtain ok head b' where r: "r = Inr (ok, head, b')" "content b' = content b"
    "live b' = live b + sum_list (map owned_blocks head)"
    "ok \<longrightarrow> wf_buffer b' \<and> offset b < offset b' \<and> depth b' = depth b" by (auto simp: collected_def)
  show ?thesis
  proof (cases "ok \<and> at_char b' c")
    case True
    have own: "owned_blocks (with_type ty (with_child head item)) = owned_blocks item + sum_list (map owned_blocks head)"
      using assms(2,4) by (cases item) (auto simp: fresh_item_def with_type_def with_child_def)
    have "wf_buffer (move 1 b')" using True r(4) assms(3) by (blast intro: at_char_next)
    then have "wf_buffer (move 1 (b'\<lparr>depth := depth b' - 1\<rparr>))" by (simp add: wf_buffer_def)
    with True r assms show ?thesis
      by (intro populatedI [where ok = True and item' = "with_type ty (with_child head item)"
            and b' = "move 1 (b'\<lparr>depth := depth b' - 1\<rparr>)"])
        (simp_all add: close_list_def own)
  next
    case False
    then have res: "res_bind r (close_list ty c item) = Inr (False, item, cJSON_Delete head b')"
      by (auto simp: r(1) close_list_def)
    show ?thesis
      unfolding res by (rule refused) (use r assms in \<open>simp_all add: cJSON_Delete_def release_def\<close>)
  qed
qed


lemma parse_string_shape:
  "parse_string mem_ok item b = Inr (True, it, b') \<Longrightarrow>
     cj_type it = cJSON_String \<and> cj_child it = cj_child item \<and> cj_string it = cj_string item"
  by (auto simp: parse_string_def Let_def put_bytes_def split: if_splits option.splits prod.splits)

lemma swap_named:
  assumes "parse_string mem_ok cJSON_New_Item b = Inr (True, it, b')"
  shows "fresh_item (swap_name it)" "owned_blocks (swap_name it) = owned_blocks it"
  using parse_string_shape [OF assms]
  by (cases it; auto simp: fresh_item_def swap_name_def cJSON_New_Item_def)+

lemma parse_members_ok:
  assumes "parses_within pv m"
  shows "wf_buffer (move 1 b) \<Longrightarrow> length (content b) - offset b \<le> n \<Longrightarrow> length (content b) - offset b \<le> m + 1 \<Longrightarrow>
    collected head b (parse_members pv mem_ok n head b)"
proof (induction n arbitrary: head b)
  case 0
  then show ?case by (simp add: wf_buffer_def)
next
  case (Suc n)
  obtain ok b1 where nb: "new_block mem_ok b = (ok, b1)" by fastforce
  note nb1 = new_block_simps [OF nb]
  show ?case
  proof (cases ok)
    case False
    with nb nb1 show ?thesis by (intro collectedI [where ok = False and head' = head and b' = b1]) simp_all
  next
    case True
    let ?b2 = "buffer_skip_whitespace (move 1 b1)"
    have wf1: "wf_buffer (move 1 b1)" using Suc.prems(1) nb1 by (simp add: wf_buffer_def)
    from skip_offset [OF this] nb1 have b2: "wf_buffer ?b2" "offset b < offset ?b2" by auto
    from parse_string_ok [OF b2(1) new_item_fresh(1), of mem_ok] obtain ok2 and it :: "'a cjson" and b3 where
      p: "parse_string mem_ok cJSON_New_Item ?b2 = Inr (ok2, it, b3)" "content b3 = content b"
        "live b3 + 1 = live b1 + owned_blocks it"
        "ok2 \<longrightarrow> wf_buffer b3 \<and> offset ?b2 < offset b3 \<and> depth b3 = depth b"
      using nb1 by (auto simp: populated_def new_item_fresh(2))
    have acc: "live b3 + sum_list (map owned_blocks head) = live b + sum_list (map owned_blocks (head @ [it]))"
      using p(3) nb1(4) True by simp
    show ?thesis
    proof (cases ok2)
      case False
      with p(1,2) acc nb True show ?thesis
        by (intro collectedI [where ok = False and head' = "head @ [it]" and b' = b3]) simp_all
    next
      case ok2: True
      have "parse_string mem_ok cJSON_New_Item ?b2 = Inr (True, it, b3)" using p(1) ok2 by simp
      note swap = swap_named [OF this]
      let ?it = "swap_name it" and ?b4 = "buffer_skip_whitespace b3"
      from ok2 p(4) skip_offset [of b3] b2(2) have b4: "wf_buffer ?b4" "offset b < offset ?b4" "depth ?b4 = depth b" by auto
      have acc4: "live ?b4 + sum_list (map owned_blocks head) = live b + sum_list (map owned_blocks (head @ [?it]))"
        using acc swap(2) by simp
      show ?thesis
      proof (cases "at_char ?b4 (CHR '':'')")
        case False
        with p(1,2) acc4 nb True ok2 show ?thesis
          by (intro collectedI [where ok = False and head' = "head @ [?it]" and b' = ?b4]) simp_all
      next
        case colon: True
        let ?b5 = "buffer_skip_whitespace (move 1 ?b4)"
        from at_char_next [OF b4(1) colon] have "wf_buffer (move 1 ?b4)" by simp
        from skip_offset [OF this] b4 have b5: "wf_buffer ?b5" "offset b < offset ?b5" "depth ?b5 = depth b" by auto
        have "length (content ?b5) - offset ?b5 \<le> m" using b5 Suc.prems(3) p(2) by simp
        with assms b5(1) swap(1) have "populated ?it ?b5 (pv ?it ?b5)" unfolding parses_within_def by blast
        then obtain ok6 it6 b6 where v: "pv ?it ?b5 = Inr (ok6, it6, b6)" "content b6 = content b"
          "live b6 + owned_blocks ?it = live ?b5 + owned_blocks it6"
          "ok6 \<longrightarrow> wf_buffer b6 \<and> offset ?b5 < offset b6 \<and> depth b6 = depth b"
          using p(2) b5(3) by (auto simp: populated_def)
        have acc6: "live b6 + sum_list (map owned_blocks head) = live b + sum_list (map owned_blocks (head @ [it6]))"
          using v(3) acc4 by simp
        show ?thesis
        proof (cases ok6)
          case False
          with p(1) v(1,2) acc6 nb True ok2 colon show ?thesis
            by (intro collectedI [where ok = False and head' = "head @ [it6]" and b' = b6]) simp_all
        next
          case ok6: True
          let ?b7 = "buffer_skip_whitespace b6"
          from ok6 v(4) skip_offset [of b6] b5(2)
          have b7: "wf_buffer ?b7" "offset b < offset ?b7" "depth ?b7 = depth b" by auto
          show ?thesis
          proof (cases "at_char ?b7 (CHR '','')")
            case False
            with p(1) v(1,2) acc6 nb True ok2 ok6 colon b7 show ?thesis
              by (intro collectedI [where ok = True and head' = "head @ [it6]" and b' = ?b7]) simp_all
          next
            case comma: True
            from at_char_next [OF b7(1) comma] have "wf_buffer (move 1 ?b7)" by simp
            moreover have "length (content ?b7) - offset ?b7 \<le> n" "length (content ?b7) - offset ?b7 \<le> m + 1"
              using Suc.prems(2,3) b7(1,2) v(2) unfolding wf_buffer_def by simp_all
            ultimately have "collected (head @ [it6]) ?b7 (parse_members pv mem_ok n (head @ [it6]) ?b7)" by (rule Suc.IH)
            then have "collected head b (parse_members pv mem_ok n (head @ [it6]) ?b7)"
              by (rule more_collected [rotated 4]) (use v(2) b7 acc6 in simp_all)
            with p(1) v(1) nb True ok2 ok6 colon comma show ?thesis by simp
          qed
        qed
      qed
    qed
  qed
qed


section \<open>Values and documents\<close>

text \<open>\<open>strtod\<close> reports an end inside the string it was given.\<close>

definition strtod_ok :: "'d numbers \<Rightarrow> bool" where
  "strtod_ok nl \<longleftrightarrow> (\<forall>s. snd (strtod nl s) \<le> length s)"

lemma parse_number_ok:
  assumes "strtod_ok nl" and "wf_buffer b" and "fresh_item item"
  shows "populated item b (Inr (parse_number nl item b))"
proof -
  let ?s = "takeWhile number_char (take 63 (drop (offset b) (content b)))"
  obtain number used where st: "strtod nl ?s = (number, used)" by fastforce
  have "used \<le> length ?s" using assms(1) st unfolding strtod_ok_def by (metis snd_conv)
  moreover have "offset b + length ?s < length (content b)"
    by (rule before_last) (use assms(2) in \<open>simp_all add: wf_buffer_def number_char_def\<close>)
  ultimately have "wf_buffer (move used b)" using assms(2) by (simp add: wf_buffer_def)
  with assms(3) st owned_fresh(2) [OF assms(3)] show ?thesis
    by (cases "used = 0") (auto simp: parse_number_def Let_def populated_def fresh_item_def)
qed

lemma parse_array_ok:
  assumes "parses_within pv m" and "wf_buffer b" and "fresh_item item"
    and "length (content b) - offset b \<le> n" and "length (content b) - offset b \<le> m + 1"
  shows "populated item b (parse_array pv mem_ok n item b)"
proof -
  let ?b1 = "b\<lparr>depth := depth b + 1\<rparr>"
  let ?b2 = "buffer_skip_whitespace (move 1 ?b1)"
  have wf1: "wf_buffer ?b1" using assms(2) by (simp add: wf_buffer_def)
  show ?thesis
  proof (cases "depth b < CJSON_NESTING_LIMIT \<and> content b ! offset b = CHR ''[''")
    case True
    then have "at_char ?b1 (CHR ''['')" using assms(2) by (simp add: at_char_def can_access_at_index_def wf_buffer_def)
    from at_char_next [OF wf1 this] have "wf_buffer (move 1 ?b1)" by simp
    from skip_offset [OF this] have b2: "wf_buffer ?b2" "offset b < offset ?b2" by auto
    have prior: "wf_buffer (move 1 (step_back ?b2))" "offset b \<le> offset (step_back ?b2)"
      using b2 by (auto simp: wf_buffer_def)
    have res: "parse_array pv mem_ok n item b =
      (if at_char ?b2 (CHR '']'') then res_bind (Inr (True, [], ?b2)) (close_list cJSON_Array (CHR '']'') item)
       else res_bind (parse_elements pv mem_ok n [] (step_back ?b2)) (close_list cJSON_Array (CHR '']'') item))"
      using True assms(2) b2(1) by (auto simp: parse_array_def wf_buffer_def can_access_at_index_def Let_def)
    show ?thesis
    proof (cases "at_char ?b2 (CHR '']'')")
      case closed: True
      have "wf_buffer (move 1 (?b2\<lparr>depth := depth b\<rparr>))"
        using at_char_next [OF b2(1) closed] by (simp add: wf_buffer_def)
      with closed b2 assms(3) owned_fresh(2) [OF assms(3)] show ?thesis
        unfolding res
        by (intro populatedI [where ok = True and item' = "with_type cJSON_Array (with_child [] item)"
              and b' = "move 1 (?b2\<lparr>depth := depth b\<rparr>)"])
          (auto simp: close_list_def with_type_def with_child_def fresh_item_def)
    next
      case open_list: False
      have "collected [] (step_back ?b2) (parse_elements pv mem_ok n [] (step_back ?b2))"
        by (rule parse_elements_ok [OF assms(1) prior(1)]) (use assms(4,5) prior(2) in auto)
      from close_list_ok [OF this assms(3), of "CHR '']''" cJSON_Array b] prior(2) show ?thesis
        unfolding res if_not_P [OF open_list] by simp
    qed
  next
    case False
    then show ?thesis using assms(2) by (auto simp: parse_array_def wf_buffer_def Let_def intro!: refused)
  qed
qed


lemma parse_object_ok:
  assumes "parses_within pv m" and "wf_buffer b" and "fresh_item item"
    and "length (content b) - offset b \<le> n" and "length (content b) - offset b \<le> m + 1"
  shows "populated item b (parse_object pv mem_ok n item b)"
proof -
  let ?b1 = "b\<lparr>depth := depth b + 1\<rparr>"
  let ?b2 = "buffer_skip_whitespace (move 1 ?b1)"
  have wf1: "wf_buffer ?b1" using assms(2) by (simp add: wf_buffer_def)
  show ?thesis
  proof (cases "depth b < CJSON_NESTING_LIMIT \<and> at_char ?b1 (CHR ''{'')")
    case True
    from at_char_next [OF wf1 conjunct2 [OF True]] have "wf_buffer (move 1 ?b1)" by simp
    from skip_offset [OF this] have b2: "wf_buffer ?b2" "offset b < offset ?b2" by auto
    have prior: "wf_buffer (move 1 (step_back ?b2))" "offset b \<le> offset (step_back ?b2)"
      using b2 by (auto simp: wf_buffer_def)
    have res: "parse_object pv mem_ok n item b =
      (if at_char ?b2 (CHR ''}'') then res_bind (Inr (True, [], ?b2)) (close_list cJSON_Object (CHR ''}'') item)
       else res_bind (parse_members pv mem_ok n [] (step_back ?b2)) (close_list cJSON_Object (CHR ''}'') item))"
      using True b2(1) by (auto simp: parse_object_def wf_buffer_def can_access_at_index_def Let_def)
    show ?thesis
    proof (cases "at_char ?b2 (CHR ''}'')")
      case closed: True
      have "wf_buffer (move 1 (?b2\<lparr>depth := depth b\<rparr>))"
        using at_char_next [OF b2(1) closed] by (simp add: wf_buffer_def)
      with closed b2 assms(3) owned_fresh(2) [OF assms(3)] show ?thesis
        unfolding res
        by (intro populatedI [where ok = True and item' = "with_type cJSON_Object (with_child [] item)"
              and b' = "move 1 (?b2\<lparr>depth := depth b\<rparr>)"])
          (auto simp: close_list_def with_type_def with_child_def fresh_item_def)
    next
      case open_list: False
      have "collected [] (step_back ?b2) (parse_members pv mem_ok n [] (step_back ?b2))"
        by (rule parse_members_ok [OF assms(1) prior(1)]) (use assms(4,5) prior(2) in auto)
      from close_list_ok [OF this assms(3), of "CHR ''}''" cJSON_Object b] prior(2) show ?thesis
        unfolding res if_not_P [OF open_list] by simp
    qed
  next
    case False
    then show ?thesis by (auto simp: parse_object_def Let_def intro!: refused)
  qed
qed

lemma populated_if:
  "(c \<Longrightarrow> populated item b r) \<Longrightarrow> (\<not> c \<Longrightarrow> populated item b r') \<Longrightarrow> populated item b (if c then r else r')"
  by simp

lemma owned_with_valueint: "owned_blocks (with_valueint k item) = owned_blocks item"
  by (cases item) (simp add: with_valueint_def)

lemma parse_value_ok:
  assumes "strtod_ok nl"
  shows "parses_within (parse_value nl mem_ok (Suc n)) n"
proof (induction n)
  case 0
  then show ?case by (auto simp: parses_within_def wf_buffer_def)
next
  case (Suc n)
  show ?case unfolding parses_within_def
  proof (intro allI impI)
    fix item :: "'a cjson" and b
    assume b: "wf_buffer b" "fresh_item item" "length (content b) - offset b \<le> Suc n"
    have word: "populated item b (Inr (True, it, move (length s) b))"
      if "at_word b s" "CHR 0x00 \<notin> set s" "s \<noteq> []" "owned_blocks it = owned_blocks item" for s it
      by (rule populatedI [OF refl]) (use at_word_next [OF b(1) that(1,2,3)] that(3,4) in auto)
    have own: "owned_blocks (with_type ty item) = owned_blocks item" if "ty \<in> {1, 2, 4}" for ty
      using that owned_fresh [OF b(2)] by auto
    have w: "at_word b ''null'' \<Longrightarrow> populated item b (Inr (True, with_type cJSON_NULL item, move 4 b))"
      "at_word b ''false'' \<Longrightarrow> populated item b (Inr (True, with_type cJSON_False item, move 5 b))"
      "at_word b ''true'' \<Longrightarrow> populated item b (Inr (True, with_valueint 1 (with_type cJSON_True item), move 4 b))"
      using word [of "''null''"] word [of "''false''"] word [of "''true''"] own
      by (simp_all add: eval_nat_numeral owned_with_valueint)
    have arr: "populated item b (parse_array (parse_value nl mem_ok (Suc n)) mem_ok (Suc n) item b)"
      using parse_array_ok [OF Suc.IH b(1,2), of "Suc n" mem_ok] b(3) by simp
    have obj: "populated item b (parse_object (parse_value nl mem_ok (Suc n)) mem_ok (Suc n) item b)"
      using parse_object_ok [OF Suc.IH b(1,2), of "Suc n" mem_ok] b(3) by simp
    show "populated item b (parse_value nl mem_ok (Suc (Suc n)) item b)"
      by (subst parse_value.simps(2), intro populated_if)
        (simp_all only: w arr obj parse_string_ok [OF b(1,2)] parse_number_ok [OF assms b(1,2)] refused)
  qed
qed


lemma parser_total:
  assumes "strtod_ok nl" and "CHR 0x00 \<notin> set s" and "length s + 2 \<le> fuel"
  shows "\<exists>doc. cJSON_ParseWithOpts nl mem_ok fuel (Some s) require_null_terminated = Inr doc \<and>
    doc_end doc \<le> length s \<and> (doc_item doc = None \<longleftrightarrow> doc_error doc = Some (doc_end doc)) \<and>
    doc_live doc = (case doc_item doc of None \<Rightarrow> 0 | Some item \<Rightarrow> owned_blocks item)"
proof -
  let ?b0 = "\<lparr>content = s @ [CHR 0x00], offset = 0, depth = 0, requests = 0, live = 0\<rparr>"
  obtain ok b where nb: "new_block mem_ok ?b0 = (ok, b)" by fastforce
  note b = new_block_simps [OF nb]
  show ?thesis
  proof (cases ok)
    case False
    with nb b show ?thesis by (simp add: cJSON_ParseWithOpts_def Let_def cJSON_Delete_def release_def)
  next
    case True
    obtain b1 where bom: "skip_utf8_bom b = Some b1" "content b1 = content b" "live b1 = live b" "wf_buffer b1"
    proof (cases "can_access_at_index b 4 \<and> at_word b [CHR 0xEF, CHR 0xBB, CHR 0xBF]")
      case True
      with b that [of "move 3 b"] show ?thesis
        by (simp add: skip_utf8_bom_def wf_buffer_def can_access_at_index_def)
    next
      case False
      with b that [of b] show ?thesis by (auto simp: skip_utf8_bom_def wf_buffer_def)
    qed
    let ?b2 = "buffer_skip_whitespace b1"
    have b2: "wf_buffer ?b2" "length (content ?b2) - offset ?b2 \<le> fuel - 1"
      using skip_offset [OF bom(4)] assms(3) bom(2) b(1) by auto
    have "parses_within (parse_value nl mem_ok fuel) (fuel - 1)"
      using parse_value_ok [OF assms(1), of mem_ok "fuel - 1"] assms(3) by simp
    with b2 new_item_fresh(1) have "populated cJSON_New_Item ?b2 (parse_value nl mem_ok fuel cJSON_New_Item ?b2)"
      unfolding parses_within_def by blast
    then obtain ok3 and it :: "'a cjson" and b3 where
      p: "parse_value nl mem_ok fuel cJSON_New_Item ?b2 = Inr (ok3, it, b3)" "content b3 = s @ [CHR 0x00]"
        "live b3 = owned_blocks it" "ok3 \<longrightarrow> wf_buffer b3"
      using b bom True by (auto simp: populated_def new_item_fresh(2))
    show ?thesis
    proof (cases ok3)
      case False
      with p True nb bom(1) show ?thesis
        by (simp add: cJSON_ParseWithOpts_def Let_def cJSON_Delete_def release_def)
    next
      case ok3: True
      with p(4) skip_offset [of b3] have "wf_buffer b3" "wf_buffer (buffer_skip_whitespace b3)" by auto
      then have "offset b3 \<le> length s" "offset (buffer_skip_whitespace b3) \<le> length s"
        using p(2) by (auto simp: wf_buffer_def)
      with p True nb bom(1) ok3 show ?thesis
        by (auto simp: cJSON_ParseWithOpts_def Let_def cJSON_Delete_def release_def)
    qed
  qed
qed

text \<open>
  C29: The JSON parser is total and memory safe, and leaks nothing. For every C string, whatever
  allocation requests fail and whatever the number functions of the C library return (inside
  their string), with fuel for one level and one list item per character: the parse ends
  without a fault, having read only the text with its terminator and written only its
  blocks; it reports an end inside the text; if it fails it reports an error position and
  every block is freed again, and if it succeeds the live blocks are those the document owns.
\<close>

theorem parser_safe:
  assumes "strtod_ok nl" and "CHR 0x00 \<notin> set s" and "length s + 2 \<le> fuel"
  shows "\<exists>doc. cJSON_ParseWithOpts nl mem_ok fuel (Some s) require_null_terminated = Inr doc \<and>
    doc_end doc \<le> length s \<and> (doc_item doc = None \<longleftrightarrow> doc_error doc = Some (doc_end doc)) \<and>
    doc_live doc = (case doc_item doc of None \<Rightarrow> 0 | Some item \<Rightarrow> owned_blocks item)"
  by (rule parser_total [OF assms])

text \<open>Numbers for the witnesses: a run of decimal digits is an integer.\<close>

definition int_numbers :: "int numbers" where
  "int_numbers =
     \<lparr>strtod = (\<lambda>s. let ds = takeWhile (\<lambda>c. c \<in> set ''0123456789'') s
                    in (fold (\<lambda>c n. 10 * n + (of_char c - 48)) ds 0, length ds)),
      num_ge = (\<ge>), num_le = (\<le>), num_int = id\<rparr>"

lemma int_numbers_ok: "strtod_ok int_numbers"
  by (simp add: strtod_ok_def int_numbers_def Let_def length_takeWhile_le)

theorem parser_safe_witness:
  "\<exists>doc. cJSON_ParseWithOpts int_numbers (\<lambda>n. n \<noteq> 3) 30 (Some ''{ [1, 2] ] '') True = Inr doc \<and>
     doc_end doc \<le> 11 \<and> (doc_item doc = None \<longleftrightarrow> doc_error doc = Some (doc_end doc)) \<and>
     doc_live doc = (case doc_item doc of None \<Rightarrow> 0 | Some item \<Rightarrow> owned_blocks item)"
  using parser_safe [OF int_numbers_ok, of "''{ [1, 2] ] ''" 30 "\<lambda>n. n \<noteq> 3" True] by (simp add: eval_nat_numeral)

end
