(* ===== verification/CJson_Print.thy ===== *)
theory CJson_Print
  imports CJson_Parse
begin

text \<open>
  The printer of SW-FB/cJSON.c: the growing print buffer, strings, numbers, arrays and objects,
  and the public functions over them. Every write is checked against the block of the
  buffer. The allocator is a parameter: which requests succeed, what fresh memory holds,
  and whether there is a \<open>reallocate\<close> hook; so are the conversions of floating-point numbers.
\<close>

section \<open>The print buffer\<close>

record allocator =
  grant :: "nat \<Rightarrow> bool"
  fresh :: "nat \<Rightarrow> nat \<Rightarrow> char"   \<comment> \<open>the bytes a request returns\<close>
  has_realloc :: bool

record printbuffer =
  p_buffer :: "string option"
  p_length :: nat
  p_offset :: nat
  p_depth :: nat
  p_noalloc :: bool
  p_format :: bool
  p_requests :: nat
  p_live :: nat

type_synonym printed = "(bool \<times> printbuffer) res"

text \<open>A step that may fail, and what follows if it did not.\<close>

definition when_ok :: "printed \<Rightarrow> (printbuffer \<Rightarrow> printed) \<Rightarrow> printed" where
  "when_ok m f = res_bind m (\<lambda>(ok, p). if ok then f p else Inr (False, p))"

definition poke :: "nat \<times> string \<Rightarrow> printbuffer \<Rightarrow> printbuffer res" where
  "poke w p =
     (case (w, p_buffer p) of
        (_, None) \<Rightarrow> Inl (UB NullPtr)
      | ((pos, bs), Some blk) \<Rightarrow>
          if pos + length bs \<le> length blk
          then Inr (p\<lparr>p_buffer := Some (take pos blk @ bs @ drop (pos + length bs) blk)\<rparr>)
          else Inl (UB OutOfBounds))"

text \<open>Writes at positions relative to \<open>output_pointer = buffer + offset\<close>, then the next step.\<close>

definition writes :: "(nat \<times> string) list \<Rightarrow> printbuffer \<Rightarrow> (printbuffer \<Rightarrow> printed) \<Rightarrow> printed" where
  "writes ws p f = res_bind (run_steps poke (map (\<lambda>(i, bs). (p_offset p + i, bs)) ws) p) f"

definition advance :: "nat \<Rightarrow> printbuffer \<Rightarrow> printbuffer" where
  "advance n p = p\<lparr>p_offset := p_offset p + n\<rparr>"

definition resize :: "allocator \<Rightarrow> nat \<Rightarrow> nat \<Rightarrow> string \<Rightarrow> string" where
  "resize h request newsize blk = take newsize blk @ map (fresh h request) [length blk ..< newsize]"

definition ensure :: "allocator \<Rightarrow> nat \<Rightarrow> printbuffer \<Rightarrow> printed" where
  "ensure h needed p =
     (case p_buffer p of
        None \<Rightarrow> Inr (False, p)
      | Some blk \<Rightarrow>
          if p_length p > 0 \<and> p_offset p \<ge> p_length p then Inr (False, p)
          else if int needed > INT_MAX then Inr (False, p)
          else
            let needed = needed + p_offset p + 1 in
            if needed \<le> p_length p then Inr (True, p)
            else if p_noalloc p then Inr (False, p)
            else if int needed > INT_MAX div 2 \<and> \<not> int needed \<le> INT_MAX then Inr (False, p)
            else
              let newsize = (if int needed > INT_MAX div 2 then nat INT_MAX else needed * 2);
                  request = p_requests p in
              if \<not> grant h request
              then Inr (False, p\<lparr>p_buffer := None, p_length := 0, p_requests := request + 1, p_live := p_live p - 1\<rparr>)
              else if has_realloc h
              then Inr (True, p\<lparr>p_buffer := Some (resize h request newsize blk), p_length := newsize,
                                p_requests := request + 1\<rparr>)
              else if p_offset p + 1 \<le> length blk
              then Inr (True, p\<lparr>p_buffer := Some (resize h request newsize (take (p_offset p + 1) blk)),
                                p_length := newsize, p_requests := request + 1\<rparr>)
              else Inl (UB OutOfBounds))"

definition update_offset :: "printbuffer \<Rightarrow> printbuffer res" where
  "update_offset p =
     (case p_buffer p of
        None \<Rightarrow> Inr p
      | Some blk \<Rightarrow>
          let rest = drop (p_offset p) blk in
          if CHR 0x00 \<in> set rest then Inr (advance (length (before_nul rest)) p) else Inl (UB OutOfBounds))"

section \<open>Strings and numbers\<close>

text \<open>The letter of a one-character escape sequence.\<close>

definition escape_letter :: "char \<Rightarrow> char option" where
  "escape_letter c =
     (if c = CHR 0x5C \<or> c = CHR 0x22 then Some c
      else if c = CHR 0x08 then Some (CHR ''b'') else if c = CHR 0x0C then Some (CHR ''f'')
      else if c = CHR 0x0A then Some (CHR ''n'') else if c = CHR 0x0D then Some (CHR ''r'')
      else if c = CHR 0x09 then Some (CHR ''t'') else None)"

definition escape_extra :: "char \<Rightarrow> nat" where
  "escape_extra c =
     (if escape_letter c \<noteq> None then 1 else if of_char c < (32 :: nat) then 5 else 0)"

definition hex_letter :: "nat \<Rightarrow> char" where
  "hex_letter n = (if n < 10 then char_of (48 + n) else char_of (87 + n))"

text \<open>\<open>"u%04x"\<close>.\<close>

definition unicode_text :: "char \<Rightarrow> string" where
  "unicode_text c =
     (let n = of_char c :: nat in ''u00'' @ [hex_letter (n div 16), hex_letter (n mod 16)])"

text \<open>
  The copying loop. \<open>sprintf\<close> writes its terminator too, which the next write covers.
\<close>

primrec escape_loop :: "string \<Rightarrow> nat \<Rightarrow> printbuffer \<Rightarrow> printbuffer res" where
  "escape_loop [] pos p = Inr p"
| "escape_loop (c # cs) pos p =
     (if of_char c > (31 :: nat) \<and> c \<noteq> CHR 0x22 \<and> c \<noteq> CHR 0x5C
      then res_bind (poke (pos, [c]) p) (escape_loop cs (pos + 1))
      else res_bind (poke (pos, [CHR 0x5C]) p) (\<lambda>p.
        case escape_letter c of
          Some x \<Rightarrow> res_bind (poke (pos + 1, [x]) p) (escape_loop cs (pos + 2))
        | None \<Rightarrow> res_bind (poke (pos + 1, unicode_text c @ [CHR 0x00]) p) (escape_loop cs (pos + 6))))"

definition print_string_ptr :: "allocator \<Rightarrow> string option \<Rightarrow> printbuffer \<Rightarrow> printed" where
  "print_string_ptr h input p =
     (case input of
        None \<Rightarrow> when_ok (ensure h 3 p) (\<lambda>p. writes [(0, [CHR 0x22, CHR 0x22, CHR 0x00])] p (\<lambda>p. Inr (True, p)))
      | Some s \<Rightarrow>
          let escape_characters = sum_list (map escape_extra s); output_length = length s + escape_characters in
          when_ok (ensure h (output_length + 3) p) (\<lambda>p.
            if escape_characters = 0
            then writes [(0, [CHR 0x22]), (1, s), (output_length + 1, [CHR 0x22]), (output_length + 2, [CHR 0x00])] p
                   (\<lambda>p. Inr (True, p))
            else res_bind (poke (p_offset p, [CHR 0x22]) p) (\<lambda>p.
                 res_bind (escape_loop s (p_offset p + 1) p) (\<lambda>p.
                 writes [(output_length + 1, [CHR 0x22]), (output_length + 2, [CHR 0x00])] p (\<lambda>p. Inr (True, p))))))"

text \<open>The conversions \<open>"%1.15g"\<close>, \<open>"%1.17g"\<close> and \<open>"%lg"\<close>, and the tests on doubles.\<close>

record 'd formats =
  sprintf_g :: "nat \<Rightarrow> 'd \<Rightarrow> string"
  sscanf_lg :: "string \<Rightarrow> 'd option"
  num_same :: "'d \<Rightarrow> 'd \<Rightarrow> bool"
  num_finite :: "'d \<Rightarrow> bool"       \<comment> \<open>\<open>d * 0 == 0\<close>\<close>

definition number_text :: "'d formats \<Rightarrow> 'd \<Rightarrow> string" where
  "number_text nf d =
     (if \<not> num_finite nf d then ''null''
      else let s = sprintf_g nf 15 d in
        case sscanf_lg nf s of
          None \<Rightarrow> sprintf_g nf 17 d
        | Some test \<Rightarrow> if num_same nf test d then s else sprintf_g nf 17 d)"

definition print_number :: "allocator \<Rightarrow> 'd formats \<Rightarrow> 'd \<Rightarrow> printbuffer \<Rightarrow> printed" where
  "print_number h nf d p =
     (let s = number_text nf d in
      if length s > 25 then Inl (UB OutOfBounds)
      else when_ok (ensure h (length s + 1) p) (\<lambda>p.
        writes [(0, s), (length s, [CHR 0x00])] p (\<lambda>p. Inr (True, advance (length s) p))))"

section \<open>Values\<close>

definition put_literal :: "allocator \<Rightarrow> string \<Rightarrow> printbuffer \<Rightarrow> printed" where
  "put_literal h s p =
     when_ok (ensure h (length s + 1) p) (\<lambda>p. writes [(0, s @ [CHR 0x00])] p (\<lambda>p. Inr (True, p)))"

text \<open>
  The loops take the printers of the values. A separator and its terminator are written
  before the offset moves over the separator.
\<close>

type_synonym printer = "printbuffer \<Rightarrow> printed"

definition put_separator :: "allocator \<Rightarrow> string \<Rightarrow> printbuffer \<Rightarrow> printed" where
  "put_separator h s p =
     when_ok (ensure h (length s + 1) p) (\<lambda>p. writes [(0, s), (length s, [CHR 0x00])] p
       (\<lambda>p. Inr (True, advance (length s) p)))"

definition put_bare :: "allocator \<Rightarrow> nat \<Rightarrow> string \<Rightarrow> printbuffer \<Rightarrow> printed" where
  "put_bare h needed s p =
     when_ok (ensure h needed p) (\<lambda>p. writes [(0, s)] p (\<lambda>p. Inr (True, advance (length s) p)))"

definition deeper :: "printbuffer \<Rightarrow> printbuffer" where
  "deeper p = p\<lparr>p_depth := p_depth p + 1\<rparr>"

definition shallower :: "printbuffer \<Rightarrow> printbuffer" where
  "shallower p = p\<lparr>p_depth := p_depth p - 1\<rparr>"

definition then_update :: "printed \<Rightarrow> (printbuffer \<Rightarrow> printed) \<Rightarrow> printed" where
  "then_update m f = when_ok m (\<lambda>p. res_bind (update_offset p) f)"

primrec print_elements :: "allocator \<Rightarrow> printer list \<Rightarrow> printer" where
  "print_elements h [] p = Inr (True, p)"
| "print_elements h (pr # prs) p =
     then_update (pr p) (\<lambda>p.
       if prs \<noteq> []
       then when_ok (put_separator h (if p_format p then '', '' else '','') p) (print_elements h prs)
       else print_elements h prs p)"

definition print_array :: "allocator \<Rightarrow> printer list \<Rightarrow> printer" where
  "print_array h prs p =
     when_ok (put_bare h 1 ''['' p) (\<lambda>p.
     when_ok (print_elements h prs (deeper p)) (\<lambda>p.
     when_ok (ensure h 2 p) (\<lambda>p.
     writes [(0, '']''), (1, [CHR 0x00])] p (\<lambda>p. Inr (True, shallower p)))))"

primrec print_members :: "allocator \<Rightarrow> (string option \<times> printer) list \<Rightarrow> printer" where
  "print_members h [] p = Inr (True, p)"
| "print_members h (m # ms) p =
     when_ok (if p_format p then put_bare h (p_depth p) (replicate (p_depth p) (CHR 0x09)) p else Inr (True, p)) (\<lambda>p.
     then_update (print_string_ptr h (fst m) p) (\<lambda>p.
     when_ok (let s = '':'' @ (if p_format p then [CHR 0x09] else []) in put_bare h (length s) s p) (\<lambda>p.
     then_update (snd m p) (\<lambda>p.
     when_ok (put_separator h ((if ms \<noteq> [] then '','' else []) @ (if p_format p then [CHR 0x0A] else [])) p)
       (print_members h ms)))))"

definition print_object :: "allocator \<Rightarrow> (string option \<times> printer) list \<Rightarrow> printer" where
  "print_object h ms p =
     when_ok (let s = ''{'' @ (if p_format p then [CHR 0x0A] else []) in put_bare h (length s + 1) s p) (\<lambda>p.
     when_ok (print_members h ms (deeper p)) (\<lambda>p.
     when_ok (ensure h (if p_format p then p_depth p + 1 else 2) p) (\<lambda>p.
     writes [(0, (if p_format p then replicate (p_depth p - 1) (CHR 0x09) else []) @ ''}'' @ [CHR 0x00])] p
       (\<lambda>p. Inr (True, shallower p)))))"

primrec print_value :: "allocator \<Rightarrow> 'd formats \<Rightarrow> 'd cjson \<Rightarrow> printer" where
  "print_value h nf (CJson ty vs vi vd st ch) = (\<lambda>p.
     let t = ty AND 255 in
     if t = cJSON_NULL then put_literal h ''null'' p
     else if t = cJSON_False then put_literal h ''false'' p
     else if t = cJSON_True then put_literal h ''true'' p
     else if t = cJSON_Number then print_number h nf vd p
     else if t = cJSON_Raw then (case vs of None \<Rightarrow> Inr (False, p) | Some s \<Rightarrow> put_literal h s p)
     else if t = cJSON_String then print_string_ptr h vs p
     else if t = cJSON_Array then print_array h (map (print_value h nf) ch) p
     else if t = cJSON_Object then print_object h (zip (map cj_string ch) (map (print_value h nf) ch)) p
     else Inr (False, p))"

section \<open>The public functions\<close>

text \<open>They return the block of the text, or \<open>None\<close>, and the number of blocks still live.\<close>

definition new_printbuffer :: "string \<Rightarrow> bool \<Rightarrow> bool \<Rightarrow> nat \<Rightarrow> printbuffer" where
  "new_printbuffer blk noalloc fmt count =
     \<lparr>p_buffer = Some blk, p_length = length blk, p_offset = 0, p_depth = 0, p_noalloc = noalloc,
      p_format = fmt, p_requests = count, p_live = 1\<rparr>"

definition print :: "allocator \<Rightarrow> 'd formats \<Rightarrow> 'd cjson option \<Rightarrow> bool \<Rightarrow> (string option \<times> nat) res" where
  "print h nf item fmt =
     (let fail = \<lambda>p. Inr (None, p_live p - (if p_buffer p \<noteq> None then 1 else 0)) in
      if \<not> grant h 0 then Inr (None, 0)
      else
        let p = new_printbuffer (resize h 0 256 []) False fmt 1 in
        case item of
          None \<Rightarrow> fail p
        | Some j \<Rightarrow>
            res_bind (print_value h nf j p) (\<lambda>(ok, p).
              if \<not> ok then fail p
              else res_bind (update_offset p) (\<lambda>p.
                case p_buffer p of
                  None \<Rightarrow> fail p
                | Some blk \<Rightarrow>
                    if has_realloc h
                    then if grant h (p_requests p)
                         then Inr (Some (resize h (p_requests p) (p_offset p + 1) blk), p_live p)
                         else fail (p\<lparr>p_buffer := None\<rparr>)
                    else if \<not> grant h (p_requests p) then fail p
                    else
                      let n = min (p_length p) (p_offset p + 1) in
                      if n \<le> length blk
                      then Inr (Some ((resize h (p_requests p) (p_offset p + 1) (take n blk))[p_offset p := CHR 0x00]),
                                p_live p)
                      else Inl (UB OutOfBounds))))"

definition cJSON_Print :: "allocator \<Rightarrow> 'd formats \<Rightarrow> 'd cjson option \<Rightarrow> (string option \<times> nat) res" where
  "cJSON_Print h nf item = print h nf item True"

definition cJSON_PrintUnformatted :: "allocator \<Rightarrow> 'd formats \<Rightarrow> 'd cjson option \<Rightarrow> (string option \<times> nat) res" where
  "cJSON_PrintUnformatted h nf item = print h nf item False"

definition cJSON_PrintBuffered ::
  "allocator \<Rightarrow> 'd formats \<Rightarrow> 'd cjson option \<Rightarrow> int \<Rightarrow> bool \<Rightarrow> (string option \<times> nat) res" where
  "cJSON_PrintBuffered h nf item prebuffer fmt =
     (if prebuffer < 0 then Inr (None, 0)
      else if \<not> grant h 0 then Inr (None, 0)
      else
        let p = new_printbuffer (resize h 0 (nat prebuffer) []) False fmt 1;
            fail = \<lambda>p. Inr (None, p_live p - (if p_buffer p \<noteq> None then 1 else 0)) in
        case item of
          None \<Rightarrow> fail p
        | Some j \<Rightarrow>
            res_bind (print_value h nf j p) (\<lambda>(ok, p). if \<not> ok then fail p else Inr (p_buffer p, p_live p)))"

definition cJSON_PrintPreallocated ::
  "allocator \<Rightarrow> 'd formats \<Rightarrow> 'd cjson option \<Rightarrow> string option \<Rightarrow> int \<Rightarrow> bool \<Rightarrow> (bool \<times> string option) res" where
  "cJSON_PrintPreallocated h nf item buf len fmt =
     (case (item, buf) of
        (Some j, Some blk) \<Rightarrow>
          if len < 0 then Inr (False, buf)
          else res_bind (print_value h nf j ((new_printbuffer blk True fmt 0)\<lparr>p_length := nat len\<rparr>))
                 (\<lambda>(ok, p). Inr (ok, p_buffer p))
      | _ \<Rightarrow> Inr (False, buf))"

section \<open>The hooks\<close>

text \<open>
  \<open>cJSON_InitHooks\<close> over a type \<open>'p\<close> of pointers to functions: the \<open>internal_hooks\<close> it leaves.
  A NULL pointer is \<open>None\<close>; \<open>has_realloc\<close> is whether the third one is there.
\<close>

record 'p cJSON_Hooks =
  malloc_fn :: "'p option"
  free_fn :: "'p option"

record 'p internal_hooks =
  hook_allocate :: 'p
  hook_deallocate :: 'p
  hook_reallocate :: "'p option"

definition cJSON_InitHooks :: "'p \<Rightarrow> 'p \<Rightarrow> 'p \<Rightarrow> 'p cJSON_Hooks option \<Rightarrow> 'p internal_hooks" where
  "cJSON_InitHooks malloc free realloc hooks =
     (case hooks of
        None \<Rightarrow> \<lparr>hook_allocate = malloc, hook_deallocate = free, hook_reallocate = Some realloc\<rparr>
      | Some h \<Rightarrow>
          let a = (case malloc_fn h of Some f \<Rightarrow> f | None \<Rightarrow> malloc);
              d = (case free_fn h of Some f \<Rightarrow> f | None \<Rightarrow> free) in
          \<lparr>hook_allocate = a, hook_deallocate = d,
           hook_reallocate = (if a = malloc \<and> d = free then Some realloc else None)\<rparr>)"

end
