(* ===== verification/CJson_Print_Props.thy ===== *)
theory CJson_Print_Props
  imports CJson_Print
begin

text \<open>
  The printer renders the text of a tree: a reference rendering, and the proof that the
  printer writes exactly it, inside its buffer, whatever the allocator does.
\<close>

section \<open>The rendering\<close>

primrec join :: "string \<Rightarrow> string list \<Rightarrow> string" where
  "join sep [] = []"
| "join sep (s # ss) = s @ (if ss = [] then [] else sep @ join sep ss)"

definition escape :: "char \<Rightarrow> string" where
  "escape c =
     (if of_char c > (31 :: nat) \<and> c \<noteq> CHR 0x22 \<and> c \<noteq> CHR 0x5C then [c]
      else CHR 0x5C # (case escape_letter c of Some x \<Rightarrow> [x] | None \<Rightarrow> unicode_text c))"

definition quote :: "string option \<Rightarrow> string" where
  "quote s = [CHR 0x22] @ (case s of None \<Rightarrow> [] | Some s \<Rightarrow> concat (map escape s)) @ [CHR 0x22]"

definition tabs :: "bool \<Rightarrow> nat \<Rightarrow> string" where
  "tabs fmt n = (if fmt then replicate n (CHR 0x09) else [])"

definition newline :: "bool \<Rightarrow> string" where
  "newline fmt = (if fmt then [CHR 0x0A] else [])"

definition member_text :: "bool \<Rightarrow> nat \<Rightarrow> string option \<Rightarrow> string \<Rightarrow> string" where
  "member_text fmt d k t = tabs fmt d @ quote k @ '':'' @ tabs fmt 1 @ t"

definition array_text :: "bool \<Rightarrow> string list \<Rightarrow> string" where
  "array_text fmt ts = ''['' @ join (if fmt then '', '' else '','') ts @ '']''"

definition object_text :: "bool \<Rightarrow> nat \<Rightarrow> string list \<Rightarrow> string" where
  "object_text fmt d ms =
     ''{'' @ newline fmt @ join ('','' @ newline fmt) ms @ (if ms = [] then [] else newline fmt) @ tabs fmt d @ ''}''"

primrec render :: "'d formats \<Rightarrow> bool \<Rightarrow> 'd cjson \<Rightarrow> nat \<Rightarrow> string" where
  "render nf fmt (CJson ty vs vi vd st ch) = (\<lambda>d.
     let t = ty AND 255 in
     if t = cJSON_NULL then ''null'' else if t = cJSON_False then ''false'' else if t = cJSON_True then ''true''
     else if t = cJSON_Number then number_text nf vd
     else if t = cJSON_Raw then (case vs of None \<Rightarrow> [] | Some s \<Rightarrow> s)
     else if t = cJSON_String then quote vs
     else if t = cJSON_Array then array_text fmt (map (\<lambda>r. r (d + 1)) (map (render nf fmt) ch))
     else if t = cJSON_Object
     then object_text fmt d (map (\<lambda>(k, r). member_text fmt (d + 1) k (r (d + 1)))
            (zip (map cj_string ch) (map (render nf fmt) ch)))
     else [])"

text \<open>The trees the printer accepts, and those whose strings are C strings.\<close>

primrec printable :: "'d cjson \<Rightarrow> bool" where
  "printable (CJson ty vs vi vd st ch) \<longleftrightarrow>
     (let t = ty AND 255 in
      t \<in> {cJSON_NULL, cJSON_False, cJSON_True, cJSON_Number, cJSON_String} \<or>
      t = cJSON_Raw \<and> vs \<noteq> None \<or>
      t \<in> {cJSON_Array, cJSON_Object} \<and> list_all printable ch)"

definition nul_free :: "string \<Rightarrow> bool" where
  "nul_free s \<longleftrightarrow> CHR 0x00 \<notin> set s"

primrec c_strings :: "'d cjson \<Rightarrow> bool" where
  "c_strings (CJson ty vs vi vd st ch) \<longleftrightarrow>
     pred_option nul_free vs \<and> pred_option nul_free st \<and> list_all c_strings ch"

text \<open>Printed numbers are short: \<open>"%1.17g"\<close> gives at most 24 characters.\<close>

definition formats_ok :: "'d formats \<Rightarrow> bool" where
  "formats_ok nf \<longleftrightarrow> (\<forall>d. length (number_text nf d) \<le> 25 \<and> nul_free (number_text nf d))"

section \<open>The buffer\<close>

lemma nul_free_simps [simp]:
  "nul_free []" "nul_free (c # s) \<longleftrightarrow> c \<noteq> CHR 0x00 \<and> nul_free s" "nul_free (s @ t) \<longleftrightarrow> nul_free s \<and> nul_free t"
  by (auto simp: nul_free_def)

lemma advance_simps [simp]:
  "p_buffer (advance n p) = p_buffer p" "p_offset (advance n p) = p_offset p + n" "p_length (advance n p) = p_length p"
  "p_depth (advance n p) = p_depth p" "p_noalloc (advance n p) = p_noalloc p" "p_format (advance n p) = p_format p"
  "p_live (advance n p) = p_live p"
  by (simp_all add: advance_def)

text \<open>The block starts with a text.\<close>

definition holds_text :: "string \<Rightarrow> printbuffer \<Rightarrow> bool" where
  "holds_text v p \<longleftrightarrow> (\<exists>blk. p_buffer p = Some blk \<and> p_length p \<le> length blk \<and> take (length v) blk = v)"

lemma holds_prefix: "holds_text (v @ w) p \<Longrightarrow> holds_text v p"
proof -
  have "take (length v) blk = v" if "take (length v + length w) blk = v @ w" for blk
    using arg_cong [OF that, of "take (length v)"] by simp
  then show "holds_text (v @ w) p \<Longrightarrow> holds_text v p" by (auto simp: holds_text_def)
qed

lemma poke_holds:
  assumes "holds_text v p" and "length v + length bs \<le> p_length p"
  obtains blk where "poke (length v, bs) p = Inr (p\<lparr>p_buffer := Some blk\<rparr>)"
    and "holds_text (v @ bs) (p\<lparr>p_buffer := Some blk\<rparr>)"
proof -
  from assms(1) obtain b where b: "p_buffer p = Some b" "p_length p \<le> length b" "take (length v) b = v"
    by (auto simp: holds_text_def)
  let ?blk = "take (length v) b @ bs @ drop (length v + length bs) b"
  have "poke (length v, bs) p = Inr (p\<lparr>p_buffer := Some ?blk\<rparr>)" using b assms(2) by (simp add: poke_def)
  moreover have "holds_text (v @ bs) (p\<lparr>p_buffer := Some ?blk\<rparr>)"
    using b assms(2) by (auto simp: holds_text_def)
  ultimately show ?thesis by (rule that)
qed

primrec consecutive :: "nat \<Rightarrow> (nat \<times> string) list \<Rightarrow> bool" where
  "consecutive k [] \<longleftrightarrow> True"
| "consecutive k (w # ws) \<longleftrightarrow> fst w = k \<and> consecutive (k + length (snd w)) ws"

lemma pokes_hold:
  assumes "holds_text v p" and "consecutive k ws" and "length v = base + k"
    and "length v + length (concat (map snd ws)) \<le> p_length p"
  shows "\<exists>blk. run_steps poke (map (\<lambda>(i, bs). (base + i, bs)) ws) p = Inr (p\<lparr>p_buffer := Some blk\<rparr>) \<and>
    holds_text (v @ concat (map snd ws)) (p\<lparr>p_buffer := Some blk\<rparr>)"
  using assms
proof (induction ws arbitrary: k v p)
  case Nil
  from Nil.prems(1) obtain blk where "p_buffer p = Some blk" by (auto simp: holds_text_def)
  then have "p\<lparr>p_buffer := Some blk\<rparr> = p" by (cases p) simp
  with Nil.prems show ?case by (auto intro: exI [of _ blk])
next
  case (Cons w ws)
  obtain i bs where w: "w = (i, bs)" by fastforce
  with Cons.prems have i: "base + i = length v" "length v + length bs \<le> p_length p" by auto
  obtain blk where blk: "poke (length v, bs) p = Inr (p\<lparr>p_buffer := Some blk\<rparr>)"
    "holds_text (v @ bs) (p\<lparr>p_buffer := Some blk\<rparr>)" using poke_holds [OF Cons.prems(1) i(2)] .
  from Cons.IH [OF blk(2), of "k + length bs"] Cons.prems w blk(1) i(1) show ?case by simp
qed

lemma writes_hold:
  assumes "holds_text u p" and "p_offset p = length u" and "consecutive 0 ws"
    and "length u + length (concat (map snd ws)) \<le> p_length p"
  obtains blk where "\<And>f. writes ws p f = f (p\<lparr>p_buffer := Some blk\<rparr>)"
    and "holds_text (u @ concat (map snd ws)) (p\<lparr>p_buffer := Some blk\<rparr>)"
proof -
  obtain blk where blk: "run_steps poke (map (\<lambda>(i, bs). (p_offset p + i, bs)) ws) p = Inr (p\<lparr>p_buffer := Some blk\<rparr>)"
    "holds_text (u @ concat (map snd ws)) (p\<lparr>p_buffer := Some blk\<rparr>)"
    using pokes_hold [OF assms(1,3) _ assms(4), of "p_offset p"] assms(2) by auto
  from that [OF _ blk(2)] blk(1) show thesis by (simp add: writes_def)
qed

section \<open>States and results\<close>

text \<open>
  \<open>at_text h na fmt d u p\<close>: the text so far is \<open>u\<close> and the offset is behind it; \<open>na\<close> is the length of
  a preallocated buffer. \<open>shown\<close>: it is terminated and the offset may lag behind.
\<close>

definition owned :: "printbuffer \<Rightarrow> bool" where
  "owned p \<longleftrightarrow> p_live p = (if p_buffer p = None then 0 else 1)"

definition buffer_is :: "nat option \<Rightarrow> bool \<Rightarrow> nat \<Rightarrow> printbuffer \<Rightarrow> bool" where
  "buffer_is na fmt d p \<longleftrightarrow>
     owned p \<and> p_noalloc p = (na \<noteq> None) \<and> (na \<noteq> None \<longrightarrow> p_length p = the na) \<and> p_format p = fmt \<and> p_depth p = d"

definition at_text :: "allocator \<Rightarrow> nat option \<Rightarrow> bool \<Rightarrow> nat \<Rightarrow> string \<Rightarrow> printbuffer \<Rightarrow> bool" where
  "at_text h na fmt d u p \<longleftrightarrow>
     buffer_is na fmt d p \<and> holds_text u p \<and> p_offset p = length u \<and>
     (length u < p_length p \<or> u = [] \<and> p_length p = 0 \<and> (has_realloc h \<or> na \<noteq> None))"

definition shown :: "nat option \<Rightarrow> bool \<Rightarrow> nat \<Rightarrow> string \<Rightarrow> printbuffer \<Rightarrow> bool" where
  "shown na fmt d u p \<longleftrightarrow>
     buffer_is na fmt d p \<and> holds_text (u @ [CHR 0x00]) p \<and> p_offset p \<le> length u \<and> length u < p_length p \<and>
     nul_free (drop (p_offset p) u)"

definition yields :: "bool \<Rightarrow> (printbuffer \<Rightarrow> bool) \<Rightarrow> printed \<Rightarrow> bool" where
  "yields good Q r \<longleftrightarrow> (\<exists>ok p. r = Inr (ok, p) \<and> owned p \<and> (good \<longrightarrow> ok) \<and> (ok \<longrightarrow> Q p))"

definition plenty :: "allocator \<Rightarrow> nat option \<Rightarrow> nat \<Rightarrow> bool" where
  "plenty h na k \<longleftrightarrow>
     int k + 1 \<le> INT_MAX \<and> (case na of None \<Rightarrow> \<forall>i. grant h i | Some len \<Rightarrow> k + 1 \<le> len)"

lemma plenty_mono: "plenty h na k \<Longrightarrow> k' \<le> k \<Longrightarrow> plenty h na k'"
  by (auto simp: plenty_def split: option.splits)

lemma yieldsI: "owned p \<Longrightarrow> Q p \<Longrightarrow> yields good Q (Inr (True, p))"
  by (auto simp: yields_def)

lemma yields_mono: "yields good Q r \<Longrightarrow> (good' \<Longrightarrow> good) \<Longrightarrow> (\<And>p. Q p \<Longrightarrow> Q' p) \<Longrightarrow> yields good' Q' r"
  by (auto simp: yields_def)

lemma yields_when_ok:
  "yields good Q r \<Longrightarrow> (\<And>p. Q p \<Longrightarrow> yields good R (f p)) \<Longrightarrow> yields good R (when_ok r f)"
  by (auto simp: yields_def when_ok_def split: if_splits)

lemma when_ok_True [simp]: "when_ok (Inr (True, p)) f = f p"
  by (simp add: when_ok_def)

text \<open>The memory the next piece of the text needs.\<close>

lemma resize_simps:
  "length (resize h i n blk) = n"
  "length v \<le> n \<Longrightarrow> take (length v) blk = v \<Longrightarrow> take (length v) (resize h i n blk) = v"
proof -
  show l: "length (resize h i n blk) = n" for blk by (auto simp: resize_def)
  show "take (length v) (resize h i n blk) = v" if "length v \<le> n" "take (length v) blk = v"
  proof -
    have "length v \<le> length blk" using arg_cong [OF that(2), of length] by simp
    with that show ?thesis by (simp add: resize_def min_def)
  qed
qed
lemma yields_refused: "owned p \<Longrightarrow> \<not> good \<Longrightarrow> yields good Q (Inr (False, p))"
  by (auto simp: yields_def)

lemma at_text_owned: "at_text h na fmt d u p \<Longrightarrow> owned p"
  by (simp add: at_text_def buffer_is_def)

lemma shown_owned: "shown na fmt d u p \<Longrightarrow> owned p"
  by (simp add: shown_def buffer_is_def)

lemma ensure_ok:
  assumes at: "at_text h na fmt d u p"
  shows "yields (plenty h na (length u + n)) (\<lambda>p'. at_text h na fmt d u p' \<and> length u + n < p_length p') (ensure h n p)"
proof -
  note own = at_text_owned [OF at]
  from at obtain blk where blk: "p_buffer p = Some blk" "p_length p \<le> length blk" "take (length u) blk = u"
    by (auto simp: at_text_def holds_text_def)
  have off: "p_offset p = length u" "\<not> (p_length p > 0 \<and> p_offset p \<ge> p_length p)"
    using at by (auto simp: at_text_def)
  have na: "p_noalloc p \<longleftrightarrow> na \<noteq> None" "na \<noteq> None \<Longrightarrow> p_length p = the na"
    using at by (auto simp: at_text_def buffer_is_def)
  let ?needed = "n + p_offset p + 1"
  let ?size = "if int ?needed > INT_MAX div 2 then nat INT_MAX else ?needed * 2"
  let ?p' = "\<lambda>b. p\<lparr>p_buffer := Some b, p_length := ?size, p_requests := p_requests p + 1\<rparr>"
  show ?thesis
  proof (cases "int n > INT_MAX \<or> (\<not> ?needed \<le> p_length p \<and> (p_noalloc p \<or> int ?needed > INT_MAX))")
    case True
    then have "ensure h n p = Inr (False, p)"
      using blk off by (auto simp: ensure_def Let_def INT_MAX_def)
    moreover from True have "\<not> plenty h na (length u + n)"
      using na off by (auto simp: plenty_def split: option.splits)
    ultimately show ?thesis using own by (simp add: yields_refused)
  next
    case small: False
    show ?thesis
    proof (cases "?needed \<le> p_length p")
      case True
      then have "ensure h n p = Inr (True, p)" using small blk off by (auto simp: ensure_def Let_def)
      with True own at off show ?thesis by (auto intro!: yieldsI)
    next
      case False
      with small have "\<not> p_noalloc p" "int ?needed \<le> INT_MAX" by auto
      then have size: "?needed \<le> ?size" "length u < ?size" "length u \<le> ?size"
        using off by (auto simp: nat_le_eq_zle le_nat_iff)
      have na: "na = None" "p_live p = 1" using \<open>\<not> p_noalloc p\<close> na own blk by (auto simp: owned_def)
      have fits: "p_offset p + 1 \<le> length blk \<or> has_realloc h"
        using at blk na by (auto simp: at_text_def)
      have grown: "at_text h na fmt d u (?p' (resize h i ?size b)) \<and> length u + n < ?size"
        if "take (length u) b = u" for i b
        using at size off na resize_simps(1) [of h i ?size b] resize_simps(2) [of u ?size b h i] that
        by (auto simp: at_text_def buffer_is_def owned_def holds_text_def)
      have pre: "take (length u) (take (p_offset p + 1) blk) = u" using blk(3) off(1) by simp
      have conds: "\<not> int n > INT_MAX" "\<not> ?needed \<le> p_length p" "\<not> p_noalloc p"
        "\<not> (int ?needed > INT_MAX div 2 \<and> \<not> int ?needed \<le> INT_MAX)" using small False by auto
      note run = ensure_def blk(1) option.case Let_def off(2) conds if_False
      consider (refuse) "\<not> grant h (p_requests p)" | (realloc) "grant h (p_requests p)" "has_realloc h"
        | (copy) "grant h (p_requests p)" "\<not> has_realloc h" by blast
      then show ?thesis
      proof cases
        case refuse
        then have "ensure h n p = Inr (False, p\<lparr>p_buffer := None, p_length := 0,
            p_requests := p_requests p + 1, p_live := p_live p - 1\<rparr>)"
          by (simp only: run not_False_eq_True if_True)
        with refuse na \<open>\<not> p_noalloc p\<close> show ?thesis
          by (auto simp: plenty_def owned_def intro!: yields_refused)
      next
        case realloc
        then have "ensure h n p = Inr (True, ?p' (resize h (p_requests p) ?size blk))"
          by (simp only: run not_True_eq_False if_True)
        moreover note at_text_owned grown [OF blk(3), of "p_requests p"]
        ultimately show ?thesis by (auto intro!: yieldsI simp del: One_nat_def)
      next
        case copy
        from copy(2) fits have len: "p_offset p + 1 \<le> length blk" by simp
        have "ensure h n p = Inr (True, ?p' (resize h (p_requests p) ?size (take (p_offset p + 1) blk)))"
          using copy len by (simp only: run not_True_eq_False if_True if_False)
        moreover note at_text_owned grown [OF pre, of "p_requests p"]
        ultimately show ?thesis by (auto intro!: yieldsI simp del: One_nat_def)
      qed
    qed
  qed
qed

lemma writes_buffer:
  assumes "at_text h na fmt d u p" and "consecutive 0 ws"
    and "length u + length (concat (map snd ws)) \<le> p_length p"
  obtains p' where "\<And>f. writes ws p f = f p'" and "holds_text (u @ concat (map snd ws)) p'"
    and "buffer_is na fmt d p'" and "p_offset p' = length u" and "p_length p' = p_length p"
proof -
  have at: "holds_text u p" "p_offset p = length u" "buffer_is na fmt d p" using assms(1) by (simp_all add: at_text_def)
  obtain blk where w: "\<And>f. writes ws p f = f (p\<lparr>p_buffer := Some blk\<rparr>)"
    "holds_text (u @ concat (map snd ws)) (p\<lparr>p_buffer := Some blk\<rparr>)"
    by (rule writes_hold [OF at(1,2) assms(2,3)]) blast
  have "buffer_is na fmt d (p\<lparr>p_buffer := Some blk\<rparr>)"
    using at(1,3) by (auto simp: buffer_is_def owned_def holds_text_def)
  from that [OF w this] at(2) show thesis by simp
qed

lemma writes_shown:
  assumes "at_text h na fmt d u p" and "consecutive 0 ws" and "concat (map snd ws) = s @ [CHR 0x00]"
    and "length u + length s < p_length p" and "nul_free s"
  shows "yields good (shown na fmt d (u @ s)) (writes ws p (\<lambda>p. Inr (True, p)))"
proof -
  obtain p' where p': "\<And>f. writes ws p f = (f p' :: printed)" "holds_text ((u @ s) @ [CHR 0x00]) p'"
    "buffer_is na fmt d p'" "p_offset p' = length u" "p_length p' = p_length p"
    using writes_buffer [OF assms(1,2)] assms(3,4) by auto
  then have "shown na fmt d (u @ s) p'" using assms(4,5) by (simp add: shown_def)
  with p'(1) shown_owned show ?thesis by (auto intro!: yieldsI)
qed

lemma writes_advance:
  assumes "at_text h na fmt d u p" and "consecutive 0 ws" and "concat (map snd ws) = s @ t"
    and "length u + length s + length t \<le> p_length p" and "length u + length s < p_length p"
  shows "yields good (at_text h na fmt d (u @ s)) (writes ws p (\<lambda>p. Inr (True, advance (length s) p)))"
proof -
  obtain p' where p': "\<And>f. writes ws p f = (f p' :: printed)" "holds_text ((u @ s) @ t) p'"
    "buffer_is na fmt d p'" "p_offset p' = length u" "p_length p' = p_length p"
    using writes_buffer [OF assms(1,2)] assms(3,4) by auto
  from holds_prefix [OF p'(2)] have "holds_text (u @ s) (advance (length s) p')" by (simp add: holds_text_def)
  with p' assms(5) have "at_text h na fmt d (u @ s) (advance (length s) p')"
    by (simp add: at_text_def buffer_is_def owned_def)
  with p'(1) at_text_owned show ?thesis by (auto intro!: yieldsI)
qed

text \<open>A step behind a successful \<open>ensure\<close>.\<close>

lemma ensured:
  assumes "at_text h na fmt d u p" and "good \<Longrightarrow> plenty h na (length u + n)"
    and "\<And>p'. at_text h na fmt d u p' \<Longrightarrow> length u + n < p_length p' \<Longrightarrow> yields good Q (f p')"
  shows "yields good Q (when_ok (ensure h n p) f)"
  by (rule yields_when_ok [OF yields_mono [OF ensure_ok [OF assms(1), of n] assms(2)]]) (use assms(3) in auto)

lemma put_literal_ok:
  assumes "at_text h na fmt d u p" and "nul_free s"
  shows "yields (plenty h na (length u + length s + 1)) (shown na fmt d (u @ s)) (put_literal h s p)"
  unfolding put_literal_def
  by (rule ensured [OF assms(1)]) (auto intro!: writes_shown [where s = s] simp: assms(2) add.assoc)

lemma put_separator_ok:
  assumes "at_text h na fmt d u p"
  shows "yields (plenty h na (length u + length s + 1)) (at_text h na fmt d (u @ s)) (put_separator h s p)"
  unfolding put_separator_def
  by (rule ensured [OF assms(1)]) (auto intro!: writes_advance [where t = "[CHR 0x00]"] simp: add.assoc)

lemma put_bare_ok:
  assumes "at_text h na fmt d u p" and "length s \<le> n"
  shows "yields (plenty h na (length u + n)) (at_text h na fmt d (u @ s)) (put_bare h n s p)"
  unfolding put_bare_def
  by (rule ensured [OF assms(1)]) (use assms(2) in \<open>auto intro!: writes_advance [where t = "[]"]\<close>)

lemma print_number_ok:
  assumes "at_text h na fmt d u p" and "formats_ok nf"
  shows "yields (plenty h na (length u + length (number_text nf x) + 1)) (shown na fmt d (u @ number_text nf x))
    (print_number h nf x p)"
proof -
  let ?s = "number_text nf x"
  have ok: "length ?s \<le> 25" "nul_free ?s" using assms(2) by (auto simp: formats_ok_def)
  have "yields good (shown na fmt d (u @ ?s)) (writes [(0, ?s), (length ?s, [CHR 0x00])] p'
        (\<lambda>p. Inr (True, advance (length ?s) p)))"
    if at: "at_text h na fmt d u p'" and room: "length u + (length ?s + 1) < p_length p'" for good p'
  proof -
    obtain q where q: "\<And>f. writes [(0, ?s), (length ?s, [CHR 0x00])] p' f = (f q :: printed)"
      "holds_text ((u @ ?s) @ [CHR 0x00]) q" "buffer_is na fmt d q" "p_offset q = length u" "p_length q = p_length p'"
      using writes_buffer [OF at, of "[(0, ?s), (length ?s, [CHR 0x00])]"] room by auto
    then have "shown na fmt d (u @ ?s) (advance (length ?s) q)"
      using room by (simp add: shown_def buffer_is_def owned_def holds_text_def)
    with q(1) shown_owned show ?thesis by (auto intro!: yieldsI)
  qed
  then show ?thesis unfolding print_number_def Let_def
    using ok by (auto intro!: ensured [OF assms(1)] simp: add.assoc)
qed

lemma update_offset_ok:
  assumes "shown na fmt d u p"
  obtains p' where "update_offset p = Inr p'" and "at_text h na fmt d u p'"
proof -
  from assms obtain blk where blk: "p_buffer p = Some blk" "p_length p \<le> length blk"
    "take (length u + 1) blk = u @ [CHR 0x00]" and off: "p_offset p \<le> length u" "length u < p_length p"
    and free: "nul_free (drop (p_offset p) u)" and buf: "buffer_is na fmt d p"
    by (auto simp: shown_def holds_text_def)
  let ?v = "drop (p_offset p) u"
  have "blk = (u @ [CHR 0x00]) @ drop (length u + 1) blk" using blk(3) append_take_drop_id by metis
  then have "drop (p_offset p) blk = ?v @ CHR 0x00 # drop (length u + 1) blk"
    using off(1) by (metis append.assoc append_Cons append_Nil drop_append diff_is_0_eq drop0)
  moreover have "before_nul (?v @ CHR 0x00 # w) = ?v" for w
    using free unfolding before_nul_def by (subst takeWhile_append2) (auto simp: nul_free_def)
  ultimately have "update_offset p = Inr (advance (length u - p_offset p) p)"
    using blk(1) by (simp add: update_offset_def Let_def)
  moreover have "take (length u) blk = u" using arg_cong [OF blk(3), of "take (length u)"] by simp
  then have "at_text h na fmt d u (advance (length u - p_offset p) p)"
    using blk off buf by (simp add: at_text_def holds_text_def buffer_is_def owned_def)
  ultimately show thesis by (rule that)
qed

lemma yields_update:
  assumes "yields good (shown na fmt d u) r" and "\<And>p. at_text h na fmt d u p \<Longrightarrow> yields good R (f p)"
  shows "yields good R (then_update r f)"
  unfolding then_update_def
proof (rule yields_when_ok [OF assms(1)])
  fix p assume "shown na fmt d u p"
  then obtain p' where "update_offset p = Inr p'" and "at_text h na fmt d u p'" by (rule update_offset_ok)
  with assms(2) show "yields good R (res_bind (update_offset p) f)" by simp
qed

section \<open>Strings\<close>

lemma escape_cases:
  "escape c = (if of_char c > (31 :: nat) \<and> c \<noteq> CHR 0x22 \<and> c \<noteq> CHR 0x5C then [c]
     else case escape_letter c of Some x \<Rightarrow> [CHR 0x5C, x] | None \<Rightarrow> CHR 0x5C # unicode_text c)"
  by (simp add: escape_def split: option.splits)

lemma length_unicode_text [simp]: "length (unicode_text c) = 5"
  by (simp add: unicode_text_def Let_def)

lemma letter_is_special: "escape_letter c = Some x \<Longrightarrow> \<not> (of_char c > (31 :: nat) \<and> c \<noteq> CHR 0x22 \<and> c \<noteq> CHR 0x5C)"
  by (auto simp: escape_letter_def split: if_splits)

lemma length_escape: "length (escape c) = 1 + escape_extra c"
  using letter_is_special [of c]
  by (auto simp: escape_cases escape_extra_def escape_letter_def split: option.splits if_splits)

lemma length_escapes: "length (concat (map escape s)) = length s + sum_list (map escape_extra s)"
  by (induction s) (auto simp: length_escape)

lemma plain_escapes: "sum_list (map escape_extra s) = 0 \<Longrightarrow> concat (map escape s) = s"
proof (induction s)
  case (Cons c s)
  then have "length (escape c) = 1" by (simp add: length_escape)
  then have "escape c = [c]" by (auto simp: escape_cases split: if_splits option.splits)
  with Cons show ?case by simp
qed simp

lemma hex_letter_nul: "n < 16 \<Longrightarrow> hex_letter n \<noteq> CHR 0x00"
proof
  assume "n < 16" and "hex_letter n = CHR 0x00"
  then have "of_char (hex_letter n) = (0 :: nat)" and "n < 16" by simp_all
  then show False by (auto simp: hex_letter_def split: if_splits)
qed

lemma nul_free_unicode: "nul_free (unicode_text c)"
proof -
  have "(of_char c :: nat) div 16 < 16" by (rule less_mult_imp_div_less) simp
  then show ?thesis using hex_letter_nul [of "of_char c div 16"] hex_letter_nul [of "of_char c mod 16"]
    by (auto simp: unicode_text_def Let_def)
qed

lemma nul_free_escape: "c \<noteq> CHR 0x00 \<Longrightarrow> nul_free (escape c)"
  by (auto simp: escape_def nul_free_unicode escape_letter_def)

lemma nul_free_quote: "pred_option nul_free s \<Longrightarrow> nul_free (quote s)"
proof -
  have "nul_free (concat (map escape t))" if "nul_free t" for t
    using that by (induction t) (auto simp: nul_free_escape)
  then show "pred_option nul_free s \<Longrightarrow> nul_free (quote s)" by (auto simp: quote_def split: option.splits)
qed

lemma escape_loop_ok:
  assumes "holds_text v p" and "length v + length (concat (map escape s)) < p_length p"
  shows "\<exists>blk. escape_loop s (length v) p = Inr (p\<lparr>p_buffer := Some blk\<rparr>) \<and>
    holds_text (v @ concat (map escape s)) (p\<lparr>p_buffer := Some blk\<rparr>)"
  using assms
proof (induction s arbitrary: v p)
  case Nil
  from Nil.prems(1) obtain blk where "p_buffer p = Some blk" by (auto simp: holds_text_def)
  then have "p\<lparr>p_buffer := Some blk\<rparr> = p" by (cases p) simp
  with Nil.prems show ?case by (auto intro: exI [of _ blk])
next
  case (Cons c s)
  let ?plain = "of_char c > (31 :: nat) \<and> c \<noteq> CHR 0x22 \<and> c \<noteq> CHR 0x5C"
  have step: "\<exists>blk. escape_loop s (length v + length (escape c)) (p\<lparr>p_buffer := Some b\<rparr>)
        = Inr (p\<lparr>p_buffer := Some blk\<rparr>) \<and>
      holds_text (v @ concat (map escape (c # s))) (p\<lparr>p_buffer := Some blk\<rparr>)"
    if "holds_text (v @ escape c) (p\<lparr>p_buffer := Some b\<rparr>)" for b
    using Cons.IH [OF that] Cons.prems(2) by (simp add: add.assoc)
  show ?case
  proof (cases ?plain)
    case True
    then have e: "escape c = [c]" by (simp add: escape_def)
    obtain b where "poke (length v, [c]) p = Inr (p\<lparr>p_buffer := Some b\<rparr>)" "holds_text (v @ [c]) (p\<lparr>p_buffer := Some b\<rparr>)"
      by (rule poke_holds [OF Cons.prems(1), of "[c]"]) (use Cons.prems(2) e in auto)
    with step [of b] e True show ?thesis by simp
  next
    case False
    obtain b where b: "poke (length v, [CHR 0x5C]) p = Inr (p\<lparr>p_buffer := Some b\<rparr>)"
      "holds_text (v @ [CHR 0x5C]) (p\<lparr>p_buffer := Some b\<rparr>)"
      by (rule poke_holds [OF Cons.prems(1), of "[CHR 0x5C]"]) (use Cons.prems(2) in auto)
    show ?thesis
    proof (cases "escape_letter c")
      case (Some x)
      with False have e: "escape c = [CHR 0x5C, x]" by (simp add: escape_def)
      obtain b' where "poke (length v + 1, [x]) (p\<lparr>p_buffer := Some b\<rparr>) = Inr (p\<lparr>p_buffer := Some b'\<rparr>)"
        "holds_text (v @ escape c) (p\<lparr>p_buffer := Some b'\<rparr>)"
        by (rule poke_holds [OF b(2), of "[x]"]) (use Cons.prems(2) e in auto)
      with step [of b'] b(1) False Some e show ?thesis by auto
    next
      case None
      with False have e: "escape c = CHR 0x5C # unicode_text c" by (simp add: escape_def)
      obtain b' where b': "poke (length v + 1, unicode_text c @ [CHR 0x00]) (p\<lparr>p_buffer := Some b\<rparr>)
          = Inr (p\<lparr>p_buffer := Some b'\<rparr>)"
        "holds_text ((v @ escape c) @ [CHR 0x00]) (p\<lparr>p_buffer := Some b'\<rparr>)"
        by (rule poke_holds [OF b(2), of "unicode_text c @ [CHR 0x00]"]) (use Cons.prems(2) e in auto)
      with step [OF holds_prefix [OF b'(2)]] b(1) False None e show ?thesis by auto
    qed
  qed
qed

lemma length_quote: "length (quote (Some s)) = length s + sum_list (map escape_extra s) + 2"
  using length_escapes [of s] by (simp add: quote_def)

lemma print_string_ok:
  assumes "at_text h na fmt d u p" and "pred_option nul_free s"
  shows "yields (plenty h na (length u + length (quote s) + 1)) (shown na fmt d (u @ quote s)) (print_string_ptr h s p)"
proof (cases s)
  case None
  then show ?thesis unfolding print_string_ptr_def
    by (simp, intro ensured [OF assms(1)])
       (auto intro!: writes_shown simp: quote_def plenty_def split: option.splits)
next
  case (Some t)
  let ?n = "length t + sum_list (map escape_extra t)"
  note len = length_quote [of t] and free = nul_free_quote [OF assms(2)]
  have "yields good (shown na fmt d (u @ quote s)) (if sum_list (map escape_extra t) = 0
            then writes [(0, [CHR 0x22]), (1, t), (?n + 1, [CHR 0x22]), (?n + 2, [CHR 0x00])] q
                   (\<lambda>p. Inr (True, p))
            else res_bind (poke (p_offset q, [CHR 0x22]) q) (\<lambda>p.
                 res_bind (escape_loop t (p_offset p + 1) p) (\<lambda>p.
                 writes [(?n + 1, [CHR 0x22]), (?n + 2, [CHR 0x00])] p (\<lambda>p. Inr (True, p)))))"
    (is "yields good _ ?r")
    if at: "at_text h na fmt d u q" and room: "length u + (?n + 3) < p_length q" for good q
  proof (cases "sum_list (map escape_extra t) = 0")
    case True
    with plain_escapes [OF True] Some have q: "quote s = [CHR 0x22] @ t @ [CHR 0x22]" by (simp add: quote_def)
    with True room free show ?thesis by (auto intro!: writes_shown [OF at])
  next
    case False
    have h0: "holds_text u q" "p_offset q = length u" "buffer_is na fmt d q" using at by (auto simp: at_text_def)
    obtain b where b: "poke (length u, [CHR 0x22]) q = Inr (q\<lparr>p_buffer := Some b\<rparr>)"
      "holds_text (u @ [CHR 0x22]) (q\<lparr>p_buffer := Some b\<rparr>)"
      by (rule poke_holds [OF h0(1), of "[CHR 0x22]"]) (use room in auto)
    obtain b' where b': "escape_loop t (length u + 1) (q\<lparr>p_buffer := Some b\<rparr>) = Inr (q\<lparr>p_buffer := Some b'\<rparr>)"
      "holds_text ((u @ [CHR 0x22]) @ concat (map escape t)) (q\<lparr>p_buffer := Some b'\<rparr>)"
      using escape_loop_ok [OF b(2), of t] room length_escapes [of t] by auto
    obtain b2 where b2: "run_steps poke (map (\<lambda>(i, bs). (length u + i, bs)) [(?n + 1, [CHR 0x22]), (?n + 2, [CHR 0x00])])
        (q\<lparr>p_buffer := Some b'\<rparr>) = Inr (q\<lparr>p_buffer := Some b2\<rparr>)"
      "holds_text ((u @ quote s) @ [CHR 0x00]) (q\<lparr>p_buffer := Some b2\<rparr>)"
      using pokes_hold [OF b'(2), of "?n + 1" "[(?n + 1, [CHR 0x22]), (?n + 2, [CHR 0x00])]" "length u"]
        room length_escapes [of t] Some by (auto simp: quote_def)
    have "?r = Inr (True, q\<lparr>p_buffer := Some b2\<rparr>)"
      using False b b' b2(1) h0 by (simp add: writes_def del: sum_list_eq_0_iff)
    moreover have "shown na fmt d (u @ quote s) (q\<lparr>p_buffer := Some b2\<rparr>)"
      using h0 b2(2) room len Some free by (auto simp: shown_def buffer_is_def owned_def holds_text_def)
    ultimately show ?thesis using shown_owned by (auto intro!: yieldsI)
  qed
  then show ?thesis unfolding print_string_ptr_def Let_def
    using Some len by (auto intro!: ensured [OF assms(1)] elim!: plenty_mono)
qed

section \<open>Arrays and objects\<close>

definition prints_as ::
  "allocator \<Rightarrow> nat option \<Rightarrow> bool \<Rightarrow> nat \<Rightarrow> printer \<Rightarrow> string \<Rightarrow> bool \<Rightarrow> bool" where
  "prints_as h na fmt d pr t g \<longleftrightarrow>
     (\<forall>u p. at_text h na fmt d u p \<longrightarrow>
        yields (plenty h na (length u + length t + 2) \<and> g) (shown na fmt d (u @ t)) (pr p))"

lemma printsD:
  "prints_as h na fmt d pr t g \<Longrightarrow> at_text h na fmt d u p \<Longrightarrow> (good \<Longrightarrow> plenty h na (length u + length t + 2) \<and> g) \<Longrightarrow>
     yields good (shown na fmt d (u @ t)) (pr p)"
  by (auto simp: prints_as_def intro: yields_mono)

lemma at_text_fields: "at_text h na fmt d u p \<Longrightarrow> p_format p = fmt \<and> p_depth p = d"
  by (simp add: at_text_def buffer_is_def)

lemma join_Cons: "join sep (map t (c # cs)) = t c @ (if cs = [] then [] else sep @ join sep (map t cs))"
  by simp

lemma separator_good:
  assumes "at_text h na fmt d u p" and "good \<Longrightarrow> plenty h na (length u + length s + 1)"
  shows "yields good (at_text h na fmt d (u @ s)) (put_separator h s p)"
  using yields_mono [OF put_separator_ok [OF assms(1)] assms(2)] by simp

lemma bare_good:
  assumes "at_text h na fmt d u p" and "length s \<le> n" and "good \<Longrightarrow> plenty h na (length u + n)"
  shows "yields good (at_text h na fmt d (u @ s)) (put_bare h n s p)"
  using yields_mono [OF put_bare_ok [OF assms(1,2)] assms(3)] by simp

lemma string_good:
  assumes "at_text h na fmt d u p" and "pred_option nul_free s"
    and "good \<Longrightarrow> plenty h na (length u + length (quote s) + 1)"
  shows "yields good (shown na fmt d (u @ quote s)) (print_string_ptr h s p)"
  using yields_mono [OF print_string_ok [OF assms(1,2)] assms(3)] by simp

lemma print_elements_ok:
  assumes "\<forall>c \<in> set cs. prints_as h na fmt d (pr c) (t c) (g c)" and "at_text h na fmt d u p"
    and "good \<Longrightarrow> plenty h na (length u + length (join (if fmt then '', '' else '','') (map t cs)) + 2) \<and> (\<forall>c \<in> set cs. g c)"
  shows "yields good (at_text h na fmt d (u @ join (if fmt then '', '' else '','') (map t cs))) (print_elements h (map pr cs) p)"
  using assms
proof (induction cs arbitrary: u p)
  case Nil
  then show ?case using at_text_owned by (auto intro!: yieldsI)
next
  case (Cons c cs)
  let ?sep = "if fmt then '', '' else '',''"
  have "yields good (shown na fmt d (u @ t c)) (pr c p)"
    by (rule printsD [OF _ Cons.prems(2)]) (use Cons.prems(1,3) in \<open>auto elim!: plenty_mono\<close>)
  then show ?case unfolding print_elements.simps list.map(2)
  proof (rule yields_update)
    fix q assume q: "at_text h na fmt d (u @ t c) q"
    note f = at_text_fields [OF q]
    show "yields good (at_text h na fmt d (u @ join ?sep (t c # map t cs)))
       (if map pr cs \<noteq> []
        then when_ok (put_separator h (if p_format q then '', '' else '','') q) (print_elements h (map pr cs))
        else print_elements h (map pr cs) q)"
    proof (cases "cs = []")
      case True
      then show ?thesis using q at_text_owned by (auto intro!: yieldsI)
    next
      case False
      have "yields good (at_text h na fmt d ((u @ t c) @ ?sep)) (put_separator h ?sep q)"
        by (rule separator_good [OF q]) (use False Cons.prems(3) in \<open>auto elim!: plenty_mono\<close>)
      then have "yields good (at_text h na fmt d (((u @ t c) @ ?sep) @ join ?sep (map t cs)))
          (when_ok (put_separator h ?sep q) (print_elements h (map pr cs)))"
      proof (rule yields_when_ok)
        fix q' assume q': "at_text h na fmt d ((u @ t c) @ ?sep) q'"
        show "yields good (at_text h na fmt d (((u @ t c) @ ?sep) @ join ?sep (map t cs))) (print_elements h (map pr cs) q')"
          by (rule Cons.IH [OF _ q']) (use False Cons.prems(1,3) in \<open>auto elim!: plenty_mono\<close>)
      qed
      with False f show ?thesis by simp
    qed
  qed
qed

lemma deeper_shallower:
  "at_text h na fmt d u p \<Longrightarrow> at_text h na fmt (d + 1) u (deeper p)"
  "shown na fmt (d + 1) u p \<Longrightarrow> shown na fmt d u (shallower p)"
  by (auto simp: at_text_def shown_def buffer_is_def owned_def holds_text_def deeper_def shallower_def)

lemma writes_shallower:
  assumes "yields good (shown na fmt (d + 1) u) (writes ws p (\<lambda>p. Inr (True, p)))"
  shows "yields good (shown na fmt d u) (writes ws p (\<lambda>p. Inr (True, shallower p)))"
proof -
  from assms obtain q where q: "run_steps poke (map (\<lambda>(i, bs). (p_offset p + i, bs)) ws) p = Inr q"
    "shown na fmt (d + 1) u q" by (auto simp: yields_def writes_def)
  from deeper_shallower(2) [OF q(2)] shown_owned q(1) show ?thesis by (auto simp: writes_def intro!: yieldsI)
qed

lemma print_array_ok:
  assumes "\<forall>c \<in> set cs. prints_as h na fmt (d + 1) (pr c) (t c) (g c)"
  shows "prints_as h na fmt d (print_array h (map pr cs)) (array_text fmt (map t cs)) (\<forall>c \<in> set cs. g c)"
  unfolding prints_as_def
proof (intro allI impI)
  fix u p assume at: "at_text h na fmt d u p"
  let ?ts = "join (if fmt then '', '' else '','') (map t cs)"
  let ?good = "plenty h na (length u + length (array_text fmt (map t cs)) + 2) \<and> (\<forall>c \<in> set cs. g c)"
  have room: "plenty h na k" if "?good" "k \<le> length u + length ?ts + 4" for k
    using that by (auto simp: array_text_def elim!: plenty_mono)
  show "yields ?good (shown na fmt d (u @ array_text fmt (map t cs))) (print_array h (map pr cs) p)"
    unfolding print_array_def
  proof (rule yields_when_ok [OF bare_good [OF at]])
    fix q assume "at_text h na fmt d (u @ ''['') q"
    then have q: "at_text h na fmt (d + 1) (u @ ''['') (deeper q)" by (rule deeper_shallower)
    show "yields ?good (shown na fmt d (u @ array_text fmt (map t cs)))
       (when_ok (print_elements h (map pr cs) (deeper q)) (\<lambda>p.
        when_ok (ensure h 2 p) (\<lambda>p. writes [(0, '']''), (1, [CHR 0x00])] p (\<lambda>p. Inr (True, shallower p)))))"
    proof (rule yields_when_ok [OF print_elements_ok [OF assms q]])
      fix q' assume q': "at_text h na fmt (d + 1) ((u @ ''['') @ ?ts) q'"
      show "yields ?good (shown na fmt d (u @ array_text fmt (map t cs)))
         (when_ok (ensure h 2 q') (\<lambda>p. writes [(0, '']''), (1, [CHR 0x00])] p (\<lambda>p. Inr (True, shallower p))))"
      proof (rule ensured [OF q'])
        fix r assume r: "at_text h na fmt (d + 1) ((u @ ''['') @ ?ts) r" "length ((u @ ''['') @ ?ts) + 2 < p_length r"
        show "yields ?good (shown na fmt d (u @ array_text fmt (map t cs)))
           (writes [(0, '']''), (1, [CHR 0x00])] r (\<lambda>p. Inr (True, shallower p)))"
          using writes_shallower [OF writes_shown [OF r(1), of "[(0, '']''), (1, [CHR 0x00])]" "'']''"]] r(2)
          by (simp add: array_text_def)
      qed (rule room; simp)
    qed (use room in \<open>auto simp: array_text_def elim!: plenty_mono\<close>)
  qed (use room in auto)
qed

primrec members_text :: "string \<Rightarrow> string list \<Rightarrow> string" where
  "members_text nl [] = []"
| "members_text nl (m # ms) = m @ ((if ms \<noteq> [] then '','' else []) @ nl) @ members_text nl ms"

lemma members_text_join: "members_text nl ms = join ('','' @ nl) ms @ (if ms = [] then [] else nl)"
  by (induction ms) auto

lemma print_members_ok:
  assumes "\<forall>c \<in> set cs. prints_as h na fmt d (pr c) (t c) (g c) \<and> pred_option nul_free (k c)" and "at_text h na fmt d u p"
    and "good \<Longrightarrow> plenty h na (length u + length (members_text (newline fmt) (map (\<lambda>c. member_text fmt d (k c) (t c)) cs)) + 2)
      \<and> (\<forall>c \<in> set cs. g c)"
  shows "yields good (at_text h na fmt d (u @ members_text (newline fmt) (map (\<lambda>c. member_text fmt d (k c) (t c)) cs)))
    (print_members h (map (\<lambda>c. (k c, pr c)) cs) p)"
  using assms
proof (induction cs arbitrary: u p)
  case Nil
  then show ?case using at_text_owned by (auto intro!: yieldsI)
next
  case (Cons c cs)
  let ?rest = "members_text (newline fmt) (map (\<lambda>c. member_text fmt d (k c) (t c)) cs)"
  let ?sep = "(if cs \<noteq> [] then '','' else []) @ newline fmt"
  let ?colon = "'':'' @ tabs fmt 1"
  have total: "length (members_text (newline fmt) (map (\<lambda>c. member_text fmt d (k c) (t c)) (c # cs)))
      = length (tabs fmt d) + length (quote (k c)) + length ?colon + length (t c) + length ?sep + length ?rest"
    by (simp add: member_text_def)
  have room: "plenty h na n"
    if "good" "n \<le> length u + (length (tabs fmt d) + length (quote (k c)) + length ?colon + length (t c) + length ?sep + length ?rest) + 2"
    for n
    using Cons.prems(3) [OF that(1)] that(2) unfolding total by (auto elim!: plenty_mono)
  have key: "pred_option nul_free (k c)" using Cons.prems(1) by simp
  let ?u1 = "u @ tabs fmt d" let ?u2 = "?u1 @ quote (k c)" let ?u3 = "?u2 @ ?colon" let ?u4 = "?u3 @ t c"
  let ?goal = "at_text h na fmt d (u @ members_text (newline fmt) (map (\<lambda>c. member_text fmt d (k c) (t c)) (c # cs)))"
  let ?ms = "map (\<lambda>c. (k c, pr c)) cs"
  have whole: "u @ members_text (newline fmt) (map (\<lambda>c. member_text fmt d (k c) (t c)) (c # cs)) = (?u4 @ ?sep) @ ?rest"
    by (simp add: member_text_def)
  let ?sepm = "\<lambda>p. when_ok (put_separator h ((if ?ms \<noteq> [] then '','' else []) @ (if p_format p then [CHR 0x0A] else [])) p)
      (print_members h ?ms)"
  have tail: "yields good ?goal (?sepm q)" if q: "at_text h na fmt d ?u4 q" for q
  proof -
    have "yields good (at_text h na fmt d (?u4 @ ?sep)) (put_separator h ?sep q)"
      by (rule separator_good [OF q]) (use room in auto)
    then have "yields good ?goal (when_ok (put_separator h ?sep q) (print_members h ?ms))"
      unfolding whole
    proof (rule yields_when_ok)
      fix q' assume q': "at_text h na fmt d (?u4 @ ?sep) q'"
      show "yields good (at_text h na fmt d ((?u4 @ ?sep) @ ?rest)) (print_members h ?ms q')"
        by (rule Cons.IH [OF _ q']) (use Cons.prems(1,3) room in auto)
    qed
    then show ?thesis using at_text_fields [OF q] by (simp add: newline_def)
  qed
  let ?vals = "\<lambda>p. when_ok (let s = '':'' @ (if p_format p then [CHR 0x09] else []) in put_bare h (length s) s p)
      (\<lambda>p. then_update (pr c p) ?sepm)"
  have mid: "yields good ?goal (?vals q)" if q: "at_text h na fmt d ?u2 q" for q
  proof -
    have "yields good (at_text h na fmt d ?u3) (put_bare h (length ?colon) ?colon q)"
      by (rule bare_good [OF q]) (use room in auto)
    then have "yields good ?goal (when_ok (put_bare h (length ?colon) ?colon q) (\<lambda>p. then_update (pr c p) ?sepm))"
    proof (rule yields_when_ok)
      fix q' assume q': "at_text h na fmt d ?u3 q'"
      have "yields good (shown na fmt d ?u4) (pr c q')"
        by (rule printsD [where g = "g c", OF _ q']) (use Cons.prems(1,3) room in auto)
      then show "yields good ?goal (then_update (pr c q') ?sepm)" by (rule yields_update) (rule tail)
    qed
    moreover have "'':'' @ (if p_format q then [CHR 0x09] else []) = ?colon"
      using at_text_fields [OF q] by (simp add: tabs_def)
    ultimately show ?thesis by (simp only: Let_def)
  qed
  have "yields good (at_text h na fmt d ?u1)
     (if p_format p then put_bare h (p_depth p) (replicate (p_depth p) (CHR 0x09)) p else Inr (True, p))"
  proof (cases fmt)
    case True
    have "yields good (at_text h na fmt d ?u1) (put_bare h d (tabs fmt d) p)"
      by (rule bare_good [OF Cons.prems(2)]) (use True room in \<open>auto simp: tabs_def\<close>)
    with True show ?thesis using at_text_fields [OF Cons.prems(2)] by (simp add: tabs_def)
  qed (use at_text_fields [OF Cons.prems(2)] Cons.prems(2) at_text_owned in \<open>auto intro!: yieldsI simp: tabs_def\<close>)
  then show ?case unfolding list.map(2) print_members.simps fst_conv snd_conv
  proof (rule yields_when_ok)
    fix q assume q: "at_text h na fmt d ?u1 q"
    have "yields good (shown na fmt d ?u2) (print_string_ptr h (k c) q)"
      by (rule string_good [OF q key]) (use room in auto)
    from yields_update [OF this mid] show "yields good (at_text h na fmt d (u @ members_text (newline fmt)
          (member_text fmt d (k c) (t c) # map (\<lambda>c. member_text fmt d (k c) (t c)) cs)))
      (then_update (print_string_ptr h (k c) q) ?vals)" by simp
  qed
qed

lemma print_object_ok:
  assumes "\<forall>c \<in> set cs. prints_as h na fmt (d + 1) (pr c) (t c) (g c) \<and> pred_option nul_free (k c)"
  shows "prints_as h na fmt d (print_object h (map (\<lambda>c. (k c, pr c)) cs))
    (object_text fmt d (map (\<lambda>c. member_text fmt (d + 1) (k c) (t c)) cs)) (\<forall>c \<in> set cs. g c)"
  unfolding prints_as_def
proof (intro allI impI)
  fix u p assume at: "at_text h na fmt d u p"
  let ?ms = "map (\<lambda>c. member_text fmt (d + 1) (k c) (t c)) cs" and ?ps = "map (\<lambda>c. (k c, pr c)) cs"
  let ?open = "''{'' @ newline fmt" and ?inner = "members_text (newline fmt) ?ms" and ?close = "tabs fmt d @ ''}''"
  let ?good = "plenty h na (length u + length (object_text fmt d ?ms) + 2) \<and> (\<forall>c \<in> set cs. g c)"
  have whole: "object_text fmt d ?ms = ?open @ ?inner @ ?close"
    by (simp add: object_text_def members_text_join)
  have room: "plenty h na n" if "?good" "n \<le> length u + length ?open + length ?inner + length ?close + 2" for n
    using that unfolding whole by (auto elim!: plenty_mono)
  let ?rest = "\<lambda>p. when_ok (ensure h (if p_format p then p_depth p + 1 else 2) p) (\<lambda>p.
      writes [(0, (if p_format p then replicate (p_depth p - 1) (CHR 0x09) else []) @ ''}'' @ [CHR 0x00])] p
       (\<lambda>p. Inr (True, shallower p)))"
  have close: "yields ?good (shown na fmt d (u @ object_text fmt d ?ms)) (?rest q)"
    if q: "at_text h na fmt (d + 1) ((u @ ?open) @ ?inner) q" for q
  proof (rule ensured [OF q])
    fix r assume r: "at_text h na fmt (d + 1) ((u @ ?open) @ ?inner) r"
      "length ((u @ ?open) @ ?inner) + (if p_format q then p_depth q + 1 else 2) < p_length r"
    have "yields ?good (shown na fmt (d + 1) (((u @ ?open) @ ?inner) @ ?close))
        (writes [(0, ?close @ [CHR 0x00])] r (\<lambda>p. Inr (True, p)))"
      by (rule writes_shown [OF r(1)]) (use r(2) at_text_fields [OF q] in \<open>auto simp: tabs_def nul_free_def\<close>)
    moreover have "(if p_format r then replicate (p_depth r - 1) (CHR 0x09) else []) @ ''}'' @ [CHR 0x00] = ?close @ [CHR 0x00]"
      using at_text_fields [OF r(1)] by (simp add: tabs_def)
    moreover have "((u @ ?open) @ ?inner) @ ?close = u @ object_text fmt d ?ms"
      unfolding whole by simp
    ultimately show "yields ?good (shown na fmt d (u @ object_text fmt d ?ms))
        (writes [(0, (if p_format r then replicate (p_depth r - 1) (CHR 0x09) else []) @ ''}'' @ [CHR 0x00])] r
         (\<lambda>p. Inr (True, shallower p)))"
      by (simp only: writes_shallower)
  next
    assume ?good
    then show "plenty h na (length ((u @ ?open) @ ?inner) + (if p_format q then p_depth q + 1 else 2))"
      by (rule room) (use at_text_fields [OF q] in \<open>auto simp: tabs_def\<close>)
  qed
  have "yields ?good (at_text h na fmt d (u @ ?open)) (put_bare h (length ?open + 1) ?open p)"
    by (rule bare_good [OF at]) (use room in auto)
  moreover have "''{'' @ (if p_format p then [CHR 0x0A] else []) = ?open"
    using at_text_fields [OF at] by (simp add: newline_def)
  ultimately have "yields ?good (at_text h na fmt d (u @ ?open))
      (let s = ''{'' @ (if p_format p then [CHR 0x0A] else []) in put_bare h (length s + 1) s p)"
    by (simp only: Let_def)
  then show "yields ?good (shown na fmt d (u @ object_text fmt d ?ms)) (print_object h ?ps p)"
    unfolding print_object_def
  proof (rule yields_when_ok)
    fix q assume "at_text h na fmt d (u @ ?open) q"
    then have q: "at_text h na fmt (d + 1) (u @ ?open) (deeper q)" by (rule deeper_shallower)
    have "yields ?good (at_text h na fmt (d + 1) ((u @ ?open) @ ?inner)) (print_members h ?ps (deeper q))"
      by (rule print_members_ok [where g = g, OF assms q]) (use room in auto)
    then show "yields ?good (shown na fmt d (u @ object_text fmt d ?ms))
        (when_ok (print_members h ?ps (deeper q)) ?rest)"
      by (rule yields_when_ok) (rule close)
  qed
qed

lemma zip_same: "zip (map f xs) (map g xs) = map (\<lambda>x. (f x, g x)) xs"
  by (induction xs) auto

lemma prints_if: "(c \<Longrightarrow> prints_as h na fmt d pr t g) \<Longrightarrow> (\<not> c \<Longrightarrow> prints_as h na fmt d pr' t' g') \<Longrightarrow>
    prints_as h na fmt d (\<lambda>p. if c then pr p else pr' p) (if c then t else t') (if c then g else g')"
  by auto

lemma prints_literal: "nul_free s \<Longrightarrow> prints_as h na fmt d (put_literal h s) s True"
  unfolding prints_as_def by (intro allI impI yields_mono [OF put_literal_ok]) (auto elim!: plenty_mono)

lemma prints_number: "formats_ok nf \<Longrightarrow> prints_as h na fmt d (print_number h nf x) (number_text nf x) True"
  unfolding prints_as_def by (intro allI impI yields_mono [OF print_number_ok]) (auto elim!: plenty_mono)

lemma prints_string: "pred_option nul_free s \<Longrightarrow> prints_as h na fmt d (print_string_ptr h s) (quote s) True"
  unfolding prints_as_def by (intro allI impI yields_mono [OF print_string_ok]) (auto elim!: plenty_mono)

lemma prints_nothing: "prints_as h na fmt d (\<lambda>p. Inr (False, p)) t False"
  using at_text_owned by (auto simp: prints_as_def intro!: yields_refused)

lemma print_value_ok:
  assumes "formats_ok nf" and "c_strings item"
  shows "prints_as h na fmt d (print_value h nf item) (render nf fmt item d) (printable item)"
  using assms(2)
proof (induction item arbitrary: d)
  case (CJson ty vs vi vd st ch)
  let ?t = "ty AND 255"
  have free: "pred_option nul_free vs" using CJson.prems by simp
  have ch: "\<forall>c \<in> set ch. c_strings c" using CJson.prems by (simp add: list_all_iff)
  have keys: "pred_option nul_free (cj_string c)" if "c_strings c" for c :: "'a cjson" using that by (cases c) simp
  have sub: "\<forall>c \<in> set ch. prints_as h na fmt (d + 1) (print_value h nf c) (render nf fmt c (d + 1)) (printable c) \<and>
      pred_option nul_free (cj_string c)" using CJson.IH ch keys by auto
  have arr: "prints_as h na fmt d (print_array h (map (print_value h nf) ch))
      (array_text fmt (map (\<lambda>r. r (d + 1)) (map (render nf fmt) ch))) (list_all printable ch)"
    using print_array_ok [of ch h na fmt d "print_value h nf" "\<lambda>c. render nf fmt c (d + 1)" printable] sub
    by (simp add: comp_def list_all_iff)
  have obj: "prints_as h na fmt d (print_object h (zip (map cj_string ch) (map (print_value h nf) ch)))
      (object_text fmt d (map (\<lambda>(k, r). member_text fmt (d + 1) k (r (d + 1)))
        (zip (map cj_string ch) (map (render nf fmt) ch)))) (list_all printable ch)"
    using print_object_ok [of ch h na fmt d "print_value h nf" "\<lambda>c. render nf fmt c (d + 1)" printable cj_string] sub
    by (simp add: zip_same comp_def list_all_iff)
  have raw: "prints_as h na fmt d (\<lambda>p. case vs of None \<Rightarrow> Inr (False, p) | Some s \<Rightarrow> put_literal h s p)
      (case vs of None \<Rightarrow> [] | Some s \<Rightarrow> s) (vs \<noteq> None)"
    using free prints_literal by (auto simp: prints_nothing split: option.splits)
  have good: "printable (CJson ty vs vi vd st ch) =
     (if ?t = cJSON_NULL then True else if ?t = cJSON_False then True else if ?t = cJSON_True then True
      else if ?t = cJSON_Number then True else if ?t = cJSON_Raw then vs \<noteq> None else if ?t = cJSON_String then True
      else if ?t = cJSON_Array then list_all printable ch else if ?t = cJSON_Object then list_all printable ch else False)"
    by (auto simp: Let_def)
  show ?case unfolding print_value.simps render.simps good Let_def
    by (intro prints_if prints_nothing arr obj raw prints_number assms(1) prints_string free prints_literal) simp_all
qed

section \<open>The public functions\<close>

lemma new_printbuffer_text:
  "length blk > 0 \<or> has_realloc h \<Longrightarrow> at_text h None fmt 0 [] (new_printbuffer blk False fmt n)"
  by (auto simp: at_text_def buffer_is_def owned_def holds_text_def new_printbuffer_def)

lemma preallocated_text:
  "nat len \<le> length blk \<Longrightarrow> at_text h (Some (nat len)) fmt 0 [] ((new_printbuffer blk True fmt 0)\<lparr>p_length := nat len\<rparr>)"
  by (auto simp: at_text_def buffer_is_def owned_def holds_text_def new_printbuffer_def)

lemma print_renders:
  assumes "formats_ok nf" and "c_strings item"
  shows "\<exists>r n. print h nf (Some item) fmt = Inr (r, n) \<and>
    (case r of Some blk \<Rightarrow> blk = render nf fmt item 0 @ [CHR 0x00] \<and> n = 1
             | None \<Rightarrow> n = 0 \<or> n = 1 \<and> has_realloc h) \<and>
    ((\<forall>i. grant h i) \<and> printable item \<and> int (length (render nf fmt item 0)) + 3 \<le> INT_MAX \<longrightarrow> r \<noteq> None)"
proof (cases "grant h 0")
  case False
  then show ?thesis by (auto simp: print_def Let_def)
next
  case True
  let ?t = "render nf fmt item 0" and ?p = "new_printbuffer (resize h 0 256 []) False fmt 1"
  let ?good = "plenty h None (length ?t + 2) \<and> printable item"
  have "at_text h None fmt 0 [] ?p" by (rule new_printbuffer_text) (simp add: resize_simps)
  with print_value_ok [OF assms, of h None fmt 0] have "yields ?good (shown None fmt 0 ?t) (print_value h nf item ?p)"
    by (fastforce simp: prints_as_def)
  then obtain ok p where p: "print_value h nf item ?p = Inr (ok, p)" "owned p" "?good \<longrightarrow> ok"
    "ok \<longrightarrow> shown None fmt 0 ?t p" by (auto simp: yields_def)
  show ?thesis
  proof (cases ok)
    case False
    with True p show ?thesis by (auto simp: print_def Let_def owned_def plenty_def)
  next
    case ok: True
    with p(4) obtain q where q: "update_offset p = Inr q" and u: "shown None fmt 0 ?t p"
      and at: "at_text h None fmt 0 ?t q" using update_offset_ok [of None fmt 0 ?t p] by blast
    have "update_offset p = Inr q \<Longrightarrow> p_buffer q = p_buffer p \<and> p_length q = p_length p"
      by (auto simp: update_offset_def Let_def split: option.splits if_splits)
    with q u obtain blk where blk: "p_buffer q = Some blk" "p_length q \<le> length blk"
      "take (length ?t + 1) blk = ?t @ [CHR 0x00]" "length ?t < p_length q"
      by (auto simp: shown_def holds_text_def)
    have off: "p_offset q = length ?t" "p_live q = 1" using at blk(1) by (auto simp: at_text_def buffer_is_def owned_def)
    have same: "resize h i (length ?t + 1) b = ?t @ [CHR 0x00]" if "take (length ?t + 1) b = ?t @ [CHR 0x00]" for i b
      using arg_cong [OF that, of length] that by (simp add: resize_def)
    have "(?t @ [CHR 0x00])[length ?t := CHR 0x00] = ?t @ [CHR 0x00]" by simp
    then show ?thesis using True p(1) ok q blk off same
      by (auto simp: print_def Let_def min_def)
  qed
qed

text \<open>
  C28: The printer renders the tree. For every tree, in either format and whatever the
  allocator does, printing ends without a fault: no write leaves the growing buffer. A text
  it returns is exactly the reference rendering with its terminator, in a block of exactly
  that size, the only one live. It returns one whenever memory is granted, the tree has only
  valid types and the text stays 3 below \<open>INT_MAX\<close>. It leaks only with a \<open>reallocate\<close> hook,
  whose refusal of the last request loses the buffer.
\<close>

theorem printer_renders:
  assumes "formats_ok nf" and "c_strings item"
  shows "\<exists>r n. print h nf (Some item) fmt = Inr (r, n) \<and>
    (case r of Some blk \<Rightarrow> blk = render nf fmt item 0 @ [CHR 0x00] \<and> n = 1
             | None \<Rightarrow> n = 0 \<or> n = 1 \<and> has_realloc h) \<and>
    ((\<forall>i. grant h i) \<and> printable item \<and> int (length (render nf fmt item 0)) + 3 \<le> INT_MAX \<longrightarrow> r \<noteq> None)"
  by (rule print_renders [OF assms])

definition int_formats :: "int formats" where
  "int_formats = \<lparr>sprintf_g = (\<lambda>_ n. [char_of (48 + nat n mod 10)]), sscanf_lg = (\<lambda>s. None), num_same = (=),
     num_finite = (\<lambda>n. 0 \<le> n)\<rparr>"

lemma int_formats_ok: "formats_ok int_formats"
proof -
  have "char_of (48 + n mod 10) \<noteq> CHR 0x00" for n :: nat
  proof
    assume "char_of (48 + n mod 10) = CHR 0x00"
    then have "of_char (char_of (48 + n mod 10)) = (0 :: nat)" by simp
    then show False by simp
  qed
  then show ?thesis by (simp add: formats_ok_def number_text_def int_formats_def)
qed

theorem printer_renders_witness:
  "print \<lparr>grant = (\<lambda>i. True), fresh = (\<lambda>i j. CHR ''x''), has_realloc = False\<rparr> int_formats
      (Some (CJson cJSON_Array None 0 0 None [CJson cJSON_Number None 0 7 None [], CJson cJSON_String (Some ''a'') 0 0 None []]))
      True
   = Inr (Some [CHR ''['', CHR ''7'', CHR '','', CHR '' '', CHR 0x22, CHR ''a'', CHR 0x22, CHR '']'', CHR 0x00], 1)"
proof -
  let ?j = "CJson cJSON_Array None 0 0 None [CJson cJSON_Number None 0 7 None [], CJson cJSON_String (Some ''a'') 0 0 None []] :: int cjson"
  have "c_strings ?j" by simp
  moreover have "char_of (55 :: nat) = CHR ''7''" by code_simp
  then have "render int_formats True ?j 0 = [CHR ''['', CHR ''7'', CHR '','', CHR '' '', CHR 0x22, CHR ''a'', CHR 0x22, CHR '']'']"
    by (simp add: array_text_def number_text_def int_formats_def quote_def escape_def)
  moreover have "printable ?j" by simp
  ultimately show ?thesis
    using printer_renders [OF int_formats_ok, of ?j "\<lparr>grant = (\<lambda>i. True), fresh = (\<lambda>i j. CHR ''x''), has_realloc = False\<rparr>" True]
    by (auto simp: INT_MAX_def split: option.splits)
qed

end
