(* ===== verification/CJson_Escapes.thy ===== *)
theory CJson_Escapes
  imports CJson_Safe CJson_Print_Props
begin

text \<open>
  The escape sequences of strings: what the printer writes for a string, the parser turns
  back into it.
\<close>

lemma escape_letter_back: "escape_letter c = Some x \<Longrightarrow> simple_escape x = Some c"
  by (auto simp: escape_letter_def simple_escape_def split: if_splits)

text \<open>The forms of an escaped character.\<close>

lemma escape_forms:
  assumes "c \<noteq> CHR 0x00"
  obtains (plain) "escape c = [c]" "c \<noteq> CHR 0x22" "c \<noteq> CHR 0x5C"
    | (letter) x where "escape c = [CHR 0x5C, x]" "simple_escape x = Some c"
    | (unicode) "escape c = CHR 0x5C # unicode_text c" "of_char c < (32 :: nat)"
proof (cases "of_char c > (31 :: nat) \<and> c \<noteq> CHR 0x22 \<and> c \<noteq> CHR 0x5C")
  case True
  then show ?thesis using plain by (simp add: escape_def)
next
  case False
  show ?thesis
  proof (cases "escape_letter c")
    case None
    with False have "of_char c < (32 :: nat)" by (auto simp: escape_letter_def split: if_splits)
    with False None show ?thesis using unicode by (simp add: escape_def)
  next
    case (Some x)
    with False show ?thesis using letter escape_letter_back by (simp add: escape_def)
  qed
qed

lemma char_word: "(of_char c :: u32) = of_nat (of_char c)"
  by (rule of_nat_of_char [symmetric])

lemma of_char_hex_letter: "n < 16 \<Longrightarrow> of_char (hex_letter n) = (if n < 10 then 48 + n else 87 + n)"
  by (simp add: hex_letter_def)

lemma hex4_digit_letter:
  assumes "n < 16"
  shows "hex4_digit (hex_letter n) = Some (of_nat n)"
proof -
  let ?m = "if n < 10 then 48 + n else 87 + n"
  have w: "(of_char (hex_letter n) :: u32) = of_nat ?m"
    using assms by (simp only: char_word of_char_hex_letter)
  have u: "unat (of_nat ?m :: u32) = ?m" using assms by (simp add: unsigned_of_nat take_bit_nat_eq_self)
  show ?thesis
  proof (cases "n < 10")
    case True
    with u show ?thesis unfolding hex4_digit_def w by (simp add: Let_def word_le_nat_alt)
  next
    case False
    with u assms show ?thesis unfolding hex4_digit_def w by (simp add: Let_def word_le_nat_alt)
  qed
qed

lemma hex_letters_read:
  assumes "n < 32"
  shows "hex4_value [CHR ''0'', CHR ''0'', hex_letter (n div 16), hex_letter (n mod 16)] = n"
proof -
  have "n div 16 < 16" using assms by arith
  moreover have "hex4_digit (CHR ''0'') = Some 0" using hex4_digit_letter [of 0] by (simp add: hex_letter_def) (simp add: hex4_digit_def)
  ultimately show ?thesis
    by (simp add: hex4_value_def hex4_digit_letter unsigned_of_nat take_bit_nat_eq_self)
qed

lemma utf8_ascii:
  assumes "c < 0x80"
  shows "utf8_encode c = Some [char_of (unat c)]"
proof -
  have "unat c < 2 ^ 7" using assms by (simp add: word_less_nat_alt)
  then have "take_bit 7 c = c"
    by (intro unsigned_word_eqI [where 'a = nat]) (simp add: unsigned_take_bit_eq take_bit_nat_eq_self)
  then have "c AND mask 7 = c" by (simp add: take_bit_eq_mask)
  then have "c AND 0x7F = c" by (simp add: mask_eq_exp_minus_1)
  with assms show ?thesis by (simp add: utf8_encode_def Let_def)
qed

lemma hex_letter_plain: "n < 16 \<Longrightarrow> hex_letter n \<notin> {CHR 0x22, CHR 0x5C, CHR 0x00}"
proof
  assume "n < 16" "hex_letter n \<in> {CHR 0x22, CHR 0x5C, CHR 0x00}"
  then show False using of_char_hex_letter [of n] by (auto split: if_splits)
qed

lemma unicode_plain: "x \<in> set (unicode_text c) \<Longrightarrow> x \<noteq> CHR 0x22 \<and> x \<noteq> CHR 0x5C"
proof -
  have "(of_char c :: nat) div 16 < 16" by (rule less_mult_imp_div_less) simp
  then show "x \<in> set (unicode_text c) \<Longrightarrow> ?thesis"
    using hex_letter_plain by (auto simp: unicode_text_def Let_def)
qed

lemma string_end_plain:
  assumes "\<forall>c \<in> set w. c \<noteq> CHR 0x22 \<and> c \<noteq> CHR 0x5C" and "input = pre @ w @ r"
  shows "string_end input (length pre) k = string_end input (length pre + length w) k"
  using assms
proof (induction w arbitrary: pre)
  case (Cons c w)
  have "string_end input (length pre) k = string_end input (length pre + 1) k"
    using Cons.prems by (subst string_end.simps) (auto simp: nth_append)
  also have "\<dots> = string_end input (length (pre @ [c]) + length w) k"
    using Cons.IH [of "pre @ [c]"] Cons.prems by simp
  finally show ?case by simp
qed simp

lemma string_end_escaped:
  assumes "nul_free s" and "input = pre @ concat (map escape s) @ CHR 0x22 # r"
  shows "\<exists>k'. string_end input (length pre) k = Some (length pre + length (concat (map escape s)), k') \<and>
    k' + length s \<le> k + length (concat (map escape s))"
  using assms
proof (induction s arbitrary: pre k)
  case Nil
  then show ?case by (subst string_end.simps) (simp add: nth_append)
next
  case (Cons c s)
  have next_char: "\<exists>k1. string_end input (length pre) k = string_end input (length pre + length (escape c)) k1 \<and>
      k1 + 1 \<le> k + length (escape c)"
  proof -
    have "c \<noteq> CHR 0x00" using Cons.prems(1) by simp
    then show ?thesis
    proof (cases rule: escape_forms)
      case plain
      with string_end_plain [of "[c]" input pre] Cons.prems(2) show ?thesis by auto
    next
      case (letter x)
      then have "string_end input (length pre) k = string_end input (length pre + 2) (k + 1)"
        using Cons.prems(2) by (subst string_end.simps) (simp add: nth_append)
      with letter show ?thesis by (auto simp: numeral_2_eq_2 intro!: exI [of _ "k + 1"])
    next
      case unicode
      then obtain x w where w: "unicode_text c = x # w" "length w = 4" by (auto simp: unicode_text_def Let_def)
      then have "string_end input (length pre) k = string_end input (length pre + 2) (k + 1)"
        using Cons.prems(2) unicode(1) by (subst string_end.simps) (simp add: nth_append)
      also have "\<dots> = string_end input (length (pre @ [CHR 0x5C, x]) + length w) (k + 1)"
        using string_end_plain [of w input "pre @ [CHR 0x5C, x]"] Cons.prems(2) unicode(1) w unicode_plain [of _ c]
        by auto
      also have "length (pre @ [CHR 0x5C, x]) + length w = length pre + length (escape c)" using unicode(1) w by simp
      finally show ?thesis using unicode(1) w by (intro exI [of _ "k + 1"]) simp
    qed
  qed
  then obtain k1 where k1: "string_end input (length pre) k = string_end input (length pre + length (escape c)) k1"
    "k1 + 1 \<le> k + length (escape c)" by blast
  from Cons.IH [of "pre @ escape c" k1] Cons.prems k1 show ?case by (auto simp: add.assoc)
qed

lemma literal_read:
  assumes "input = pre @ escape c @ r" and "escape c = CHR 0x5C # unicode_text c" and "of_char c < (32 :: nat)"
    and "length pre + 6 \<le> e"
  shows "utf16_literal_to_utf8 input (length pre) e = Inr (Some (6, [c]))"
proof -
  let ?n = "of_char c :: nat"
  let ?ds = "[CHR ''0'', CHR ''0'', hex_letter (?n div 16), hex_letter (?n mod 16)]"
  have split: "input = (pre @ [CHR 0x5C, CHR ''u'']) @ ?ds @ r" unfolding assms(1,2) by (simp add: unicode_text_def Let_def)
  have "take (length ?ds) (drop (length (pre @ [CHR 0x5C, CHR ''u''])) input) = ?ds"
    unfolding split append_eq_conv_conj by simp
  moreover have "length ?ds = 4" "length (pre @ [CHR 0x5C, CHR ''u'']) = length pre + 2" by simp_all
  ultimately have four: "take 4 (drop (length pre + 2) input) = ?ds" by (simp only:)
  have "length pre + 2 + 4 \<le> length input" using assms(1,2) by simp
  from parse_hex4_spec [OF this] obtain w where w: "parse_hex4 input (length pre + 2) = Inr w" "unat w = ?n"
    unfolding four using hex_letters_read [OF assms(3)] by auto
  let ?u = "ucast w :: u64"
  have u: "unat ?u = ?n" using w(2) assms(3) by (simp add: unsigned_ucast_eq take_bit_nat_eq_self)
  then have "?u < 0x80" using assms(3) by (simp add: word_less_nat_alt)
  then have "utf8_encode ?u = Some [c]" using u by (simp add: utf8_ascii)
  moreover have "\<not> 0xDC00 \<le> w" "\<not> 0xD800 \<le> w" using w(2) assms(3) by (simp_all add: word_le_nat_alt)
  moreover have "\<not> e - length pre < 6" using assms(4) by simp
  ultimately show ?thesis using w(1) by (simp add: utf16_literal_to_utf8_def Let_def)
qed

lemma unescape_escaped:
  assumes "nul_free s" and "input = pre @ concat (map escape s) @ r" and "e = length pre + length (concat (map escape s))"
    and "length out + length s \<le> room"
  shows "unescape input room e (length pre) out = Inr (Some (out @ s), e)"
  using assms
proof (induction s arbitrary: pre out)
  case Nil
  then show ?case by (subst unescape.simps) simp
next
  case (Cons c s)
  have rest: "unescape input room e (length pre + length (escape c)) (out @ [c]) = Inr (Some (out @ c # s), e)"
    using Cons.IH [of "pre @ escape c" "out @ [c]"] Cons.prems by simp
  have put: "put_bytes room out [c] = Inr (out @ [c])" using Cons.prems(4) by (simp add: put_bytes_def)
  have "c \<noteq> CHR 0x00" using Cons.prems(1) by simp
  then show ?case
  proof (cases rule: escape_forms)
    case plain
    with rest put Cons.prems(2,3) show ?thesis by (subst unescape.simps) (simp add: nth_append)
  next
    case (letter x)
    with rest put Cons.prems(2,3) show ?thesis by (subst unescape.simps) (simp add: nth_append numeral_2_eq_2)
  next
    case unicode
    have lit: "utf16_literal_to_utf8 input (length pre) e = Inr (Some (6, [c]))"
      by (rule literal_read [OF _ unicode]) (use Cons.prems(2,3) unicode in auto)
    have len: "length (escape c) = 6" using unicode(1) by simp
    have here: "rd input (length pre) = Inr (CHR 0x5C)" "rd input (length pre + 1) = Inr (CHR ''u'')" "length pre < e"
      using Cons.prems(2,3) unicode(1) by (simp_all add: nth_append unicode_text_def Let_def)
    show ?thesis using rest put lit here
      by (subst unescape.simps) (simp add: simple_escape_def len)
  qed
qed

end
