(* ===== verification/CJson_Roundtrip.thy ===== *)
theory CJson_Roundtrip
  imports CJson_Escapes
begin

text \<open>
  Parsing what was printed gives the tree back, in both formats.
\<close>

section \<open>The rest of the text\<close>

definition rest :: "parse_buffer \<Rightarrow> string" where
  "rest b = drop (offset b) (content b)"

definition ahead :: "nat \<Rightarrow> parse_buffer \<Rightarrow> parse_buffer \<Rightarrow> bool" where
  "ahead n b b' \<longleftrightarrow> content b' = content b \<and> offset b' = offset b + n \<and> depth b' = depth b"

definition blank :: "string \<Rightarrow> bool" where
  "blank ws \<longleftrightarrow> (\<forall>c \<in> set ws. of_char c \<le> (32 :: nat))"

lemma rest_move [simp]: "rest (move n b) = drop n (rest b)"
  by (simp add: rest_def add.commute)

lemma rest_ahead: "ahead n b b' \<Longrightarrow> rest b' = drop n (rest b)"
  by (simp add: ahead_def rest_def add.commute)

lemma rest_after: "ahead (length t) b b' \<Longrightarrow> rest b = t @ r \<Longrightarrow> rest b' = r"
  by (simp add: rest_ahead)

lemma ahead_move: "ahead n b (move n b)"
  by (simp add: ahead_def)

lemma ahead_trans: "ahead n b b' \<Longrightarrow> ahead m b' b'' \<Longrightarrow> ahead (n + m) b b''"
  by (simp add: ahead_def)

lemma access_rest: "can_access_at_index b 0 \<longleftrightarrow> rest b \<noteq> []"
  by (auto simp: can_access_at_index_def rest_def)

lemma rest_Cons:
  assumes "rest b = c # r"
  shows "content b ! offset b = c" "rd (content b) (offset b) = Inr c" "can_access_at_index b 0"
    "at_char b c' \<longleftrightarrow> c = c'"
proof -
  have lt: "offset b < length (content b)" using assms by (cases "offset b < length (content b)") (simp_all add: rest_def)
  with assms have c: "content b ! offset b = c" by (metis rest_def hd_drop_conv_nth list.sel(1))
  then show "content b ! offset b = c" "rd (content b) (offset b) = Inr c" "can_access_at_index b 0" "at_char b c' \<longleftrightarrow> c = c'"
    using lt by (simp_all add: can_access_at_index_def at_char_def)
qed

lemma at_word_rest:
  assumes "s \<noteq> []"
  shows "at_word b s \<longleftrightarrow> take (length s) (rest b) = s"
proof
  assume "take (length s) (rest b) = s"
  then have "length s \<le> length (rest b)" by (metis length_take min.cobounded1)
  with \<open>take (length s) (rest b) = s\<close> show "at_word b s"
    using assms by (cases s) (auto simp: at_word_def can_read_def rest_def)
qed (simp add: at_word_def rest_def)

lemma skip_rest:
  assumes "rest b = ws @ c # r" and "blank ws" and "of_char c > (32 :: nat)"
  shows "buffer_skip_whitespace b = move (length ws) b"
proof -
  have "takeWhile (\<lambda>c. of_char c \<le> (32 :: nat)) (rest b) = ws"
    using assms by (auto simp: blank_def takeWhile_append2 intro!: takeWhile_eq_all_conv [THEN iffD2])
  moreover have "length ws < length (rest b)" using assms(1) by simp
  then have "offset b + length ws \<noteq> length (content b)" by (simp add: rest_def)
  ultimately show ?thesis by (simp add: buffer_skip_whitespace_def Let_def rest_def)
qed

lemma granted: "\<forall>i. mem_ok i \<Longrightarrow> new_block mem_ok b = (True, b\<lparr>requests := requests b + 1, live := live b + 1\<rparr>)"
  by (simp add: new_block_def)

section \<open>Strings and numbers in a document\<close>

lemma parse_string_reads:
  assumes "rest b = quote (Some s) @ r" and "nul_free s" and "\<forall>i. mem_ok i"
  shows "\<exists>b'. parse_string mem_ok item b = Inr (True,
      CJson cJSON_String (Some s) (cj_valueint item) (cj_valuedouble item) (cj_string item) (cj_child item), b') \<and>
    ahead (length (quote (Some s))) b b'"
proof -
  let ?e = "concat (map escape s)"
  let ?pre = "take (offset b) (content b) @ [CHR 0x22]"
  have "offset b \<le> length (content b)" using assms(1) by (cases "offset b \<le> length (content b)") (auto simp: rest_def quote_def)
  then have pre: "length ?pre = offset b + 1" by simp
  have content: "content b = ?pre @ ?e @ CHR 0x22 # r"
    using assms(1) append_take_drop_id [of "offset b" "content b"] by (simp add: rest_def quote_def)
  have first: "rd (content b) (offset b) = Inr (CHR 0x22)" using assms(1) rest_Cons(2) [of b "CHR 0x22"] by (simp add: quote_def)
  obtain k where k: "string_end (content b) (offset b + 1) 0 = Some (offset b + 1 + length ?e, k)" "k + length s \<le> length ?e"
    using string_end_escaped [OF assms(2) content, of 0] unfolding pre by auto
  let ?room = "offset b + 1 + length ?e - offset b - k + 1"
  have room: "length s + 1 \<le> ?room" using k(2) by simp
  have un: "unescape (content b) ?room (offset b + 1 + length ?e) (offset b + 1) [] = Inr (Some s, offset b + 1 + length ?e)"
    using unescape_escaped [OF assms(2) content, of "offset b + 1 + length ?e" "[]" ?room] room unfolding pre by simp
  have "put_bytes ?room s [CHR 0x00] = Inr (s @ [CHR 0x00])" using room by (simp add: put_bytes_def)
  moreover have "before_nul (s @ [CHR 0x00]) = s"
    using assms(2) unfolding before_nul_def by (subst takeWhile_append2) (auto simp: nul_free_def)
  moreover have "length (quote (Some s)) = length ?e + 2" by (simp add: quote_def)
  ultimately show ?thesis
    using first k(1) un granted [OF assms(3), of b]
    by (simp add: parse_string_def Let_def ahead_def)
qed

definition saturated :: "'d numbers \<Rightarrow> 'd \<Rightarrow> int" where
  "saturated nl x = (if num_ge nl x INT_MAX then INT_MAX else if num_le nl x INT_MIN then INT_MIN else num_int nl x)"

text \<open>A number whose text is read back: what \<open>"%1.17g"\<close> and \<open>strtod\<close> give for finite doubles.\<close>

definition number_back :: "'d numbers \<Rightarrow> 'd formats \<Rightarrow> 'd \<Rightarrow> bool" where
  "number_back nl nf x \<longleftrightarrow>
     (let s = number_text nf x in
      s \<noteq> [] \<and> hd s \<in> set ''-0123456789'' \<and> (\<forall>c \<in> set s. number_char c) \<and> length s \<le> 25 \<and> strtod nl s = (x, length s))"

text \<open>What follows a value in a document.\<close>

definition ends :: "string \<Rightarrow> bool" where
  "ends r \<longleftrightarrow> r \<noteq> [] \<and> hd r \<in> {CHR '','', CHR '']'', CHR ''}'', CHR 0x0A, CHR 0x00}"

lemma parse_number_reads:
  assumes "rest b = number_text nf x @ r" and "number_back nl nf x" and "ends r"
  shows "parse_number nl item b = (True, CJson cJSON_Number (cj_valuestring item) (saturated nl x) x (cj_string item)
      (cj_child item), move (length (number_text nf x)) b)"
proof -
  let ?s = "number_text nf x"
  from assms(2) have s: "?s \<noteq> []" "\<forall>c \<in> set ?s. number_char c" "length ?s \<le> 25" "strtod nl ?s = (x, length ?s)"
    by (auto simp: number_back_def Let_def)
  from assms(3) obtain y r' where r: "r = y # r'" "\<not> number_char y" by (cases r) (auto simp: ends_def number_char_def)
  have "take 63 (rest b) = ?s @ y # take (62 - length ?s) r'" using assms(1) s(3) r(1) by (simp add: take_Cons')
  then have "takeWhile number_char (take 63 (rest b)) = ?s" using s(2) r(2) by (simp add: takeWhile_append2)
  with s(1,4) show ?thesis by (simp add: parse_number_def Let_def saturated_def rest_def)
qed


section \<open>Documents\<close>

text \<open>
  \<open>reads_back pv ty c t\<close>: where the text \<open>t\<close> is next, the parser \<open>pv\<close> fills a fresh item that has the
  name of \<open>c\<close> to \<open>c\<close> and moves behind the text.
\<close>

definition reads_back :: "'d value_parser \<Rightarrow> nat \<Rightarrow> ('d :: zero) cjson \<Rightarrow> string \<Rightarrow> bool" where
  "reads_back pv d c t \<longleftrightarrow>
     (\<forall>ty b r. rest b = t @ r \<longrightarrow> ends r \<longrightarrow> depth b = d \<longrightarrow>
        (\<exists>b'. pv (CJson ty None 0 0 (cj_string c) []) b = Inr (True, c, b') \<and> ahead (length t) b b'))"

definition starts :: "string \<Rightarrow> bool" where
  "starts t \<longleftrightarrow> (\<exists>c r. t = c # r \<and> of_char c > (32 :: nat) \<and> of_char c < (128 :: nat) \<and> c \<noteq> CHR '']'' \<and> c \<noteq> CHR ''}'')"

lemma skip_to:
  assumes "rest b = x # ws @ t @ r" and "blank ws" and "starts t"
  shows "buffer_skip_whitespace (move 1 b) = move (1 + length ws) b"
proof -
  from assms(3) obtain c t' where t: "t = c # t'" "of_char c > (32 :: nat)" by (auto simp: starts_def)
  with assms(1) have "rest (move 1 b) = ws @ c # t' @ r" by simp
  from skip_rest [OF this assms(2) t(2)] show ?thesis by (simp add: move_def)
qed

lemma closing_chars: "of_char (CHR '']'') > (32 :: nat)" "of_char (CHR ''}'') > (32 :: nat)" "of_char (CHR '','') > (32 :: nat)"
  "of_char (CHR '':'') > (32 :: nat)"
  by simp_all

lemma reads_backD:
  assumes "reads_back pv (depth b) c t" and "rest b = t @ r" and "ends r" and "cj_string c = st"
  obtains b' where "pv (CJson ty None 0 0 st []) b = Inr (True, c, b')" and "ahead (length t) b b'"
  using assms unfolding reads_back_def by blast

text \<open>After an item: the separator and the next one, or the end.\<close>

definition follow :: "string \<Rightarrow> string list \<Rightarrow> string \<Rightarrow> string" where
  "follow sep ts close = (if ts = [] then close else sep @ join sep ts @ close)"

lemma follow_Cons: "join sep (t # ts) @ close = t @ follow sep ts close"
  by (simp add: follow_def)

lemma move_0 [simp]: "move 0 b = b"
  by (simp add: move_def)

lemma elements_read:
  assumes "\<forall>i. mem_ok i" and "sep = CHR '','' # wsep" and "blank wsep" and "cs \<noteq> []"
    and "\<forall>c \<in> set cs. reads_back pv (depth b) c (t c) \<and> starts (t c) \<and> cj_string c = None"
    and "length cs \<le> n" and "rest b = x # ws @ join sep (map t cs) @ CHR '']'' # r" and "blank ws"
  shows "\<exists>b'. parse_elements pv mem_ok n head b = Inr (True, head @ cs, b') \<and>
    ahead (1 + length ws + length (join sep (map t cs))) b b'"
  using assms(4-)
proof (induction cs arbitrary: n b x ws head)
  case (Cons c cs)
  let ?tail = "follow sep (map t cs) (CHR '']'' # r)"
  obtain m where n: "n = Suc m" "length cs \<le> m" using Cons.prems(3) by (cases n) auto
  let ?b0 = "b\<lparr>requests := requests b + 1, live := live b + 1\<rparr>"
  have nb: "new_block mem_ok b = (True, ?b0)" by (rule granted [OF assms(1)])
  have b0: "rest ?b0 = x # ws @ t c @ ?tail" using Cons.prems(4) by (simp add: rest_def follow_def)
  have "starts (t c)" using Cons.prems(2) by simp
  from skip_to [OF b0 Cons.prems(5) this] have sk: "buffer_skip_whitespace (move 1 ?b0) = move (1 + length ws) ?b0" .
  let ?b1 = "move (1 + length ws) ?b0"
  have b1: "rest ?b1 = t c @ ?tail" using b0 by simp
  have rb: "reads_back pv (depth ?b1) c (t c)" "cj_string c = None" using Cons.prems(2) by simp_all
  have "ends ?tail" using assms(2) by (simp add: ends_def follow_def)
  from reads_backD [OF rb(1) b1 this rb(2), of 0]
  obtain b2 where b2: "pv cJSON_New_Item ?b1 = Inr (True, c, b2)" "ahead (length (t c)) ?b1 b2"
    unfolding cJSON_New_Item_def by blast
  have r2: "rest b2 = ?tail" by (rule rest_after [OF b2(2) b1])
  have skip2: "buffer_skip_whitespace b2 = b2"
    using skip_rest [of b2 "[]"] r2 assms(2) by (cases "cs = []") (auto simp: blank_def follow_def)
  have far: "ahead (1 + length ws + length (t c)) b b2"
    using ahead_trans [OF ahead_move b2(2)] by (simp add: ahead_def)
  show ?case
  proof (cases "cs = []")
    case True
    then have "\<not> at_char b2 (CHR '','')" using r2 rest_Cons(4) [of b2 "CHR '']''"] by (simp add: follow_def)
    then show ?thesis using True nb sk b2(1) far n skip2 by (simp add: Let_def)
  next
    case False
    from r2 False assms(2) have r3: "rest b2 = CHR '','' # wsep @ join sep (map t cs) @ CHR '']'' # r"
      by (simp add: follow_def)
    have "depth b2 = depth b" using far by (simp add: ahead_def)
    with Cons.prems(2) have "\<forall>c \<in> set cs. reads_back pv (depth b2) c (t c) \<and> starts (t c) \<and> cj_string c = None" by simp
    from Cons.IH [OF False this n(2) r3 assms(3), of "head @ [c]"]
    obtain b' where b': "parse_elements pv mem_ok m (head @ [c]) b2 = Inr (True, head @ c # cs, b')"
      "ahead (1 + length wsep + length (join sep (map t cs))) b2 b'" by (auto simp only: append_assoc append_Cons append_Nil)
    from ahead_trans [OF far b'(2)] have "ahead (1 + length ws + length (join sep (map t (c # cs)))) b b'"
      using False assms(2) by (simp add: algebra_simps)
    with b'(1) nb sk b2(1) n(1) skip2 rest_Cons(4) [OF r3] show ?thesis by (simp add: Let_def)
  qed
qed simp

text \<open>A member: its name, the colon, its value.\<close>

definition body :: "bool \<Rightarrow> string \<Rightarrow> string \<Rightarrow> string" where
  "body fmt k t = quote (Some k) @ CHR '':'' # tabs fmt 1 @ t"

lemma blank_tabs: "blank (tabs fmt d)" "blank (newline fmt)"
  by (auto simp: blank_def tabs_def newline_def)

lemma blank_append [simp]: "blank []" "blank (v @ w) \<longleftrightarrow> blank v \<and> blank w"
  by (auto simp: blank_def)

lemma starts_quote: "starts (quote s @ r)"
  by (simp add: starts_def quote_def)

lemma members_read:
  fixes cs :: "('d :: zero) cjson list"
  assumes "\<forall>i. mem_ok i" and "sep = CHR '','' # wsep" and "blank wsep" and "blank wend" and "ends (wend @ ''}'')"
    and "cs \<noteq> []"
    and "\<forall>c \<in> set cs. reads_back pv (depth b) c (t c) \<and> starts (t c) \<and> nul_free (k c) \<and> cj_string c = Some (k c)"
    and "length cs \<le> n"
    and "rest b = x # ws @ join sep (map (\<lambda>c. body fmt (k c) (t c)) cs) @ wend @ CHR ''}'' # r" and "blank ws"
  shows "\<exists>b'. parse_members pv mem_ok n head b = Inr (True, head @ cs, b') \<and>
    ahead (1 + length ws + length (join sep (map (\<lambda>c. body fmt (k c) (t c)) cs)) + length wend) b b'"
  using assms(6-)
proof (induction cs arbitrary: n b x ws head)
  case (Cons c cs)
  let ?ts = "map (\<lambda>c. body fmt (k c) (t c)) cs"
  let ?tail = "follow sep ?ts (wend @ CHR ''}'' # r)"
  obtain m where n: "n = Suc m" "length cs \<le> m" using Cons.prems(3) by (cases n) auto
  let ?b0 = "b\<lparr>requests := requests b + 1, live := live b + 1\<rparr>"
  have nb: "new_block mem_ok b = (True, ?b0)" by (rule granted [OF assms(1)])
  have c: "reads_back pv (depth b) c (t c)" "starts (t c)" "nul_free (k c)" "cj_string c = Some (k c)"
    using Cons.prems(2) by simp_all
  have b0: "rest ?b0 = x # ws @ (quote (Some (k c)) @ CHR '':'' # tabs fmt 1 @ t c) @ ?tail"
    using Cons.prems(4) by (simp add: rest_def follow_def body_def)
  from skip_to [OF b0 Cons.prems(5) starts_quote]
  have sk: "buffer_skip_whitespace (move 1 ?b0) = move (1 + length ws) ?b0" .
  let ?b1 = "move (1 + length ws) ?b0"
  have b1: "rest ?b1 = quote (Some (k c)) @ CHR '':'' # tabs fmt 1 @ t c @ ?tail" using b0 by simp
  obtain b2 where b2: "parse_string mem_ok (cJSON_New_Item :: 'd cjson) ?b1 = Inr (True, CJson cJSON_String (Some (k c)) 0 0 None [], b2)"
      "ahead (length (quote (Some (k c)))) ?b1 b2"
    using parse_string_reads [OF b1 c(3) assms(1), of "cJSON_New_Item :: 'd cjson"] by (auto simp: cJSON_New_Item_def)
  have r2: "rest b2 = CHR '':'' # tabs fmt 1 @ t c @ ?tail" by (rule rest_after [OF b2(2) b1])
  have skip2: "buffer_skip_whitespace b2 = b2" using skip_rest [of b2 "[]"] r2 by (simp add: blank_def)
  let ?b3 = "move (1 + length (tabs fmt 1)) b2"
  have skip3: "buffer_skip_whitespace (move 1 b2) = ?b3" by (rule skip_to [OF r2 blank_tabs(1) c(2)])
  have b3: "rest ?b3 = t c @ ?tail" using r2 by simp
  have "depth ?b3 = depth b" using b2(2) by (simp add: ahead_def)
  then have rb: "reads_back pv (depth ?b3) c (t c)" using c(1) by simp
  have "ends ?tail" using assms(2,5) by (cases wend) (auto simp: ends_def follow_def)
  from reads_backD [OF rb b3 this c(4), of cJSON_String]
  obtain b4 where b4: "pv (CJson cJSON_String None 0 0 (Some (k c)) []) ?b3 = Inr (True, c, b4)" "ahead (length (t c)) ?b3 b4"
    by blast
  have r4: "rest b4 = ?tail" by (rule rest_after [OF b4(2) b3])
  have far: "ahead (1 + length ws + length (body fmt (k c) (t c))) b b4"
    using ahead_trans [OF ahead_move ahead_trans [OF b2(2) ahead_trans [OF ahead_move b4(2)]]]
    by (simp add: ahead_def body_def)
  have run: "parse_members pv mem_ok n head b =
     (let b = buffer_skip_whitespace b4 in
      if at_char b (CHR '','') then parse_members pv mem_ok m (head @ [c]) b else Inr (True, head @ [c], b))"
    using nb sk b2(1) n(1) skip2 skip3 b4(1) rest_Cons(4) [OF r2]
    by (simp add: Let_def swap_name_def)
  show ?case
  proof (cases "cs = []")
    case True
    then have "rest b4 = wend @ CHR ''}'' # r" using r4 by (simp add: follow_def)
    moreover from skip_rest [OF this assms(4)] have "buffer_skip_whitespace b4 = move (length wend) b4" by simp
    ultimately have "buffer_skip_whitespace b4 = move (length wend) b4" "\<not> at_char (move (length wend) b4) (CHR '','')"
      using rest_Cons(4) [of "move (length wend) b4" "CHR ''}''"] by simp_all
    then show ?thesis using True run ahead_trans [OF far ahead_move] by (simp add: Let_def)
  next
    case False
    from r4 False assms(2) have r5: "rest b4 = CHR '','' # wsep @ join sep ?ts @ wend @ CHR ''}'' # r"
      by (simp add: follow_def)
    have skip4: "buffer_skip_whitespace b4 = b4" using skip_rest [of b4 "[]"] r5 by (simp add: blank_def)
    have "depth b4 = depth b" using far by (simp add: ahead_def)
    with Cons.prems(2) have "\<forall>c \<in> set cs. reads_back pv (depth b4) c (t c) \<and> starts (t c) \<and> nul_free (k c) \<and>
        cj_string c = Some (k c)" by simp
    from Cons.IH [OF False this n(2) r5 assms(3), of "head @ [c]"]
    obtain b' where b': "parse_members pv mem_ok m (head @ [c]) b4 = Inr (True, head @ c # cs, b')"
      "ahead (1 + length wsep + length (join sep ?ts) + length wend) b4 b'" by (auto simp only: append_assoc append_Cons append_Nil)
    from ahead_trans [OF far b'(2)]
    have "ahead (1 + length ws + length (join sep (map (\<lambda>c. body fmt (k c) (t c)) (c # cs))) + length wend) b b'"
      using False assms(2) by (simp add: algebra_simps)
    with b'(1) run skip4 rest_Cons(4) [OF r5] show ?thesis by (simp add: Let_def)
  qed
qed simp

lemma step_back_move: "step_back (move (Suc n) b) = move n b"
  by (simp add: step_back_def move_def)

lemma ahead_depth: "ahead n (b\<lparr>depth := d + 1\<rparr>) b' \<Longrightarrow> depth b = d \<Longrightarrow> ahead (n + 1) b (move 1 (b'\<lparr>depth := depth b' - 1\<rparr>))"
  by (simp add: ahead_def)

lemma close_list_at:
  assumes "rest b = c # r"
  shows "close_list ty c (CJson ty0 None 0 0 st []) (True, cs, b)
     = Inr (True, CJson ty None 0 0 st cs, move 1 (b\<lparr>depth := depth b - 1\<rparr>))"
  using rest_Cons(4) [OF assms] by (simp add: close_list_def with_type_def with_child_def)

lemma array_reads:
  fixes cs :: "('d :: zero) cjson list"
  assumes "\<forall>i. mem_ok i" and "d < CJSON_NESTING_LIMIT" and "length cs \<le> n"
    and "\<forall>c \<in> set cs. reads_back pv (d + 1) c (t c) \<and> starts (t c) \<and> cj_string c = None"
  shows "reads_back (parse_array pv mem_ok n) d (CJson cJSON_Array None 0 0 st cs) (array_text fmt (map t cs))"
  unfolding reads_back_def
proof (intro allI impI)
  fix ty b r
  assume b: "rest b = array_text fmt (map t cs) @ r" and "ends r" and d: "depth b = d"
  let ?sep = "if fmt then '', '' else '',''" let ?in = "join ?sep (map t cs)"
  let ?b1 = "b\<lparr>depth := depth b + 1\<rparr>" and ?item = "CJson ty None 0 0 st [] :: 'd cjson"
  have b1: "rest ?b1 = CHR ''['' # ?in @ CHR '']'' # r" using b by (simp add: rest_def array_text_def)
  have len: "length (array_text fmt (map t cs)) = length ?in + 2" by (simp add: array_text_def)
  have "\<exists>b'. parse_array pv mem_ok n ?item b = Inr (True, CJson cJSON_Array None 0 0 st cs, b') \<and> ahead (length ?in + 2) b b'"
  proof (cases "cs = []")
    case True
    then have m: "rest (move 1 ?b1) = CHR '']'' # r" using b1 by simp
    have "buffer_skip_whitespace (move 1 ?b1) = move 1 ?b1" using skip_rest [of "move 1 ?b1" "[]"] m by (simp add: blank_def)
    then have "parse_array pv mem_ok n ?item b = close_list cJSON_Array (CHR '']'') ?item (True, [], move 1 ?b1)"
      using assms(2) d [symmetric] rest_Cons [OF b1] rest_Cons [OF m] by (simp add: parse_array_def Let_def)
    with True close_list_at [OF m, where cs = "[] :: 'd cjson list"] show ?thesis by (simp add: ahead_def)
  next
    case False
    then obtain c cs' where cs: "cs = c # cs'" by (cases cs) auto
    with assms(4) obtain y t' where y: "t c = y # t'" "of_char y > (32 :: nat)" "y \<noteq> CHR '']''" by (auto simp: starts_def)
    then obtain z where m: "rest (move 1 ?b1) = y # z" using b1 cs by simp
    have skip: "buffer_skip_whitespace (move 1 ?b1) = move 1 ?b1" using skip_rest [of "move 1 ?b1" "[]"] m y by (simp add: blank_def)
    obtain wsep where sep: "?sep = CHR '','' # wsep" "blank wsep" by (cases fmt) (auto simp: blank_def)
    have ch: "\<forall>c \<in> set cs. reads_back pv (depth ?b1) c (t c) \<and> starts (t c) \<and> cj_string c = None"
      using assms(4) d by simp
    have b1': "rest ?b1 = CHR ''['' # [] @ ?in @ CHR '']'' # r" using b1 by simp
    from elements_read [OF assms(1) sep False ch assms(3) b1', of "[]"]
    obtain b' where b': "parse_elements pv mem_ok n [] ?b1 = Inr (True, cs, b')" "ahead (1 + length ?in) ?b1 b'"
      by (auto simp: blank_def)
    have "rest b' = CHR '']'' # r" by (rule rest_after [of "CHR ''['' # ?in"]) (use b'(2) b1 in simp_all)
    note close = close_list_at [OF this]
    have "parse_array pv mem_ok n ?item b = close_list cJSON_Array (CHR '']'') ?item (True, cs, b')"
      using assms(2) d [symmetric] rest_Cons [OF b1] rest_Cons [OF m] y(3) skip b'(1) step_back_move [of 0 ?b1]
      by (simp add: parse_array_def Let_def)
    with ahead_depth [OF b'(2) refl] show ?thesis by (cases fmt) (simp_all add: close)
  qed
  then show "\<exists>b'. parse_array pv mem_ok n (CJson ty None 0 0 (cj_string (CJson cJSON_Array None 0 0 st cs)) []) b =
      Inr (True, CJson cJSON_Array None 0 0 st cs, b') \<and> ahead (length (array_text fmt (map t cs))) b b'"
    unfolding len by simp
qed

lemma join_prefix:
  "join sep (map (\<lambda>c. p @ f c) cs) = (if cs = [] then [] else p @ join (sep @ p) (map f cs))"
  by (induction cs) auto

lemma object_body:
  assumes "cs \<noteq> []" and "\<forall>c \<in> set cs. cj_string c = Some (k c)"
  shows "object_text fmt d (map (\<lambda>c. member_text fmt (d + 1) (cj_string c) (t c)) cs) =
    CHR ''{'' # (newline fmt @ tabs fmt (d + 1)) @ join ('','' @ newline fmt @ tabs fmt (d + 1)) (map (\<lambda>c. body fmt (k c) (t c)) cs) @
      (newline fmt @ tabs fmt d) @ ''}''"
proof -
  have m: "map (\<lambda>c. member_text fmt (d + 1) (cj_string c) (t c)) cs = map (\<lambda>c. tabs fmt (d + 1) @ body fmt (k c) (t c)) cs"
    using assms(2) by (simp add: member_text_def body_def)
  show ?thesis unfolding object_text_def m using assms(1) by (simp add: join_prefix)
qed

lemma drop_last: "drop (length ws) (c # ws @ z) = last (c # ws) # z"
  by (induction ws arbitrary: c) auto

lemma object_reads:
  fixes cs :: "('d :: zero) cjson list"
  assumes "\<forall>i. mem_ok i" and "d < CJSON_NESTING_LIMIT" and "length cs \<le> n"
    and "\<forall>c \<in> set cs. reads_back pv (d + 1) c (t c) \<and> starts (t c) \<and> nul_free (k c) \<and> cj_string c = Some (k c)"
  shows "reads_back (parse_object pv mem_ok n) d (CJson cJSON_Object None 0 0 st cs)
    (object_text fmt d' (map (\<lambda>c. member_text fmt (d' + 1) (cj_string c) (t c)) cs))"
  unfolding reads_back_def
proof (intro allI impI)
  fix ty b r
  let ?tx = "object_text fmt d' (map (\<lambda>c. member_text fmt (d' + 1) (cj_string c) (t c)) cs)"
  assume b: "rest b = ?tx @ r" and "ends r" and d: "depth b = d"
  let ?b1 = "b\<lparr>depth := depth b + 1\<rparr>" and ?item = "CJson ty None 0 0 st [] :: 'd cjson"
  have "\<exists>b'. parse_object pv mem_ok n ?item b = Inr (True, CJson cJSON_Object None 0 0 st cs, b') \<and> ahead (length ?tx) b b'"
  proof (cases "cs = []")
    case True
    let ?ws = "newline fmt @ tabs fmt d'"
    have whole: "?tx = CHR ''{'' # ?ws @ ''}''" using True by (simp add: object_text_def)
    have b1: "rest ?b1 = CHR ''{'' # ?ws @ CHR ''}'' # r" using b unfolding whole by (simp add: rest_def)
    then have m: "rest (move 1 ?b1) = ?ws @ CHR ''}'' # r" by simp
    have "buffer_skip_whitespace (move 1 ?b1) = move (length ?ws) (move 1 ?b1)"
      by (rule skip_rest [OF m]) (simp_all add: blank_tabs)
    then have skip: "buffer_skip_whitespace (move 1 ?b1) = move (1 + length ?ws) ?b1" by (simp add: move_def)
    have e: "rest (move (1 + length ?ws) ?b1) = CHR ''}'' # r" using b1 by simp
    have "parse_object pv mem_ok n ?item b = close_list cJSON_Object (CHR ''}'') ?item (True, [], move (1 + length ?ws) ?b1)"
      using assms(2) d [symmetric] rest_Cons [OF b1] rest_Cons [OF e] by (simp add: parse_object_def Let_def skip [simplified])
    with True close_list_at [OF e, where cs = "[] :: 'd cjson list"] whole show ?thesis by (simp add: ahead_def)
  next
    case False
    let ?ws = "newline fmt @ tabs fmt (d' + 1)" let ?fin = "newline fmt @ tabs fmt d'" let ?sep = "'','' @ ?ws"
    let ?in = "join ?sep (map (\<lambda>c. body fmt (k c) (t c)) cs)"
    from False obtain c cs' where cs: "cs = c # cs'" by (cases cs) auto
    have whole: "?tx = CHR ''{'' # ?ws @ ?in @ ?fin @ ''}''" using object_body [of cs k fmt d' t] False assms(4) by simp
    have b1: "rest ?b1 = CHR ''{'' # ?ws @ ?in @ ?fin @ CHR ''}'' # r" using b unfolding whole by (simp add: rest_def)
    obtain z where z: "?in @ ?fin @ CHR ''}'' # r = CHR 0x22 # z" using cs by (simp add: body_def quote_def)
    have b1z: "rest ?b1 = CHR ''{'' # ?ws @ CHR 0x22 # z" using b1 z by simp
    then have m: "rest (move 1 ?b1) = ?ws @ CHR 0x22 # z" by simp
    have "buffer_skip_whitespace (move 1 ?b1) = move (length ?ws) (move 1 ?b1)"
      by (rule skip_rest [OF m]) (simp_all add: blank_tabs)
    then have skip: "buffer_skip_whitespace (move 1 ?b1) = move (Suc (length ?ws)) ?b1" by (simp add: move_def)
    have e: "rest (move (Suc (length ?ws)) ?b1) = CHR 0x22 # z" using b1z by simp
    let ?b2 = "move (length ?ws) ?b1"
    have b2: "rest ?b2 = last (CHR ''{'' # ?ws) # [] @ ?in @ ?fin @ CHR ''}'' # r" using b1 drop_last [of ?ws "CHR ''{''"] by simp
    have ch: "\<forall>c \<in> set cs. reads_back pv (depth ?b2) c (t c) \<and> starts (t c) \<and> nul_free (k c) \<and> cj_string c = Some (k c)"
      using assms(4) d by simp
    have "ends (?fin @ ''}'')" by (simp add: ends_def newline_def tabs_def)
    from members_read [OF assms(1) _ _ _ this False ch assms(3) b2, of ?ws "[]"]
    obtain b' where b': "parse_members pv mem_ok n [] ?b2 = Inr (True, cs, b')" "ahead (1 + length ?in + length ?fin) ?b2 b'"
      by (auto simp: blank_tabs)
    have far: "ahead (length ?ws + (1 + length ?in + length ?fin)) ?b1 b'" by (rule ahead_trans [OF ahead_move b'(2)])
    have "rest b' = CHR ''}'' # r"
      by (rule rest_after [of "CHR ''{'' # ?ws @ ?in @ ?fin"]) (use far b1 in \<open>simp_all add: algebra_simps\<close>)
    note close = close_list_at [OF this]
    have "parse_object pv mem_ok n ?item b = close_list cJSON_Object (CHR ''}'') ?item (True, cs, b')"
      using assms(2) d [symmetric] rest_Cons [OF b1] rest_Cons [OF e] b'(1)
      by (simp add: parse_object_def Let_def skip [simplified] step_back_move)
    with ahead_depth [OF far refl] whole show ?thesis by (simp add: close algebra_simps)
  qed
  then show "\<exists>b'. parse_object pv mem_ok n (CJson ty None 0 0 (cj_string (CJson cJSON_Object None 0 0 st cs)) []) b =
      Inr (True, CJson cJSON_Object None 0 0 st cs, b') \<and> ahead (length ?tx) b b'" by simp
qed


section \<open>Values\<close>

text \<open>
  The trees the parser builds from printed text: exact types, no flags, no stale members,
  saturated numbers, names exactly in objects, strings without a null byte.
\<close>

primrec canonical :: "('d :: zero) numbers \<Rightarrow> 'd formats \<Rightarrow> 'd cjson \<Rightarrow> bool" where
  "canonical nl nf (CJson ty vs vi vd st ch) \<longleftrightarrow>
     pred_option nul_free st \<and>
     (ty \<in> {cJSON_NULL, cJSON_False} \<and> vs = None \<and> vi = 0 \<and> vd = 0 \<and> ch = [] \<or>
      ty = cJSON_True \<and> vs = None \<and> vi = 1 \<and> vd = 0 \<and> ch = [] \<or>
      ty = cJSON_Number \<and> vs = None \<and> vi = saturated nl vd \<and> number_back nl nf vd \<and> ch = [] \<or>
      ty = cJSON_String \<and> vs \<noteq> None \<and> pred_option nul_free vs \<and> vi = 0 \<and> vd = 0 \<and> ch = [] \<or>
      ty = cJSON_Array \<and> vs = None \<and> vi = 0 \<and> vd = 0 \<and> list_all (canonical nl nf) ch \<and> (\<forall>c \<in> set ch. cj_string c = None) \<or>
      ty = cJSON_Object \<and> vs = None \<and> vi = 0 \<and> vd = 0 \<and> list_all (canonical nl nf) ch \<and> (\<forall>c \<in> set ch. cj_string c \<noteq> None))"

text \<open>How deep the arrays and objects of a tree are nested.\<close>

primrec nesting :: "'d cjson \<Rightarrow> nat" where
  "nesting (CJson ty vs vi vd st ch) =
     (if ty = cJSON_Array \<or> ty = cJSON_Object then foldr max (map nesting ch) 0 + 1 else 0)"

lemma foldr_max: "c \<in> set cs \<Longrightarrow> f c \<le> foldr max (map f cs) (0 :: nat)"
  by (induction cs) auto

lemma render_flat:
  "render nf fmt (CJson cJSON_NULL vs vi vd st ch) d = ''null''"
  "render nf fmt (CJson cJSON_False vs vi vd st ch) d = ''false''"
  "render nf fmt (CJson cJSON_True vs vi vd st ch) d = ''true''"
  "render nf fmt (CJson cJSON_Number vs vi vd st ch) d = number_text nf vd"
  "render nf fmt (CJson cJSON_String vs vi vd st ch) d = quote vs"
  by simp_all

lemma render_array: "render nf fmt (CJson cJSON_Array vs vi vd st ch) d = array_text fmt (map (\<lambda>c. render nf fmt c (d + 1)) ch)"
  by (simp add: comp_def)

lemma render_object: "render nf fmt (CJson cJSON_Object vs vi vd st ch) d =
    object_text fmt d (map (\<lambda>c. member_text fmt (d + 1) (cj_string c) (render nf fmt c (d + 1))) ch)"
  by (simp add: zip_same comp_def)

lemma starts_Cons: "of_char c > (32 :: nat) \<Longrightarrow> of_char c < (128 :: nat) \<Longrightarrow> c \<noteq> CHR '']'' \<Longrightarrow> c \<noteq> CHR ''}'' \<Longrightarrow> starts (c # r)"
  by (simp add: starts_def)

lemma starts_render: "canonical nl nf j \<Longrightarrow> starts (render nf fmt j d)"
proof (cases j)
  case (CJson ty vs vi vd st ch)
  assume c: "canonical nl nf j"
  have num: "starts (number_text nf vd)" if "number_back nl nf vd"
    using that by (cases "number_text nf vd") (auto simp: number_back_def Let_def intro!: starts_Cons)
  show ?thesis using c num starts_quote [of vs "[]"] unfolding CJson
    by (auto simp: render_array render_object array_text_def object_text_def Let_def intro!: starts_Cons simp del: render.simps)
      (simp_all add: starts_Cons)
qed

lemma length_join: "c \<in> set cs \<Longrightarrow> length (t c) \<le> length (join sep (map t cs))"
  "\<forall>c \<in> set cs. t c \<noteq> [] \<Longrightarrow> length cs \<le> length (join sep (map t cs))"
proof -
  show "c \<in> set cs \<Longrightarrow> length (t c) \<le> length (join sep (map t cs))"
    by (induction cs) auto
  show "\<forall>c \<in> set cs. t c \<noteq> [] \<Longrightarrow> length cs \<le> length (join sep (map t cs))"
  proof (induction cs)
    case (Cons c cs)
    then have "1 \<le> length (t c)" by (simp add: Suc_le_eq)
    with Cons show ?case by (cases cs) auto
  qed simp
qed

lemma not_word: "rest b = c # r \<Longrightarrow> s = c' # s' \<Longrightarrow> c \<noteq> c' \<Longrightarrow> \<not> at_word b s"
  by (simp add: at_word_rest)

text \<open>Which function the first character of a value selects.\<close>

lemma dispatch:
  assumes b: "rest b = c # r"
  shows "c = CHR 0x22 \<Longrightarrow> parse_value nl mem_ok (Suc n) item b = parse_string mem_ok item b"
    "c \<in> set ''-0123456789'' \<Longrightarrow> parse_value nl mem_ok (Suc n) item b = Inr (parse_number nl item b)"
    "c = CHR ''['' \<Longrightarrow> parse_value nl mem_ok (Suc n) item b = parse_array (parse_value nl mem_ok n) mem_ok n item b"
    "c = CHR ''{'' \<Longrightarrow> parse_value nl mem_ok (Suc n) item b = parse_object (parse_value nl mem_ok n) mem_ok n item b"
proof -
  have w: "\<not> at_word b ''null''" "\<not> at_word b ''false''" "\<not> at_word b ''true''" if "c \<notin> {CHR ''n'', CHR ''f'', CHR ''t''}"
    using not_word [OF b] that by auto
  note r = rest_Cons [OF b]
  show "c = CHR 0x22 \<Longrightarrow> parse_value nl mem_ok (Suc n) item b = parse_string mem_ok item b"
    "c = CHR ''['' \<Longrightarrow> parse_value nl mem_ok (Suc n) item b = parse_array (parse_value nl mem_ok n) mem_ok n item b"
    "c = CHR ''{'' \<Longrightarrow> parse_value nl mem_ok (Suc n) item b = parse_object (parse_value nl mem_ok n) mem_ok n item b"
    using w r by simp_all
  assume c: "c \<in> set ''-0123456789''"
  then have n: "c \<notin> {CHR ''n'', CHR ''f'', CHR ''t''}" "c \<noteq> CHR 0x22" by auto
  have "\<not> at_char b (CHR 0x22)" "can_access_at_index b 0 \<and> content b ! offset b \<in> set ''-0123456789''"
    using r c n(2) by (simp_all del: list.set)
  then show "parse_value nl mem_ok (Suc n) item b = Inr (parse_number nl item b)"
    using w [OF n(1)] by (simp del: list.set)
qed

lemma word_value:
  shows "at_word b ''null'' \<Longrightarrow> parse_value nl mem_ok (Suc n) item b = Inr (True, with_type cJSON_NULL item, move 4 b)"
    and "\<not> at_word b ''null'' \<Longrightarrow> at_word b ''false'' \<Longrightarrow>
      parse_value nl mem_ok (Suc n) item b = Inr (True, with_type cJSON_False item, move 5 b)"
    and "\<not> at_word b ''null'' \<Longrightarrow> \<not> at_word b ''false'' \<Longrightarrow> at_word b ''true'' \<Longrightarrow>
      parse_value nl mem_ok (Suc n) item b = Inr (True, with_valueint 1 (with_type cJSON_True item), move 4 b)"
  by simp_all

lemma literals_read:
  "reads_back (parse_value nl mem_ok (Suc n)) d (CJson cJSON_NULL None 0 0 st []) ''null''"
  "reads_back (parse_value nl mem_ok (Suc n)) d (CJson cJSON_False None 0 0 st []) ''false''"
  "reads_back (parse_value nl mem_ok (Suc n)) d (CJson cJSON_True None 1 0 st []) ''true''"
  unfolding reads_back_def
  by (simp_all add: word_value at_word_rest with_type_def with_valueint_def ahead_def del: parse_value.simps)

lemma strings_read:
  assumes "\<forall>i. mem_ok i" and "nul_free s"
  shows "reads_back (parse_value nl mem_ok (Suc n)) d (CJson cJSON_String (Some s) 0 0 st []) (quote (Some s))"
  unfolding reads_back_def
proof (intro allI impI)
  fix ty b r assume b: "rest b = quote (Some s) @ r"
  then obtain r' where "rest b = CHR 0x22 # r'" by (simp add: quote_def)
  note run = dispatch(1) [OF this refl]
  from parse_string_reads [OF b assms(2,1), of "CJson ty None 0 0 st []"]
  show "\<exists>b'. parse_value nl mem_ok (Suc n) (CJson ty None 0 0 (cj_string (CJson cJSON_String (Some s) 0 0 st [])) []) b
      = Inr (True, CJson cJSON_String (Some s) 0 0 st [], b') \<and> ahead (length (quote (Some s))) b b'"
    by (simp add: run del: parse_value.simps)
qed

lemma numbers_read:
  assumes "number_back nl nf x"
  shows "reads_back (parse_value nl mem_ok (Suc n)) d (CJson cJSON_Number None (saturated nl x) x st []) (number_text nf x)"
  unfolding reads_back_def
proof (intro allI impI)
  fix ty b r assume b: "rest b = number_text nf x @ r" "ends r"
  from assms obtain c s where s: "number_text nf x = c # s" "c \<in> set ''-0123456789''"
    by (cases "number_text nf x") (auto simp: number_back_def Let_def)
  with b have "rest b = c # s @ r" by simp
  note run = dispatch(2) [OF this s(2)]
  from parse_number_reads [OF b(1) assms b(2), of "CJson ty None 0 0 st []"]
  show "\<exists>b'. parse_value nl mem_ok (Suc n) (CJson ty None 0 0 (cj_string (CJson cJSON_Number None (saturated nl x) x st [])) []) b
      = Inr (True, CJson cJSON_Number None (saturated nl x) x st [], b') \<and> ahead (length (number_text nf x)) b b'"
    by (simp add: run ahead_move del: parse_value.simps)
qed

lemma reads_via:
  assumes "reads_back pv d j t" and "t = c # r"
    and "\<And>item b r'. rest b = c # r' \<Longrightarrow> pv' item b = pv item b"
  shows "reads_back pv' d j t"
  using assms by (simp add: reads_back_def)

lemma value_reads:
  assumes "\<forall>i. mem_ok i" and "canonical nl nf j" and "d + nesting j \<le> CJSON_NESTING_LIMIT"
    and "length (render nf fmt j di) \<le> n"
  shows "reads_back (parse_value nl mem_ok (Suc n)) d j (render nf fmt j di)"
  using assms(2-)
proof (induction j arbitrary: d di n)
  case (CJson ty vs vi vd st ch)
  let ?t = "\<lambda>c. render nf fmt c (di + 1)"
  let ?ms = "\<lambda>c. member_text fmt (di + 1) (cj_string c) (?t c)"
  have st: "starts (?t c)" if "canonical nl nf c" for c using that by (rule starts_render)
  then have ne: "?t c \<noteq> []" if "canonical nl nf c" for c using that by (fastforce simp: starts_def)
  have kids: "\<forall>c \<in> set ch. reads_back (parse_value nl mem_ok n) (d + 1) c (?t c)"
    if "ty = cJSON_Array \<or> ty = cJSON_Object" "\<forall>c \<in> set ch. canonical nl nf c" "\<forall>c \<in> set ch. length (?t c) < n"
  proof
    fix c assume c: "c \<in> set ch"
    from that(3) c obtain m where m: "n = Suc m" "length (?t c) \<le> m" by (cases n) auto
    have "d + 1 + nesting c \<le> CJSON_NESTING_LIMIT" using CJson.prems(2) that(1) foldr_max [OF c, of nesting] by auto
    with CJson.IH [OF c _ _ m(2)] that(2) c m(1) show "reads_back (parse_value nl mem_ok n) (d + 1) c (?t c)" by simp
  qed
  have deep: "d < CJSON_NESTING_LIMIT" if "ty = cJSON_Array \<or> ty = cJSON_Object" using CJson.prems(2) that by auto
  consider "ty \<in> {cJSON_NULL, cJSON_False, cJSON_True, cJSON_Number, cJSON_String}" | (array) "ty = cJSON_Array" | (object) "ty = cJSON_Object"
    using CJson.prems(1) by auto
  then show ?case
  proof cases
    case 1
    with CJson.prems(1) show ?thesis
      by (auto simp: render_flat literals_read numbers_read strings_read [OF assms(1)] simp del: render.simps parse_value.simps)
  next
    case array
    with CJson.prems(1) have c: "vs = None" "vi = 0" "vd = 0" "\<forall>c \<in> set ch. canonical nl nf c \<and> cj_string c = None"
      by (simp_all add: list_all_iff)
    let ?tx = "array_text fmt (map ?t ch)"
    have whole: "render nf fmt (CJson ty vs vi vd st ch) di = ?tx" unfolding array by (rule render_array)
    then have len: "length (join (if fmt then '', '' else '','') (map ?t ch)) + 2 \<le> n" using CJson.prems(3) by (simp add: array_text_def)
    have small: "\<forall>c \<in> set ch. length (?t c) < n"
    proof
      fix c assume "c \<in> set ch"
      from length_join(1) [OF this, of ?t] len show "length (?t c) < n" by (meson add_lessD1 le_less_trans less_add_same_cancel1 less_le_trans zero_less_numeral)
    qed
    have count: "length ch \<le> n" using length_join(2) [of ch ?t "if fmt then '', '' else '',''"] ne c(4) len by fastforce
    have "reads_back (parse_array (parse_value nl mem_ok n) mem_ok n) d (CJson cJSON_Array None 0 0 st ch) ?tx"
      by (rule array_reads [OF assms(1) deep count]) (use array kids small c(4) st in auto)
    then show ?thesis unfolding whole unfolding array c(1-3)
      by (rule reads_via) (auto simp: array_text_def dispatch(3) simp del: parse_value.simps)
  next
    case object
    with CJson.prems(1) have c: "vs = None" "vi = 0" "vd = 0" "\<forall>c \<in> set ch. canonical nl nf c \<and> cj_string c \<noteq> None"
      by (simp_all add: list_all_iff)
    let ?tx = "object_text fmt di (map ?ms ch)"
    have whole: "render nf fmt (CJson ty vs vi vd st ch) di = ?tx" unfolding object by (rule render_object)
    then have len: "length (join ('','' @ newline fmt) (map ?ms ch)) + 2 \<le> n" using CJson.prems(3) by (simp add: object_text_def)
    have small: "\<forall>c \<in> set ch. length (?t c) < n"
    proof
      fix c assume "c \<in> set ch"
      from length_join(1) [OF this, of ?ms "'','' @ newline fmt"] len show "length (?t c) < n" by (simp add: member_text_def)
    qed
    have count: "length ch \<le> n"
      using length_join(2) [of ch ?ms "'','' @ newline fmt"] len by (simp add: member_text_def quote_def)
    have names: "nul_free (the (cj_string c))" if "canonical nl nf c" "cj_string c \<noteq> None" for c
      using that by (cases c) auto
    have "reads_back (parse_object (parse_value nl mem_ok n) mem_ok n) d (CJson cJSON_Object None 0 0 st ch) ?tx"
      by (rule object_reads [where k = "\<lambda>c. the (cj_string c)", OF assms(1) deep count]) (use object kids small c(4) st names in auto)
    then show ?thesis unfolding whole unfolding object c(1-3)
      by (rule reads_via) (auto simp: object_text_def dispatch(4) simp del: parse_value.simps)
  qed
qed

section \<open>Documents\<close>

lemma canonical_printable: "canonical nl nf j \<Longrightarrow> printable j \<and> c_strings j"
proof (induction j)
  case (CJson ty vs vi vd st ch)
  then have "\<forall>c \<in> set ch. canonical nl nf c" by (auto simp: list_all_iff)
  with CJson.IH have "list_all printable ch" "list_all c_strings ch" by (simp_all add: list_all_iff)
  with CJson.prems show ?case by (auto simp: Let_def)
qed

lemma skip_end: "rest b = [CHR 0x00] \<Longrightarrow> buffer_skip_whitespace b = b"
proof -
  assume r: "rest b = [CHR 0x00]"
  have "length (rest b) = 1" using r by simp
  then have "offset b + 1 = length (content b)" by (simp add: rest_def)
  moreover have "takeWhile (\<lambda>c. of_char c \<le> (32 :: nat)) (drop (offset b) (content b)) = [CHR 0x00]"
    using r by (simp add: rest_def)
  ultimately show ?thesis by (simp add: buffer_skip_whitespace_def Let_def step_back_def move_def)
qed

lemma document_read:
  assumes "\<forall>i. mem_ok i" and "canonical nl nf j" and "nesting j \<le> CJSON_NESTING_LIMIT" and "cj_string j = None"
    and "length (render nf fmt j d) < fuel"
  shows "\<exists>doc. cJSON_ParseWithOpts nl mem_ok fuel (Some (render nf fmt j d)) strict = Inr doc \<and> doc_item doc = Some j \<and>
    doc_end doc = length (render nf fmt j d)"
proof -
  let ?t = "render nf fmt j d"
  let ?b = "\<lparr>content = ?t @ [CHR 0x00], offset = 0, depth = 0, requests = 1, live = 1\<rparr>"
  obtain n where n: "fuel = Suc n" "length ?t \<le> n" using assms(5) by (cases fuel) auto
  from starts_render [OF assms(2)] obtain c r where t: "?t = c # r" "of_char c > (32 :: nat)" "of_char c < (128 :: nat)"
    unfolding starts_def by blast
  have b: "rest ?b = ?t @ [CHR 0x00]" by (simp add: rest_def)
  have "c \<noteq> CHR 0xEF" using t(3) by auto
  then have "skip_utf8_bom ?b = Some ?b" using not_word [of ?b c "r @ [CHR 0x00]"] b t(1) by (simp add: skip_utf8_bom_def)
  moreover have "buffer_skip_whitespace ?b = ?b" using skip_rest [of ?b "[]" c "r @ [CHR 0x00]"] b t by (simp add: blank_def)
  moreover have rb: "reads_back (parse_value nl mem_ok (Suc n)) 0 j ?t"
    using value_reads [OF assms(1,2) _ n(2), of 0] assms(3) by simp
  then obtain b' where b': "parse_value nl mem_ok (Suc n) cJSON_New_Item ?b = Inr (True, j, b')" "ahead (length ?t) ?b b'"
    using reads_backD [of _ ?b j ?t "[CHR 0x00]" None cJSON_Invalid] b assms(4) unfolding cJSON_New_Item_def
    by (auto simp: ends_def simp del: parse_value.simps)
  moreover have "rest b' = [CHR 0x00]" by (rule rest_after [OF b'(2) b])
  note skip_end [OF this] rest_Cons(4) [OF this]
  moreover have "offset b' = length ?t" using b'(2) by (simp add: ahead_def)
  ultimately show ?thesis
    using assms(1) unfolding n(1) by (simp add: cJSON_ParseWithOpts_def new_block_def Let_def del: parse_value.simps)
qed

text \<open>
  C10: Printing and parsing are inverse. A tree as the parser builds it (exact types,
  saturated numbers, names exactly in objects, strings of any bytes but null, control
  characters and quotes included), with at most 1000 nested levels and numbers the
  conversions of the C library round-trip, is printed, indented or not, and the text
  parses back to exactly the tree, all of it consumed. With memory granted neither function
  fails.
\<close>

theorem print_parse_roundtrip:
  assumes "formats_ok nf" and "canonical nl nf j" and "nesting j \<le> CJSON_NESTING_LIMIT" and "cj_string j = None"
    and "\<forall>i. grant h i" and "\<forall>i. mem_ok i"
    and "int (length (render nf fmt j 0)) + 3 \<le> INT_MAX" and "length (render nf fmt j 0) < fuel"
  shows "\<exists>t doc. print h nf (Some j) fmt = Inr (Some (t @ [CHR 0x00]), 1) \<and>
    cJSON_ParseWithOpts nl mem_ok fuel (Some t) strict = Inr doc \<and> doc_item doc = Some j \<and> doc_end doc = length t"
proof -
  have p: "printable j" "c_strings j" using canonical_printable [OF assms(2)] by simp_all
  let ?t = "render nf fmt j 0"
  obtain r n where "print h nf (Some j) fmt = Inr (r, n)"
    "case r of Some blk \<Rightarrow> blk = ?t @ [CHR 0x00] \<and> n = 1 | None \<Rightarrow> n = 0 \<or> n = 1 \<and> has_realloc h" "r \<noteq> None"
    using print_renders [OF assms(1) p(2), of h fmt] p(1) assms(5,7) by blast
  then have "print h nf (Some j) fmt = Inr (Some (?t @ [CHR 0x00]), 1)" by auto
  with document_read [OF assms(6,2-4,8)] show ?thesis by blast
qed

theorem print_parse_roundtrip_witness:
  "\<exists>t doc. print \<lparr>grant = (\<lambda>i. True), fresh = (\<lambda>i j. CHR ''x''), has_realloc = True\<rparr> int_formats
      (Some (CJson cJSON_Object None 0 0 None
        [CJson cJSON_Array None 0 0 (Some ''k'') [CJson cJSON_Number None 7 7 None [], CJson cJSON_True None 1 0 None []],
         CJson cJSON_String (Some [CHR 0x22, CHR 0x01]) 0 0 (Some []) []])) True = Inr (Some (t @ [CHR 0x00]), 1) \<and>
    cJSON_ParseWithOpts int_numbers (\<lambda>i. True) 100 (Some t) True = Inr doc \<and>
    doc_item doc = Some (CJson cJSON_Object None 0 0 None
        [CJson cJSON_Array None 0 0 (Some ''k'') [CJson cJSON_Number None 7 7 None [], CJson cJSON_True None 1 0 None []],
         CJson cJSON_String (Some [CHR 0x22, CHR 0x01]) 0 0 (Some []) []]) \<and> doc_end doc = length t"
proof -
  let ?j = "CJson cJSON_Object None 0 0 None
        [CJson cJSON_Array None 0 0 (Some ''k'') [CJson cJSON_Number None 7 7 None [], CJson cJSON_True None 1 0 None []],
         CJson cJSON_String (Some [CHR 0x22, CHR 0x01]) 0 0 (Some []) []] :: int cjson"
  have seven: "char_of (55 :: nat) = CHR ''7''" by code_simp
  have digit: "of_char (CHR ''7'') = (55 :: int)" by code_simp
  have num: "number_text int_formats 7 = ''7''" by (simp add: number_text_def int_formats_def seven)
  have again: "number_back int_numbers int_formats 7"
    unfolding number_back_def num by (simp add: int_numbers_def number_char_def digit)
  have sat: "saturated int_numbers 7 = 7" by (simp add: saturated_def int_numbers_def INT_MAX_def INT_MIN_def)
  have can: "canonical int_numbers int_formats ?j" by (simp add: again sat nul_free_def)
  have shallow: "nesting ?j \<le> CJSON_NESTING_LIMIT" by (simp add: CJSON_NESTING_LIMIT_def)
  have len: "length (render int_formats True ?j 0) < 100"
    by (simp add: num array_text_def object_text_def member_text_def tabs_def newline_def quote_def length_escape)
       (simp add: escape_extra_def escape_letter_def)
  have "int k + 3 \<le> INT_MAX" if "k < 100" for k using that by (simp add: INT_MAX_def)
  from this [OF len] have "int (length (render int_formats True ?j 0)) + 3 \<le> INT_MAX" .
  from print_parse_roundtrip [OF int_formats_ok can shallow _ _ _ this len,
      of "\<lparr>grant = (\<lambda>i. True), fresh = (\<lambda>i j. CHR ''x''), has_realloc = True\<rparr>" "\<lambda>i. True" True]
  show ?thesis by simp
qed

end
