(* ===== verification/Program_File.thy ===== *)
theory Program_File
  imports Loader_Spec CJson_Roundtrip
begin

text \<open>
  The program file of the switch: how \<open>fb_worker_main_loop\<close> of SW-FB/flowblaze.c reads it into
  memory, parses it and loads the stages; what comes of the text of a program, and of a
  file that is no JSON document.
\<close>

text \<open>
  The block holds the bytes of the file and one more that is not initialised; the parser
  looks for a terminator.
\<close>

definition file_string :: "char \<Rightarrow> string \<Rightarrow> string res" where
  "file_string junk file =
     (let block = file @ [junk] in
      if CHR 0x00 \<in> set block then Inr (before_nul block) else Inl (UB OutOfBounds))"

definition load_file ::
  "('d :: zero) numbers \<Rightarrow> (nat \<Rightarrow> bool) \<Rightarrow> nat \<Rightarrow> loader_env \<Rightarrow> 'h dpdk \<Rightarrow> char \<Rightarrow> string \<Rightarrow> obj_name list \<Rightarrow>
     (obj_name list \<times> 'h xfsm_pipeline) res" where
  "load_file nl mem_ok fuel env d junk file names =
     res_bind (file_string junk file) (\<lambda>s.
     res_bind (cJSON_Parse nl mem_ok fuel (Some s)) (\<lambda>doc. load_pipeline env d (doc_item doc) names))"

section \<open>The text of a program\<close>

lemma nul_free_decimal [simp]: "nul_free (decimal n)"
  using decimal_props [of n] by (auto simp: nul_free_def isdigit_def)

lemma nul_free_names [simp]:
  "nul_free (field_name h)" "nul_free (test_name ct)" "nul_free (opcode_name opc)" "nul_free (result_name r)"
proof -
  show "nul_free (field_name h)" by (cases h) (simp_all add: field_name_def field_names_def)
  show "nul_free (test_name ct)" by (cases ct) simp_all
  show "nul_free (opcode_name opc)" by (cases opc) simp_all
  show "nul_free (result_name r)" by (cases r) (simp_all add: result_name_def)
qed

lemma canonical_nodes [simp]:
  "canonical nl nf (str_node k s) \<longleftrightarrow> nul_free k \<and> nul_free s"
  "canonical nl nf (obj_node ko cs) \<longleftrightarrow> pred_option nul_free ko \<and> (\<forall>c \<in> set cs. canonical nl nf c \<and> cj_string c \<noteq> None)"
  "canonical nl nf (arr_node k cs) \<longleftrightarrow> nul_free k \<and> (\<forall>c \<in> set cs. canonical nl nf c \<and> cj_string c = None)"
  by (auto simp: str_node_def obj_node_def arr_node_def list_all_iff)

lemma canonical_operand [simp]: "canonical nl nf (operand_json k p) \<longleftrightarrow> nul_free k"
  by (cases p) (simp_all add: operand_json_def)

lemma canonical_register [simp]: "canonical nl nf (register_json k g r) \<longleftrightarrow> nul_free k"
  by (simp add: register_json_def)

lemma unnamed_parts [simp]:
  "cj_string (condition_json c) = None" "cj_string (action_json a) = None" "cj_string (result_json r) = None"
  "cj_string (row_json w) = None" "cj_string (key_json h) = None"
  by (simp_all add: condition_json_def action_json_def result_json_def row_json_def key_json_def split_beta)

lemma canonical_parts [simp]:
  "canonical nl nf (condition_json c)" "canonical nl nf (action_json a)" "canonical nl nf (result_json r)"
  "canonical nl nf (key_json h)"
  by (simp_all add: condition_json_def action_json_def result_json_def key_json_def split_beta split: action_src.splits)

lemma canonical_row [simp]: "canonical nl nf (row_json w)"
  by (simp add: row_json_def)

lemma canonical_program: "canonical nl nf (program_json ts)" "cj_string (program_json ts) = None"
  by (simp_all add: program_json_def table_json_def)

text \<open>Programs are nested nine levels deep.\<close>

lemma nesting_nodes [simp]:
  "nesting (str_node k s) = 0"
  "nesting (obj_node ko cs) \<le> Suc n \<longleftrightarrow> (\<forall>c \<in> set cs. nesting c \<le> n)"
  "nesting (arr_node k cs) \<le> Suc n \<longleftrightarrow> (\<forall>c \<in> set cs. nesting c \<le> n)"
proof -
  have "foldr max (map nesting cs) 0 \<le> n \<longleftrightarrow> (\<forall>c \<in> set cs. nesting c \<le> n)" by (induction cs) auto
  then show "nesting (str_node k s) = 0"
    "nesting (obj_node ko cs) \<le> Suc n \<longleftrightarrow> (\<forall>c \<in> set cs. nesting c \<le> n)"
    "nesting (arr_node k cs) \<le> Suc n \<longleftrightarrow> (\<forall>c \<in> set cs. nesting c \<le> n)"
    by (simp_all add: str_node_def obj_node_def arr_node_def)
qed

lemma nesting_leaves [simp]:
  "nesting (operand_json k p) \<le> Suc n" "nesting (register_json k g r) \<le> Suc n"
  "nesting (condition_json c) \<le> Suc (Suc n)" "nesting (action_json a) \<le> Suc (Suc n)"
  "nesting (result_json ir) \<le> Suc n" "nesting (key_json h) \<le> Suc n"
  by (auto simp: operand_json_def register_json_def condition_json_def action_json_def result_json_def key_json_def
      split: operand.splits action_src.splits prod.splits)

lemma nesting_program: "nesting (program_json ts) \<le> CJSON_NESTING_LIMIT"
proof -
  have "nesting (program_json ts) \<le> Suc (Suc (Suc (Suc (Suc (Suc (Suc (Suc (Suc 0))))))))"
    by (simp add: program_json_def table_json_def row_json_def)
  also have "\<dots> \<le> CJSON_NESTING_LIMIT" by (simp add: CJSON_NESTING_LIMIT_def)
  finally show ?thesis .
qed

lemma nul_free_join [simp]: "nul_free sep \<Longrightarrow> nul_free (join sep ts) \<longleftrightarrow> (\<forall>t \<in> set ts. nul_free t)"
  by (induction ts) auto

lemma nul_free_spaces [simp]: "nul_free (tabs fmt n)" "nul_free (newline fmt)"
  by (simp_all add: tabs_def newline_def nul_free_def)

lemma canonical_name: "canonical nl nf c \<Longrightarrow> pred_option nul_free (cj_string c)"
  by (cases c) simp

lemma nul_free_render: "formats_ok nf \<Longrightarrow> canonical nl nf j \<Longrightarrow> nul_free (render nf fmt j d)"
proof (induction j arbitrary: d)
  case (CJson ty vs vi vd st ch)
  have kids: "\<forall>c \<in> set ch. nul_free (render nf fmt c (d + 1)) \<and> nul_free (quote (cj_string c))"
    if "\<forall>c \<in> set ch. canonical nl nf c"
  proof
    fix c assume c: "c \<in> set ch"
    then have "pred_option nul_free (cj_string c)" using that canonical_name by blast
    with CJson.IH [OF c CJson.prems(1)] that c show "nul_free (render nf fmt c (d + 1)) \<and> nul_free (quote (cj_string c))"
      by (simp add: nul_free_quote)
  qed
  have num: "nul_free (number_text nf vd)" using CJson.prems(1) by (simp add: formats_ok_def)
  consider "ty \<in> {cJSON_NULL, cJSON_False, cJSON_True, cJSON_Number, cJSON_String}"
    | (array) "ty = cJSON_Array" | (object) "ty = cJSON_Object"
    using CJson.prems(2) by auto
  then show ?case
  proof cases
    case 1
    then show ?thesis using num CJson.prems(2) by (auto simp: render_flat nul_free_quote simp del: render.simps)
  next
    case array
    with CJson.prems(2) kids show ?thesis unfolding array render_array
      by (auto simp: array_text_def list_all_iff)
  next
    case object
    with CJson.prems(2) kids show ?thesis unfolding object render_object
      by (auto simp: object_text_def member_text_def list_all_iff)
  qed
qed

text \<open>The text of a program is read to its document.\<close>

lemma load_text:
  fixes nl :: "('d :: zero) numbers"
  assumes "file_string junk file = Inr (render nf fmt (program_json ts :: 'd cjson) 0)" and "\<forall>i. mem_ok i"
    and "length (render nf fmt (program_json ts :: 'd cjson) 0) < fuel"
  shows "load_file nl mem_ok fuel env d junk file names = load_pipeline env d (Some (program_json ts :: 'd cjson)) names"
proof -
  obtain doc :: "'d parsed_document" where "cJSON_Parse nl mem_ok fuel (Some (render nf fmt (program_json ts :: 'd cjson) 0)) = Inr doc"
    "doc_item doc = Some (program_json ts)"
    using document_read [OF assms(2) canonical_program(1) nesting_program canonical_program(2) assms(3), of nl]
    unfolding cJSON_Parse_def by blast
  with assms(1) show ?thesis by (simp add: load_file_def)
qed

lemma before_nul_free: "nul_free s \<Longrightarrow> before_nul (s @ CHR 0x00 # r) = s"
  unfolding before_nul_def by (subst takeWhile_append2) (auto simp: nul_free_def)

lemma terminated_file: "nul_free s \<Longrightarrow> file_string (CHR 0x00) s = Inr s"
  by (simp add: file_string_def Let_def before_nul_free)

text \<open>
  Files that hold no program. The switch parses any file without leaving its block when
  the byte behind it happens to be null, and reads past the block when neither it nor the
  file holds a null byte. It does not test whether the document parsed: then it enters the
  loop with no stage at all, and the first packet dereferences a NULL table.
\<close>

theorem unparsable_program_crashes:
  assumes "strtod_ok nl" and "length file + 2 \<le> fuel" and "CHR 0x00 \<notin> set file"
  shows "(junk \<noteq> CHR 0x00 \<longrightarrow> load_file nl mem_ok fuel env d junk file names = Inl (UB OutOfBounds)) \<and>
    (\<exists>doc. cJSON_Parse nl mem_ok fuel (Some file) = Inr doc \<and>
      (doc_item doc = None \<longrightarrow>
        (\<exists>p. load_file nl mem_ok fuel env d (CHR 0x00) file names = Inr (names, p) \<and> num_stages p = 0 \<and>
          process_packet (Suc stages) d cur_tsc i m (fresh_worker p) = Inl (UB NullPtr))))"
proof
  show "junk \<noteq> CHR 0x00 \<longrightarrow> load_file nl mem_ok fuel env d junk file names = Inl (UB OutOfBounds)"
    using assms(3) by (auto simp: load_file_def file_string_def)
  from parser_total [OF assms(1,3,2), of mem_ok False] obtain doc
    where doc: "cJSON_Parse nl mem_ok fuel (Some file) = Inr doc"
    unfolding cJSON_Parse_def by blast
  let ?p = "\<lparr>tables = replicate MAX_STAGES None, num_stages = 0\<rparr>"
  have "load_file nl mem_ok fuel env d (CHR 0x00) file names = Inr (names, ?p)" if "doc_item doc = None"
    using doc terminated_file [of "file"] assms(3) that
    by (simp add: load_file_def load_pipeline_def cJSON_elements_def nul_free_def)
  moreover have "process_packet (Suc stages) d cur_tsc i m (fresh_worker ?p) = Inl (UB NullPtr)"
    by (simp add: process_packet_def run_stages.simps process_stage_def fresh_worker_def)
  ultimately show "\<exists>doc. cJSON_Parse nl mem_ok fuel (Some file) = Inr doc \<and>
      (doc_item doc = None \<longrightarrow>
        (\<exists>p. load_file nl mem_ok fuel env d (CHR 0x00) file names = Inr (names, p) \<and> num_stages p = 0 \<and>
          process_packet (Suc stages) d cur_tsc i m (fresh_worker p) = Inl (UB NullPtr)))"
    using doc by auto
qed

lemma no_document: "\<exists>doc. cJSON_Parse int_numbers (\<lambda>i. True) 9 (Some ''x'') = Inr doc \<and> doc_item doc = None"
  by (simp add: cJSON_Parse_def cJSON_ParseWithOpts_def new_block_def skip_utf8_bom_def can_access_at_index_def
      buffer_skip_whitespace_def at_char_def at_word_def can_read_def Let_def move_def eval_nat_numeral)

theorem unparsable_program_crashes_witness:
  "\<exists>p. load_file int_numbers (\<lambda>i. True) 9 demo_env slot_dpdk (CHR 0x00) ''x'' [] = Inr ([], p) \<and> num_stages p = 0 \<and>
     process_packet 8 slot_dpdk 5 0 3 (fresh_worker p) = Inl (UB NullPtr)"
proof -
  from no_document obtain doc where doc: "cJSON_Parse int_numbers (\<lambda>i. True) 9 (Some ''x'') = Inr doc" "doc_item doc = None"
    by blast
  have "length ''x'' + 2 \<le> 9" "CHR 0x00 \<notin> set ''x''" by simp_all
  from unparsable_program_crashes [OF int_numbers_ok this, of "CHR ''y''" "\<lambda>i. True" demo_env slot_dpdk "[]" 7 5 0 3] doc
  show ?thesis by (auto simp: eval_nat_numeral)
qed

end
