(* ===== verification/Startup.thy ===== *)
theory Startup
  imports Program_File
begin

text \<open>
  The start of the switch: \<open>main\<close> and \<open>flowblaze_parse_args\<close> of SW-FB/flowblaze.c. The
  environment layer of DPDK and \<open>getopt_long\<close> are parameters: a record of what the calls
  return, which may depend on all calls made before. The model records the calls; when the
  process exits, the result is what had been called by then.
\<close>

section \<open>The environment\<close>

text \<open>
  \<open>Dev_Configure\<close>: the port, its queues in each direction, the transmit offloads, and the hash
  key of receive-side scaling if that is on.
\<close>

datatype eth_call =
    Eal_Init nat
  | Mbuf_Pool u32
  | Dev_Configure nat u16 u64 "u8 list option"
  | Adjust_Desc nat
  | Rx_Queue nat nat
  | Tx_Queue nat nat u64
  | Tx_Buffer nat
  | Buffer_Init nat
  | Dev_Start nat
  | Promiscuous nat
  | Remote_Launch
  | Wait_Lcore nat
  | Dev_Stop nat
  | Dev_Close nat

text \<open>A negative result stands for a NULL pointer too.\<close>

record eal =
  call_result :: "eth_call list \<Rightarrow> eth_call \<Rightarrow> int"
  count_avail :: u16
  eth_devs :: "nat list"
  lcore_count :: u32
  slave_lcores :: "nat list"
  timer_hz :: u64
  tx_capa :: "nat \<Rightarrow> u64"
  MBUF_FAST_FREE :: u64
  IPV4_CKSUM :: u64

text \<open>\<open>Inl tr\<close>: the process has exited after the calls \<open>tr\<close>.\<close>

type_synonym 'a starting = "eth_call list + 'a"

definition boot_bind :: "'a starting \<Rightarrow> ('a \<Rightarrow> 'b starting) \<Rightarrow> 'b starting" where
  "boot_bind m f = (case m of Inl tr \<Rightarrow> Inl tr | Inr x \<Rightarrow> f x)"

primrec boot_each :: "('e \<Rightarrow> 's \<Rightarrow> 's starting) \<Rightarrow> 'e list \<Rightarrow> 's \<Rightarrow> 's starting" where
  "boot_each f [] s = Inr s"
| "boot_each f (x # xs) s = boot_bind (f x s) (boot_each f xs)"

definition checked :: "eal \<Rightarrow> eth_call \<Rightarrow> eth_call list \<Rightarrow> eth_call list starting" where
  "checked e c tr = (if call_result e tr c < 0 then Inl (tr @ [c]) else Inr (tr @ [c]))"

definition call_only :: "eth_call \<Rightarrow> eth_call list \<Rightarrow> eth_call list starting" where
  "call_only c tr = Inr (tr @ [c])"

section \<open>Arguments\<close>

text \<open>
  The options \<open>getopt_long\<close> delivers, in order. \<open>strncpy(file_path, optarg, strnlen(optarg, 63))\<close>
  writes no terminator: the bytes behind stay.
\<close>

datatype arg_option = File_Option string | Missing_Argument | Other_Option

definition set_file_path :: "string \<Rightarrow> string \<Rightarrow> string" where
  "set_file_path optarg file_path =
     (let n = min (length optarg) 63 in take n optarg @ drop n file_path)"

fun flowblaze_parse_args :: "arg_option list \<Rightarrow> string \<Rightarrow> string option" where
  "flowblaze_parse_args [] file_path = Some file_path"
| "flowblaze_parse_args (File_Option optarg # opts) file_path = flowblaze_parse_args opts (set_file_path optarg file_path)"
| "flowblaze_parse_args (Missing_Argument # opts) file_path = None"
| "flowblaze_parse_args (Other_Option # opts) file_path = None"

section \<open>Ports\<close>

text \<open>The members of \<open>port_conf\<close> that the programs of the switch set differently.\<close>

record port_conf =
  tx_offloads :: u64
  rss_key :: "u8 list option"

definition port_conf_offloads :: "eal \<Rightarrow> port_conf \<Rightarrow> nat \<Rightarrow> u64" where
  "port_conf_offloads e pc portid =
     (if tx_capa e portid AND MBUF_FAST_FREE e \<noteq> 0 then tx_offloads pc OR MBUF_FAST_FREE e else tx_offloads pc)"

definition init_port :: "eal \<Rightarrow> port_conf \<Rightarrow> nat \<Rightarrow> eth_call list \<Rightarrow> eth_call list starting" where
  "init_port e pc portid tr =
     (let nb_lcores = lcore_count e; offloads = port_conf_offloads e pc portid; queues = [0..<unat nb_lcores] in
      boot_bind (checked e (Dev_Configure portid (ucast nb_lcores) offloads (rss_key pc)) tr) (\<lambda>tr.
      boot_bind (checked e (Adjust_Desc portid) tr) (\<lambda>tr.
      boot_bind (boot_each (\<lambda>i. checked e (Rx_Queue portid i)) queues tr) (\<lambda>tr.
      boot_bind (boot_each (\<lambda>i. checked e (Tx_Queue portid i offloads)) queues tr) (\<lambda>tr.
      boot_bind (checked e (Tx_Buffer portid) tr) (\<lambda>tr.
      boot_bind (call_only (Buffer_Init portid) tr) (\<lambda>tr.
      boot_bind (checked e (Dev_Start portid) tr) (\<lambda>tr.
      call_only (Promiscuous portid) tr))))))))"

section \<open>The program\<close>

abbreviation (input) RX_DESC :: u32 where "RX_DESC \<equiv> 4096"
abbreviation (input) TX_DESC :: u32 where "TX_DESC \<equiv> 4096"
abbreviation (input) MAX_PKT_BURST :: u32 where "MAX_PKT_BURST \<equiv> 32"
abbreviation (input) CACHE_LINE_SIZE :: u32 where "CACHE_LINE_SIZE \<equiv> 64"

definition nb_mbufs :: "u16 \<Rightarrow> u32 \<Rightarrow> u32" where
  "nb_mbufs nb_ports nb_lcores =
     max (ucast nb_ports * (RX_DESC + TX_DESC + MAX_PKT_BURST + nb_lcores * CACHE_LINE_SIZE)) 8192"

record lcore_conf =
  n_rx_port :: u32
  queue_id :: u32

record started =
  queue_confs :: "lcore_conf list"
  period_cycles :: u64
  program_path :: string
  exit_status :: int
  boot_trace :: "eth_call list"

text \<open>\<open>RTE_LCORE_FOREACH_SLAVE\<close>: the wait stops at the first lcore that failed.\<close>

primrec wait_lcores :: "eal \<Rightarrow> nat list \<Rightarrow> eth_call list \<Rightarrow> int \<times> eth_call list" where
  "wait_lcores e [] tr = (0, tr)"
| "wait_lcores e (l # ls) tr =
     (if call_result e tr (Wait_Lcore l) < 0 then (-1, tr @ [Wait_Lcore l])
      else wait_lcores e ls (tr @ [Wait_Lcore l]))"

definition close_ports :: "nat list \<Rightarrow> eth_call list \<Rightarrow> eth_call list" where
  "close_ports ps tr = tr @ concat (map (\<lambda>p. [Dev_Stop p, Dev_Close p]) ps)"

text \<open>From the count of the ports to the end.\<close>

definition run_ports :: "eal \<Rightarrow> port_conf \<Rightarrow> string \<Rightarrow> eth_call list \<Rightarrow> started starting" where
  "run_ports e pc file_path tr =
     (if count_avail e = 0 then Inl tr
      else
        boot_bind (checked e (Mbuf_Pool (nb_mbufs (count_avail e) (lcore_count e))) tr) (\<lambda>tr.
        boot_bind (boot_each (init_port e pc) (eth_devs e) tr) (\<lambda>tr.
        if eth_devs e = [] then Inl tr
        else
          (case wait_lcores e (slave_lcores e) (tr @ [Remote_Launch]) of
             (ret, tr) \<Rightarrow>
               Inr \<lparr>queue_confs = map (\<lambda>i. \<lparr>n_rx_port = ucast (count_avail e), queue_id = of_nat i\<rparr>) [0..<unat (lcore_count e)],
                    period_cycles = 10 * timer_hz e, program_path = file_path, exit_status = ret,
                    boot_trace = close_ports (eth_devs e) tr\<rparr>))))"

abbreviation (input) flowblaze_conf :: "eal \<Rightarrow> port_conf" where
  "flowblaze_conf e \<equiv> \<lparr>tx_offloads = IPV4_CKSUM e, rss_key = None\<rparr>"

definition flowblaze_main :: "eal \<Rightarrow> nat \<Rightarrow> arg_option list \<Rightarrow> started starting" where
  "flowblaze_main e argc opts =
     boot_bind (checked e (Eal_Init argc) []) (\<lambda>tr.
     if int argc - call_result e [] (Eal_Init argc) = 1 then Inl tr
     else case flowblaze_parse_args opts (replicate 256 (CHR 0x00)) of
       None \<Rightarrow> Inl tr
     | Some file_path \<Rightarrow> run_ports e (flowblaze_conf e) file_path tr)"

section \<open>Lemmas\<close>

lemma boot_bind_Inr: "boot_bind m f = Inr y \<longleftrightarrow> (\<exists>x. m = Inr x \<and> f x = Inr y)"
  by (cases m) (auto simp: boot_bind_def)

text \<open>The calls whose result the program tests, and the traces in which all of them succeeded.\<close>

definition tested :: "eth_call \<Rightarrow> bool" where
  "tested c \<longleftrightarrow> (case c of Buffer_Init _ \<Rightarrow> False | Promiscuous _ \<Rightarrow> False | Remote_Launch \<Rightarrow> False
     | Wait_Lcore _ \<Rightarrow> False | Dev_Stop _ \<Rightarrow> False | Dev_Close _ \<Rightarrow> False | _ \<Rightarrow> True)"

definition all_succeeded :: "eal \<Rightarrow> eth_call list \<Rightarrow> bool" where
  "all_succeeded e tr \<longleftrightarrow> (\<forall>i < length tr. tested (tr ! i) \<longrightarrow> 0 \<le> call_result e (take i tr) (tr ! i))"

lemma all_succeeded_snoc:
  "all_succeeded e (tr @ [c]) \<longleftrightarrow> all_succeeded e tr \<and> (tested c \<longrightarrow> 0 \<le> call_result e tr c)"
  by (auto simp: all_succeeded_def nth_append less_Suc_eq)

text \<open>What a step does: it appends its calls, all successful, or exits without a launch.\<close>

definition does :: "eal \<Rightarrow> eth_call list \<Rightarrow> (eth_call list \<Rightarrow> eth_call list starting) \<Rightarrow> bool" where
  "does e cs f \<longleftrightarrow>
     (\<forall>tr. all_succeeded e tr \<and> Remote_Launch \<notin> set tr \<longrightarrow>
        (case f tr of Inl tr' \<Rightarrow> Remote_Launch \<notin> set tr' \<and> (\<exists>c tr0. tr' = tr0 @ [c] \<and> call_result e tr0 c < 0)
         | Inr tr' \<Rightarrow> tr' = tr @ cs \<and> all_succeeded e tr' \<and> Remote_Launch \<notin> set tr'))"

lemma does_checked: "c \<noteq> Remote_Launch \<Longrightarrow> does e [c] (checked e c)"
  by (auto simp: does_def checked_def all_succeeded_snoc)

lemma does_call_only: "\<not> tested c \<Longrightarrow> c \<noteq> Remote_Launch \<Longrightarrow> does e [c] (call_only c)"
  by (auto simp: does_def call_only_def all_succeeded_snoc)

lemma does_bind:
  assumes "does e cs f" and "does e ds g"
  shows "does e (cs @ ds) (\<lambda>tr. boot_bind (f tr) g)"
  unfolding does_def
proof (intro allI impI)
  fix tr assume tr: "all_succeeded e tr \<and> Remote_Launch \<notin> set tr"
  show "case boot_bind (f tr) g of
      Inl tr' \<Rightarrow> Remote_Launch \<notin> set tr' \<and> (\<exists>c tr0. tr' = tr0 @ [c] \<and> call_result e tr0 c < 0)
    | Inr tr' \<Rightarrow> tr' = tr @ cs @ ds \<and> all_succeeded e tr' \<and> Remote_Launch \<notin> set tr'"
  proof (cases "f tr")
    case (Inl tr')
    with assms(1) tr show ?thesis by (fastforce simp: does_def boot_bind_def)
  next
    case (Inr tr')
    with assms(1) tr have "tr' = tr @ cs" "all_succeeded e tr' \<and> Remote_Launch \<notin> set tr'"
      by (fastforce simp: does_def)+
    with assms(2) Inr show ?thesis by (auto simp: does_def boot_bind_def split: sum.splits)
  qed
qed

lemma does_each: "(\<And>x. x \<in> set xs \<Longrightarrow> does e (cs x) (f x)) \<Longrightarrow> does e (concat (map cs xs)) (boot_each f xs)"
proof (induction xs)
  case (Cons x xs)
  then have "does e (cs x @ concat (map cs xs)) (\<lambda>tr. boot_bind (f x tr) (boot_each f xs))"
    by (intro does_bind) auto
  then show ?case by simp
qed (simp add: does_def)

text \<open>The calls that set a port up.\<close>

definition port_calls :: "eal \<Rightarrow> port_conf \<Rightarrow> nat \<Rightarrow> eth_call list" where
  "port_calls e pc portid =
     (let queues = [0..<unat (lcore_count e)] in
      [Dev_Configure portid (ucast (lcore_count e)) (port_conf_offloads e pc portid) (rss_key pc), Adjust_Desc portid] @
      map (Rx_Queue portid) queues @ map (\<lambda>i. Tx_Queue portid i (port_conf_offloads e pc portid)) queues @
      [Tx_Buffer portid, Buffer_Init portid, Dev_Start portid, Promiscuous portid])"

lemma does_init_port: "does e (port_calls e pc portid) (init_port e pc portid)"
proof -
  have "does e ([Dev_Configure portid (ucast (lcore_count e)) (port_conf_offloads e pc portid) (rss_key pc)] @ [Adjust_Desc portid] @
      concat (map (\<lambda>i. [Rx_Queue portid i]) [0..<unat (lcore_count e)]) @
      concat (map (\<lambda>i. [Tx_Queue portid i (port_conf_offloads e pc portid)]) [0..<unat (lcore_count e)]) @
      [Tx_Buffer portid] @ [Buffer_Init portid] @ [Dev_Start portid] @ [Promiscuous portid]) (init_port e pc portid)"
    unfolding init_port_def Let_def
    by (intro does_bind does_each does_checked does_call_only) (simp_all add: tested_def)
  then show ?thesis by (simp add: port_calls_def Let_def)
qed

lemma does_init_ports: "does e (concat (map (port_calls e pc) ps)) (boot_each (init_port e pc) ps)"
  by (intro does_each does_init_port)

text \<open>The lcores of a list that were waited for after \<open>tr\<close>, none of which failed.\<close>

definition workers_end :: "eal \<Rightarrow> eth_call list \<Rightarrow> nat list \<Rightarrow> bool" where
  "workers_end e tr ls \<longleftrightarrow>
     (\<forall>i < length ls. 0 \<le> call_result e (tr @ map Wait_Lcore (take i ls)) (Wait_Lcore (ls ! i)))"

definition worker_fails :: "eal \<Rightarrow> eth_call list \<Rightarrow> nat list \<Rightarrow> bool" where
  "worker_fails e tr ls \<longleftrightarrow>
     ls \<noteq> [] \<and> workers_end e tr (butlast ls) \<and>
     call_result e (tr @ map Wait_Lcore (butlast ls)) (Wait_Lcore (last ls)) < 0"

lemma workers_end_Cons:
  "workers_end e tr (l # ls) \<longleftrightarrow> 0 \<le> call_result e tr (Wait_Lcore l) \<and> workers_end e (tr @ [Wait_Lcore l]) ls"
  by (auto simp: workers_end_def less_Suc_eq_0_disj)

lemma worker_fails_Cons:
  "worker_fails e (tr @ [Wait_Lcore l]) ls \<Longrightarrow> 0 \<le> call_result e tr (Wait_Lcore l) \<Longrightarrow> worker_fails e tr (l # ls)"
  by (auto simp: worker_fails_def workers_end_Cons)

lemma wait_lcores_trace:
  "wait_lcores e ls tr = (ret, tr') \<Longrightarrow>
     \<exists>ms rest. tr' = tr @ map Wait_Lcore ms \<and> ls = ms @ rest \<and>
       (ret = 0 \<and> rest = [] \<and> workers_end e tr ms \<or> ret = -1 \<and> worker_fails e tr ms)"
proof (induction ls arbitrary: tr)
  case Nil
  then show ?case by (simp add: workers_end_def)
next
  case (Cons l ls)
  show ?case
  proof (cases "call_result e tr (Wait_Lcore l) < 0")
    case True
    with Cons.prems have "tr' = tr @ map Wait_Lcore [l]" "ret = -1" by auto
    with True show ?thesis by (intro exI [of _ "[l]"] exI [of _ ls]) (simp add: worker_fails_def workers_end_def)
  next
    case False
    with Cons obtain ms rest where "tr' = (tr @ [Wait_Lcore l]) @ map Wait_Lcore ms" "ls = ms @ rest"
      "ret = 0 \<and> rest = [] \<and> workers_end e (tr @ [Wait_Lcore l]) ms \<or> ret = -1 \<and> worker_fails e (tr @ [Wait_Lcore l]) ms"
      by fastforce
    with False show ?thesis
      by (intro exI [of _ "l # ms"] exI [of _ rest]) (auto simp: workers_end_Cons dest: worker_fails_Cons)
  qed
qed

text \<open>What the calls of a finished run are.\<close>

definition orderly :: "eal \<Rightarrow> port_conf \<Rightarrow> nat \<Rightarrow> started starting \<Rightarrow> bool" where
  "orderly e pc argc r \<longleftrightarrow>
     (case r of
        Inl tr \<Rightarrow> Remote_Launch \<notin> set tr
      | Inr s \<Rightarrow> \<exists>waited rest before. slave_lcores e = waited @ rest \<and>
          before = Eal_Init argc # Mbuf_Pool (nb_mbufs (count_avail e) (lcore_count e)) #
            concat (map (port_calls e pc) (eth_devs e)) \<and>
          boot_trace s = before @ Remote_Launch # map Wait_Lcore waited @
            concat (map (\<lambda>p. [Dev_Stop p, Dev_Close p]) (eth_devs e)) \<and>
          all_succeeded e before \<and> eth_devs e \<noteq> [] \<and>
          (exit_status s = 0 \<and> rest = [] \<and> workers_end e (before @ [Remote_Launch]) waited \<or>
           exit_status s = -1 \<and> worker_fails e (before @ [Remote_Launch]) waited))"

lemma run_ports_orderly:
  assumes ok: "all_succeeded e [Eal_Init argc]"
  shows "orderly e pc argc (run_ports e pc path [Eal_Init argc])"
proof -
  let ?pool = "Mbuf_Pool (nb_mbufs (count_avail e) (lcore_count e))"
  let ?ports = "concat (map (port_calls e pc) (eth_devs e))"
  have pool: "does e [?pool] (checked e ?pool)" by (simp add: does_checked)
  have ports_up: "does e ([?pool] @ ?ports) (\<lambda>tr. boot_bind (checked e ?pool tr) (boot_each (init_port e pc) (eth_devs e)))"
    by (intro does_bind does_init_ports pool)
  have begun: "all_succeeded e [Eal_Init argc] \<and> Remote_Launch \<notin> set [Eal_Init argc]" using ok by simp
  note up = ports_up [unfolded does_def, rule_format, OF begun]
  show ?thesis
  proof (cases "run_ports e pc path [Eal_Init argc]")
    case (Inl tr)
    have "Remote_Launch \<notin> set tr"
      using Inl up by (auto simp: run_ports_def boot_bind_def split: sum.splits if_splits prod.splits)
    with Inl show ?thesis by (simp add: orderly_def)
  next
    case (Inr s)
    then obtain tr1 tr2 where run: "checked e ?pool [Eal_Init argc] = Inr tr1"
      "boot_each (init_port e pc) (eth_devs e) tr1 = Inr tr2" and devs: "eth_devs e \<noteq> []"
      and ends: "exit_status s = fst (wait_lcores e (slave_lcores e) (tr2 @ [Remote_Launch]))"
        "boot_trace s = close_ports (eth_devs e) (snd (wait_lcores e (slave_lcores e) (tr2 @ [Remote_Launch])))"
      by (auto simp: run_ports_def boot_bind_Inr case_prod_beta split: if_splits)
    obtain ret tr3 where waits: "wait_lcores e (slave_lcores e) (tr2 @ [Remote_Launch]) = (ret, tr3)" by fastforce
    with ends have s: "exit_status s = ret" "boot_trace s = close_ports (eth_devs e) tr3" by simp_all
    have tr2: "tr2 = [Eal_Init argc] @ [?pool] @ ?ports" "all_succeeded e tr2"
      using up unfolding boot_bind_def run sum.case by auto
    obtain ms rest where ms: "tr3 = (tr2 @ [Remote_Launch]) @ map Wait_Lcore ms" "slave_lcores e = ms @ rest"
      "ret = 0 \<and> rest = [] \<and> workers_end e (tr2 @ [Remote_Launch]) ms \<or> ret = -1 \<and> worker_fails e (tr2 @ [Remote_Launch]) ms"
      using wait_lcores_trace [OF waits] by blast
    show ?thesis unfolding orderly_def Inr sum.case
      by (intro exI [of _ ms] exI [of _ rest] exI [of _ tr2] conjI)
        (use ms s tr2 devs in \<open>simp_all add: close_ports_def\<close>)
  qed
qed

lemma eal_init_orderly:
  assumes "all_succeeded e [Eal_Init argc] \<Longrightarrow> orderly e pc argc (f [Eal_Init argc])"
  shows "orderly e pc argc (boot_bind (checked e (Eal_Init argc) []) f)"
proof (cases "call_result e [] (Eal_Init argc) < 0")
  case False
  then have "all_succeeded e [Eal_Init argc]" by (simp add: all_succeeded_def)
  with assms False show ?thesis by (simp add: checked_def boot_bind_def)
qed (simp add: checked_def boot_bind_def orderly_def)

lemma orderly_exit: "orderly e pc argc (Inl [Eal_Init argc])"
  by (simp add: orderly_def)

lemma flowblaze_main_orderly: "orderly e (flowblaze_conf e) argc (flowblaze_main e argc opts)"
  unfolding flowblaze_main_def
  by (rule eal_init_orderly) (simp add: run_ports_orderly orderly_exit split: option.splits)

text \<open>
  C39: The workers are started only on ports that are ready. Whatever the environment
  answers: if the start exits, no worker was launched; otherwise the calls are, in order,
  the environment layer, the buffer pool, for each port its configuration with one queue per
  lcore in each direction, the transmit buffer and the start of the port, then the launch,
  a wait for each lcore up to the first that failed, and a stop and a close of each port;
  there is a port, every call whose result is tested succeeded, and the exit status is 0 when
  every lcore was waited for and none failed, -1 when the last one waited for failed.
\<close>

theorem startup_sequence:
  "case flowblaze_main e argc opts of
     Inl tr \<Rightarrow> Remote_Launch \<notin> set tr
   | Inr s \<Rightarrow> \<exists>waited rest before. slave_lcores e = waited @ rest \<and>
       before = Eal_Init argc # Mbuf_Pool (nb_mbufs (count_avail e) (lcore_count e)) #
         concat (map (port_calls e (flowblaze_conf e)) (eth_devs e)) \<and>
       boot_trace s = before @ Remote_Launch # map Wait_Lcore waited @
         concat (map (\<lambda>p. [Dev_Stop p, Dev_Close p]) (eth_devs e)) \<and>
       all_succeeded e before \<and> eth_devs e \<noteq> [] \<and>
       (exit_status s = 0 \<and> rest = [] \<and> workers_end e (before @ [Remote_Launch]) waited \<or>
        exit_status s = -1 \<and> worker_fails e (before @ [Remote_Launch]) waited)"
  using flowblaze_main_orderly unfolding orderly_def .

text \<open>A start with two of three workers waited for.\<close>

lemma startup_example:
  "let e = \<lparr>call_result = (\<lambda>tr c. case c of Eal_Init _ \<Rightarrow> 2 | Wait_Lcore l \<Rightarrow> - int l | _ \<Rightarrow> 0), count_avail = 1, eth_devs = [0],
              lcore_count = 1, slave_lcores = [0, 7, 8], timer_hz = 1000, tx_capa = (\<lambda>_. 0),
              MBUF_FAST_FREE = 0x10000, IPV4_CKSUM = 2\<rparr> in
   case flowblaze_main e 5 [File_Option ''a.json''] of
     Inl _ \<Rightarrow> False
   | Inr s \<Rightarrow> exit_status s = -1 \<and> period_cycles s = 10000 \<and> before_nul (program_path s) = ''a.json'' \<and>
       boot_trace s = [Eal_Init 5, Mbuf_Pool 8288, Dev_Configure 0 1 2 None, Adjust_Desc 0, Rx_Queue 0 0, Tx_Queue 0 0 2,
         Tx_Buffer 0, Buffer_Init 0, Dev_Start 0, Promiscuous 0, Remote_Launch, Wait_Lcore 0, Wait_Lcore 7,
         Dev_Stop 0, Dev_Close 0]"
  by code_simp

section \<open>The path of the program file\<close>

text \<open>\<open>file_path\<close> while only names without a NUL were copied in: a string and NULs behind it.\<close>

definition path_of :: "string \<Rightarrow> string" where
  "path_of q = q @ replicate (256 - length q) (CHR 0x00)"

lemma before_nul_path: "nul_free q \<Longrightarrow> length q \<le> 63 \<Longrightarrow> before_nul (path_of q) = q"
  by (cases "256 - length q") (auto simp: before_nul_def path_of_def nul_free_def takeWhile_tail)

lemma set_file_path_path:
  assumes "length q \<le> 63"
  shows "set_file_path a (path_of q) = path_of (take 63 a @ drop (length (take 63 a)) q)"
proof -
  have "256 - (length q + (length a - length q)) = 256 - (length a + (length q - length a))" by simp
  then show ?thesis using assms by (simp add: set_file_path_def path_of_def Let_def min_def)
qed

lemma parse_file_options:
  assumes "list_all nul_free names" and "nul_free q" and "length q \<le> 63"
  shows "\<exists>r. flowblaze_parse_args (map File_Option names) (path_of q) = Some (path_of r) \<and>
    r = foldl (\<lambda>path name. take 63 name @ drop (length (take 63 name)) path) q names \<and> nul_free r \<and> length r \<le> 63"
  using assms
proof (induction names arbitrary: q)
  case (Cons a names)
  let ?q = "take 63 a @ drop (length (take 63 a)) q"
  have "nul_free ?q" using Cons.prems by (auto simp: nul_free_def dest: in_set_takeD in_set_dropD)
  moreover have "length ?q \<le> 63" using Cons.prems(3) by simp
  ultimately show ?case
    using Cons.IH [of ?q] Cons.prems by (simp add: set_file_path_path)
qed simp

text \<open>
  The file a worker opens. Of a name given by \<open>-f\<close> the first 63 characters are kept, and
  a later name overwrites the earlier one only in its own length: what the earlier one had
  behind stays. So a name of at most 63 characters given once is the file that is opened,
  and a longer one is not.
\<close>

theorem program_path_options:
  assumes "list_all nul_free names"
  shows "map_option before_nul (flowblaze_parse_args (map File_Option names) (replicate 256 (CHR 0x00))) =
    Some (foldl (\<lambda>path name. take 63 name @ drop (length (take 63 name)) path) [] names)"
  using parse_file_options [OF assms, of "[]"] before_nul_path by (auto simp: nul_free_def path_of_def)

theorem program_path_options_witness:
  "map_option before_nul (flowblaze_parse_args [File_Option ''router.json'', File_Option ''fw''] (replicate 256 (CHR 0x00))) =
     Some ''fwuter.json''"
  using program_path_options [of "[''router.json'', ''fw'']"] by (simp add: nul_free_def)

end
