(* ===== verification/Test_Programs.thy ===== *)
theory Test_Programs
  imports Worker_Props Startup
begin

text \<open>
  The two test programs of the software switch, SW-FB/simple-test and SW-FB/rss-test: the
  table both compile in (table_def.h, the same file in both) and their worker loops, which
  send each packet through this one table. The table is a two-port forwarder that counts the
  packets of each flow; that it is one is proved of whole runs.
\<close>

section \<open>The compiled-in table\<close>

definition zero_action :: xfsm_action where
  "zero_action =
     \<lparr>a_type = XFSM_UPDATE, a_opcode = XFSM_SUM, a_type1 = XFSM_REGISTER, a_value1 = 0,
      a_type2 = XFSM_REGISTER, a_value2 = 0, a_type3 = XFSM_REGISTER, a_value3 = 0,
      a_output = 0, a_out_type = XFSM_REGISTER\<rparr>"

definition test_conditions :: "xfsm_condition list" where
  "test_conditions =
     [\<lparr>c_type1 = XFSM_REGISTER, c_type2 = XFSM_CONSTANT, c_value1 = 0, c_value2 = 5,
       condition_type = XFSM_GREATER_EQ\<rparr>,
      \<lparr>c_type1 = XFSM_HDR_FIELD, c_type2 = XFSM_CONSTANT, c_value1 = of_nat (hdr_index XFSM_IN_PORT),
       c_value2 = 1, condition_type = XFSM_EQUAL\<rparr>]"

text \<open>The members an initialiser leaves out are zero.\<close>

definition reg_action :: "xfsm_opcodes \<Rightarrow> u64 \<Rightarrow> xfsm_action" where
  "reg_action opcode v2 =
     zero_action\<lparr>a_type1 := XFSM_REGISTER, a_type2 := XFSM_CONSTANT, a_type3 := XFSM_REGISTER,
       a_value1 := 0, a_value2 := v2, a_value3 := 0, a_opcode := opcode, a_output := 0\<rparr>"

definition send_action :: "u64 \<Rightarrow> xfsm_action" where
  "send_action v2 = (reg_action XFSM_SUM v2)\<lparr>a_type := XFSM_SENDPKT\<rparr>"

definition test_entry :: "u32 \<Rightarrow> xfsm_results list \<Rightarrow> xfsm_action list \<Rightarrow> xfsm_table_entry" where
  "test_entry state res acts =
     \<lparr>e_current_state = state, e_next_state = 1, e_next_stage = 0,
      e_results = res @ replicate (MAX_CONDITIONS - 2) XFSM_FALSE,
      e_actions = acts @ replicate (MAX_ACTIONS - 2) zero_action,
      nb_actions = 2, e_priority = 0, idle_timeout = 0, hard_timeout = 0\<rparr>"

definition e0 :: xfsm_table_entry where
  "e0 = test_entry 0 [XFSM_DONT_CARE, XFSM_FALSE] [reg_action XFSM_SUM 1, send_action 1]"

definition e00 :: xfsm_table_entry where
  "e00 = test_entry 0 [XFSM_DONT_CARE, XFSM_TRUE] [reg_action XFSM_SUM 1, send_action 2]"

definition e1 :: xfsm_table_entry where
  "e1 = test_entry 1 [XFSM_FALSE, XFSM_FALSE] [reg_action XFSM_SUM 1, send_action 1]"

definition e11 :: xfsm_table_entry where
  "e11 = test_entry 1 [XFSM_FALSE, XFSM_TRUE] [reg_action XFSM_SUM 1, send_action 2]"

definition e2 :: xfsm_table_entry where
  "e2 = test_entry 1 [XFSM_TRUE, XFSM_FALSE] [reg_action XFSM_MINUS 5, send_action 1]"

definition e22 :: xfsm_table_entry where
  "e22 = test_entry 1 [XFSM_TRUE, XFSM_TRUE] [reg_action XFSM_MINUS 5, send_action 2]"

definition test_entries :: "xfsm_table_entry list" where
  "test_entries = [e0, e1, e2, e00, e11, e22]"

definition test_lookup_key :: lookup_key where
  "test_lookup_key =
     \<lparr>lk_size = 2, lk_fld = [IPv4_DST, IPv4_SRC] @ replicate (LOOKUP_KEY_SIZE - 2) SRC_MAC, biflow_no = 0\<rparr>"

text \<open>
  \<open>xfsm_table_create(entries, NUM_ENTRIES, 0, conditions, NUM_CONDITION, &lookup_key, 0)\<close>; the
  argument \<open>conds\<close> is what can be read from \<open>conditions\<close> on.
\<close>

definition test_create :: "'h dpdk \<Rightarrow> obj_name list \<Rightarrow> xfsm_condition list \<Rightarrow> (obj_name list \<times> 'h xfsm_table) res" where
  "test_create d names conds = xfsm_table_create d names test_entries 6 0 conds 2 test_lookup_key 0"

section \<open>The worker loop of simple-test\<close>

record 'h test_worker =
  tw_xfsm :: "'h xfsm_table"
  tw_fk :: flow_key
  tw_mem :: pktmem
  tw_tx :: "tx_event list"
  tw_freed :: "nat list"

text \<open>A packet goes through the table once; there is no time stamp and no next stage.\<close>

definition test_packet :: "'h dpdk \<Rightarrow> nat \<Rightarrow> nat \<Rightarrow> 'h test_worker \<Rightarrow> 'h test_worker res" where
  "test_packet d i m w =
     (let xfsm = (tw_xfsm w)\<lparr>curr_pkt := Some m, in_port := of_nat (i + 1)\<rparr> in
      res_bind (parse_pkt_header (tw_mem w) xfsm (Some m)) (\<lambda>(_, xfsm).
      res_bind (key_extract (tw_mem w) xfsm (tw_fk w)) (\<lambda>(ok, fk).
      res_bind (if ok then stage_match d (tw_mem w) (tw_tx w) xfsm fk
                else Inr (To_Free, xfsm, tw_mem w, tw_tx w)) (\<lambda>(_, xfsm, mem, tx).
      Inr (w\<lparr>tw_xfsm := xfsm, tw_fk := fk, tw_mem := mem(m := None), tw_tx := tx,
             tw_freed := tw_freed w @ [m]\<rparr>)))))"

definition test_burst :: "'h dpdk \<Rightarrow> nat \<times> (nat \<times> mbuf) list \<Rightarrow> 'h test_worker \<Rightarrow> 'h test_worker res" where
  "test_burst d burst w =
     run_steps (\<lambda>(m, b). test_packet d (fst burst) m) (snd burst) (w\<lparr>tw_mem := tw_mem w ++ map_of (snd burst)\<rparr>)"

definition simple_turn ::
  "'h dpdk \<Rightarrow> bool \<Rightarrow> u64 \<Rightarrow> u64 \<times> (nat \<times> mbuf) list list \<Rightarrow> clock \<times> 'h test_worker \<Rightarrow> (clock \<times> 'h test_worker) res" where
  "simple_turn d is_master timer_period turn cw =
     (case turn of (cur_tsc, bursts) \<Rightarrow>
      case cw of (c, w) \<Rightarrow>
        res_bind (run_steps (test_burst d) (enumerate 0 bursts) w)
          (\<lambda>w. Inr (drain_tick d is_master timer_period (length bursts) cur_tsc c, w)))"

definition simple_loop ::
  "'h dpdk \<Rightarrow> bool \<Rightarrow> u64 \<Rightarrow> (u64 \<times> (nat \<times> mbuf) list list) list \<Rightarrow> clock \<times> 'h test_worker \<Rightarrow>
     (clock \<times> 'h test_worker) res" where
  "simple_loop d is_master timer_period = run_steps (simple_turn d is_master timer_period)"

text \<open>\<open>fk\<close> is zeroed memory.\<close>

definition test_worker_of :: "'h xfsm_table \<Rightarrow> 'h test_worker" where
  "test_worker_of xfsm =
     \<lparr>tw_xfsm = xfsm, tw_fk = replicate 8 0, tw_mem = Map.empty, tw_tx = [], tw_freed = []\<rparr>"


section \<open>The worker loop of rss-test\<close>

text \<open>
  The loop of rss-test polls and flushes the queue of its lcore. A flush is the port, the
  queue and the index of the transmit buffer: the buffer is that of the queue number, on
  every port.
\<close>

record rss_clock =
  rss_prev_tsc :: u64
  rss_timer_tsc :: u64
  flushes :: "(nat \<times> u32 \<times> nat) list"

abbreviation (input) RSS_BURST_TX_DRAIN_US :: u64 where "RSS_BURST_TX_DRAIN_US \<equiv> 100"

definition rss_drain_tsc :: "'h dpdk \<Rightarrow> u64" where
  "rss_drain_tsc d = (rte_get_tsc_hz d + US_PER_S - 1) div US_PER_S * RSS_BURST_TX_DRAIN_US"

definition rss_tick :: "'h dpdk \<Rightarrow> bool \<Rightarrow> u64 \<Rightarrow> lcore_conf \<Rightarrow> u64 \<Rightarrow> rss_clock \<Rightarrow> rss_clock" where
  "rss_tick d is_master timer_period qconf cur_tsc c =
     (let diff_tsc = cur_tsc - rss_prev_tsc c in
      if diff_tsc > rss_drain_tsc d then
        let c1 = c\<lparr>flushes := flushes c @ map (\<lambda>i. (i, queue_id qconf, unat (queue_id qconf))) [0..<unat (n_rx_port qconf)]\<rparr>;
            c2 = if timer_period > 0
                 then let tt = rss_timer_tsc c1 + diff_tsc in
                      c1\<lparr>rss_timer_tsc := if tt \<ge> timer_period \<and> is_master then 0 else tt\<rparr>
                 else c1
        in c2\<lparr>rss_prev_tsc := cur_tsc\<rparr>
      else c)"

definition rss_turn ::
  "'h dpdk \<Rightarrow> bool \<Rightarrow> u64 \<Rightarrow> lcore_conf \<Rightarrow> u64 \<times> (nat \<times> mbuf) list list \<Rightarrow> rss_clock \<times> 'h test_worker \<Rightarrow>
     (rss_clock \<times> 'h test_worker) res" where
  "rss_turn d is_master timer_period qconf turn cw =
     (case turn of (cur_tsc, bursts) \<Rightarrow>
      case cw of (c, w) \<Rightarrow>
        res_bind (run_steps (test_burst d) (enumerate 0 bursts) w)
          (\<lambda>w. Inr (rss_tick d is_master timer_period qconf cur_tsc c, w)))"

definition rss_loop ::
  "'h dpdk \<Rightarrow> bool \<Rightarrow> u64 \<Rightarrow> lcore_conf \<Rightarrow> (u64 \<times> (nat \<times> mbuf) list list) list \<Rightarrow> rss_clock \<times> 'h test_worker \<Rightarrow>
     (rss_clock \<times> 'h test_worker) res" where
  "rss_loop d is_master timer_period qconf = run_steps (rss_turn d is_master timer_period qconf)"

section \<open>The starts\<close>

text \<open>
  Both have the start of the switch without its arguments. rss-test turns receive-side
  scaling on, over the IPv4 addresses, with a key of its own.
\<close>

definition simple_main :: "eal \<Rightarrow> nat \<Rightarrow> started starting" where
  "simple_main e argc =
     boot_bind (checked e (Eal_Init argc) []) (run_ports e \<lparr>tx_offloads = 0, rss_key = None\<rparr> [])"

definition hash_key :: "u8 list" where
  "hash_key = concat (replicate 20 [0x6D, 0x5A])"

definition rss_main :: "eal \<Rightarrow> nat \<Rightarrow> started starting" where
  "rss_main e argc =
     boot_bind (checked e (Eal_Init argc) []) (run_ports e \<lparr>tx_offloads = 0, rss_key = Some hash_key\<rparr> [])"

lemma test_mains_orderly:
  "orderly e \<lparr>tx_offloads = 0, rss_key = None\<rparr> argc (simple_main e argc)"
  "orderly e \<lparr>tx_offloads = 0, rss_key = Some hash_key\<rparr> argc (rss_main e argc)"
  unfolding simple_main_def rss_main_def by (rule eal_init_orderly, rule run_ports_orderly, assumption)+

section \<open>One packet\<close>

definition truth :: "bool \<Rightarrow> xfsm_results" where
  "truth b = (if b then XFSM_TRUE else XFSM_FALSE)"

lemma truth_simps [simp]: "truth a = truth b \<longleftrightarrow> a = b" "truth b \<noteq> XFSM_DONT_CARE"
  "truth b = XFSM_TRUE \<longleftrightarrow> b" "truth b = XFSM_FALSE \<longleftrightarrow> \<not> b" "XFSM_TRUE = truth b \<longleftrightarrow> b" "XFSM_FALSE = truth b \<longleftrightarrow> \<not> b"
  by (auto simp: truth_def)

text \<open>The row a packet of port 1 (\<open>first\<close>) or of another port matches, by state and register.\<close>

definition test_row :: "u32 \<Rightarrow> bool \<Rightarrow> bool \<Rightarrow> xfsm_table_entry" where
  "test_row state full first =
     test_entry state [if state = 0 then XFSM_DONT_CARE else truth full, truth first]
       [if state = 1 \<and> full then reg_action XFSM_MINUS 5 else reg_action XFSM_SUM 1, send_action (if first then 2 else 1)]"

lemma row_matches_test:
  "row_matches 2 rs (test_entry s [a, b] acts) \<longleftrightarrow> (a = XFSM_DONT_CARE \<or> a = rs ! 0) \<and> (b = XFSM_DONT_CARE \<or> b = rs ! 1)"
  by (auto simp: row_matches_def test_entry_def less_2_cases_iff)

lemma state_test_entry [simp]: "e_current_state (test_entry s rs acts) = s"
  by (simp add: test_entry_def)

lemmas test_entry_defs = e0_def e00_def e1_def e11_def e2_def e22_def

lemma test_find:
  assumes "rs ! 0 = truth full" and "rs ! 1 = truth first" and "s \<in> {0, 1}"
  shows "find (\<lambda>r. e_current_state r = s \<and> row_matches 2 rs r) test_entries = Some (test_row s full first)"
  using assms by (auto simp: test_entries_def test_entry_defs row_matches_test test_row_def truth_def)

text \<open>Its two actions.\<close>

lemma sint_count: "k < 6 \<Longrightarrow> sint (of_nat k :: u64) = int k"
  by (auto simp: numeral_eq_Suc less_Suc_eq)

lemma count_step:
  assumes "k < 6"
  shows "update_result (of_nat k) 1 XFSM_SUM = Inr (of_nat (k + 1))"
    and "k = 5 \<Longrightarrow> update_result (of_nat k) 5 XFSM_MINUS = Inr 0"
  using assms by (auto simp: update_result_def s64_def sint_count fits64_def)

lemma test_actions:
  assumes "length (registers inst) = 32" and "registers inst ! 0 = of_nat k" and "k < 6" and "s \<in> {0, 1}"
    and "full \<longleftrightarrow> 5 \<le> k" and "s = 0 \<Longrightarrow> k = 0"
  shows "\<exists>r1 r2 r3. xfsm_execute_actions d (test_row s full first)
      \<lparr>x_mem = mem, x_tbl = t, x_inst = inst, x_tx = tx, x_reg1 = 0, x_reg2 = 0, x_reg3 = 0\<rparr> =
    Inr \<lparr>x_mem = mem, x_tbl = t, x_inst = inst\<lparr>registers := (registers inst)[0 := of_nat ((k + 1) mod 6)]\<rparr>,
         x_tx = tx @ [\<lparr>tx_port = if first then 1 else 0, tx_index = if first then 1 else 0, tx_pkt = curr_pkt t\<rparr>],
         x_reg1 = r1, x_reg2 = r2, x_reg3 = r3\<rparr>"
proof -
  have upd: "update_result (of_nat k) (if s = 1 \<and> full then 5 else 1) (if s = 1 \<and> full then XFSM_MINUS else XFSM_SUM) =
      Inr (of_nat ((k + 1) mod 6))"
    using assms(3-6) count_step [OF assms(3)] by (cases "k = 5") auto
  have upt: "[0..<2] = [0, 1 :: nat]" by (simp add: upt_rec)
  show ?thesis
    using assms(1,2) upd
    by (auto simp: xfsm_execute_actions_def test_row_def test_entry_def action_step_def execute_action_def
        fetch_operands_def operand_value_def do_update_def update_def do_sendpkt_def reg_action_def
        send_action_def zero_action_def upt s64_def fits64_def split: if_splits)
qed


text \<open>What of the table a packet does not change.\<close>

definition test_config :: "'h dpdk \<Rightarrow> 'h xfsm_table \<Rightarrow> bool" where
  "test_config d t \<longleftrightarrow>
     take 2 (conditions t) = test_conditions \<and> nb_conditions t = 2 \<and> t_lookup_key t = test_lookup_key \<and>
     default_state t = 0 \<and>
     (\<forall>inst. wf_instance inst \<and> current_state inst \<in> {0, 1} \<longrightarrow>
        xfsm_table_lookup d t inst =
          Inr (find (\<lambda>r. e_current_state r = current_state inst \<and> row_matches 2 (results inst) r) test_entries))"

lemma test_config_cong:
  assumes "same_config t t'" and "test_config d t"
  shows "test_config d t'"
proof -
  have "xfsm_table_lookup d t' = xfsm_table_lookup d t"
    using assms(1) by (simp add: same_config_def xfsm_table_lookup_def Let_def fun_eq_iff)
  with assms show ?thesis by (simp add: test_config_def same_config_def)
qed

lemma test_evaluate:
  assumes "test_config d t" and "wf_table d t" and "wf_instance x" and "registers x ! 0 = of_nat k" and "k < 6"
    and port: "field_ptr (pkt_fields t) XFSM_IN_PORT = Some Tbl_In_Port"
  shows "\<exists>rs. xfsm_evaluate_conditions mem t x = Inr (x\<lparr>results := rs\<rparr>) \<and> length rs = 16 \<and>
    rs ! 0 = truth (5 \<le> k) \<and> rs ! 1 = truth (in_port t = 1)"
proof -
  have cs: "conditions t ! 0 = test_conditions ! 0" "conditions t ! 1 = test_conditions ! 1" "length (conditions t) = 16"
    using assms(1,2) nth_take [of _ 2 "conditions t"] by (auto simp: test_config_def wf_table_def config_ok_def)
  have "get_hdr_value mem (in_port t) (pkt_fields t ! 24) 0 = Inr (0, be_value [in_port t])"
    using get_hdr_value_be [of "pkt_fields t" XFSM_IN_PORT Tbl_In_Port mem "in_port t" "[in_port t]" 0] assms(2) port
    by (simp add: wf_table_def load_bytes_Inr_iff obj_bytes_def ptr_off_def)
  moreover have "be_value [p] = (ucast p :: u64)" for p by (simp add: be_value_def)
  moreover have "(ucast p :: u64) = 1 \<longleftrightarrow> p = 1" for p :: u8
    by transfer (simp add: take_bit_eq_mod)
  ultimately have ev: "evaluate_condition mem t (conditions t ! 0) x = Inr (truth (5 \<le> k))"
    "evaluate_condition mem t (conditions t ! 1) x = Inr (truth (in_port t = 1))"
    using assms(2-5) cs by (simp_all add: test_conditions_def evaluate_condition_def operand_value_def wf_instance_def
        wf_table_def compare_params_def sint_count truth_def)
  then have "\<exists>r. evaluate_condition mem t (conditions t ! i) x = Inr r" if "i < 2" for i
    using that by (auto simp: less_2_cases_iff)
  then obtain x' where x': "run_steps (condition_step mem t) [0..<2] x = Inr x'"
    using condition_loop_total [of 2 t x mem] cs(3) assms(3) by (auto simp: wf_instance_def)
  from condition_loop [OF x'] ev assms(1,3) x' show ?thesis
    by (auto simp: xfsm_evaluate_conditions_def test_config_def wf_instance_def less_2_cases_iff)
qed


text \<open>An instance that has seen \<open>n\<close> packets; there is none for a flow not seen yet.\<close>

definition counted :: "nat \<Rightarrow> xfsm_instance option \<Rightarrow> bool" where
  "counted n io \<longleftrightarrow>
     (case io of None \<Rightarrow> n = 0
      | Some x \<Rightarrow> 0 < n \<and> current_state x = 1 \<and> registers x ! 0 = of_nat (n mod 6) \<and> \<not> destroy x)"

text \<open>\<open>tx_index\<close> is the transmit buffer, that of the port.\<close>

definition forwarded :: "bool \<Rightarrow> nat option \<Rightarrow> tx_event" where
  "forwarded first m =
     \<lparr>tx_port = if first then 1 else 0, tx_index = if first then 1 else 0, tx_pkt = m\<rparr>"

lemma test_instance:
  assumes "inst_inv d t" and "length fk = 8" and "lookup_instance d t fk = Inr (Some j, t1)"
    and "default_state t = 0" and "counted n (flow_map d t fk)"
  shows "current_state (instances_pool t1 j) = (if n = 0 then 0 else 1) \<and>
    registers (instances_pool t1 j) ! 0 = of_nat (n mod 6) \<and> \<not> destroy (instances_pool t1 j)"
proof (rule flows.get_cases [OF assms(1,2)])
  fix i assume "lookup_instance d t fk = Inr (Some i, t)" "inst_at d t fk = Some i"
  with assms show ?thesis by (simp add: flow_map_def counted_def)
next
  fix i s' assume "inst_at d t fk = None" "lookup_instance d t fk = Inr (Some i, s')"
    "blank_instance t fk (instances_pool s' i)"
  with assms show ?thesis by (auto simp: flow_map_def counted_def blank_instance_def init_instance_def dest: lookup_instance_frame)
qed (use assms in simp)

lemma test_stage:
  assumes cfg: "test_config d t" and wf: "wf_table d t" and "parsed mem (pkt_fields t)" and "length fk = 8"
    and port: "field_ptr (pkt_fields t) XFSM_IN_PORT = Some Tbl_In_Port"
    and count: "counted n (flow_map d t fk)"
  shows "stage_match d mem tx t fk = Inl (UB NullPtr) \<or>
    (\<exists>v t'. stage_match d mem tx t fk = Inr (v, t', mem, tx @ [forwarded (in_port t = 1) (curr_pkt t)]) \<and>
       counted (n + 1) (flow_map d t' fk))"
proof -
  have inv: "inst_inv d t" using wf by (simp add: wf_table_def)
  obtain io t1 where l: "lookup_instance d t fk = Inr (io, t1)"
    using flows.get_returns [OF inv assms(4)] by blast
  show ?thesis
  proof (cases io)
    case None
    with l show ?thesis by (simp add: stage_match_def)
  next
    case (Some j)
    note l = l [unfolded Some] and fr = lookup_instance_frame [OF l [unfolded Some]]
    let ?x = "instances_pool t1 j"
    have inv1: "inst_inv d t1" by (rule flows.get_inv [OF inv assms(4) l])
    have at1: "inst_at d t1 fk = Some j" by (rule flows.get_at [OF inv assms(4) l])
    have wf1: "wf_table d t1" using wf fr inv1 config_ok_cong [of t t1 d] by (simp add: wf_table_def)
    have x: "wf_instance ?x" using inv1 at1 by (auto simp: inst_inv_def)
    have "default_state t = 0" using cfg by (simp add: test_config_def)
    note st = test_instance [OF inv assms(4) l this count]
    have cfg1: "test_config d t1" using fr cfg by (blast intro: test_config_cong)
    obtain rs where ev: "xfsm_evaluate_conditions mem t1 ?x = Inr (?x\<lparr>results := rs\<rparr>)" and rs: "length rs = 16"
      "rs ! 0 = truth (5 \<le> n mod 6)" "rs ! 1 = truth (in_port t = 1)"
      using test_evaluate [OF cfg1 wf1 x, of "n mod 6" mem] st port fr by auto
    let ?y = "?x\<lparr>results := rs\<rparr>"
    let ?t2 = "set_inst t1 j ?y"
    have y: "wf_instance ?y" using x rs(1) by (simp add: wf_instance_def)
    have "test_config d ?t2" using cfg1 by (blast intro: test_config_cong set_inst_fields)
    then have look: "xfsm_table_lookup d ?t2 ?y = Inr (Some (test_row (current_state ?x) (5 \<le> n mod 6) (in_port t = 1)))"
      using y st rs test_find [of rs "5 \<le> n mod 6" "in_port t = 1" "current_state ?x"] by (simp add: test_config_def)
    let ?z = "?y\<lparr>registers := (registers ?y)[0 := of_nat ((n mod 6 + 1) mod 6)]\<rparr>"
    obtain r1 r2 r3 where act: "xfsm_execute_actions d (test_row (current_state ?x) (5 \<le> n mod 6) (in_port t = 1))
        \<lparr>x_mem = mem, x_tbl = ?t2, x_inst = ?y, x_tx = tx, x_reg1 = 0, x_reg2 = 0, x_reg3 = 0\<rparr> =
      Inr \<lparr>x_mem = mem, x_tbl = ?t2, x_inst = ?z, x_tx = tx @ [forwarded (in_port t = 1) (curr_pkt ?t2)],
           x_reg1 = r1, x_reg2 = r2, x_reg3 = r3\<rparr>"
      using test_actions [of ?y "n mod 6" "current_state ?x" "5 \<le> n mod 6" d "in_port t = 1" mem ?t2 tx] y st
      by (auto simp: wf_instance_def forwarded_def split: if_splits)
    have next1: "e_next_state (test_row s a b) = 1" for s a b by (simp add: test_row_def test_entry_def)
    have curr: "curr_pkt ?t2 = curr_pkt t" using fr by (simp add: set_inst_def)
    let ?t' = "set_inst (set_inst ?t2 j ?z) j (?z\<lparr>current_state := 1\<rparr>)"
    have "\<exists>v. stage_match d mem tx t fk = Inr (v, ?t', mem, tx @ [forwarded (in_port t = 1) (curr_pkt t)])"
      using l ev look act st by (simp add: stage_match_def stage_act_def Let_def next1 curr)
    moreover have "counted (n + 1) (flow_map d ?t' fk)"
      using at1 st x by (simp add: counted_def flow_map_def mod_Suc_eq wf_instance_def)
    ultimately show ?thesis by blast
  qed
qed


text \<open>The flow of a packet: the IPv4 destination and source, in an array of eight words.\<close>

definition flow_of :: "mbuf \<Rightarrow> flow_key" where
  "flow_of b =
     [ucast (be_value (take 4 (drop 30 (m_data b)))), ucast (be_value (take 4 (drop 26 (m_data b))))] @ replicate 6 0"

definition zero_tail :: "flow_key \<Rightarrow> bool" where
  "zero_tail fk \<longleftrightarrow> length fk = 8 \<and> drop 3 fk = replicate 5 0"

lemma test_key:
  assumes p: "parse_pkt_header mem t0 (Some m) = Inr (r, t)" and wf: "wf_fields (pkt_fields t0)"
    and b: "mem m = Some b" "60 \<le> length (m_data b)" and "parsed mem (pkt_fields t)"
    and lk: "t_lookup_key t = test_lookup_key" and "zero_tail fk"
  shows "key_extract mem t fk = Inr (True, flow_of b)"
proof -
  have lay: "layout pr IPv4_DST = Some 30" "layout pr IPv4_SRC = Some 26" for pr by (simp_all add: layout_def)
  have ptr: "field_ptr (pkt_fields t) IPv4_DST = Some (Pkt_Data m 30)" "field_ptr (pkt_fields t) IPv4_SRC = Some (Pkt_Data m 26)"
    using parse_layout [OF p wf b(1) lay(1)] parse_layout [OF p wf b(1) lay(2)] by simp_all
  have ok: "key_field_ok mem t h" if "h \<in> {IPv4_DST, IPv4_SRC}" for h
    using that ptr assms(5) by (auto simp: key_field_ok_def parsed_def always_set_def)
  have words: "field_word mem t IPv4_DST = Some (ucast (be_value (take 4 (drop 30 (m_data b)))))"
    "field_word mem t IPv4_SRC = Some (ucast (be_value (take 4 (drop 26 (m_data b)))))"
    using parsed_field_reads [OF p wf b lay(1), of 0] parsed_field_reads [OF p wf b lay(2), of 0]
    by (simp_all add: field_word_def)
  have "run_steps (key_step mem t) [0..<2] fk = Inr (key_words mem t 2 @ 0 # drop (2 + 1) fk)"
    by (rule key_loop) (use assms(5,7) lk ok in \<open>auto simp: parsed_def zero_tail_def test_lookup_key_def less_2_cases_iff\<close>)
  also have "key_words mem t 2 @ 0 # drop (2 + 1) fk = flow_of b"
    using lk words assms(7) by (simp add: key_words_def flow_of_def zero_tail_def test_lookup_key_def numeral_eq_Suc)
  finally show ?thesis
    using lk by (simp add: key_extract_def test_lookup_key_def)
qed

definition test_inv :: "'h dpdk \<Rightarrow> (flow_key \<Rightarrow> nat) \<Rightarrow> 'h test_worker \<Rightarrow> bool" where
  "test_inv d n w \<longleftrightarrow>
     test_config d (tw_xfsm w) \<and> wf_table d (tw_xfsm w) \<and> zero_tail (tw_fk w) \<and>
     (\<forall>fk. counted (n fk) (flow_map d (tw_xfsm w) fk))"

text \<open>What a packet of port \<open>i\<close> makes of the worker, unless there is no room for its flow.\<close>

lemma test_packet_ok:
  assumes inv: "test_inv d n w" and b: "tw_mem w m = Some b" "60 \<le> length (m_data b)"
  shows "test_packet d i m w = Inl (UB NullPtr) \<or>
    (\<exists>w'. test_packet d i m w = Inr w' \<and> test_inv d (n(flow_of b := n (flow_of b) + 1)) w' \<and>
       tw_tx w' = tw_tx w @ [forwarded ((of_nat (i + 1) :: u8) = 1) (Some m)] \<and>
       tw_freed w' = tw_freed w @ [m] \<and> tw_mem w' = (tw_mem w)(m := None))"
proof -
  let ?t0 = "(tw_xfsm w)\<lparr>curr_pkt := Some m, in_port := of_nat (i + 1)\<rparr>"
  have cfg: "test_config d (tw_xfsm w)" and wf: "wf_table d (tw_xfsm w)" and tail: "zero_tail (tw_fk w)"
    and cnt: "\<And>fk. counted (n fk) (flow_map d (tw_xfsm w) fk)" using inv by (simp_all add: test_inv_def)
  obtain t where p: "parse_pkt_header (tw_mem w) ?t0 (Some m) = Inr (uint (m_data b ! 23), t)"
    and t: "wf_table d t" "same_config (tw_xfsm w) t" "parsed (tw_mem w) (pkt_fields t)"
      "instances_pool t = instances_pool (tw_xfsm w)" "inst_at d t = inst_at d (tw_xfsm w)"
      "in_port t = of_nat (i + 1)" "curr_pkt t = Some m"
    using parse_step_ok [OF wf, of "tw_mem w" m b "of_nat (i + 1)"] b by blast
  have flds: "wf_fields (pkt_fields ?t0)" using wf by (simp add: wf_table_def)
  have cfg': "test_config d t" using t(2) cfg by (rule test_config_cong)
  have key: "key_extract (tw_mem w) t (tw_fk w) = Inr (True, flow_of b)"
    by (rule test_key [OF p flds b t(3) _ tail]) (use cfg' in \<open>simp add: test_config_def\<close>)
  have fk: "length (flow_of b) = 8" "zero_tail (flow_of b)" by (simp_all add: flow_of_def zero_tail_def numeral_eq_Suc)
  have flows: "flow_map d t = flow_map d (tw_xfsm w)" unfolding flow_map_def fun_eq_iff t(4,5) by simp
  have port: "field_ptr (pkt_fields t) XFSM_IN_PORT = Some Tbl_In_Port" by (rule parse_in_port [OF p flds])
  have "counted (n (flow_of b)) (flow_map d t (flow_of b))" using cnt flows by simp
  from test_stage [OF cfg' t(1,3) fk(1) port this, of "tw_tx w"] show ?thesis
  proof
    assume "stage_match d (tw_mem w) (tw_tx w) t (flow_of b) = Inl (UB NullPtr)"
    with p key show ?thesis by (simp add: test_packet_def)
  next
    assume "\<exists>v t'. stage_match d (tw_mem w) (tw_tx w) t (flow_of b) =
        Inr (v, t', tw_mem w, tw_tx w @ [forwarded (in_port t = 1) (curr_pkt t)]) \<and>
      counted (n (flow_of b) + 1) (flow_map d t' (flow_of b))"
    then obtain v t' where s: "stage_match d (tw_mem w) (tw_tx w) t (flow_of b) =
        Inr (v, t', tw_mem w, tw_tx w @ [forwarded (in_port t = 1) (curr_pkt t)])"
      and c: "counted (n (flow_of b) + 1) (flow_map d t' (flow_of b))" by blast
    from stage_match_ok [OF t(1,3) fk(1), of "tw_tx w"] s have post: "wf_table d t'" "same_config t t'"
      "\<And>k. k \<noteq> flow_of b \<Longrightarrow> flow_map d t' k = flow_map d t k" by (simp_all add: stage_post_def)
    have "test_config d t'" using post(2) cfg' by (rule test_config_cong)
    moreover have "counted ((n(flow_of b := n (flow_of b) + 1)) k) (flow_map d t' k)" for k
      using c post(3) [of k] cnt [of k] flows by simp
    ultimately show ?thesis
      using p key s post(1) fk(2) t(6,7) by (simp add: test_packet_def test_inv_def)
  qed
qed


section \<open>Whole runs\<close>

text \<open>
  The packets of a run, in the order they are processed: port, buffer, contents. \<open>traced\<close>
  says what processing \<open>evs\<close> from \<open>s\<close> made of the worker in the state (\<open>pr\<close> selects it).
\<close>

type_synonym arrival = "nat \<times> nat \<times> mbuf"

definition packets_of :: "flow_key \<Rightarrow> arrival list \<Rightarrow> nat" where
  "packets_of fk evs = length (filter (\<lambda>(i, m, b). flow_of b = fk) evs)"

definition sends :: "arrival list \<Rightarrow> tx_event list" where
  "sends evs = map (\<lambda>(i, m, b). forwarded (i = 0) (Some m)) evs"

definition traced ::
  "('s \<Rightarrow> 'h test_worker) \<Rightarrow> 'h dpdk \<Rightarrow> (flow_key \<Rightarrow> nat) \<Rightarrow> 's \<Rightarrow> arrival list \<Rightarrow> 's res \<Rightarrow> bool" where
  "traced pr d n s evs r \<longleftrightarrow> r = Inl (UB NullPtr) \<or>
     (\<exists>s'. r = Inr s' \<and> test_inv d (\<lambda>fk. n fk + packets_of fk evs) (pr s') \<and>
        tw_tx (pr s') = tw_tx (pr s) @ sends evs \<and>
        tw_freed (pr s') = tw_freed (pr s) @ map (\<lambda>(i, m, b). m) evs)"

lemma traced_Nil: "test_inv d n (pr s) \<Longrightarrow> traced pr d n s [] (Inr s)"
  by (simp add: traced_def packets_of_def sends_def)

lemma traced_bind:
  assumes "traced pr d n s evs m"
    and "\<And>s' n'. m = Inr s' \<Longrightarrow> test_inv d n' (pr s') \<Longrightarrow> traced pr d n' s' evs' (f s')"
  shows "traced pr d n s (evs @ evs') (res_bind m f)"
proof (cases m)
  case (Inl x)
  with assms(1) show ?thesis by (simp add: traced_def)
next
  case (Inr s')
  with assms(1) have s': "test_inv d (\<lambda>fk. n fk + packets_of fk evs) (pr s')"
    "tw_tx (pr s') = tw_tx (pr s) @ sends evs" "tw_freed (pr s') = tw_freed (pr s) @ map (\<lambda>(i, m, b). m) evs"
    by (auto simp: traced_def)
  with assms(2) [OF Inr s'(1)] Inr show ?thesis
    by (auto simp: traced_def packets_of_def sends_def add.assoc)
qed

lemma run_traced:
  assumes "\<And>e s n. e \<in> set es \<Longrightarrow> test_inv d n (pr s) \<Longrightarrow> traced pr d n s (evs e) (step e s)"
    and "test_inv d n (pr s)"
  shows "traced pr d n s (concat (map evs es)) (run_steps step es s)"
  using assms
proof (induction es arbitrary: s n)
  case (Cons e es)
  have "traced pr d n s (evs e @ concat (map evs es)) (res_bind (step e s) (run_steps step es))"
    by (rule traced_bind) (use Cons in auto)
  then show ?case by simp
qed (simp add: traced_Nil)

lemma port_one: "i < 255 \<Longrightarrow> (of_nat (i + 1) :: u8) = 1 \<longleftrightarrow> i = 0"
proof -
  assume "i < 255"
  then have "unat (of_nat (i + 1) :: u8) = i + 1" by (simp add: unat_of_nat del: of_nat_add of_nat_Suc)
  then show ?thesis by (metis add_0 unat_1 add_right_cancel of_nat_1)
qed

definition arrivals :: "nat \<times> (nat \<times> mbuf) list \<Rightarrow> arrival list" where
  "arrivals burst = map (\<lambda>(m, b). (fst burst, m, b)) (snd burst)"

lemma packets_traced:
  assumes "i < 255" and "\<forall>(m, b) \<in> set ps. tw_mem w m = Some b \<and> 60 \<le> length (m_data b)"
    and "distinct (map fst ps)" and "test_inv d n w"
  shows "traced id d n w (arrivals (i, ps)) (run_steps (\<lambda>(m, b). test_packet d i m) ps w)"
  using assms(2-4)
proof (induction ps arbitrary: w n)
  case (Cons p ps)
  obtain m b where p: "p = (m, b)" by (cases p)
  have b: "tw_mem w m = Some b" "60 \<le> length (m_data b)" using Cons.prems p by auto
  have count: "n(flow_of b := n (flow_of b) + 1) = (\<lambda>fk. n fk + packets_of fk [(i, m, b)])"
    by (auto simp: packets_of_def fun_eq_iff)
  note one = test_packet_ok [OF Cons.prems(3) b, of i, unfolded count port_one [OF assms(1)]]
  have "traced id d n w ([(i, m, b)] @ arrivals (i, ps))
      (res_bind (test_packet d i m w) (run_steps (\<lambda>(m, b). test_packet d i m) ps))"
  proof (rule traced_bind)
    show "traced id d n w [(i, m, b)] (test_packet d i m w)"
      using one by (auto simp: traced_def sends_def)
  next
    fix w' n' assume w': "test_packet d i m w = Inr w'" and inv: "test_inv d n' (id w')"
    from one w' have "tw_mem w' = (tw_mem w)(m := None)" by auto
    with Cons.prems(1,2) p have "\<forall>(k, c) \<in> set ps. tw_mem w' k = Some c \<and> 60 \<le> length (m_data c)" by force
    with Cons.IH [of w' n'] Cons.prems(2) inv show "traced id d n' w' (arrivals (i, ps))
        (run_steps (\<lambda>(m, b). test_packet d i m) ps w')" by (simp add: id_def)
  qed
  then show ?case by (simp add: p arrivals_def id_def)
qed (simp add: traced_Nil arrivals_def)

lemma burst_traced:
  assumes "burst_ok burst" and "fst burst < 255" and "test_inv d n w"
  shows "traced id d n w (arrivals burst) (test_burst d burst w)"
proof -
  let ?w = "w\<lparr>tw_mem := tw_mem w ++ map_of (snd burst)\<rparr>"
  have "traced id d n ?w (arrivals (fst burst, snd burst)) (run_steps (\<lambda>(m, b). test_packet d (fst burst) m) (snd burst) ?w)"
    by (rule packets_traced) (use assms in \<open>auto simp: burst_ok_def map_add_Some_iff test_inv_def split: prod.splits\<close>)
  then show ?thesis by (simp add: test_burst_def traced_def)
qed


definition turn_arrivals :: "u64 \<times> (nat \<times> mbuf) list list \<Rightarrow> arrival list" where
  "turn_arrivals turn = concat (map arrivals (enumerate 0 (snd turn)))"

definition turn_ok :: "u64 \<times> (nat \<times> mbuf) list list \<Rightarrow> bool" where
  "turn_ok turn \<longleftrightarrow> length (snd turn) \<le> 255 \<and> (\<forall>ps \<in> set (snd turn). burst_ok (0, ps))"

lemma bursts_traced:
  assumes "turn_ok turn" and "test_inv d n w"
  shows "traced id d n w (turn_arrivals turn) (run_steps (test_burst d) (enumerate 0 (snd turn)) w)"
  unfolding turn_arrivals_def
proof (rule run_traced)
  fix e :: "nat \<times> (nat \<times> mbuf) list" and s :: "'a test_worker" and n
  assume e: "e \<in> set (enumerate 0 (snd turn))" and "test_inv d n (id s)"
  moreover have "snd e \<in> set (snd turn)" "fst e < length (snd turn)"
    using e nth_mem [of "fst e" "snd turn"] by (auto simp: in_set_enumerate_eq)
  then have "fst e < 255" "burst_ok e"
    using assms(1) by (auto simp: turn_ok_def burst_ok_def)
  ultimately show "traced id d n s (arrivals e) (test_burst d e s)" by (simp add: burst_traced)
qed (use assms in simp)

lemma turn_traced:
  assumes "turn_ok turn" and "test_inv d n (snd cw)"
  shows "traced snd d n cw (turn_arrivals turn) (simple_turn d is_master timer_period turn cw)"
proof -
  obtain c w where cw: "cw = (c, w)" by (cases cw)
  from bursts_traced [OF assms(1), of d n w] assms(2) cw show ?thesis
    by (cases turn) (auto simp: traced_def simple_turn_def)
qed

lemma simple_loop_traced:
  assumes "\<forall>turn \<in> set turns. turn_ok turn" and "test_inv d n (snd cw)"
  shows "traced snd d n cw (concat (map turn_arrivals turns)) (simple_loop d is_master timer_period turns cw)"
  unfolding simple_loop_def
  by (rule run_traced) (use assms turn_traced in blast)+

lemma rss_turn_traced:
  assumes "turn_ok turn" and "test_inv d n (snd cw)"
  shows "traced snd d n cw (turn_arrivals turn) (rss_turn d is_master timer_period qconf turn cw)"
proof -
  obtain c w where cw: "cw = (c, w)" by (cases cw)
  from bursts_traced [OF assms(1), of d n w] assms(2) cw show ?thesis
    by (cases turn) (auto simp: traced_def rss_turn_def)
qed

lemma rss_loop_traced:
  assumes "\<forall>turn \<in> set turns. turn_ok turn" and "test_inv d n (snd cw)"
  shows "traced snd d n cw (concat (map turn_arrivals turns)) (rss_loop d is_master timer_period qconf turns cw)"
  unfolding rss_loop_def
  by (rule run_traced) (use assms rss_turn_traced in blast)+

text \<open>The flushes of a run are those of its lcore's buffer.\<close>

definition own_flushes :: "lcore_conf \<Rightarrow> rss_clock \<Rightarrow> bool" where
  "own_flushes qconf c \<longleftrightarrow>
     (\<forall>(p, q, buf) \<in> set (flushes c). p < unat (n_rx_port qconf) \<and> q = queue_id qconf \<and> buf = unat (queue_id qconf))"

interpretation rss_flushes: step_invariant "rss_turn d is_master timer_period qconf" "\<lambda>cw. own_flushes qconf (fst cw)"
  for d is_master timer_period qconf
  by unfold_locales (auto simp: rss_turn_def rss_tick_def own_flushes_def Let_def split: if_splits)

section \<open>The start\<close>

lemma test_entries_static: "e \<in> set test_entries \<Longrightarrow> e_current_state e \<noteq> STATE_NULL \<and> entry_static e"
proof -
  have "action_static (reg_action opc v)" "action_static (send_action v)" "action_static zero_action" for opc v
    by (simp_all add: action_static_def reg_action_def send_action_def zero_action_def operand_static_def)
  then have "entry_static (test_entry s [a, b] [reg_action opc v, send_action u])" for s a b opc v u
    by (simp add: entry_static_def wf_entry_def test_entry_def less_2_cases_iff)
  then show "e \<in> set test_entries \<Longrightarrow> e_current_state e \<noteq> STATE_NULL \<and> entry_static e"
    by (auto simp: test_entries_def test_entry_defs)
qed

lemma test_create_inv:
  assumes c: "test_create d names (test_conditions @ junk) = Inr (names', t)" and ok: "rte_hash_ok d"
    and held: "\<forall>s \<in> {0, 1}. 0 \<le> hash_lookup d (entries_hmap t) [s]"
  shows "test_inv d (\<lambda>_. 0) (test_worker_of t)"
proof -
  have len: "length test_entries = 6" by (simp add: test_entries_def)
  note c = c [unfolded test_create_def]
  have cond: "\<forall>i < unat (2 :: u8). condition_static ((test_conditions @ junk) ! i)"
    by (auto simp: less_2_cases_iff test_conditions_def condition_static_def operand_static_def
        field_static_def always_set_def intro!: exI [of _ XFSM_IN_PORT])
  have key: "key_static test_lookup_key"
    by (auto simp: key_static_def test_lookup_key_def less_2_cases_iff field_static_def always_set_def)
  have static: "\<forall>e \<in> set test_entries. e_current_state e \<noteq> STATE_NULL \<and> entry_static e"
    using test_entries_static by blast
  have two: "unat (2 :: u8) \<le> 16" by simp
  note cfg = create_config_ok [OF c ok static two cond key]
  have wf: "wf_table d t" "flow_map d t fk = None" for fk
    using cfg create_wf_fields [OF c] create_inst_inv [OF c ok] by (simp_all add: wf_table_def flow_map_def)
  have "xfsm_table_lookup d t inst =
      Inr (find (\<lambda>r. e_current_state r = current_state inst \<and> row_matches 2 (results inst) r) test_entries)"
    if "wf_instance inst" "current_state inst \<in> {0, 1}" for inst
    using table_lookup_spec [of d names test_entries 0 "test_conditions @ junk" 2 test_lookup_key 0 names' t inst]
      c ok static that held len by (auto simp: entry_static_def)
  moreover have "take 2 (conditions t) = test_conditions" "nb_conditions t = 2" "t_lookup_key t = test_lookup_key"
    "default_state t = 0"
    by (rule xfsm_table_createE [OF c]; simp add: test_conditions_def)+
  ultimately show ?thesis
    using wf by (simp add: test_inv_def test_config_def test_worker_of_def zero_tail_def counted_def numeral_eq_Suc)
qed


lemma rd_fault: "rd xs i = Inl f \<Longrightarrow> f = UB OutOfBounds" and wr_fault: "wr xs i x = Inl f \<Longrightarrow> f = UB OutOfBounds"
  by (auto simp: rd_def wr_def split: if_splits)

lemma res_bind_fault: "res_bind m g = Inl f \<longleftrightarrow> m = Inl f \<or> (\<exists>x. m = Inr x \<and> g x = Inl f)"
  by (cases m) auto

lemma rd_all_fault: "rd_all xs is = Inl f \<Longrightarrow> f = UB OutOfBounds"
  by (induction "is") (auto simp: res_bind_fault dest: rd_fault)

lemma populate_fault: "populate d es ns hp = Inl f \<Longrightarrow> f = UB OutOfBounds"
proof (induction d es ns hp rule: populate.induct)
  case (2 d es n ns h pool)
  obtain ret h' where "hash_add d h [kn_key n] = (ret, h')" by fastforce
  with 2 show ?case
    by (auto simp: res_bind_fault split: if_splits dest: rd_all_fault wr_fault)
qed simp

lemma test_keys:
  "build_key_list test_entries 6 = Inr [\<lparr>kn_key = 0, kn_entries = [0, 3]\<rparr>, \<lparr>kn_key = 1, kn_entries = [1, 2, 4, 5]\<rparr>]"
  by (simp add: build_key_list_def key_list_step_def insert_key_def upt_rec test_entries_def test_entry_defs)

lemma test_create_slots:
  "\<exists>names t. test_create slot_dpdk [] (test_conditions @ replicate 14 zero_condition) = Inr (names, t) \<and>
     entries_hmap t = Some ([Some [0], Some [1]] @ replicate 8 None)"
proof -
  have "\<exists>pool. populate slot_dpdk test_entries
      [\<lparr>kn_key = 0, kn_entries = [0, 3]\<rparr>, \<lparr>kn_key = 1, kn_entries = [1, 2, 4, 5]\<rparr>]
      (Some (replicate 10 None), replicate 6 \<lparr>hm_key = 0, hm_entries = []\<rparr>) =
    Inr (Some ([Some [0], Some [1]] @ replicate 8 None), pool)"
    by (simp add: hash_add_def slot_add_def slots_10 slot_find_Cons numeral_eq_Suc test_entries_def)
  with test_keys show ?thesis
    by (auto simp: test_create_def xfsm_table_create_def Let_def test_conditions_def)
qed

section \<open>Properties\<close>

text \<open>
  C37: The test programs forward between two ports and count. When the table is created
  and its hash table holds both states, then for any traffic on at most 255 ports, whatever
  lies behind the array of conditions: each packet is sent once, in order of arrival, from
  the first port to the second and from any other port to the first, and is freed; a flow
  (an IPv4 destination and source) has an instance just when a packet of it was seen, in
  state 1 and with the number of its packets modulo 6 in register 0. The run can only end
  early at a flow for which there is no room.
\<close>

theorem test_forwards_and_counts:
  assumes "test_create d names (test_conditions @ junk) = Inr (names', t)" and "rte_hash_ok d"
    and "\<forall>s \<in> {0, 1}. 0 \<le> hash_lookup d (entries_hmap t) [s]"
    and "\<forall>turn \<in> set turns. turn_ok turn"
  shows "case simple_loop d is_master timer_period turns (c, test_worker_of t) of
      Inl f \<Rightarrow> f = UB NullPtr
    | Inr (c', w) \<Rightarrow>
        let evs = concat (map turn_arrivals turns) in
        tw_tx w = map (\<lambda>(i, m, b). forwarded (i = 0) (Some m)) evs \<and> tw_freed w = map (\<lambda>(i, m, b). m) evs \<and>
        (\<forall>fk. case flow_map d (tw_xfsm w) fk of
           None \<Rightarrow> packets_of fk evs = 0
         | Some x \<Rightarrow> 0 < packets_of fk evs \<and> current_state x = 1 \<and>
             registers x ! 0 = of_nat (packets_of fk evs mod 6) \<and> \<not> destroy x)"
proof -
  have inv: "test_inv d (\<lambda>_. 0) (snd (c, test_worker_of t))"
    using test_create_inv [OF assms(1-3)] by simp
  from simple_loop_traced [OF assms(4) this, of is_master timer_period] show ?thesis
    by (auto simp: traced_def sends_def test_inv_def counted_def test_worker_of_def Let_def split: sum.splits prod.splits)
qed

theorem test_forwards_and_counts_witness:
  "\<exists>names t. test_create slot_dpdk [] (test_conditions @ replicate 14 zero_condition) = Inr (names, t) \<and>
     (case simple_loop slot_dpdk True 10 [(7, [[(1, demo_mbuf 6)], [(2, demo_mbuf 17)]])]
         (\<lparr>prev_tsc = 0, timer_tsc = 0, flushed = []\<rparr>, test_worker_of t) of
      Inl f \<Rightarrow> f = UB NullPtr
    | Inr (c, w) \<Rightarrow> tw_tx w = [forwarded True (Some 1), forwarded False (Some 2)] \<and> tw_freed w = [1, 2] \<and>
        (\<forall>x. flow_map slot_dpdk (tw_xfsm w) (replicate 8 0) = Some x \<longrightarrow> registers x ! 0 = 2))"
proof -
  let ?turns = "[(7 :: u64, [[(1 :: nat, demo_mbuf 6)], [(2, demo_mbuf 17)]])]"
  obtain names t where t: "test_create slot_dpdk [] (test_conditions @ replicate 14 zero_condition) = Inr (names, t)"
    "entries_hmap t = Some ([Some [0], Some [1]] @ replicate 8 None)" using test_create_slots by blast
  have held: "\<forall>s \<in> {0, 1}. 0 \<le> hash_lookup slot_dpdk (entries_hmap t) [s]"
    using t(2) by (simp add: hash_lookup_def slot_lookup_def slot_find_Cons)
  have ok: "\<forall>turn \<in> set ?turns. turn_ok turn" by (simp add: turn_ok_def burst_ok_def)
  have evs: "concat (map turn_arrivals ?turns) = [(0, 1, demo_mbuf 6), (1, 2, demo_mbuf 17)]"
    by (simp add: turn_arrivals_def arrivals_def)
  have "flow_of (demo_mbuf p) = replicate 8 0" for p
    by (simp add: flow_of_def demo_mbuf_def numeral_eq_Suc be_value_def take_update_swap drop_update_swap)
  then have two: "packets_of (replicate 8 0) [(0, 1, demo_mbuf 6), (1, 2, demo_mbuf 17)] = 2"
    by (simp add: packets_of_def)
  show ?thesis
    using test_forwards_and_counts [OF t(1) slot_hash_ok held ok, of True 10 "\<lparr>prev_tsc = 0, timer_tsc = 0, flushed = []\<rparr>"]
      t(1) two unfolding evs by (fastforce simp: Let_def split: sum.splits option.splits)
qed

text \<open>
  As they are written, the test programs read past their conditions: the array has the
  two conditions of the table, and \<open>xfsm_table_create\<close> copies sixteen. The start ends in
  that fault, or exits before.
\<close>

theorem test_conditions_overread:
  "test_create d names test_conditions \<in> {Inl (UB OutOfBounds), Inl Exit}"
proof -
  have short: "length test_conditions < 16" by (simp add: test_conditions_def)
  let ?nodes = "[\<lparr>kn_key = 0, kn_entries = [0, 3]\<rparr>, \<lparr>kn_key = 1, kn_entries = [1, 2, 4, 5]\<rparr>]"
  let ?hp = "(rte_hash_create d names (''entries_hash'', 0, rte_lcore_id d) 10,
    replicate 6 \<lparr>hm_key = 0, hm_entries = []\<rparr>)"
  have size: "unat (6 :: u8) = 6" by simp
  show ?thesis
  proof (cases "populate d test_entries ?nodes ?hp")
    case (Inl f)
    then have "f = UB OutOfBounds" by (rule populate_fault)
    with Inl show ?thesis
      by (simp add: test_create_def xfsm_table_create_def Let_def test_keys size del: populate.simps)
  next
    case (Inr hp)
    with short show ?thesis
      by (simp add: test_create_def xfsm_table_create_def Let_def test_keys size split_beta del: populate.simps)
  qed
qed

text \<open>
  An lcore of rss-test transmits nothing but what it forwards to its own number. It
  forwards and counts like simple-test, but it flushes only the transmit buffer with the
  number of its queue, on every port in turn: what it forwards to another port stays in a
  buffer that it never flushes. The lcores after the second flush no packet at all.
\<close>

theorem rss_flushes_one_buffer:
  assumes "test_create d names (test_conditions @ junk) = Inr (names', t)" and "rte_hash_ok d"
    and "\<forall>s \<in> {0, 1}. 0 \<le> hash_lookup d (entries_hmap t) [s]"
    and "\<forall>turn \<in> set turns. turn_ok turn" and "flushes c = []"
  shows "case rss_loop d is_master timer_period qconf turns (c, test_worker_of t) of
      Inl f \<Rightarrow> f = UB NullPtr
    | Inr (c', w) \<Rightarrow>
        tw_tx w = map (\<lambda>(i, m, b). forwarded (i = 0) (Some m)) (concat (map turn_arrivals turns)) \<and>
        (\<forall>e \<in> set (tw_tx w). tx_index e \<noteq> int (unat (queue_id qconf)) \<longrightarrow>
           nat (tx_index e) \<notin> (snd \<circ> snd) ` set (flushes c')) \<and>
        (2 \<le> queue_id qconf \<longrightarrow> (\<forall>e \<in> set (tw_tx w). nat (tx_index e) \<notin> (snd \<circ> snd) ` set (flushes c')))"
proof (cases "rss_loop d is_master timer_period qconf turns (c, test_worker_of t)")
  case (Inl f)
  have "test_inv d (\<lambda>_. 0) (snd (c, test_worker_of t))" using test_create_inv [OF assms(1-3)] by simp
  from rss_loop_traced [OF assms(4) this, of is_master timer_period qconf] Inl show ?thesis by (simp add: traced_def)
next
  case (Inr cw)
  obtain c' w where cw: "cw = (c', w)" by (cases cw)
  have "test_inv d (\<lambda>_. 0) (snd (c, test_worker_of t))" using test_create_inv [OF assms(1-3)] by simp
  from rss_loop_traced [OF assms(4) this, of is_master timer_period qconf] Inr cw
  have tx: "tw_tx w = map (\<lambda>(i, m, b). forwarded (i = 0) (Some m)) (concat (map turn_arrivals turns))"
    by (simp add: traced_def sends_def test_worker_of_def)
  have "own_flushes qconf (fst cw)"
    by (rule rss_flushes.run_keeps [OF _ Inr [unfolded rss_loop_def]]) (simp add: own_flushes_def assms(5))
  then have flush: "buf = unat (queue_id qconf)" if "buf \<in> (snd \<circ> snd) ` set (flushes c')" for buf
    using that cw by (auto simp: own_flushes_def)
  have port: "tx_index e \<in> {0, 1}" if "e \<in> set (tw_tx w)" for e
    using that tx by (auto simp: forwarded_def split: if_splits)
  have own: "tx_index e = int (unat (queue_id qconf))"
    if "e \<in> set (tw_tx w)" "nat (tx_index e) \<in> (snd \<circ> snd) ` set (flushes c')" for e
  proof -
    have "int (nat (tx_index e)) = tx_index e" using port [OF that(1)] by auto
    then show ?thesis using flush [OF that(2)] by metis
  qed
  have "unat (queue_id qconf) \<le> 1" if "e \<in> set (tw_tx w)" "nat (tx_index e) \<in> (snd \<circ> snd) ` set (flushes c')" for e
    using flush [OF that(2)] port [OF that(1)] by (metis empty_iff insert_iff le_numeral_extra(3,4) nat_0 nat_one_as_int of_nat_1 nat_int zero_le)
  then have "\<not> 2 \<le> queue_id qconf" if "e \<in> set (tw_tx w)" "nat (tx_index e) \<in> (snd \<circ> snd) ` set (flushes c')" for e
    using that by (force simp: word_le_nat_alt)
  with own show ?thesis unfolding Inr cw sum.case prod.case using tx by blast
qed


theorem rss_flushes_one_buffer_witness:
  "\<exists>names t. test_create slot_dpdk [] (test_conditions @ replicate 14 zero_condition) = Inr (names, t) \<and>
     (case rss_loop slot_dpdk True 10 \<lparr>n_rx_port = 2, queue_id = 0\<rparr> [(7, [[(1, demo_mbuf 6)], [(2, demo_mbuf 17)]]), (1000, [[], []])]
         (\<lparr>rss_prev_tsc = 0, rss_timer_tsc = 0, flushes = []\<rparr>, test_worker_of t) of
      Inl f \<Rightarrow> f = UB NullPtr
    | Inr (c, w) \<Rightarrow> tw_tx w = [forwarded True (Some 1), forwarded False (Some 2)] \<and>
        1 \<notin> (snd \<circ> snd) ` set (flushes c))"
proof -
  let ?turns = "[(7 :: u64, [[(1 :: nat, demo_mbuf 6)], [(2, demo_mbuf 17)]]), (1000, [[], []])]"
  obtain names t where t: "test_create slot_dpdk [] (test_conditions @ replicate 14 zero_condition) = Inr (names, t)"
    "entries_hmap t = Some ([Some [0], Some [1]] @ replicate 8 None)" using test_create_slots by blast
  have held: "\<forall>s \<in> {0, 1}. 0 \<le> hash_lookup slot_dpdk (entries_hmap t) [s]"
    using t(2) by (simp add: hash_lookup_def slot_lookup_def slot_find_Cons)
  have ok: "\<forall>turn \<in> set ?turns. turn_ok turn" by (simp add: turn_ok_def burst_ok_def)
  have evs: "concat (map turn_arrivals ?turns) = [(0, 1, demo_mbuf 6), (1, 2, demo_mbuf 17)]"
    by (simp add: turn_arrivals_def arrivals_def)
  show ?thesis
    using rss_flushes_one_buffer [OF t(1) slot_hash_ok held ok, of "\<lparr>rss_prev_tsc = 0, rss_timer_tsc = 0, flushes = []\<rparr>"
        "\<lparr>n_rx_port = 2, queue_id = 0\<rparr>" True 10] t(1) unfolding evs
    by (auto simp: forwarded_def image_iff split: sum.splits, auto dest: bspec)
qed

end
