(* ===== verification/Match_Cache.thy ===== *)
theory Match_Cache
  imports Test_Programs
begin

text \<open>
  The match cache of SW-FB/xfsm.c (\<open>cache_lookup\<close>, \<open>cache_insert\<close>), which the test programs
  have when they are compiled with \<open>CACHE_ENABLE\<close>: the matched row by state and condition
  results, so that the rows of a state are searched once. What it must promise, stated as an
  interface, is that it never changes which row a packet matches.
\<close>

section \<open>The hash table with data\<close>

record cache_key =
  ck_results :: "xfsm_results list"
  ck_state :: u32

text \<open>
  \<open>rte_hash_lookup_data\<close> returns a code and, when the key is present, writes its data;
  \<open>rte_hash_add_key_data\<close> returns a code.
\<close>

record 'c data_hash =
  rte_hash_lookup_data :: "'c \<Rightarrow> cache_key \<Rightarrow> int \<times> xfsm_table_entry option"
  rte_hash_add_key_data :: "'c \<Rightarrow> cache_key \<Rightarrow> xfsm_table_entry \<Rightarrow> int \<times> 'c"

text \<open>
  What is relied on: data is written only if the key is present, in which case the code is
  not negative, and adding a key gives data to no other key and no other data to the key.
\<close>

definition data_hash_ok :: "'c data_hash \<Rightarrow> bool" where
  "data_hash_ok cl \<longleftrightarrow>
     (\<forall>h k r e. rte_hash_lookup_data cl h k = (r, Some e) \<longrightarrow> 0 \<le> r) \<and>
     (\<forall>h k e r h' k' e'. rte_hash_add_key_data cl h k e = (r, h') \<and> snd (rte_hash_lookup_data cl h' k') = Some e' \<longrightarrow>
        (k' = k \<and> e' = e) \<or> snd (rte_hash_lookup_data cl h k') = Some e')"

section \<open>The operations\<close>

abbreviation (input) ENOENT :: int where "ENOENT \<equiv> 2"

definition cache_lookup :: "'c data_hash \<Rightarrow> 'c \<Rightarrow> cache_key \<Rightarrow> xfsm_table_entry option" where
  "cache_lookup cl h key =
     (case rte_hash_lookup_data cl h key of (ret, match) \<Rightarrow> if ret = - ENOENT then None else match)"

definition cache_insert :: "'c data_hash \<Rightarrow> 'c \<Rightarrow> cache_key \<Rightarrow> xfsm_table_entry \<Rightarrow> 'c" where
  "cache_insert cl h key entry = snd (rte_hash_add_key_data cl h key entry)"

text \<open>The key is packed into zeroed memory.\<close>

definition pack_key :: "nat \<Rightarrow> xfsm_instance \<Rightarrow> cache_key" where
  "pack_key NUM_CONDITION inst =
     \<lparr>ck_results = take NUM_CONDITION (results inst) @ replicate (MAX_CONDITIONS - NUM_CONDITION) XFSM_FALSE,
      ck_state = current_state inst\<rparr>"

record 'c match_cache =
  mc_hash :: 'c
  cache_matches :: u64

text \<open>A stage with the cache: \<open>stage_match\<close> with the search done only on a miss.\<close>

definition cached_match ::
  "'c data_hash \<Rightarrow> nat \<Rightarrow> 'h dpdk \<Rightarrow> 'h xfsm_table \<Rightarrow> xfsm_instance \<Rightarrow> 'c match_cache \<Rightarrow>
     (xfsm_table_entry option \<times> 'c match_cache) res" where
  "cached_match cl nc d t inst mc =
     (let ck = pack_key nc inst in
      case cache_lookup cl (mc_hash mc) ck of
        None \<Rightarrow>
          res_bind (xfsm_table_lookup d t inst)
            (\<lambda>match. Inr (match, case match of None \<Rightarrow> mc | Some e \<Rightarrow> mc\<lparr>mc_hash := cache_insert cl (mc_hash mc) ck e\<rparr>))
      | Some e \<Rightarrow> Inr (Some e, mc\<lparr>cache_matches := cache_matches mc + 1\<rparr>))"

definition cached_stage ::
  "'c data_hash \<Rightarrow> nat \<Rightarrow> 'h dpdk \<Rightarrow> pktmem \<Rightarrow> tx_event list \<Rightarrow> 'h xfsm_table \<Rightarrow> flow_key \<Rightarrow> 'c match_cache \<Rightarrow>
     ((verdict \<times> 'h xfsm_table \<times> pktmem \<times> tx_event list) \<times> 'c match_cache) res" where
  "cached_stage cl nc d mem tx xfsm fk mc =
     res_bind (lookup_instance d xfsm fk)
      (\<lambda>(match_inst, t1).
        case match_inst of
          None \<Rightarrow> Inl (UB NullPtr)
        | Some j \<Rightarrow>
          res_bind (xfsm_evaluate_conditions mem t1 (instances_pool t1 j))
           (\<lambda>inst.
             let t2 = set_inst t1 j inst in
             res_bind (cached_match cl nc d t2 inst mc)
              (\<lambda>(match, mc').
                case match of
                  None \<Rightarrow> Inr ((To_Free, t2, mem, tx), mc')
                | Some e \<Rightarrow> res_bind (stage_act d mem tx t2 j inst e) (\<lambda>r. Inr (r, mc')))))"

definition cached_packet ::
  "'c data_hash \<Rightarrow> nat \<Rightarrow> 'h dpdk \<Rightarrow> nat \<Rightarrow> nat \<Rightarrow> 'h test_worker \<times> 'c match_cache \<Rightarrow> ('h test_worker \<times> 'c match_cache) res" where
  "cached_packet cl nc d i m wc =
     (case wc of (w, mc) \<Rightarrow>
      let xfsm = (tw_xfsm w)\<lparr>curr_pkt := Some m, in_port := of_nat (i + 1)\<rparr> in
      res_bind (parse_pkt_header (tw_mem w) xfsm (Some m)) (\<lambda>(_, xfsm).
      res_bind (key_extract (tw_mem w) xfsm (tw_fk w)) (\<lambda>(ok, fk).
      res_bind (if ok then cached_stage cl nc d (tw_mem w) (tw_tx w) xfsm fk mc
                else Inr ((To_Free, xfsm, tw_mem w, tw_tx w), mc)) (\<lambda>((_, xfsm, mem, tx), mc).
      Inr (w\<lparr>tw_xfsm := xfsm, tw_fk := fk, tw_mem := mem(m := None), tw_tx := tx,
             tw_freed := tw_freed w @ [m]\<rparr>, mc)))))"

definition cached_burst ::
  "'c data_hash \<Rightarrow> nat \<Rightarrow> 'h dpdk \<Rightarrow> nat \<times> (nat \<times> mbuf) list \<Rightarrow> 'h test_worker \<times> 'c match_cache \<Rightarrow>
     ('h test_worker \<times> 'c match_cache) res" where
  "cached_burst cl nc d burst wc =
     (case wc of (w, mc) \<Rightarrow>
      run_steps (\<lambda>(m, b). cached_packet cl nc d (fst burst) m) (snd burst)
        (w\<lparr>tw_mem := tw_mem w ++ map_of (snd burst)\<rparr>, mc))"

definition cached_turn ::
  "'c data_hash \<Rightarrow> nat \<Rightarrow> 'h dpdk \<Rightarrow> bool \<Rightarrow> u64 \<Rightarrow> u64 \<times> (nat \<times> mbuf) list list \<Rightarrow>
     (clock \<times> 'h test_worker) \<times> 'c match_cache \<Rightarrow> ((clock \<times> 'h test_worker) \<times> 'c match_cache) res" where
  "cached_turn cl nc d is_master timer_period turn st =
     (case turn of (cur_tsc, bursts) \<Rightarrow>
      case st of ((c, w), mc) \<Rightarrow>
        res_bind (run_steps (cached_burst cl nc d) (enumerate 0 bursts) (w, mc))
          (\<lambda>(w, mc). Inr ((drain_tick d is_master timer_period (length bursts) cur_tsc c, w), mc)))"

definition cached_loop ::
  "'c data_hash \<Rightarrow> nat \<Rightarrow> 'h dpdk \<Rightarrow> bool \<Rightarrow> u64 \<Rightarrow> (u64 \<times> (nat \<times> mbuf) list list) list \<Rightarrow>
     (clock \<times> 'h test_worker) \<times> 'c match_cache \<Rightarrow> ((clock \<times> 'h test_worker) \<times> 'c match_cache) res" where
  "cached_loop cl nc d is_master timer_period = run_steps (cached_turn cl nc d is_master timer_period)"

section \<open>Packet templates\<close>

text \<open>
  \<open>create_pkttmp\<close>: a buffer of the pool (\<open>alloc\<close>, the result of the allocation) is entered
  in the table and filled; the data room of the buffer is what can be appended. An identifier
  out of range is found only after the allocation.
\<close>

definition create_pkttmp ::
  "nat option \<Rightarrow> 'h xfsm_table \<Rightarrow> pktmem \<Rightarrow> u8 list \<Rightarrow> u16 \<Rightarrow> u8 \<Rightarrow> (nat option \<times> 'h xfsm_table \<times> pktmem) res" where
  "create_pkttmp alloc xfsm mem buf len i =
     (case alloc of
        None \<Rightarrow> Inl Exit
      | Some m \<Rightarrow>
          if unat i < PKTTMP_POOL_SIZE then
            (case mem m of
               None \<Rightarrow> Inl (UB Dangling)
             | Some b \<Rightarrow>
                 if length (m_data b) < unat len then Inl (UB NullPtr)
                 else if length buf < unat len then Inl (UB OutOfBounds)
                 else Inr (Some m, xfsm\<lparr>pkttmps := (pkttmps xfsm)[unat i := Some m]\<rparr>,
                           mem(m \<mapsto> b\<lparr>m_data := splice_at 0 (take (unat len) buf) (m_data b)\<rparr>)))
          else Inr (None, xfsm, mem))"

text \<open>A template that was created is in the table and reads back; others are as they were.\<close>

lemma create_pkttmp_reads:
  assumes "create_pkttmp alloc xfsm mem buf len i = Inr (Some m, xfsm', mem')" and "length (pkttmps xfsm) = PKTTMP_POOL_SIZE"
  shows "pkttmps xfsm' ! unat i = Some m \<and> (\<forall>k. k \<noteq> unat i \<longrightarrow> pkttmps xfsm' ! k = pkttmps xfsm ! k) \<and>
    load_bytes mem' (in_port xfsm') (Pkt_Data m 0) (unat len) = Inr (take (unat len) buf) \<and>
    (\<forall>k. k \<noteq> m \<longrightarrow> mem' k = mem k)"
  using assms
  by (auto simp: create_pkttmp_def load_bytes_Inr_iff obj_bytes_def ptr_off_def splice_at_def split: option.splits if_splits)

section \<open>The interface\<close>

text \<open>
  A memo of a partial function \<open>f\<close>: \<open>sound c f\<close> says that what the memo holds is what \<open>f\<close>
  gives. A client that asks the memo first and \<open>f\<close> on a miss gets what \<open>f\<close> gives.
\<close>

locale memo =
  fixes get :: "'c \<Rightarrow> 'k \<Rightarrow> 'v option"
    and put :: "'c \<Rightarrow> 'k \<Rightarrow> 'v \<Rightarrow> 'c"
    and sound :: "'c \<Rightarrow> ('k \<Rightarrow> 'v option) \<Rightarrow> bool"
  assumes get_sound: "sound c f \<Longrightarrow> get c k = Some v \<Longrightarrow> f k = Some v"
    and put_sound: "sound c f \<Longrightarrow> f k = Some v \<Longrightarrow> sound (put c k v) f"
begin

definition ask :: "'c \<Rightarrow> ('k \<Rightarrow> 'v option) \<Rightarrow> 'k \<Rightarrow> 'v option \<times> 'c" where
  "ask c f k =
     (case get c k of
        Some v \<Rightarrow> (Some v, c)
      | None \<Rightarrow> (f k, case f k of None \<Rightarrow> c | Some v \<Rightarrow> put c k v))"

lemma ask_transparent:
  assumes "sound c f"
  shows "fst (ask c f k) = f k" and "sound (snd (ask c f k)) f"
  using assms get_sound [OF assms] put_sound [OF assms, of k]
  by (auto simp: ask_def split: option.splits)

end

definition cache_sound :: "'c data_hash \<times> 'c \<Rightarrow> (cache_key \<Rightarrow> xfsm_table_entry option) \<Rightarrow> bool" where
  "cache_sound clh f \<longleftrightarrow>
     (case clh of (cl, h) \<Rightarrow> data_hash_ok cl \<and> (\<forall>k e. snd (rte_hash_lookup_data cl h k) = Some e \<longrightarrow> f k = Some e))"

interpretation match_memo: memo "\<lambda>(cl, h). cache_lookup cl h" "\<lambda>(cl, h) k e. (cl, cache_insert cl h k e)" cache_sound
proof
  fix c :: "'c data_hash \<times> 'c" and f k v
  assume "cache_sound c f" "(case c of (cl, h) \<Rightarrow> cache_lookup cl h) k = Some v"
  then show "f k = Some v"
    by (fastforce simp: cache_sound_def cache_lookup_def split: prod.splits if_splits)
next
  fix c :: "'c data_hash \<times> 'c" and f k v
  assume s: "cache_sound c f" "f k = Some v"
  obtain cl h where c: "c = (cl, h)" by (cases c)
  obtain r h' where add: "rte_hash_add_key_data cl h k v = (r, h')" by fastforce
  with s c have "f k' = Some e'" if "snd (rte_hash_lookup_data cl h' k') = Some e'" for k' e'
    using that unfolding cache_sound_def data_hash_ok_def by blast
  with s c add show "cache_sound ((case c of (cl, h) \<Rightarrow> \<lambda>k e. (cl, cache_insert cl h k e)) k v) f"
    by (simp add: cache_sound_def cache_insert_def)
qed


section \<open>The row a key stands for\<close>

definition searched :: "'h dpdk \<Rightarrow> 'h xfsm_table \<Rightarrow> cache_key \<Rightarrow> xfsm_table_entry option" where
  "searched d t k =
     (case xfsm_table_lookup d t (zero_instance\<lparr>results := ck_results k, current_state := ck_state k\<rparr>) of
        Inr m \<Rightarrow> m | Inl _ \<Rightarrow> None)"

lemma scan_results_cong:
  "(\<And>i. i < nb \<Longrightarrow> rd ir i = rd ir' i) \<Longrightarrow> scan_results nb mr ir i = scan_results nb mr ir' i"
proof (induction nb mr ir i rule: scan_results.induct)
  case (1 nb mr ir i)
  show ?case
  proof (cases "i < nb")
    case True
    with 1 have "scan_results nb mr ir (i + 1) = scan_results nb mr ir' (i + 1)"
      if "rd mr i = Inr XFSM_DONT_CARE" "i \<noteq> nb - 1" using that by simp
    moreover have "scan_results nb mr ir (i + 1) = scan_results nb mr ir' (i + 1)"
      if "rd mr i = Inr m" "m \<noteq> XFSM_DONT_CARE" "rd ir i = Inr m" "i \<noteq> nb - 1" for m
      using 1 True that by simp
    ultimately show ?thesis
      using True 1(3) [OF True] by (subst (1 2) scan_results.simps) (auto simp: res_bind_def split: sum.splits)
  qed (simp add: scan_results.simps)
qed

lemma scan_entries_cong:
  "(\<And>i. i < nb \<Longrightarrow> rd ir i = rd ir' i) \<Longrightarrow> scan_entries nb ir es = scan_entries nb ir' es"
proof (induction es)
  case (Cons e es)
  then have "scan_entries nb ir es = scan_entries nb ir' es" by blast
  with Cons.prems show ?case by (simp only: scan_entries.simps scan_results_cong [of nb ir ir'])
qed simp

lemma lookup_by_key:
  assumes "wf_instance inst" and "unat (nb_conditions t) \<le> nc" and "nc \<le> 16"
  shows "xfsm_table_lookup d t inst =
    xfsm_table_lookup d t (zero_instance\<lparr>results := ck_results (pack_key nc inst), current_state := ck_state (pack_key nc inst)\<rparr>)"
proof -
  have "rd (results inst) i = rd (ck_results (pack_key nc inst)) i" if "i < unat (nb_conditions t)" for i
    using that assms by (simp add: pack_key_def wf_instance_def rd_def nth_append)
  from scan_entries_cong [OF this] show ?thesis
    by (simp add: xfsm_table_lookup_def pack_key_def Let_def)
qed

lemma cached_match_transparent:
  assumes "config_ok d t" and "wf_instance inst" and "unat (nb_conditions t) \<le> nc" and "nc \<le> 16"
    and sound: "cache_sound (cl, mc_hash mc) (searched d t)"
  shows "\<exists>m mc'. xfsm_table_lookup d t inst = Inr m \<and> cached_match cl nc d t inst mc = Inr (m, mc') \<and>
    cache_sound (cl, mc_hash mc') (searched d t)"
proof -
  obtain m where m: "xfsm_table_lookup d t inst = Inr m" using table_lookup_returns [OF assms(1,2)] by blast
  have key: "searched d t (pack_key nc inst) = m"
    unfolding searched_def lookup_by_key [OF assms(2-4), symmetric] m by simp
  let ?h = "(cl, mc_hash mc)"
  have "match_memo.ask ?h (searched d t) (pack_key nc inst) =
      (case cache_lookup cl (mc_hash mc) (pack_key nc inst) of
         Some e \<Rightarrow> (Some e, ?h)
       | None \<Rightarrow> (m, case m of None \<Rightarrow> ?h | Some e \<Rightarrow> (cl, cache_insert cl (mc_hash mc) (pack_key nc inst) e)))"
    by (simp add: match_memo.ask_def key split: option.splits)
  with match_memo.ask_transparent [OF sound, of "pack_key nc inst"] key m show ?thesis
    by (auto simp: cached_match_def Let_def split: option.splits)
qed

lemma searched_cong:
  assumes "same_config t t'"
  shows "searched d t' = searched d t"
proof -
  have "xfsm_table_lookup d t' = xfsm_table_lookup d t"
    using assms by (simp add: same_config_def xfsm_table_lookup_def Let_def fun_eq_iff)
  then show ?thesis by (simp add: searched_def fun_eq_iff)
qed


section \<open>A packet, a run\<close>

lemma cached_stage_transparent:
  assumes "wf_table d t" and "parsed mem (pkt_fields t)" and "length fk = 8"
    and "unat (nb_conditions t) \<le> nc" and "nc \<le> 16" and sound: "cache_sound (cl, mc_hash mc) (searched d t)"
  shows "map_sum id fst (cached_stage cl nc d mem tx t fk mc) = stage_match d mem tx t fk \<and>
    (\<forall>r mc'. cached_stage cl nc d mem tx t fk mc = Inr (r, mc') \<longrightarrow> cache_sound (cl, mc_hash mc') (searched d t))"
proof -
  have inv: "inst_inv d t" using assms(1) by (simp add: wf_table_def)
  obtain io t1 where l: "lookup_instance d t fk = Inr (io, t1)"
    using flows.get_returns [OF inv assms(3)] by blast
  show ?thesis
  proof (cases io)
    case None
    with l show ?thesis by (simp add: cached_stage_def stage_match_def)
  next
    case (Some j)
    note l = l [unfolded Some]
    note fr = lookup_instance_frame [OF l]
    have inv1: "inst_inv d t1" by (rule flows.get_inv [OF inv assms(3) l])
    have at1: "inst_at d t1 fk = Some j" by (rule flows.get_at [OF inv assms(3) l])
    have cfg1: "config_ok d t1" "length (global_registers t1) = 32"
      using assms(1) fr config_ok_cong [of t t1 d] by (auto simp: wf_table_def)
    let ?x = "instances_pool t1 j"
    have x: "wf_instance ?x" using inv1 at1 by (auto simp: inst_inv_def)
    obtain rs where ev: "xfsm_evaluate_conditions mem t1 ?x = Inr (?x\<lparr>results := rs\<rparr>)" "length rs = 16"
      using conditions_returns [OF _ cfg1(2) x cfg1(1), of mem] assms(2) fr by auto
    let ?y = "?x\<lparr>results := rs\<rparr>" and ?t2 = "set_inst t1 j (?x\<lparr>results := rs\<rparr>)"
    have cfg: "same_config t ?t2" using fr by (blast intro: same_config_trans set_inst_fields)
    have y: "wf_instance ?y" using x ev(2) by (simp add: wf_instance_def)
    have "config_ok d ?t2" "unat (nb_conditions ?t2) \<le> nc" "cache_sound (cl, mc_hash mc) (searched d ?t2)"
      using assms(1,4) sound cfg config_ok_cong [OF cfg] searched_cong [OF cfg]
      by (auto simp: wf_table_def same_config_def)
    from cached_match_transparent [OF this(1) y this(2) assms(5) this(3)] obtain m mc' where
      m: "xfsm_table_lookup d ?t2 ?y = Inr m" "cached_match cl nc d ?t2 ?y mc = Inr (m, mc')"
      and s: "cache_sound (cl, mc_hash mc') (searched d t)"
      unfolding searched_cong [OF cfg] by blast
    have one: "map_sum id fst (res_bind r (\<lambda>r. Inr (r, mc'))) = r" for r :: "(verdict \<times> 'a xfsm_table \<times> pktmem \<times> tx_event list) res"
      by (cases r) simp_all
    from l ev(1) m s one show ?thesis
      by (cases m) (auto simp: cached_stage_def stage_match_def Let_def)
  qed
qed

definition cached_inv :: "'c data_hash \<Rightarrow> nat \<Rightarrow> 'h dpdk \<Rightarrow> 'h test_worker \<times> 'c match_cache \<Rightarrow> bool" where
  "cached_inv cl nc d wc \<longleftrightarrow>
     (case wc of (w, mc) \<Rightarrow>
        wf_table d (tw_xfsm w) \<and> length (tw_fk w) = 8 \<and> unat (nb_conditions (tw_xfsm w)) \<le> nc \<and> nc \<le> 16 \<and>
        cache_sound (cl, mc_hash mc) (searched d (tw_xfsm w)))"

text \<open>\<open>agrees\<close>: the step with the cache does what the one without it does, and keeps the invariant.\<close>

definition agrees ::
  "('s \<Rightarrow> 't) \<Rightarrow> ('s \<Rightarrow> bool) \<Rightarrow> 's res \<Rightarrow> 't res \<Rightarrow> bool" where
  "agrees pr P r r0 \<longleftrightarrow> map_sum id pr r = r0 \<and> (\<forall>s. r = Inr s \<longrightarrow> P s)"

lemma agrees_run:
  assumes "\<And>e s. e \<in> set es \<Longrightarrow> P s \<Longrightarrow> agrees pr P (step e s) (step0 e (pr s))" and "P s"
  shows "agrees pr P (run_steps step es s) (run_steps step0 es (pr s))"
  using assms
proof (induction es arbitrary: s)
  case (Cons e es)
  then have one: "agrees pr P (step e s) (step0 e (pr s))" by simp
  show ?case
  proof (cases "step e s")
    case (Inl f)
    with one have "step0 e (pr s) = Inl f" by (auto simp: agrees_def)
    with Inl show ?thesis by (simp add: agrees_def)
  next
    case (Inr s')
    with one have "step0 e (pr s) = Inr (pr s')" "P s'" by (auto simp: agrees_def)
    with Inr Cons show ?thesis by simp
  qed
qed (simp add: agrees_def)

lemma cached_packet_agrees:
  assumes "cached_inv cl nc d wc" and ok: "pkt_ok (tw_mem (fst wc)) m"
  shows "agrees fst (\<lambda>wc'. cached_inv cl nc d wc' \<and>
      (\<forall>k. k \<noteq> m \<and> pkt_ok (tw_mem (fst wc)) k \<longrightarrow> pkt_ok (tw_mem (fst wc')) k))
    (cached_packet cl nc d i m wc) (test_packet d i m (fst wc))"
proof -
  obtain w mc where wc: "wc = (w, mc)" by (cases wc)
  from assms wc have wf: "wf_table d (tw_xfsm w)" and fk: "length (tw_fk w) = 8" and nc: "nc \<le> 16"
    and nb: "unat (nb_conditions (tw_xfsm w)) \<le> nc" and sound: "cache_sound (cl, mc_hash mc) (searched d (tw_xfsm w))"
    by (auto simp: cached_inv_def)
  from ok wc obtain b where b: "tw_mem w m = Some b" "60 \<le> length (m_data b)" by (auto simp: pkt_ok_def)
  let ?t0 = "(tw_xfsm w)\<lparr>curr_pkt := Some m, in_port := of_nat (i + 1)\<rparr>"
  obtain t where p: "parse_pkt_header (tw_mem w) ?t0 (Some m) = Inr (uint (m_data b ! 23), t)"
    and t: "wf_table d t" "same_config (tw_xfsm w) t" "parsed (tw_mem w) (pkt_fields t)"
    using parse_step_ok [OF wf, of "tw_mem w" m b "of_nat (i + 1)"] b by blast
  have "key_static (t_lookup_key t)" using t(1) by (simp add: wf_table_def config_ok_def)
  from key_extract_returns [OF t(3) this fk] obtain fk1 where
    fk1: "key_extract (tw_mem w) t (tw_fk w) = Inr (True, fk1)" "length fk1 = 8" by blast
  have nb1: "unat (nb_conditions t) \<le> nc" using nb t(2) by (simp add: same_config_def)
  have sound1: "cache_sound (cl, mc_hash mc) (searched d t)" using sound searched_cong [OF t(2)] by simp
  note st = cached_stage_transparent [OF t(1,3) fk1(2) nb1 nc sound1, of "tw_tx w"]
  show ?thesis
  proof (cases "cached_stage cl nc d (tw_mem w) (tw_tx w) t fk1 mc")
    case (Inl f)
    with st have "stage_match d (tw_mem w) (tw_tx w) t fk1 = Inl f" by auto
    with Inl p fk1 wc show ?thesis by (simp add: agrees_def cached_packet_def test_packet_def)
  next
    case (Inr rm)
    obtain v t' mem' tx' mc' where rm: "rm = ((v, t', mem', tx'), mc')" by (metis prod.collapse)
    with Inr st have plain: "stage_match d (tw_mem w) (tw_tx w) t fk1 = Inr (v, t', mem', tx')"
      and s': "cache_sound (cl, mc_hash mc') (searched d t)" by auto
    from stage_match_ok [OF t(1,3) fk1(2), of "tw_tx w"] plain have post: "wf_table d t'" "same_config t t'"
      "same_shape (tw_mem w) mem'" by (simp_all add: stage_post_def)
    have "cache_sound (cl, mc_hash mc') (searched d t')" using s' searched_cong [OF post(2)] by simp
    moreover have "unat (nb_conditions t') \<le> nc" using nb1 post(2) by (simp add: same_config_def)
    moreover have "pkt_ok (mem'(m := None)) k" if "k \<noteq> m" "pkt_ok (tw_mem w) k" for k
      using pkt_ok_shape [OF post(3) that(2)] that(1) by (simp add: pkt_ok_def)
    ultimately show ?thesis
      using Inr rm plain p fk1 wc post(1) nc by (simp add: agrees_def cached_packet_def test_packet_def cached_inv_def)
  qed
qed


lemma agrees_mono: "agrees pr P r r0 \<Longrightarrow> (\<And>s. P s \<Longrightarrow> Q s) \<Longrightarrow> agrees pr Q r r0"
  by (simp add: agrees_def)

lemma cached_packets_agree:
  assumes "cached_inv cl nc d wc" and "\<forall>(m, b) \<in> set ps. pkt_ok (tw_mem (fst wc)) m" and "distinct (map fst ps)"
  shows "agrees fst (cached_inv cl nc d) (run_steps (\<lambda>(m, b). cached_packet cl nc d i m) ps wc)
    (run_steps (\<lambda>(m, b). test_packet d i m) ps (fst wc))"
  using assms
proof (induction ps arbitrary: wc)
  case (Cons p ps)
  obtain m b where p: "p = (m, b)" by (cases p)
  have one: "agrees fst (\<lambda>wc'. cached_inv cl nc d wc' \<and>
      (\<forall>k. k \<noteq> m \<and> pkt_ok (tw_mem (fst wc)) k \<longrightarrow> pkt_ok (tw_mem (fst wc')) k))
    (cached_packet cl nc d i m wc) (test_packet d i m (fst wc))"
    by (rule cached_packet_agrees) (use Cons.prems p in auto)
  show ?case
  proof (cases "cached_packet cl nc d i m wc")
    case (Inl f)
    with one have "test_packet d i m (fst wc) = Inl f" by (auto simp: agrees_def)
    with Inl p show ?thesis by (simp add: agrees_def)
  next
    case (Inr wc')
    with one have step: "test_packet d i m (fst wc) = Inr (fst wc')" and inv: "cached_inv cl nc d wc'"
      and rest: "\<And>k. k \<noteq> m \<Longrightarrow> pkt_ok (tw_mem (fst wc)) k \<Longrightarrow> pkt_ok (tw_mem (fst wc')) k"
      by (auto simp: agrees_def)
    have "\<forall>(k, c) \<in> set ps. pkt_ok (tw_mem (fst wc')) k" using rest Cons.prems(2,3) p by force
    with Cons.IH [OF inv] Cons.prems(3) Inr step p show ?thesis by simp
  qed
qed (simp add: agrees_def)

lemma cached_burst_agrees:
  assumes "cached_inv cl nc d wc" and "burst_ok burst"
  shows "agrees fst (cached_inv cl nc d) (cached_burst cl nc d burst wc) (test_burst d burst (fst wc))"
proof -
  obtain w mc where wc: "wc = (w, mc)" by (cases wc)
  let ?w = "w\<lparr>tw_mem := tw_mem w ++ map_of (snd burst)\<rparr>"
  have "agrees fst (cached_inv cl nc d) (run_steps (\<lambda>(m, b). cached_packet cl nc d (fst burst) m) (snd burst) (?w, mc))
      (run_steps (\<lambda>(m, b). test_packet d (fst burst) m) (snd burst) (fst (?w, mc)))"
    by (rule cached_packets_agree)
      (use assms wc in \<open>auto simp: cached_inv_def burst_ok_def pkt_ok_def map_add_Some_iff split: prod.splits\<close>)
  then show ?thesis by (simp add: cached_burst_def test_burst_def wc)
qed

text \<open>The part of the state the run without the cache has, and the part the bursts work on.\<close>

definition turn_inv :: "'c data_hash \<Rightarrow> nat \<Rightarrow> 'h dpdk \<Rightarrow> (clock \<times> 'h test_worker) \<times> 'c match_cache \<Rightarrow> bool" where
  "turn_inv cl nc d st \<longleftrightarrow> (case st of ((c, w), mc) \<Rightarrow> cached_inv cl nc d (w, mc))"

lemma cached_turn_agrees:
  assumes "turn_inv cl nc d st" and "turn_ok turn"
  shows "agrees fst (turn_inv cl nc d) (cached_turn cl nc d is_master timer_period turn st)
    (simple_turn d is_master timer_period turn (fst st))"
proof -
  obtain c w mc where st: "st = ((c, w), mc)" by (metis prod.collapse)
  obtain tsc bursts where turn: "turn = (tsc, bursts)" by (cases turn)
  have "agrees fst (cached_inv cl nc d) (run_steps (cached_burst cl nc d) (enumerate 0 bursts) (w, mc))
      (run_steps (test_burst d) (enumerate 0 bursts) (fst (w, mc)))"
  proof (rule agrees_run)
    fix e :: "nat \<times> (nat \<times> mbuf) list" and s :: "'b test_worker \<times> 'a match_cache"
    assume "e \<in> set (enumerate 0 bursts)" "cached_inv cl nc d s"
    moreover from this have "snd e \<in> set bursts" using nth_mem [of "fst e" bursts] by (auto simp: in_set_enumerate_eq)
    ultimately show "agrees fst (cached_inv cl nc d) (cached_burst cl nc d e s) (test_burst d e (fst s))"
      using assms(2) turn by (intro cached_burst_agrees) (auto simp: turn_ok_def burst_ok_def)
  qed (use assms(1) st in \<open>simp add: turn_inv_def\<close>)
  then have plain: "run_steps (test_burst d) (enumerate 0 bursts) w =
      map_sum id fst (run_steps (cached_burst cl nc d) (enumerate 0 bursts) (w, mc))"
    and keeps: "\<And>wc. run_steps (cached_burst cl nc d) (enumerate 0 bursts) (w, mc) = Inr wc \<Longrightarrow> cached_inv cl nc d wc"
    by (simp_all add: agrees_def)
  show ?thesis
    using keeps by (cases "run_steps (cached_burst cl nc d) (enumerate 0 bursts) (w, mc)")
      (auto simp: agrees_def cached_turn_def simple_turn_def st turn turn_inv_def plain)
qed

section \<open>Properties\<close>

text \<open>
  C38: The match cache never changes what the switch does. When the cache starts empty and
  its keys hold at least the results of the configured conditions, a run with the cache on a
  well-formed table is, in what it returns, transmits, frees and keeps of every flow, and in
  how it ends, the run without the cache.
\<close>

theorem cache_transparent:
  assumes "wf_table d t" and "unat (nb_conditions t) \<le> nc" and "nc \<le> MAX_CONDITIONS"
    and "data_hash_ok cl" and "\<forall>k. snd (rte_hash_lookup_data cl h k) = None"
    and "\<forall>turn \<in> set turns. turn_ok turn"
  shows "map_sum id fst (cached_loop cl nc d is_master timer_period turns
      ((c, test_worker_of t), \<lparr>mc_hash = h, cache_matches = 0\<rparr>)) =
    simple_loop d is_master timer_period turns (c, test_worker_of t)"
proof -
  let ?st = "((c, test_worker_of t), \<lparr>mc_hash = h, cache_matches = 0\<rparr>)"
  have "turn_inv cl nc d ?st"
    using assms(1-5) by (simp add: turn_inv_def cached_inv_def test_worker_of_def cache_sound_def)
  then have "agrees fst (turn_inv cl nc d) (run_steps (cached_turn cl nc d is_master timer_period) turns ?st)
      (run_steps (simple_turn d is_master timer_period) turns (fst ?st))"
    by (intro agrees_run cached_turn_agrees) (use assms(6) in auto)
  then show ?thesis by (simp add: agrees_def cached_loop_def simple_loop_def)
qed

text \<open>A list of pairs as the hash table.\<close>

definition list_hash :: "(cache_key \<times> xfsm_table_entry) list data_hash" where
  "list_hash =
     \<lparr>rte_hash_lookup_data = (\<lambda>h k. case map_of h k of None \<Rightarrow> (-2, None) | Some e \<Rightarrow> (0, Some e)),
      rte_hash_add_key_data = (\<lambda>h k e. (0, (k, e) # h))\<rparr>"

lemma list_hash_ok: "data_hash_ok list_hash"
  by (auto simp: data_hash_ok_def list_hash_def split: option.splits)

theorem cache_transparent_witness:
  "\<exists>names t. test_create slot_dpdk [] (test_conditions @ replicate 14 zero_condition) = Inr (names, t) \<and>
     map_sum id fst (cached_loop list_hash 2 slot_dpdk True 10 [(7, [[(1, demo_mbuf 6)], [(2, demo_mbuf 17), (3, demo_mbuf 17)]])]
         ((\<lparr>prev_tsc = 0, timer_tsc = 0, flushed = []\<rparr>, test_worker_of t), \<lparr>mc_hash = [], cache_matches = 0\<rparr>)) =
     simple_loop slot_dpdk True 10 [(7, [[(1, demo_mbuf 6)], [(2, demo_mbuf 17), (3, demo_mbuf 17)]])]
         (\<lparr>prev_tsc = 0, timer_tsc = 0, flushed = []\<rparr>, test_worker_of t)"
proof -
  obtain names t where t: "test_create slot_dpdk [] (test_conditions @ replicate 14 zero_condition) = Inr (names, t)"
    "entries_hmap t = Some ([Some [0], Some [1]] @ replicate 8 None)" using test_create_slots by blast
  have "\<forall>s \<in> {0, 1}. 0 \<le> hash_lookup slot_dpdk (entries_hmap t) [s]"
    using t(2) by (simp add: hash_lookup_def slot_lookup_def slot_find_Cons)
  from test_create_inv [OF t(1) slot_hash_ok this] have wf: "wf_table slot_dpdk t" "unat (nb_conditions t) \<le> 2"
    by (auto simp: test_inv_def test_config_def test_worker_of_def)
  have "\<forall>turn \<in> set [(7 :: u64, [[(1 :: nat, demo_mbuf 6)], [(2, demo_mbuf 17), (3, demo_mbuf 17)]])]. turn_ok turn"
    by (simp add: turn_ok_def burst_ok_def)
  moreover have "\<forall>k. snd (rte_hash_lookup_data list_hash [] k) = None" by (simp add: list_hash_def)
  ultimately show ?thesis
    using cache_transparent [OF wf _ list_hash_ok, of "[]" _ True 10 "\<lparr>prev_tsc = 0, timer_tsc = 0, flushed = []\<rparr>"] t(1)
    by auto
qed

end
