(* ===== verification/Fw_Bus.thy ===== *)
theory Fw_Bus
  imports FB_Prelude
begin

text \<open>
  The register accesses of the board firmware (NetFPGA-SUME-FB/firmware.src): the address map
  of address_flowblaze.h, and \<open>regread\<close> and \<open>regwrite\<close> of tool_flowblaze.h over a device. The
  hardware behind the bus is a parameter: a record of what a read returns and how reads and
  writes change it. The board carries the sequence of its bus accesses, so that properties
  can speak about their order. What is printed on the console is not modelled; the reads
  made for printing are.
\<close>

section \<open>Addresses\<close>

abbreviation (input) FLOWBLAZE1_BASEADDR :: u32 where "FLOWBLAZE1_BASEADDR \<equiv> 0x81000000"
abbreviation (input) FLOWBLAZE2_BASEADDR :: u32 where "FLOWBLAZE2_BASEADDR \<equiv> 0x80000000"
abbreviation (input) REGTEST0_ADDR :: u32 where "REGTEST0_ADDR \<equiv> 0x80000008"
abbreviation (input) LOOKUP_ADDR :: u32 where "LOOKUP_ADDR \<equiv> 0x80000010"
abbreviation (input) LOOKUPMASK_ADDR :: u32 where "LOOKUPMASK_ADDR \<equiv> 0x80000030"
abbreviation (input) UPDATE_ADDR :: u32 where "UPDATE_ADDR \<equiv> 0x80000020"
abbreviation (input) UPDATEMASK_ADDR :: u32 where "UPDATEMASK_ADDR \<equiv> 0x80000040"
abbreviation (input) SEL_UPDATE_ADDR :: u32 where "SEL_UPDATE_ADDR \<equiv> 0x80000024"
abbreviation (input) FSM_SCOPE_ADDR :: u32 where "FSM_SCOPE_ADDR \<equiv> 0x80000050"
abbreviation (input) OFF_LEN1 :: u32 where "OFF_LEN1 \<equiv> 0x80000060"
abbreviation (input) OFF_LEN2 :: u32 where "OFF_LEN2 \<equiv> 0x80000070"
abbreviation (input) OFF_LEN3 :: u32 where "OFF_LEN3 \<equiv> 0x80000080"
abbreviation (input) PAUSE :: u32 where "PAUSE \<equiv> 0x80000090"
abbreviation (input) GR00 :: u32 where "GR00 \<equiv> 0x80000100"
abbreviation (input) GR01 :: u32 where "GR01 \<equiv> 0x80000104"
abbreviation (input) HT0_1K_BASEADDR :: u32 where "HT0_1K_BASEADDR \<equiv> 0x80100000"
abbreviation (input) HT1_1K_BASEADDR :: u32 where "HT1_1K_BASEADDR \<equiv> 0x80108000"
abbreviation (input) HT2_1K_BASEADDR :: u32 where "HT2_1K_BASEADDR \<equiv> 0x80110000"
abbreviation (input) HT3_1K_BASEADDR :: u32 where "HT3_1K_BASEADDR \<equiv> 0x80118000"
abbreviation (input) TCAM1_BASEADDR :: u32 where "TCAM1_BASEADDR \<equiv> 0x80010000"
abbreviation (input) TCAM1_MASK_BASEADDR :: u32 where "TCAM1_MASK_BASEADDR \<equiv> 0x80010020"
abbreviation (input) TCAM2_BASEADDR :: u32 where "TCAM2_BASEADDR \<equiv> 0x80011000"
abbreviation (input) TCAM2_MASK_BASEADDR :: u32 where "TCAM2_MASK_BASEADDR \<equiv> 0x80011020"
abbreviation (input) RAM1_BASEADDR :: u32 where "RAM1_BASEADDR \<equiv> 0x80020000"
abbreviation (input) RAM2_BASEADDR :: u32 where "RAM2_BASEADDR \<equiv> 0x80021000"
abbreviation (input) RAM3_BASEADDR :: u32 where "RAM3_BASEADDR \<equiv> 0x80022000"
abbreviation (input) RAM4_BASEADDR :: u32 where "RAM4_BASEADDR \<equiv> 0x80023000"
abbreviation (input) RAM_PIPEALU_BASEADDR :: u32 where "RAM_PIPEALU_BASEADDR \<equiv> 0x80030000"

section \<open>The bus\<close>

record 's device =
  dev_read :: "'s \<Rightarrow> u32 \<Rightarrow> u32 \<times> 's"
  dev_write :: "'s \<Rightarrow> u32 \<Rightarrow> u32 \<Rightarrow> 's"

datatype bus_event = Rd u32 | Wr u32 u32 | Sleep nat

record 's board =
  dev :: 's
  accesses :: "bus_event list"

definition regread :: "'s device \<Rightarrow> u32 \<Rightarrow> 's board \<Rightarrow> u32 \<times> 's board" where
  "regread d addr b =
     (case dev_read d (dev b) addr of
        (data, s) \<Rightarrow> (data, b\<lparr>dev := s, accesses := accesses b @ [Rd addr]\<rparr>))"

definition regwrite :: "'s device \<Rightarrow> u32 \<Rightarrow> u32 \<Rightarrow> 's board \<Rightarrow> 's board" where
  "regwrite d addr val b = b\<lparr>dev := dev_write d (dev b) addr val, accesses := accesses b @ [Wr addr val]\<rparr>"

definition usleep :: "nat \<Rightarrow> 's board \<Rightarrow> 's board" where
  "usleep n b = b\<lparr>accesses := accesses b @ [Sleep n]\<rparr>"

text \<open>A loop that reads addresses and does nothing with the values but print them.\<close>

definition read_all :: "'s device \<Rightarrow> u32 list \<Rightarrow> 's board \<Rightarrow> 's board" where
  "read_all d addrs b = fold (\<lambda>a b. snd (regread d a b)) addrs b"

definition write_all :: "'s device \<Rightarrow> (u32 \<times> u32) list \<Rightarrow> 's board \<Rightarrow> 's board" where
  "write_all d ws b = fold (\<lambda>(a, v) b. regwrite d a v b) ws b"

section \<open>Order of accesses\<close>

lemma accesses_regread [simp]: "accesses (snd (regread d a b)) = accesses b @ [Rd a]"
  by (simp add: regread_def split_beta)

lemma accesses_regwrite [simp]: "accesses (regwrite d a v b) = accesses b @ [Wr a v]"
  by (simp add: regwrite_def)

lemma accesses_usleep [simp]: "accesses (usleep n b) = accesses b @ [Sleep n]"
  by (simp add: usleep_def)

lemma accesses_read_all [simp]: "accesses (read_all d as b) = accesses b @ map Rd as"
  by (induction as arbitrary: b) (simp_all add: read_all_def)

lemma accesses_write_all [simp]: "accesses (write_all d ws b) = accesses b @ map (\<lambda>(a, v). Wr a v) ws"
  by (induction ws arbitrary: b) (auto simp: write_all_def)

lemma write_all_append: "write_all d (ws @ ws') b = write_all d ws' (write_all d ws b)"
  by (simp add: write_all_def)

lemma write_all_simps [simp]:
  "write_all d [] b = b" "write_all d ((a, v) # ws) b = write_all d ws (regwrite d a v b)"
  by (simp_all add: write_all_def)

section \<open>Memory-like devices\<close>

text \<open>
  What the pipeline's tables promise while it is paused: \<open>view\<close> is their contents; a read
  returns the contents and changes nothing, a write changes the word written. \<open>addrs\<close> are
  the addresses for which this holds; accesses elsewhere leave them alone.
\<close>

definition ram_like :: "'s device \<Rightarrow> ('s \<Rightarrow> u32 \<Rightarrow> u32) \<Rightarrow> u32 set \<Rightarrow> bool" where
  "ram_like d view A \<longleftrightarrow>
     (\<forall>s a. a \<in> A \<longrightarrow> fst (dev_read d s a) = view s a) \<and>
     (\<forall>s a x. x \<in> A \<longrightarrow> view (snd (dev_read d s a)) x = view s x) \<and>
     (\<forall>s a v x. x \<in> A \<longrightarrow> view (dev_write d s a v) x = (if x = a then v else view s x))"

lemma ram_likeD:
  assumes "ram_like d view A"
  shows ram_read: "a \<in> A \<Longrightarrow> fst (regread d a b) = view (dev b) a"
    and ram_read_keeps: "x \<in> A \<Longrightarrow> view (dev (snd (regread d a b))) x = view (dev b) x"
    and ram_write: "x \<in> A \<Longrightarrow> view (dev (regwrite d a v b)) x = (if x = a then v else view (dev b) x)"
  using assms by (auto simp: ram_like_def regread_def regwrite_def split_beta)

lemma ram_read_all: "ram_like d view A \<Longrightarrow> x \<in> A \<Longrightarrow> view (dev (read_all d as b)) x = view (dev b) x"
  by (induction as arbitrary: b) (simp_all add: read_all_def ram_read_keeps)

lemma ram_usleep [simp]: "dev (usleep n b) = dev b"
  by (simp add: usleep_def)

text \<open>After a list of writes, an address holds the last value written to it.\<close>

lemma ram_write_all:
  "ram_like d view A \<Longrightarrow> x \<in> A \<Longrightarrow>
     view (dev (write_all d ws b)) x = (case map_of (rev ws) x of Some v \<Rightarrow> v | None \<Rightarrow> view (dev b) x)"
  by (induction ws arbitrary: b) (auto simp: ram_write map_add_def split: option.splits)

lemma map_of_rev: "distinct (map fst ws) \<Longrightarrow> map_of (rev ws) = map_of ws"
proof (induction ws)
  case (Cons p ws)
  then have "map_of (rev ws) (fst p) = None" by (simp add: map_of_eq_None_iff)
  with Cons show ?case by (auto simp: map_add_def fun_eq_iff split: option.splits)
qed simp

lemma ram_write_all_distinct:
  assumes "ram_like d view A" and "x \<in> A" and "distinct (map fst ws)"
  shows "view (dev (write_all d ws b)) x = (case map_of ws x of Some v \<Rightarrow> v | None \<Rightarrow> view (dev b) x)"
  using ram_write_all [OF assms(1,2)] assms(3) map_of_rev [of ws] by simp

text \<open>Memory itself, for the witnesses.\<close>

definition ram_device :: "(u32 \<Rightarrow> u32) device" where
  "ram_device = \<lparr>dev_read = (\<lambda>m a. (m a, m)), dev_write = (\<lambda>m a v. m(a := v))\<rparr>"

lemma ram_device_ok: "ram_like ram_device (\<lambda>m. m) A"
  by (simp add: ram_like_def ram_device_def)

definition zero_board :: "(u32 \<Rightarrow> u32) board" where
  "zero_board = \<lparr>dev = (\<lambda>_. 0), accesses = []\<rparr>"

end
