(* ===== verification/Fw_Tools.thy ===== *)
theory Fw_Tools
  imports Fw_Bus
begin

text \<open>
  The tools of the firmware, tool_flowblaze.h: programming a row of the two TCAMs and of the
  ALU memory, testing addresses, scanning the extractor, searching, clearing and ageing the
  hash tables. A row of a TCAM is 16 words (key, then mask), a row of a hash table 8 words.
\<close>

section \<open>Programming a row\<close>

text \<open>The two loops: the first \<open>n\<close> words come from the array, the rest are ones.\<close>

definition put_words ::
  "'s device \<Rightarrow> u32 \<Rightarrow> u32 list \<Rightarrow> nat \<Rightarrow> u32 \<Rightarrow> nat \<Rightarrow> 's board \<Rightarrow> 's board res" where
  "put_words d addr ws n fill len b =
     run_steps
       (\<lambda>i b. res_bind (if i < n then rd ws i else Inr fill)
          (\<lambda>value. Inr (regwrite d (addr + 4 * of_nat i) value b)))
       [0..<len] b"

definition set_tcamram2 ::
  "'s device \<Rightarrow> u32 \<Rightarrow> u32 \<Rightarrow> u32 list \<Rightarrow> u32 list \<Rightarrow> u32 \<Rightarrow> u32 \<Rightarrow> u32 \<Rightarrow> 's board \<Rightarrow> 's board res"
  where
  "set_tcamram2 d base row key msk next_state action upd b =
     res_bind (put_words d (base + TCAM2_BASEADDR + 64 * row) key 5 0xFFFFFFFF 8 b) (\<lambda>b.
     res_bind (put_words d (base + TCAM2_MASK_BASEADDR + 64 * row) msk 5 0xFFFFFFFF 8 b) (\<lambda>b.
     Inr (regwrite d (base + RAM4_BASEADDR + 4 * row) upd
           (regwrite d (base + RAM3_BASEADDR + 4 * row) action
             (regwrite d (base + RAM2_BASEADDR + 4 * row) next_state b)))))"

definition set_tcamram1 ::
  "'s device \<Rightarrow> u32 \<Rightarrow> u32 \<Rightarrow> u32 list \<Rightarrow> u32 list \<Rightarrow> u32 \<Rightarrow> 's board \<Rightarrow> 's board res" where
  "set_tcamram1 d base row key msk present_state b =
     res_bind (put_words d (base + TCAM1_BASEADDR + 64 * row) key 4 0xFFFFFFFF 8 b) (\<lambda>b.
     res_bind (put_words d (base + TCAM1_MASK_BASEADDR + 64 * row) msk 4 0xFFFFFFFF 8 b) (\<lambda>b.
     Inr (regwrite d (base + RAM1_BASEADDR + 4 * row) present_state b)))"

definition write_pipealu :: "'s device \<Rightarrow> u32 \<Rightarrow> u32 \<Rightarrow> u32 list \<Rightarrow> 's board \<Rightarrow> 's board res" where
  "write_pipealu d base row pipealu b =
     put_words d (base + RAM_PIPEALU_BASEADDR + 64 * row) pipealu 9 0 16 b"

section \<open>Testing and scanning\<close>

fun read_list :: "'s device \<Rightarrow> u32 list \<Rightarrow> 's board \<Rightarrow> u32 list \<times> 's board" where
  "read_list d [] b = ([], b)"
| "read_list d (a # as) b =
     (case regread d a b of (v, b1) \<Rightarrow> case read_list d as b1 of (vs, b2) \<Rightarrow> (v # vs, b2))"

text \<open>The value printed before and the one printed after.\<close>

definition testAddress :: "'s device \<Rightarrow> u32 \<Rightarrow> u32 \<Rightarrow> 's board \<Rightarrow> (u32 \<times> u32) \<times> 's board" where
  "testAddress d address g b =
     (case regread d address b of
        (v, b1) \<Rightarrow>
          case regread d address (regwrite d address (0xFFFFFFFF - g) b1) of (w, b2) \<Rightarrow> ((v, w), b2))"

definition testAddressLine ::
  "'s device \<Rightarrow> u32 \<Rightarrow> nat \<Rightarrow> 's board \<Rightarrow> (u32 list \<times> u32 list) \<times> 's board" where
  "testAddressLine d address len b =
     (let addrs = map (\<lambda>i. address + 4 * of_nat i) [0..<len] in
      case read_list d addrs b of
        (vs, b1) \<Rightarrow>
          let b2 = snd (regread d REGTEST0_ADDR b1);
              b3 = write_all d (map (\<lambda>i. (address + 4 * of_nat i, 0xFFFFFFFF - of_nat i)) [0..<len]) b2
          in case read_list d addrs b3 of
               (ws, b4) \<Rightarrow> ((vs, ws), snd (regread d REGTEST0_ADDR b4)))"

definition scan_extractor :: "'s device \<Rightarrow> u32 \<Rightarrow> 's board \<Rightarrow> 's board" where
  "scan_extractor d base b =
     read_all d
       ([LOOKUP_ADDR + base] @ map (\<lambda>i. LOOKUPMASK_ADDR + base + of_nat i * 4) [0..<4] @
        [UPDATE_ADDR + base, SEL_UPDATE_ADDR + base] @
        map (\<lambda>i. UPDATEMASK_ADDR + base + of_nat i * 4) [0..<4] @ [FSM_SCOPE_ADDR + base] @
        map (\<lambda>i. base + OFF_LEN1 + of_nat i * 16) [0..<3] @
        map (\<lambda>i. base + GR00 + of_nat i * 4) [0..<3]) b"

section \<open>Hash tables\<close>

definition row_addrs :: "u32 \<Rightarrow> nat \<Rightarrow> u32 list" where
  "row_addrs address i = map (\<lambda>j. address + 4 * of_nat j + 32 * of_nat i) [0..<8]"

text \<open>
  One turn of the three search loops, which differ in whether and how a row that is not null
  is read again to print it.
\<close>

definition search_row :: "bool \<Rightarrow> 's device \<Rightarrow> u32 \<Rightarrow> nat \<Rightarrow> nat \<times> 's board \<Rightarrow> nat \<times> 's board" where
  "search_row reprint d address i cb =
     (case cb of
        (counter, b) \<Rightarrow>
          case read_list d (row_addrs address i) b of
            (values, b1) \<Rightarrow>
              let b2 = snd (regread d REGTEST0_ADDR b1);
                  ok = length (filter (\<lambda>v. v \<noteq> 0) values);
                  b3 = if ok > 0 \<and> reprint then read_all d (row_addrs address i) b2 else b2
              in (if ok > 0 then counter + 1 else counter, snd (regread d REGTEST0_ADDR b3)))"

definition searchHT_hide :: "'s device \<Rightarrow> u32 \<Rightarrow> nat \<Rightarrow> 's board \<Rightarrow> nat \<times> 's board" where
  "searchHT_hide d address len b = fold (search_row False d address) [0..<len] (0, b)"

definition searchHT :: "'s device \<Rightarrow> u32 \<Rightarrow> nat \<Rightarrow> 's board \<Rightarrow> nat \<times> 's board" where
  "searchHT d address len b = fold (search_row True d address) [0..<len] (0, b)"

definition xil_searchHT :: "'s device \<Rightarrow> u32 \<Rightarrow> nat \<Rightarrow> 's board \<Rightarrow> nat \<times> 's board" where
  "xil_searchHT d address len b = fold (search_row True d address) [0..<len] (0, b)"

definition resetHT :: "'s device \<Rightarrow> u32 \<Rightarrow> nat \<Rightarrow> 's board \<Rightarrow> 's board" where
  "resetHT d address len b =
     fold (\<lambda>i b. snd (regread d REGTEST0_ADDR (write_all d (map (\<lambda>a. (a, 0)) (row_addrs address i)) b)))
       [0..<len] b"

text \<open>
  The ageing pass. The control flag of a row is the top two bits of its last word: a row with
  flag 1 is cleared, a row with flag 3 is written back with the flag's upper bit cleared.
\<close>

definition control_flag :: "u32 list \<Rightarrow> u32" where
  "control_flag value = drop_bit 30 (value ! 7) AND 3"

definition aged_row :: "u32 list \<Rightarrow> u32 list" where
  "aged_row value = value[7 := (value ! 7) AND 0x4FFFFFFF]"

definition control_row :: "'s device \<Rightarrow> u32 \<Rightarrow> nat \<Rightarrow> 's board \<Rightarrow> 's board" where
  "control_row d address i b =
     (case read_list d (row_addrs address i) b of
        (value, b1) \<Rightarrow>
          let b2 = if control_flag value = 1 then resetHT d (address + 32 * of_nat i) 1 b1 else b1;
              b3 = snd (regread d REGTEST0_ADDR b2);
              b4 = if control_flag value = 3
                   then read_all d (row_addrs address i)
                          (snd (regread d REGTEST0_ADDR
                            (write_all d (zip (row_addrs address i) (aged_row value)) b3)))
                   else b3
          in snd (regread d REGTEST0_ADDR b4))"

definition controlHT :: "'s device \<Rightarrow> u32 \<Rightarrow> 's board \<Rightarrow> 's board" where
  "controlHT d address b = fold (control_row d address) [0..<1024] b"

section \<open>Word addresses as offsets\<close>

lemma offset_eq [simp]:
  "x < 4294967296 \<Longrightarrow> y < 4294967296 \<Longrightarrow> ((of_nat x :: u32) = of_nat y) = (x = y)"
  by (simp add: word_of_nat_eq_iff take_bit_nat_eq_self)

definition at_base :: "u32 \<Rightarrow> (nat \<times> u32) list \<Rightarrow> (u32 \<times> u32) list" where
  "at_base base ws = map (\<lambda>(k, v). (base + of_nat k, v)) ws"

lemma map_of_at_base:
  "\<forall>k \<in> fst ` set ws. k < 4294967296 \<Longrightarrow> x < 4294967296 \<Longrightarrow>
     map_of (at_base base ws) (base + of_nat x) = map_of ws x"
  by (induction ws) (auto simp: at_base_def)

lemma fst_at_base: "map fst (at_base base ws) = map (\<lambda>k. base + of_nat k) (map fst ws)"
  by (auto simp: at_base_def)

lemma ram_write_at_base:
  assumes "ram_like d view A" and "base + of_nat x \<in> A" and "distinct (map fst ws)"
    and "\<forall>k \<in> fst ` set ws. k < 4294967296" and "x < 4294967296"
  shows "view (dev (write_all d (at_base base ws) b)) (base + of_nat x)
    = (case map_of ws x of Some v \<Rightarrow> v | None \<Rightarrow> view (dev b) (base + of_nat x))"
proof -
  have "distinct (map fst (at_base base ws))"
    using assms(3,4) by (simp add: fst_at_base distinct_map inj_on_def)
  from ram_write_all_distinct [OF assms(1,2) this] show ?thesis
    by (simp add: map_of_at_base [OF assms(4,5)])
qed

lemma put_words_writes:
  assumes "n \<le> length ws" and "n \<le> len"
  shows "put_words d (base + of_nat off) ws n fill len b
    = Inr (write_all d (at_base base (zip (map (\<lambda>i. off + 4 * i) [0..<len]) (take n ws @ replicate (len - n) fill))) b)"
proof -
  let ?v = "\<lambda>i. if i < n then ws ! i else fill"
  have "run_steps (\<lambda>i b. res_bind (if i < n then rd ws i else Inr fill)
          (\<lambda>value. Inr (regwrite d (base + of_nat off + 4 * of_nat i) value b))) [0..<m] b
      = Inr (write_all d (map (\<lambda>i. (base + of_nat (off + 4 * i), ?v i)) [0..<m]) b)" for m
    using assms(1) by (induction m) (auto simp: run_steps_snoc write_all_append add.assoc)
  moreover have "map (\<lambda>i. (base + of_nat (off + 4 * i), ?v i)) [0..<len]
      = at_base base (zip (map (\<lambda>i. off + 4 * i) [0..<len]) (take n ws @ replicate (len - n) fill))"
    using assms by (intro nth_equalityI) (auto simp: at_base_def nth_append)
  ultimately show ?thesis by (simp add: put_words_def)
qed

section \<open>The TCAMs as tables of rows\<close>

definition tcam2_image ::
  "nat \<Rightarrow> u32 list \<Rightarrow> u32 list \<Rightarrow> u32 \<Rightarrow> u32 \<Rightarrow> u32 \<Rightarrow> (nat \<times> u32) list" where
  "tcam2_image r key msk ns action upd =
     zip (map (\<lambda>i. 0x80011000 + 64 * r + 4 * i) [0..<8]) (take 5 key @ replicate 3 0xFFFFFFFF) @
     zip (map (\<lambda>i. 0x80011020 + 64 * r + 4 * i) [0..<8]) (take 5 msk @ replicate 3 0xFFFFFFFF) @
     [(0x80021000 + 4 * r, ns), (0x80022000 + 4 * r, action), (0x80023000 + 4 * r, upd)]"

definition words_at :: "('s \<Rightarrow> u32 \<Rightarrow> u32) \<Rightarrow> 's \<Rightarrow> u32 \<Rightarrow> nat list \<Rightarrow> u32 list" where
  "words_at view s base ks = map (\<lambda>k. view s (base + of_nat k)) ks"

text \<open>A row of the second TCAM with its RAM words, and a row of the first.\<close>

definition tcam2_row :: "('s \<Rightarrow> u32 \<Rightarrow> u32) \<Rightarrow> 's \<Rightarrow> u32 \<Rightarrow> nat \<Rightarrow> u32 list" where
  "tcam2_row view s base r =
     words_at view s base (map (\<lambda>i. 0x80011000 + 64 * r + 4 * i) [0..<16] @
       [0x80021000 + 4 * r, 0x80022000 + 4 * r, 0x80023000 + 4 * r])"

definition tcam1_row :: "('s \<Rightarrow> u32 \<Rightarrow> u32) \<Rightarrow> 's \<Rightarrow> u32 \<Rightarrow> nat \<Rightarrow> u32 list" where
  "tcam1_row view s base r =
     words_at view s base (map (\<lambda>i. 0x80010000 + 64 * r + 4 * i) [0..<16] @ [0x80020000 + 4 * r])"

lemma set_tcamram2_writes:
  assumes "5 \<le> length key" and "5 \<le> length msk"
  shows "set_tcamram2 d base (of_nat r) key msk ns action upd b
    = Inr (write_all d (at_base base (tcam2_image r key msk ns action upd)) b)"
proof -
  have a: "base + 0x80011000 + 64 * of_nat r = base + of_nat (0x80011000 + 64 * r)"
    "base + 0x80011020 + 64 * of_nat r = base + of_nat (0x80011020 + 64 * r)"
    "base + 0x80021000 + 4 * of_nat r = base + of_nat (0x80021000 + 4 * r)"
    "base + 0x80022000 + 4 * of_nat r = base + of_nat (0x80022000 + 4 * r)"
    "base + 0x80023000 + 4 * of_nat r = base + of_nat (0x80023000 + 4 * r)" by simp_all
  show ?thesis
    unfolding set_tcamram2_def a
    by (simp add: put_words_writes assms tcam2_image_def at_base_def write_all_append
        del: of_nat_add of_nat_mult of_nat_numeral)
qed

lemma tcam2_image_offsets:
  assumes "5 \<le> length key" and "5 \<le> length msk"
  shows "map fst (tcam2_image r key msk ns action upd) = map (\<lambda>i. 0x80011000 + 64 * r + 4 * i) [0..<16] @
       [0x80021000 + 4 * r, 0x80022000 + 4 * r, 0x80023000 + 4 * r]"
  using assms by (simp add: tcam2_image_def upt_rec)

lemma tcam2_image_values:
  assumes "5 \<le> length key" and "5 \<le> length msk"
  shows "map snd (tcam2_image r key msk ns action upd) =
     take 5 key @ replicate 3 0xFFFFFFFF @ take 5 msk @ replicate 3 0xFFFFFFFF @ [ns, action, upd]"
  using assms by (simp add: tcam2_image_def)

lemma words_at_write:
  assumes "ram_like d view UNIV" and "distinct (map fst ws)" and "\<forall>k \<in> fst ` set ws. k < 4294967296"
  shows words_at_written: "words_at view (dev (write_all d (at_base base ws) b)) base (map fst ws) = map snd ws"
    and words_at_other: "\<forall>k \<in> set ks. k < 4294967296 \<and> k \<notin> fst ` set ws \<Longrightarrow>
      words_at view (dev (write_all d (at_base base ws) b)) base ks = words_at view (dev b) base ks"
proof -
  have "view (dev (write_all d (at_base base ws) b)) (base + of_nat (fst p)) = snd p" if "p \<in> set ws" for p
    using ram_write_at_base [OF assms(1) UNIV_I assms(2,3), of "fst p" base b] assms(2,3) that
      map_of_is_SomeI [OF assms(2), of "fst p" "snd p"] by auto
  then show "words_at view (dev (write_all d (at_base base ws) b)) base (map fst ws) = map snd ws"
    by (simp add: words_at_def)
next
  assume ks: "\<forall>k \<in> set ks. k < 4294967296 \<and> k \<notin> fst ` set ws"
  have "view (dev (write_all d (at_base base ws) b)) (base + of_nat k) = view (dev b) (base + of_nat k)"
    if "k \<in> set ks" for k
  proof -
    from ks that have "map_of ws k = None" by (metis map_of_eq_None_iff)
    with ram_write_at_base [OF assms(1) UNIV_I assms(2,3), of k base b] ks that show ?thesis by simp
  qed
  then show "words_at view (dev (write_all d (at_base base ws) b)) base ks = words_at view (dev b) base ks"
    by (simp add: words_at_def)
qed

lemma set_tcamram2_row:
  assumes "ram_like d view UNIV" and "5 \<le> length key" and "5 \<le> length msk" and "r < 64"
  shows "\<exists>b'. set_tcamram2 d base (of_nat r) key msk ns action upd b = Inr b' \<and>
    tcam2_row view (dev b') base r =
      take 5 key @ replicate 3 0xFFFFFFFF @ take 5 msk @ replicate 3 0xFFFFFFFF @ [ns, action, upd] \<and>
    (\<forall>r' < 64. r' \<noteq> r \<longrightarrow> tcam2_row view (dev b') base r' = tcam2_row view (dev b) base r') \<and>
    (\<forall>r' < 64. tcam1_row view (dev b') base r' = tcam1_row view (dev b) base r')"
proof -
  let ?ws = "tcam2_image r key msk ns action upd"
  note offs = tcam2_image_offsets [OF assms(2,3), of r ns action upd]
  have fst: "fst ` set ?ws = set (map (\<lambda>i. 0x80011000 + 64 * r + 4 * i) [0..<16] @
       [0x80021000 + 4 * r, 0x80022000 + 4 * r, 0x80023000 + 4 * r])"
    unfolding offs [symmetric] by simp
  have dist: "distinct (map fst ?ws)" and small: "\<forall>k \<in> fst ` set ?ws. k < 4294967296"
    unfolding offs fst using assms(4) by (auto simp: distinct_map inj_on_def)
  let ?b = "write_all d (at_base base ?ws) b"
  have "tcam2_row view (dev ?b) base r = map snd ?ws"
    unfolding tcam2_row_def offs [symmetric] by (rule words_at_written [OF assms(1) dist small])
  moreover have "tcam2_row view (dev ?b) base r' = tcam2_row view (dev b) base r'" if "r' < 64" "r' \<noteq> r" for r'
    unfolding tcam2_row_def
    by (rule words_at_other [OF assms(1) dist small]) (use that assms(4) in \<open>auto simp: fst\<close>)
  moreover have "tcam1_row view (dev ?b) base r' = tcam1_row view (dev b) base r'" if "r' < 64" for r'
    unfolding tcam1_row_def
    by (rule words_at_other [OF assms(1) dist small]) (use that assms(4) in \<open>auto simp: fst\<close>)
  ultimately show ?thesis
    using set_tcamram2_writes [OF assms(2,3), of d base r ns action upd b] tcam2_image_values [OF assms(2,3)]
    by auto
qed



text \<open>The same for the first TCAM, whose arrays give four words.\<close>

definition tcam1_image :: "nat \<Rightarrow> u32 list \<Rightarrow> u32 list \<Rightarrow> u32 \<Rightarrow> (nat \<times> u32) list" where
  "tcam1_image r key msk ps =
     zip (map (\<lambda>i. 0x80010000 + 64 * r + 4 * i) [0..<8]) (take 4 key @ replicate 4 0xFFFFFFFF) @
     zip (map (\<lambda>i. 0x80010020 + 64 * r + 4 * i) [0..<8]) (take 4 msk @ replicate 4 0xFFFFFFFF) @
     [(0x80020000 + 4 * r, ps)]"

lemma set_tcamram1_row:
  assumes "ram_like d view UNIV" and "4 \<le> length key" and "4 \<le> length msk" and "r < 64"
  shows "\<exists>b'. set_tcamram1 d base (of_nat r) key msk ps b = Inr b' \<and>
    tcam1_row view (dev b') base r =
      take 4 key @ replicate 4 0xFFFFFFFF @ take 4 msk @ replicate 4 0xFFFFFFFF @ [ps]"
proof -
  let ?ws = "tcam1_image r key msk ps"
  have offs: "map fst ?ws = map (\<lambda>i. 0x80010000 + 64 * r + 4 * i) [0..<16] @ [0x80020000 + 4 * r]"
    and vals: "map snd ?ws = take 4 key @ replicate 4 0xFFFFFFFF @ take 4 msk @ replicate 4 0xFFFFFFFF @ [ps]"
    using assms(2,3) by (simp_all add: tcam1_image_def upt_rec)
  have a: "base + 0x80010000 + 64 * of_nat r = base + of_nat (0x80010000 + 64 * r)"
    "base + 0x80010020 + 64 * of_nat r = base + of_nat (0x80010020 + 64 * r)"
    "base + 0x80020000 + 4 * of_nat r = base + of_nat (0x80020000 + 4 * r)" by simp_all
  have "set_tcamram1 d base (of_nat r) key msk ps b = Inr (write_all d (at_base base ?ws) b)"
    unfolding set_tcamram1_def a
    by (simp add: put_words_writes assms tcam1_image_def at_base_def write_all_append
        del: of_nat_add of_nat_mult of_nat_numeral)
  moreover have "fst ` set ?ws = set (map fst ?ws)" by simp
  then have "distinct (map fst ?ws)" "\<forall>k \<in> fst ` set ?ws. k < 4294967296"
    unfolding offs using assms(4) by (auto simp: distinct_map inj_on_def)
  then have "tcam1_row view (dev (write_all d (at_base base ?ws) b)) base r = map snd ?ws"
    unfolding tcam1_row_def offs [symmetric] by (rule words_at_written [OF assms(1)])
  ultimately show ?thesis by (simp add: vals)
qed

section \<open>The hash tables as lists of rows\<close>

definition ht_row :: "('s \<Rightarrow> u32 \<Rightarrow> u32) \<Rightarrow> 's \<Rightarrow> u32 \<Rightarrow> nat \<Rightarrow> u32 list" where
  "ht_row view s address i = map (view s) (row_addrs address i)"

lemma row_addrs_offset: "row_addrs address i = map (\<lambda>j. address + of_nat (4 * j + 32 * i)) [0..<8]"
  by (simp add: row_addrs_def add.assoc)

lemma length_row_addrs [simp]: "length (row_addrs address i) = 8"
  by (simp add: row_addrs_def)

lemma distinct_row_addrs: "i < 134217728 \<Longrightarrow> distinct (row_addrs address i)"
  unfolding row_addrs_offset by (simp add: distinct_map inj_on_def del: of_nat_add of_nat_mult)

lemma row_addrs_disjoint:
  "i < 134217728 \<Longrightarrow> i' < 134217728 \<Longrightarrow> i \<noteq> i' \<Longrightarrow> a \<in> set (row_addrs address i) \<Longrightarrow> a \<notin> set (row_addrs address i')"
  unfolding row_addrs_offset by (auto simp del: of_nat_add of_nat_mult)

lemma ram_read_list:
  assumes "ram_like d view A" and "set as \<subseteq> A"
  shows "fst (read_list d as b) = map (view (dev b)) as \<and>
    (\<forall>x \<in> A. view (dev (snd (read_list d as b))) x = view (dev b) x)"
  using assms(2)
proof (induction as arbitrary: b)
  case (Cons a as)
  then have "a \<in> A" "set as \<subseteq> A" by simp_all
  with Cons.IH [of "snd (regread d a b)"] assms(1) show ?case
    by (auto simp: split_beta ram_read ram_read_keeps)
qed simp

text \<open>One step of a search on memory: the row is counted when it is not null.\<close>

lemma search_row_ram:
  assumes "ram_like d view A" and "set (row_addrs address i) \<subseteq> A"
  shows "fst (search_row p d address i (c, b)) = c + (if \<exists>v \<in> set (ht_row view (dev b) address i). v \<noteq> 0 then 1 else 0) \<and>
    (\<forall>x \<in> A. view (dev (snd (search_row p d address i (c, b)))) x = view (dev b) x)"
proof -
  obtain vs b1 where r: "read_list d (row_addrs address i) b = (vs, b1)" by (metis surj_pair)
  with ram_read_list [OF assms, of b] have vs: "vs = ht_row view (dev b) address i"
    and b1: "\<forall>x \<in> A. view (dev b1) x = view (dev b) x" by (simp_all add: ht_row_def)
  have "(0 < length (filter (\<lambda>v. v \<noteq> 0) vs)) = (\<exists>v \<in> set vs. v \<noteq> 0)" by (auto simp: filter_empty_conv)
  with b1 assms(1) vs r show ?thesis
    by (auto simp: search_row_def Let_def ram_read_keeps ram_read_all)
qed

lemma ht_row_cong:
  "\<forall>x \<in> A. view s' x = view s x \<Longrightarrow> set (row_addrs address i) \<subseteq> A \<Longrightarrow> ht_row view s' address i = ht_row view s address i"
  by (auto simp: ht_row_def)

definition live_rows :: "('s \<Rightarrow> u32 \<Rightarrow> u32) \<Rightarrow> 's \<Rightarrow> u32 \<Rightarrow> nat \<Rightarrow> nat" where
  "live_rows view s address n = length (filter (\<lambda>i. \<exists>v \<in> set (ht_row view s address i). v \<noteq> 0) [0..<n])"

lemma search_ram:
  assumes "ram_like d view A" and "\<forall>i < n. set (row_addrs address i) \<subseteq> A"
  shows "fst (fold (search_row p d address) [0..<n] (0, b)) = live_rows view (dev b) address n \<and>
    (\<forall>x \<in> A. view (dev (snd (fold (search_row p d address) [0..<n] (0, b)))) x = view (dev b) x)"
  using assms(2)
proof (induction n)
  case (Suc n)
  obtain c b' where f: "fold (search_row p d address) [0..<n] (0, b) = (c, b')" by (metis surj_pair)
  with Suc have c: "c = live_rows view (dev b) address n" and b': "\<forall>x \<in> A. view (dev b') x = view (dev b) x"
    and sub: "set (row_addrs address n) \<subseteq> A" by simp_all
  from search_row_ram [OF assms(1) sub, of p c b'] ht_row_cong [of A view "dev b'" "dev b", OF b' sub] b' f c
  show ?case by (simp add: live_rows_def)
qed (simp add: live_rows_def)

text \<open>
  The three searches of a hash table count its live rows. On a device that behaves like
  memory on the rows searched, \<open>searchHT_hide\<close>, \<open>searchHT\<close> and \<open>xil_searchHT\<close> all return the
  number of rows with a word that is not null, whatever they print, and leave the table as
  it was.
\<close>

theorem searches_count_live_rows:
  assumes "ram_like d view A" and "\<forall>i < n. set (row_addrs address i) \<subseteq> A"
    and "search \<in> {searchHT_hide, searchHT, xil_searchHT}"
  shows "fst (search d address n b) = live_rows view (dev b) address n \<and>
    (\<forall>x \<in> A. view (dev (snd (search d address n b))) x = view (dev b) x)"
  using search_ram [OF assms(1,2)] assms(3)
  by (auto simp: searchHT_hide_def searchHT_def xil_searchHT_def)

theorem searches_count_live_rows_witness:
  "fst (xil_searchHT ram_device 0x80100000 4 (zero_board\<lparr>dev := (\<lambda>a. if a = 0x80100028 then 7 else 0)\<rparr>)) = 1"
proof -
  let ?b = "zero_board\<lparr>dev := (\<lambda>a :: u32. if a = 0x80100028 then 7 else 0 :: u32)\<rparr>"
  have "live_rows (\<lambda>m. m) (dev ?b) 0x80100000 4 = 1"
    by (simp add: live_rows_def ht_row_def row_addrs_def upt_rec)
  with searches_count_live_rows [OF ram_device_ok [of UNIV], of 4 "0x80100000" xil_searchHT ?b] show ?thesis by simp
qed

section \<open>Ageing\<close>

text \<open>What a pass does to a row.\<close>

definition aged :: "u32 list \<Rightarrow> u32 list" where
  "aged value =
     (if control_flag value = 1 then replicate 8 0
      else if control_flag value = 3 then aged_row value else value)"

lemma map_of_row_addrs:
  assumes "length vs = 8" and "i < 134217728"
  shows "map (\<lambda>x. case map_of (zip (row_addrs address i) vs) x of Some v \<Rightarrow> v | None \<Rightarrow> f x) (row_addrs address i) = vs"
  using assms distinct_row_addrs [of i address]
  by (intro nth_equalityI) (simp_all add: map_of_zip_nth)

lemma write_row_ram:
  assumes "ram_like d view A" and "set (row_addrs address i) \<subseteq> A" and "length vs = 8" and "i < 134217728"
  shows "ht_row view (dev (write_all d (zip (row_addrs address i) vs) b)) address i = vs"
    and "x \<in> A \<Longrightarrow> x \<notin> set (row_addrs address i) \<Longrightarrow>
      view (dev (write_all d (zip (row_addrs address i) vs) b)) x = view (dev b) x"
proof -
  have d: "distinct (map fst (zip (row_addrs address i) vs))"
    using assms(3,4) distinct_row_addrs by simp
  note w = ram_write_all_distinct [OF assms(1) _ d]
  have "ht_row view (dev (write_all d (zip (row_addrs address i) vs) b)) address i
    = map (\<lambda>x. case map_of (zip (row_addrs address i) vs) x of Some v \<Rightarrow> v | None \<Rightarrow> view (dev b) x) (row_addrs address i)"
    unfolding ht_row_def using assms(2) w by (intro map_cong) auto
  then show "ht_row view (dev (write_all d (zip (row_addrs address i) vs) b)) address i = vs"
    by (simp add: map_of_row_addrs assms(3,4))
  show "view (dev (write_all d (zip (row_addrs address i) vs) b)) x = view (dev b) x"
    if "x \<in> A" "x \<notin> set (row_addrs address i)"
    using w [OF that(1)] that(2) by (auto dest: map_of_SomeD set_zip_leftD split: option.splits)
qed

lemma resetHT_row:
  "resetHT d (address + 32 * of_nat i) (Suc 0) b =
     snd (regread d REGTEST0_ADDR (write_all d (zip (row_addrs address i) (replicate 8 0)) b))"
proof -
  have "row_addrs (address + 32 * of_nat i) 0 = row_addrs address i"
    by (simp add: row_addrs_def ac_simps)
  moreover have "map (\<lambda>a. (a, 0)) (row_addrs address i) = zip (row_addrs address i) (replicate 8 (0 :: u32))"
    by (intro nth_equalityI) simp_all
  ultimately show ?thesis by (simp add: resetHT_def)
qed

lemma control_row_ram:
  assumes ram: "ram_like d view A" and sub: "set (row_addrs address i) \<subseteq> A" and i: "i < 134217728"
  shows "ht_row view (dev (control_row d address i b)) address i = aged (ht_row view (dev b) address i) \<and>
    (\<forall>x \<in> A. x \<notin> set (row_addrs address i) \<longrightarrow> view (dev (control_row d address i b)) x = view (dev b) x)"
proof -
  obtain vs b1 where r: "read_list d (row_addrs address i) b = (vs, b1)" by (metis surj_pair)
  with ram_read_list [OF ram sub, of b] have vs: "vs = ht_row view (dev b) address i"
    and b1: "\<forall>x \<in> A. view (dev b1) x = view (dev b) x" by (simp_all add: ht_row_def)
  have len: "length vs = 8" "length (aged_row vs) = 8" by (simp_all add: vs ht_row_def aged_row_def)
  have keep: "ht_row view (dev b') address i = ht_row view (dev b) address i"
    if "\<forall>x \<in> A. view (dev b') x = view (dev b) x" for b b' :: "'a board"
    using ht_row_cong [of A view "dev b'" "dev b", OF that sub] .
  note w0 = write_row_ram [OF ram sub _ i, of "replicate 8 0"] and w3 = write_row_ram [OF ram sub len(2) i]
  have rr: "\<forall>x \<in> A. view (dev (snd (regread d a b))) x = view (dev b) x" for a and b :: "'a board"
    using ram_read_keeps [OF ram] by blast
  consider "control_flag vs = 1" | "control_flag vs = 3" | "control_flag vs \<noteq> 1" "control_flag vs \<noteq> 3" by blast
  then show ?thesis
  proof cases
    case 1
    then show ?thesis using w0 b1 vs
      by (simp add: control_row_def r Let_def resetHT_row aged_def keep [OF rr] ram_read_keeps [OF ram])
  next
    case 2
    have ra: "\<forall>x \<in> A. view (dev (read_all d as b')) x = view (dev b') x" for as b'
      using ram_read_all [OF ram] by blast
    from 2 show ?thesis using w3 b1 vs
      by (simp add: control_row_def r Let_def aged_def keep [OF rr] keep [OF ra] ram_read_keeps [OF ram] ram_read_all [OF ram])
  next
    case 3
    then show ?thesis using b1 vs
      by (simp add: control_row_def r Let_def aged_def keep [OF rr] keep [OF b1] ram_read_keeps [OF ram])
  qed
qed

lemma control_rows_ram:
  assumes ram: "ram_like d view A" and sub: "\<forall>i < 1024. set (row_addrs address i) \<subseteq> A" and "n \<le> 1024"
  shows "(\<forall>i < 1024. ht_row view (dev (fold (control_row d address) [0..<n] b)) address i
      = (if i < n then aged (ht_row view (dev b) address i) else ht_row view (dev b) address i)) \<and>
    (\<forall>x \<in> A. (\<forall>i < 1024. x \<notin> set (row_addrs address i)) \<longrightarrow>
      view (dev (fold (control_row d address) [0..<n] b)) x = view (dev b) x)"
  using assms(3)
proof (induction n)
  case (Suc n)
  let ?b = "fold (control_row d address) [0..<n] b"
  have sub_n: "set (row_addrs address n) \<subseteq> A" and n: "n < 134217728" using sub Suc.prems by auto
  note step = control_row_ram [OF ram sub_n n, of ?b]
  have "ht_row view (dev (control_row d address n ?b)) address i = ht_row view (dev ?b) address i"
    if "i < 1024" "i \<noteq> n" for i
    unfolding ht_row_def using step sub [rule_format, OF that(1)] row_addrs_disjoint [of i n] that Suc.prems
    by (intro map_cong) auto
  with step Suc show ?case by (auto simp: less_Suc_eq)
qed simp

lemma control_flag_aged_row:
  assumes "length v = 8" and "control_flag v = 3"
  shows "control_flag (aged_row v) = 1"
proof -
  have "control_flag (aged_row v) = (drop_bit 30 (v ! 7) AND 3) AND 1"
    using assms(1) by (simp add: control_flag_def aged_row_def drop_bit_and and.assoc)
  with assms(2) show ?thesis by (simp add: control_flag_def)
qed

lemma aged_twice:
  assumes "length v = 8"
  shows "aged (aged v) = (if control_flag v \<in> {1, 3} then replicate 8 0 else v)"
proof -
  have "control_flag (replicate 8 0) = 0" by (simp add: control_flag_def)
  with control_flag_aged_row [OF assms] show ?thesis by (auto simp: aged_def)
qed



end
