(* ===== verification/Fw_Scan.thy ===== *)
theory Fw_Scan
  imports FB_Prelude
begin

text \<open>
  The console input of the firmware, main.c: \<open>getline\<close>, which stores a line without a
  terminator and without a bound, and \<open>rsscanf\<close>, the reduced \<open>sscanf\<close>. A C string is a list of
  characters in a buffer; reading past the end of the buffer is a fault. How the platform
  treats overflow of \<open>int\<close> is a parameter \<open>ovf\<close>: \<open>trap32\<close> is ISO C, where it is undefined,
  \<open>wrap32\<close> is two's complement.
\<close>

definition trap32 :: "int \<Rightarrow> int res" where
  "trap32 k = (if - (2 ^ 31) \<le> k \<and> k < 2 ^ 31 then Inr k else Inl (UB SignedOvf))"

definition wrap32 :: "int \<Rightarrow> int res" where
  "wrap32 k = Inr (sint (word_of_int k :: u32))"

abbreviation (input) NUL :: char where "NUL \<equiv> CHR 0x00"
abbreviation (input) CR :: char where "CR \<equiv> CHR 0x0D"

text \<open>The characters that end a line: \<open>0x0D\<close>, and \<open>0xFF\<close>, which a (signed) \<open>char\<close> cannot tell from \<open>EOF\<close>.\<close>

definition line_end :: "char \<Rightarrow> bool" where
  "line_end ch \<longleftrightarrow> ch = CR \<or> ch = CHR 0xFF"

section \<open>Reading a line\<close>

text \<open>
  \<open>getline(msg)\<close>: \<open>None\<close> when the input has no end of line yet (the call waits); otherwise
  the buffer, of which a prefix is overwritten, and the rest of the input.
\<close>

definition getline :: "string \<Rightarrow> string \<Rightarrow> (string \<times> string) option res" where
  "getline msg input =
     (let line = takeWhile (\<lambda>ch. \<not> line_end ch) input in
      if length line > length msg then Inl (UB OutOfBounds)
      else if length line = length input then Inr None
      else Inr (Some (line @ drop (length line) msg, drop (length line + 1) input)))"

section \<open>Scanning\<close>

definition dec_digit :: "char \<Rightarrow> int option" where
  "dec_digit c = (let n = of_char c :: int in if 48 \<le> n \<and> n \<le> 57 then Some (n - 48) else None)"

definition hex_digit :: "char \<Rightarrow> int option" where
  "hex_digit c =
     (let n = of_char c :: int in
      if 48 \<le> n \<and> n \<le> 57 then Some (n - 48)
      else if 97 \<le> n \<and> n \<le> 102 then Some (n - 97 + 10)
      else if 65 \<le> n \<and> n \<le> 70 then Some (n - 65 + 10)
      else None)"

definition bin_digit :: "char \<Rightarrow> int option" where
  "bin_digit c = (if c \<noteq> CHR ''0'' \<and> c \<noteq> CHR ''1'' then None else Some (of_char c - 48))"

text \<open>The digit loops: \<open>value\<close> and the number of digits \<open>pos\<close>, stopping at the first other character.\<close>

fun scan_digits ::
  "(int \<Rightarrow> int res) \<Rightarrow> (char \<Rightarrow> int option) \<Rightarrow> int \<Rightarrow> int \<Rightarrow> nat \<Rightarrow> string \<Rightarrow> (int \<times> nat \<times> string) res"
  where
  "scan_digits ovf dig radix value pos [] = Inl (UB OutOfBounds)"
| "scan_digits ovf dig radix value pos (c # str) =
     (if c = NUL then Inr (value, pos, c # str)
      else case dig c of
        None \<Rightarrow> Inr (value, pos, c # str)
      | Some tmp \<Rightarrow>
          res_bind (ovf (value * radix)) (\<lambda>v. res_bind (ovf (v + tmp))
            (\<lambda>v'. scan_digits ovf dig radix v' (pos + 1) str)))"

fun skip_spaces :: "string \<Rightarrow> string res" where
  "skip_spaces [] = Inl (UB OutOfBounds)"
| "skip_spaces (c # str) = (if c = CHR '' '' then skip_spaces str else Inr (c # str))"

datatype scanned = Scan_Int int | Scan_Char char

text \<open>\<open>%n\<close>: the code of the number that follows, and the string after its prefix.\<close>

definition number_code :: "string \<Rightarrow> (char \<times> string) res" where
  "number_code str =
     res_bind (rd str 0) (\<lambda>c0.
       if c0 = CHR ''0'' then
         res_bind (rd str 1) (\<lambda>c1.
           if c1 = CHR ''x'' \<or> c1 = CHR ''X'' then Inr (CHR ''x'', drop 2 str) else Inr (CHR ''d'', str))
       else if c0 = CHR ''b'' then Inr (CHR ''b'', drop 1 str)
       else Inr (CHR ''d'', str))"

text \<open>
  One conversion: the value scanned and the string where it stopped, or \<open>None\<close> for the early
  \<open>return count\<close>.
\<close>

definition convert :: "(int \<Rightarrow> int res) \<Rightarrow> char \<Rightarrow> string \<Rightarrow> (scanned \<times> string) option res" where
  "convert ovf fmt_code str =
     (let number = \<lambda>(value, pos, str'). if pos = (0 :: nat) then Inr None else Inr (Some (Scan_Int value, str')) in
      if fmt_code = CHR ''x'' \<or> fmt_code = CHR ''X'' then
        res_bind (scan_digits ovf hex_digit 16 0 0 str) number
      else if fmt_code = CHR ''b'' then res_bind (scan_digits ovf bin_digit 2 0 0 str) number
      else if fmt_code = CHR ''d'' then
        res_bind (rd str 0) (\<lambda>c.
          let neg = c = CHR ''-'' in
          res_bind (scan_digits ovf dec_digit 10 0 0 (if neg then drop 1 str else str))
            (\<lambda>(value, pos, str').
               if pos = 0 then Inr None
               else res_bind (if neg then ovf (- value) else Inr value)
                      (\<lambda>v. Inr (Some (Scan_Int v, str')))))
      else if fmt_code = CHR ''c'' then res_bind (rd str 0) (\<lambda>c. Inr (Some (Scan_Char c, str)))
      else Inr None)"

text \<open>
  The main loop. The string is the rest of the buffer; the end of the format is its
  terminator. After a conversion the loop header advances the string once more: past the
  character that ended the number, be it the terminator itself.
\<close>

function scan_loop :: "(int \<Rightarrow> int res) \<Rightarrow> string \<Rightarrow> string \<Rightarrow> scanned list \<Rightarrow> scanned list res" where
  "scan_loop ovf str format out =
     (if format = [] then Inr out
      else res_bind (rd str 0) (\<lambda>c0.
        if c0 = NUL then Inr out
        else
          (case dropWhile (\<lambda>c. c = CHR '' '') format of
             [] \<Rightarrow> Inr out
           | f # fs \<Rightarrow>
              res_bind (skip_spaces str) (\<lambda>str.
                if hd str = NUL then Inr out
                else if f = CHR ''%'' then
                  res_bind (case fs of [] \<Rightarrow> Inr (NUL, str)
                                     | g # _ \<Rightarrow> if g = CHR ''n'' then number_code str else Inr (g, str))
                   (\<lambda>(fmt_code, str).
                     res_bind (convert ovf fmt_code str)
                      (\<lambda>r. case r of None \<Rightarrow> Inr out
                                   | Some (v, str') \<Rightarrow> scan_loop ovf (drop 1 str') (drop 1 fs) (out @ [v])))
                else if f \<noteq> hd str then Inr out
                else scan_loop ovf (drop 1 str) fs out))))"
  by pat_completeness auto
termination
proof (relation "measure (\<lambda>(ovf, str, format, out). length format)", simp_all)
  fix format f fs
  assume "dropWhile (\<lambda>c. c = CHR '' '') format = f # fs"
  then have "length (f # fs) \<le> length format" by (metis length_dropWhile_le)
  then show "length fs - Suc 0 < length format" and "length fs < length format" by simp_all
qed

declare scan_loop.simps [simp del]

text \<open>\<open>rsscanf(str, format, ...)\<close>: the values it stores, in order; the count is their number.\<close>

definition rsscanf :: "(int \<Rightarrow> int res) \<Rightarrow> string \<Rightarrow> string \<Rightarrow> scanned list res" where
  "rsscanf ovf str format = scan_loop ovf str format []"

section \<open>Numbers\<close>

text \<open>The value of a digit string, and the printer of hexadecimal numbers.\<close>

definition digits_int :: "(char \<Rightarrow> int option) \<Rightarrow> int \<Rightarrow> int \<Rightarrow> string \<Rightarrow> int" where
  "digits_int dig radix v ds = fold (\<lambda>c v. v * radix + the (dig c)) ds v"

definition all_digits :: "(char \<Rightarrow> int option) \<Rightarrow> string \<Rightarrow> bool" where
  "all_digits dig ds \<longleftrightarrow> (\<forall>c \<in> set ds. c \<noteq> NUL \<and> (\<exists>t \<ge> 0. dig c = Some t))"

definition not_digit :: "(char \<Rightarrow> int option) \<Rightarrow> char \<Rightarrow> bool" where
  "not_digit dig c \<longleftrightarrow> c = NUL \<or> dig c = None"

lemma digits_int_simps [simp]:
  "digits_int dig radix v [] = v"
  "digits_int dig radix v (c # ds) = digits_int dig radix (v * radix + the (dig c)) ds"
  by (simp_all add: digits_int_def)

lemma digits_int_snoc: "digits_int dig radix v (ds @ [c]) = digits_int dig radix v ds * radix + the (dig c)"
  by (simp add: digits_int_def)

lemma all_digits_simps [simp]:
  "all_digits dig []"
  "all_digits dig (c # ds) \<longleftrightarrow> c \<noteq> NUL \<and> (\<exists>t \<ge> 0. dig c = Some t) \<and> all_digits dig ds"
  "all_digits dig (ds @ ds') \<longleftrightarrow> all_digits dig ds \<and> all_digits dig ds'"
  by (simp_all add: all_digits_def ball_Un)

lemma digits_int_mono: "all_digits dig ds \<Longrightarrow> 1 \<le> radix \<Longrightarrow> 0 \<le> v \<Longrightarrow> v \<le> digits_int dig radix v ds"
proof (induction ds arbitrary: v)
  case (Cons c ds)
  then obtain t where t: "dig c = Some t" "0 \<le> t" by auto
  have "v * 1 \<le> v * radix" by (rule mult_left_mono) (use Cons.prems in auto)
  then have le: "v \<le> v * radix + t" using t(2) by simp
  with Cons.prems have "v * radix + t \<le> digits_int dig radix (v * radix + t) ds"
    by (intro Cons.IH) auto
  with le t(1) show ?case by simp
qed simp

lemma trap32_fits [simp]: "0 \<le> k \<Longrightarrow> k < 2 ^ 31 \<Longrightarrow> trap32 k = Inr k"
  by (simp add: trap32_def)

text \<open>ISO C: a number is read while it fits into 31 bits, and undefined beyond.\<close>

lemma scan_digits_trap:
  assumes "all_digits dig ds" and "not_digit dig c" and "1 \<le> radix" and "0 \<le> v"
    and "digits_int dig radix v ds < 2 ^ 31"
  shows "scan_digits trap32 dig radix v pos (ds @ c # r) = Inr (digits_int dig radix v ds, pos + length ds, c # r)"
  using assms
proof (induction ds arbitrary: v pos)
  case Nil
  then show ?case by (auto simp: not_digit_def)
next
  case (Cons x ds)
  then obtain t where t: "dig x = Some t" "0 \<le> t" "x \<noteq> NUL" by auto
  have nonneg: "0 \<le> v * radix" using Cons.prems(3,4) by (intro mult_nonneg_nonneg) simp_all
  have "v * radix + t \<le> digits_int dig radix (v * radix + t) ds"
    using Cons.prems(1,3) t(2) nonneg by (intro digits_int_mono) simp_all
  with Cons.prems(5) t(1) have fits: "v * radix + t < 2 ^ 31" by simp
  then have "trap32 (v * radix) = Inr (v * radix)" "trap32 (v * radix + t) = Inr (v * radix + t)"
    using nonneg t(2) by (intro trap32_fits; simp)+
  with Cons.IH [of "v * radix + t" "pos + 1"] Cons.prems t nonneg show ?case by simp
qed

lemma scan_digits_trap_overflow:
  assumes "all_digits dig ds" and "1 \<le> radix" and "0 \<le> v" and "v < 2 ^ 31" and "2 ^ 31 \<le> digits_int dig radix v ds"
  shows "scan_digits trap32 dig radix v pos (ds @ r) = Inl (UB SignedOvf)"
  using assms
proof (induction ds arbitrary: v pos)
  case (Cons x ds)
  then obtain t where t: "dig x = Some t" "0 \<le> t" "x \<noteq> NUL" by auto
  have nonneg: "0 \<le> v * radix" using Cons.prems(2,3) by (intro mult_nonneg_nonneg) simp_all
  show ?case
  proof (cases "v * radix + t < 2 ^ 31")
    case True
    then have "trap32 (v * radix) = Inr (v * radix)" "trap32 (v * radix + t) = Inr (v * radix + t)"
      using nonneg t(2) by (intro trap32_fits; simp)+
    with Cons.IH [of "v * radix + t" "pos + 1"] Cons.prems True t nonneg show ?thesis by simp
  next
    case False
    with nonneg t show ?thesis by (auto simp: trap32_def)
  qed
qed simp

text \<open>Two's complement: a number is read modulo 2^32.\<close>

lemma sint_of_int_word: "word_of_int (sint (w :: u32)) = w"
  by simp

lemma scan_digits_wrap:
  assumes "all_digits dig ds" and "not_digit dig c"
  shows "scan_digits wrap32 dig radix (sint (word_of_int v :: u32)) pos (ds @ c # r)
    = Inr (sint (word_of_int (digits_int dig radix v ds) :: u32), pos + length ds, c # r)"
  using assms
proof (induction ds arbitrary: v pos)
  case Nil
  then show ?case by (auto simp: not_digit_def)
next
  case (Cons x ds)
  then obtain t where t: "dig x = Some t" "x \<noteq> NUL" by auto
  let ?w = "\<lambda>k. sint (word_of_int k :: u32)"
  have "(word_of_int (?w v * radix) :: u32) = word_of_int (v * radix)"
    "(word_of_int (?w (v * radix) + t) :: u32) = word_of_int (v * radix + t)"
    by simp_all
  then have "wrap32 (?w v * radix) = Inr (?w (v * radix))" "wrap32 (?w (v * radix) + t) = Inr (?w (v * radix + t))"
    by (simp_all only: wrap32_def)
  with Cons.IH [of "v * radix + t" "pos + 1"] Cons.prems t show ?case by simp
qed

lemma scan_digits_wrap_zero:
  "all_digits dig ds \<Longrightarrow> not_digit dig c \<Longrightarrow> scan_digits wrap32 dig radix 0 pos (ds @ c # r)
    = Inr (sint (word_of_int (digits_int dig radix 0 ds) :: u32), pos + length ds, c # r)"
  using scan_digits_wrap [of dig ds c radix 0] by simp

definition hex_char :: "nat \<Rightarrow> char" where
  "hex_char k = (if k < 10 then char_of (48 + k) else char_of (87 + k))"

fun hexadecimal :: "nat \<Rightarrow> string" where
  "hexadecimal n = (if n div 16 = 0 then [] else hexadecimal (n div 16)) @ [hex_char (n mod 16)]"

declare hexadecimal.simps [simp del]

lemma hex_char_digit: "k < 16 \<Longrightarrow> hex_char k \<noteq> NUL \<and> hex_digit (hex_char k) = Some (int k)"
proof -
  assume k: "k < 16"
  have code: "(of_char (char_of m :: char) :: int) = int m" if "m < 256" for m :: nat
  proof -
    have "(of_char (char_of m :: char) :: int) = int (of_char (char_of m :: char))" by (rule of_nat_of_char [symmetric])
    with that show ?thesis by simp
  qed
  from k have "hex_digit (hex_char k) = Some (int k)"
    by (simp add: hex_char_def hex_digit_def Let_def code)
  moreover have "hex_digit NUL = None" by (simp add: hex_digit_def)
  ultimately show ?thesis by auto
qed

lemma hexadecimal_digits:
  "all_digits hex_digit (hexadecimal n) \<and> hexadecimal n \<noteq> [] \<and> digits_int hex_digit 16 0 (hexadecimal n) = int n"
proof (induction n rule: hexadecimal.induct)
  case (1 n)
  have last: "hex_char (n mod 16) \<noteq> NUL" "hex_digit (hex_char (n mod 16)) = Some (int (n mod 16))"
    using hex_char_digit [of "n mod 16"] by simp_all
  have split: "int (n div 16) * 16 + int (n mod 16) = int n"
    by (metis div_mult_mod_eq of_nat_add of_nat_mult of_nat_numeral)
  show ?case
  proof (cases "n div 16 = 0")
    case True
    with split last show ?thesis by (simp add: hexadecimal.simps [of n] digits_int_snoc)
  next
    case False
    from 1 [OF False] last split show ?thesis
      unfolding hexadecimal.simps [of n] if_not_P [OF False] digits_int_snoc all_digits_simps by simp
  qed
qed

end
