(* ===== verification/Fw_Shell.thy ===== *)
theory Fw_Shell
  imports Fw_Tools Fw_Scan
begin

text \<open>
  The command shell of the firmware, \<open>main\<close> of main.c: the turn of its loop with every command,
  over the tools and the scanner. The console input is a string the turns consume; the
  contents of the line buffer, a local array, on entry to a turn are a parameter.
\<close>

section \<open>Start-up\<close>

text \<open>The build date in the version register.\<close>

record build_date =
  bd_day :: u32
  bd_month :: u32
  bd_year :: u32
  bd_hour :: u32
  bd_min :: u32
  bd_sec :: u32

definition bitstream_date :: "u32 \<Rightarrow> build_date" where
  "bitstream_date data =
     \<lparr>bd_day = drop_bit 27 (data AND 4160749568), bd_month = drop_bit 23 (data AND 125829120),
      bd_year = 2000 + drop_bit 17 (data AND 8257536), bd_hour = drop_bit 12 (data AND 126976),
      bd_min = drop_bit 6 (data AND 4032), bd_sec = data AND 63\<rparr>"

definition boot :: "'s device \<Rightarrow> 's board \<Rightarrow> build_date \<times> 's board" where
  "boot d b =
     (case regread d 0x80000004 b of
        (data, b1) \<Rightarrow> (bitstream_date data, regwrite d REGTEST0_ADDR 0 b1))"

section \<open>The state of the shell\<close>

record 's shell =
  stage :: int
  sh_base :: u32
  key_tcam :: "u32 list"
  mask_tcam :: "u32 list"
  console :: string
  sh_board :: "'s board"

abbreviation (input) STAGE1_OFFSET :: u32 where "STAGE1_OFFSET \<equiv> FLOWBLAZE1_BASEADDR - FLOWBLAZE2_BASEADDR"

definition pause :: "'s device \<Rightarrow> u32 \<Rightarrow> 's board \<Rightarrow> 's board" where
  "pause d v b = regwrite d (STAGE1_OFFSET + PAUSE) v (regwrite d PAUSE v b)"

section \<open>Commands\<close>

text \<open>Command 2: the value the option selects for the force register.\<close>

definition send_to :: "int \<Rightarrow> u32 option" where
  "send_to option =
     (if option = 0 then Some 0x100 else if option = 1 then Some 0x01 else if option = 2 then Some 0x04
      else if option = 3 then Some 0x10 else if option = 4 then Some 0x40 else if option = 5 then Some 0x55
      else if option = 6 then Some 0 else None)"

text \<open>Commands 3 and 4: the four hash tables.\<close>

definition search_all ::
  "('s device \<Rightarrow> u32 \<Rightarrow> nat \<Rightarrow> 's board \<Rightarrow> nat \<times> 's board) \<Rightarrow> 's device \<Rightarrow> u32 \<Rightarrow> 's board \<Rightarrow> nat \<times> 's board"
  where
  "search_all search d base b =
     fold (\<lambda>ht (ht_counter, b). case search d (ht + base) 1024 b of (n, b') \<Rightarrow> (ht_counter + n, b'))
       [HT0_1K_BASEADDR, HT1_1K_BASEADDR, HT2_1K_BASEADDR, HT3_1K_BASEADDR] (0, b)"

definition scan_ram :: "'s device \<Rightarrow> u32 \<Rightarrow> 's board \<Rightarrow> 's board" where
  "scan_ram d base b =
     fold (\<lambda>i b. read_all d
             [RAM1_BASEADDR + base + 4 * of_nat i, RAM2_BASEADDR + base + 4 * of_nat i,
              RAM3_BASEADDR + base + 4 * of_nat i, RAM4_BASEADDR + base + 4 * of_nat i] b)
       [0..<32] b"

text \<open>Command 6: identifier, packets in and packets out of the four ports, for printing.\<close>

abbreviation (input) SUME_NF_10G_INTERFACE0_BASEADDR :: u32 where "SUME_NF_10G_INTERFACE0_BASEADDR \<equiv> 0x44040000"

definition scan_eth :: "'s device \<Rightarrow> 's board \<Rightarrow> 's board" where
  "scan_eth d b =
     fold (\<lambda>i b. let tmp = SUME_NF_10G_INTERFACE0_BASEADDR + of_nat i * 0x00010000
                 in read_all d [tmp + 0x14, tmp + 0x18, tmp + 0x1C] b)
       [0..<4] b"

text \<open>
  Command 7, transparent mode: the extractor, the masks, the offsets and the global
  registers, then one row of the first TCAM and nine rows of the second.
\<close>

definition transparent_extractor :: "u32 \<Rightarrow> (u32 \<times> u32) list" where
  "transparent_extractor base =
     [(LOOKUP_ADDR + base, 0), (UPDATE_ADDR + base, 0), (SEL_UPDATE_ADDR + base, 0),
      (FSM_SCOPE_ADDR + base, 0x2D),
      (LOOKUPMASK_ADDR + base, 0xFFFFFFFF), (LOOKUPMASK_ADDR + base + 4, 0xFFFFFFFF),
      (LOOKUPMASK_ADDR + base + 8, 0xFFFFFFFF), (LOOKUPMASK_ADDR + base + 12, 0xFFFFFFFF),
      (UPDATEMASK_ADDR + base, 0xFFFFFFFF), (UPDATEMASK_ADDR + base + 4, 0xFFFFFFFF),
      (UPDATEMASK_ADDR + base + 8, 0xFFFFFFFF), (UPDATEMASK_ADDR + base + 12, 0xFFFFFFFF),
      (OFF_LEN1 + base, 0xE8), (OFF_LEN2 + base, 0xE8), (OFF_LEN3 + base, 0x50),
      (GR00 + base, 0x1), (GR01 + base, 0x2)]"

definition HT_REMOVE :: u32 where "HT_REMOVE = 0xFFFF"

text \<open>The rows: the port identifiers to match and the action, in the order they are written.\<close>

definition transparent_rows :: "(u32 \<times> u32) list" where
  "transparent_rows =
     [(0x01, 0x01000000 + HT_REMOVE), (0x04, 0x04000000 + HT_REMOVE), (0x10, 0x10000000 + HT_REMOVE),
      (0x40, 0x40000000 + HT_REMOVE), (0x01 + 0x04, (0x01000000 + 0x04000000) + HT_REMOVE),
      (0x01 + 0x10, (0x01000000 + 0x10000000) + HT_REMOVE),
      (0x04 + 0x40, (0x04000000 + 0x40000000) + HT_REMOVE),
      (0x10 + 0x40, (0x10000000 + 0x40000000) + HT_REMOVE), (0x55, 0x55000000 + HT_REMOVE)]"

definition transparent_row ::
  "'s device \<Rightarrow> u32 \<Rightarrow> u32 list \<Rightarrow> nat \<times> u32 \<times> u32 \<Rightarrow> u32 list \<times> 's board \<Rightarrow> (u32 list \<times> 's board) res" where
  "transparent_row d base msk r kb =
     (case (r, kb) of
        ((row, port, action), (key, b)) \<Rightarrow>
          res_bind (wr key 1 port) (\<lambda>key.
          res_bind (set_tcamram2 d base (of_nat row) key msk 0x0000000A action 0 b)
            (\<lambda>b. Inr (key, b))))"

definition transparent :: "'s device \<Rightarrow> 's shell \<Rightarrow> 's shell res" where
  "transparent d s =
     (let base = sh_base s;
          b1 = scan_extractor d base (write_all d (transparent_extractor base) (sh_board s));
          key = replicate 5 0xFFFFFFFF; msk = replicate 5 0xFFFFFFFF
      in res_bind (set_tcamram1 d base 0 key msk 0x000000FF b1) (\<lambda>b2.
         res_bind (wr msk 0 0xFFFFFFFF) (\<lambda>msk.
         res_bind (wr msk 1 0xFFFFFF00) (\<lambda>msk.
         res_bind (wr key 0 0x000000FF) (\<lambda>key.
         res_bind (run_steps (transparent_row d base msk) (enumerate 0 transparent_rows) (key, b2))
           (\<lambda>(key, b3). Inr (s\<lparr>key_tcam := key, mask_tcam := msk, sh_board := b3\<rparr>)))))))"

section \<open>A turn of the loop\<close>

datatype 's turn = Waiting "'s board" | Stopped "'s board" | Next "'s shell"

definition scanned_int :: "scanned list \<Rightarrow> nat \<Rightarrow> int" where
  "scanned_int vs i = (if i < length vs then (case vs ! i of Scan_Int k \<Rightarrow> k | Scan_Char _ \<Rightarrow> 0) else 0)"

definition run_command ::
  "'s device \<Rightarrow> (int \<Rightarrow> int res) \<Rightarrow> string \<Rightarrow> int \<Rightarrow> u32 \<Rightarrow> u32 \<Rightarrow> 's shell \<Rightarrow> 's turn res" where
  "run_command d ovf msg opcode addr val s =
     (let b = sh_board s; on_board = \<lambda>b. Inr (Next (s\<lparr>sh_board := b\<rparr>)) in
      if opcode = 0 then Inr (Stopped (pause d 0 b))
      else if opcode = 1 then
        let st = if stage s = 1 then 2 else 1
        in Inr (Next (s\<lparr>stage := st, sh_base := if st = 1 then STAGE1_OFFSET else 0\<rparr>))
      else if opcode = 2 then
        res_bind (getline msg (console s)) (\<lambda>r.
          case r of
            None \<Rightarrow> Inr (Waiting b)
          | Some (msg, rest) \<Rightarrow>
              res_bind (rsscanf ovf msg ''%d'') (\<lambda>vs.
                Inr (Next (s\<lparr>console := rest,
                       sh_board := case send_to (scanned_int vs 0) of
                                     None \<Rightarrow> b | Some v \<Rightarrow> regwrite d REGTEST0_ADDR v b\<rparr>))))
      else if opcode = 3 then on_board (snd (search_all searchHT_hide d (sh_base s) b))
      else if opcode = 4 then on_board (snd (search_all xil_searchHT d (sh_base s) b))
      else if opcode = 5 then on_board (scan_ram d (sh_base s) b)
      else if opcode = 6 then on_board (scan_eth d b)
      else if opcode = 7 then res_bind (transparent d s) (\<lambda>s. Inr (Next s))
      else if opcode = 97 \<or> opcode = 99 then on_board (regwrite d addr val b)
      else if opcode = 98 then on_board (snd (regread d addr b))
      else on_board b)"

abbreviation (input) command_format :: string where
  "command_format \<equiv> ''%d 0x%x 0x%x'' @ [CHR 0x0A]"

definition shell_turn ::
  "'s device \<Rightarrow> (int \<Rightarrow> int res) \<Rightarrow> string \<Rightarrow> 's shell \<Rightarrow> 's turn res" where
  "shell_turn d ovf msg s =
     res_bind (getline msg (console s)) (\<lambda>r.
       case r of
         None \<Rightarrow> Inr (Waiting (sh_board s))
       | Some (msg, rest) \<Rightarrow>
           res_bind (rsscanf ovf msg command_format) (\<lambda>vs.
           res_bind
             (run_command d ovf msg (scanned_int vs 0) (word_of_int (scanned_int vs 1))
               (word_of_int (scanned_int vs 2))
               (s\<lparr>console := rest, sh_board := usleep 20000 (pause d 1 (sh_board s))\<rparr>))
             (\<lambda>t. Inr (case t of Next s' \<Rightarrow> Next (s'\<lparr>sh_board := pause d 0 (sh_board s')\<rparr>) | _ \<Rightarrow> t))))"

text \<open>The loop: one buffer content per turn, until the shell waits or stops.\<close>

fun shell_loop ::
  "'s device \<Rightarrow> (int \<Rightarrow> int res) \<Rightarrow> string list \<Rightarrow> 's shell \<Rightarrow> 's turn res" where
  "shell_loop d ovf [] s = Inr (Next s)"
| "shell_loop d ovf (msg # msgs) s =
     res_bind (shell_turn d ovf msg s) (\<lambda>t.
       case t of Next s' \<Rightarrow> shell_loop d ovf msgs s' | _ \<Rightarrow> Inr t)"

definition fw_main :: "'s device \<Rightarrow> (int \<Rightarrow> int res) \<Rightarrow> string list \<Rightarrow> string \<Rightarrow> 's board \<Rightarrow> 's turn res" where
  "fw_main d ovf msgs input b =
     shell_loop d ovf msgs
       \<lparr>stage = 0, sh_base = 0, key_tcam = replicate 5 0xFFFFFFFF, mask_tcam = replicate 5 0xFFFFFFFF,
        console = input, sh_board = snd (boot d b)\<rparr>"

end
