(* ===== verification/Fw_Props.thy ===== *)
theory Fw_Props
  imports Fw_Shell
begin

text \<open>
  The properties of the firmware shell: the pipeline is paused around every configuration
  write, what transparent mode programs, how command lines are read and misread.
\<close>

section \<open>Pause discipline\<close>

text \<open>
  A monitor of the bus: whether each of the two stages is paused, and whether a write to any
  other register happened while one of them was not.
\<close>

fun guarded :: "bool \<times> bool \<Rightarrow> bus_event list \<Rightarrow> bool" where
  "guarded p [] = True"
| "guarded (p2, p1) (Wr a v # es) =
     (if a = PAUSE then guarded (v = 1, p1) es
      else if a = STAGE1_OFFSET + PAUSE then guarded (p2, v = 1) es
      else p2 \<and> p1 \<and> guarded (p2, p1) es)"
| "guarded p (e # es) = guarded p es"

fun paused_after :: "bool \<times> bool \<Rightarrow> bus_event list \<Rightarrow> bool \<times> bool" where
  "paused_after p [] = p"
| "paused_after (p2, p1) (Wr a v # es) =
     (if a = PAUSE then paused_after (v = 1, p1) es
      else if a = STAGE1_OFFSET + PAUSE then paused_after (p2, v = 1) es
      else paused_after (p2, p1) es)"
| "paused_after p (e # es) = paused_after p es"

lemma guarded_append: "guarded p (es @ es') = (guarded p es \<and> guarded (paused_after p es) es')"
  by (induction p es rule: guarded.induct) auto

lemma paused_after_append: "paused_after p (es @ es') = paused_after (paused_after p es) es'"
  by (induction p es rule: guarded.induct) auto

text \<open>Events that leave the pause registers alone.\<close>

definition quiet :: "bus_event \<Rightarrow> bool" where
  "quiet e = (case e of Wr a v \<Rightarrow> a \<noteq> PAUSE \<and> a \<noteq> STAGE1_OFFSET + PAUSE | _ \<Rightarrow> True)"

lemma quiet_guarded: "\<forall>e \<in> set es. quiet e \<Longrightarrow> guarded (True, True) es \<and> paused_after (True, True) es = (True, True)"
  by (induction "(True, True)" es rule: guarded.induct) (auto simp: quiet_def)

definition extends :: "(bus_event \<Rightarrow> bool) \<Rightarrow> 's board \<Rightarrow> 's board \<Rightarrow> bool" where
  "extends P b b' \<longleftrightarrow> (\<exists>es. accesses b' = accesses b @ es \<and> (\<forall>e \<in> set es. P e))"

lemma extends_refl [simp]: "extends P b b"
  by (auto simp: extends_def)

lemma extends_trans [trans]: "extends P b b' \<Longrightarrow> extends P b' b'' \<Longrightarrow> extends P b b''"
  by (auto simp: extends_def)

lemma extends_simps [simp]:
  "extends quiet b (snd (regread d a b))"
  "extends quiet b (read_all d as b)"
  "extends quiet b (regwrite d a v b) \<longleftrightarrow> quiet (Wr a v)"
  "extends quiet b (write_all d ws b) \<longleftrightarrow> (\<forall>(a, v) \<in> set ws. quiet (Wr a v))"
  by (auto simp: extends_def quiet_def)

lemma extends_read_list [simp]: "extends quiet b (snd (read_list d as b))"
proof (induction as arbitrary: b)
  case (Cons a as)
  have "extends quiet b (snd (regread d a b))" by simp
  also have "extends quiet (snd (regread d a b)) (snd (read_list d as (snd (regread d a b))))" by (rule Cons.IH)
  finally show ?case by (simp add: split_beta)
qed simp

lemma extends_fold:
  "(\<And>x s. extends P (f s) (f (g x s))) \<Longrightarrow> extends P (f s) (f (fold g xs s))"
  by (induction xs arbitrary: s) (auto intro: extends_trans)

lemma extends_search_row: "extends quiet (snd cb) (snd (search_row p d a i cb))"
proof -
  obtain c b where cb: "cb = (c, b)" by (metis surj_pair)
  obtain vs b1 where r: "read_list d (row_addrs a i) b = (vs, b1)" by (metis surj_pair)
  with extends_read_list [of b d "row_addrs a i"] have 1: "extends quiet b b1" by simp
  let ?b2 = "snd (regread d REGTEST0_ADDR b1)"
  let ?b3 = "if 0 < length (filter (\<lambda>v. v \<noteq> 0) vs) \<and> p then read_all d (row_addrs a i) ?b2 else ?b2"
  have "extends quiet b1 ?b2" "extends quiet ?b2 ?b3" "extends quiet ?b3 (snd (regread d REGTEST0_ADDR ?b3))" by simp_all
  with 1 have "extends quiet b (snd (regread d REGTEST0_ADDR ?b3))" by (blast intro: extends_trans)
  with r cb show ?thesis by (simp add: search_row_def Let_def)
qed

lemma extends_search:
  "extends quiet b (snd (searchHT_hide d a n b))" "extends quiet b (snd (xil_searchHT d a n b))"
  unfolding searchHT_hide_def xil_searchHT_def
  using extends_fold [of quiet snd "search_row False d a" "(0, b)"] extends_fold [of quiet snd "search_row True d a" "(0, b)"]
  by (simp_all add: extends_search_row)

lemma extends_search_all:
  assumes "\<And>a n b. extends quiet b (snd (search d a n b))"
  shows "extends quiet b (snd (search_all search d base b))"
proof -
  have "extends quiet (snd (0 :: nat, b)) (snd (search_all search d base b))"
    unfolding search_all_def
    by (rule extends_fold [where f = snd]) (use assms in \<open>auto simp: split_beta\<close>)
  then show ?thesis by simp
qed

lemmas extends_board_fold = extends_fold [where f = "\<lambda>b. b"]

lemma extends_scans: "extends quiet b (scan_ram d base b)" "extends quiet b (scan_eth d b)"
  "extends quiet b (scan_extractor d base b)"
  by (auto simp: scan_ram_def scan_eth_def scan_extractor_def Let_def intro!: extends_board_fold)

text \<open>The base offset of a stage, and the writes of the tools at it.\<close>

definition stage_base :: "u32 \<Rightarrow> bool" where
  "stage_base base \<longleftrightarrow> base = 0 \<or> base = STAGE1_OFFSET"

lemma quiet_offset:
  assumes "stage_base base" and "0x80000100 \<le> k" and "k < 0x81000000"
  shows "quiet (Wr (base + of_nat k) v)"
proof -
  have "base + (of_nat k :: u32) \<noteq> PAUSE \<and> base + (of_nat k :: u32) \<noteq> STAGE1_OFFSET + PAUSE"
    using assms offset_eq [of k "0x80000090"] offset_eq [of k "0x81000090"]
      offset_eq [of "k + 0x1000000" "0x80000090"] offset_eq [of "k + 0x1000000" "0x81000090"]
    by (auto simp: stage_base_def add.commute)
  then show ?thesis by (simp add: quiet_def)
qed

lemma extends_set_tcamram2:
  assumes "stage_base base" and "r < 64" and "set_tcamram2 d base (of_nat r) key msk ns action upd b = Inr b'"
    and "5 \<le> length key" and "5 \<le> length msk"
  shows "extends quiet b b'"
proof -
  have "b' = write_all d (at_base base (tcam2_image r key msk ns action upd)) b"
    using assms(3) by (simp add: set_tcamram2_writes [OF assms(4,5)])
  moreover have "quiet (Wr (base + of_nat k) v)" if "(k, v) \<in> set (tcam2_image r key msk ns action upd)" for k v
  proof -
    from that have "k \<in> set (map fst (tcam2_image r key msk ns action upd))" by force
    then show ?thesis
      unfolding tcam2_image_offsets [OF assms(4,5)] using assms(2)
      by (intro quiet_offset [OF assms(1)]) auto
  qed
  ultimately show ?thesis by (auto simp: at_base_def)
qed

lemma extends_put_words:
  assumes "stage_base base" and "0x80000100 \<le> off" and "off + 4 * len < 0x81000000"
    and "n \<le> length ws" and "n \<le> len" and "put_words d (base + of_nat off) ws n fill len b = Inr b'"
  shows "extends quiet b b'"
proof -
  have "quiet (Wr (base + of_nat k) v)"
    if "(k, v) \<in> set (zip (map (\<lambda>i. off + 4 * i) [0..<len]) (take n ws @ replicate (len - n) fill))" for k v
    using set_zip_leftD [OF that] assms(2,3) by (intro quiet_offset [OF assms(1)]) auto
  with assms(6) show ?thesis by (auto simp: put_words_writes assms(4,5) at_base_def)
qed

lemma extends_set_tcamram1:
  assumes "stage_base base" and "set_tcamram1 d base 0 key msk ps b = Inr b'" and "4 \<le> length key" and "4 \<le> length msk"
  shows "extends quiet b b'"
proof -
  from assms(2) obtain b1 b2 where
    1: "put_words d (base + of_nat 0x80010000) key 4 0xFFFFFFFF 8 b = Inr b1" and
    2: "put_words d (base + of_nat 0x80010020) msk 4 0xFFFFFFFF 8 b1 = Inr b2" and
    3: "b' = regwrite d (base + of_nat 0x80020000) ps b2"
    by (auto simp: set_tcamram1_def)
  have "extends quiet b b1" by (rule extends_put_words [OF assms(1) _ _ assms(3) _ 1]) simp_all
  also have "extends quiet b1 b2" by (rule extends_put_words [OF assms(1) _ _ assms(4) _ 2]) simp_all
  also have "extends quiet b2 b'"
    unfolding 3 extends_simps by (rule quiet_offset [OF assms(1)]) simp_all
  finally show ?thesis .
qed

lemma transparent_row_step:
  assumes "stage_base base" and "length key = 5" and "length msk = 5" and "r < 64"
    and "transparent_row d base msk (r, port, action) (key, b) = Inr (key', b')"
  shows "length key' = 5 \<and> extends quiet b b'"
  using assms extends_set_tcamram2 [OF assms(1,4), of d "key[1 := port]" msk 10 action 0 b b']
  by (auto simp: transparent_row_def access_iff)

lemma transparent_rows_run:
  assumes "stage_base base" and "length msk = 5" and "\<forall>(r, x) \<in> set rs. r < 64"
  shows "length key = 5 \<Longrightarrow> run_steps (transparent_row d base msk) rs (key, b) = Inr (key', b') \<Longrightarrow>
    length key' = 5 \<and> extends quiet b b'"
  using assms(3)
proof (induction rs arbitrary: key b)
  case (Cons p rs)
  obtain r port action where p: "p = (r, port, action)" by (metis surj_pair)
  from Cons.prems p obtain key1 b1 where
    1: "transparent_row d base msk (r, port, action) (key, b) = Inr (key1, b1)"
    and 2: "run_steps (transparent_row d base msk) rs (key1, b1) = Inr (key', b')" by auto
  from transparent_row_step [OF assms(1) Cons.prems(1) assms(2) _ 1] Cons.prems(3) p
  have "length key1 = 5" "extends quiet b b1" by simp_all
  with Cons.IH [OF _ 2] Cons.prems(3) show ?case by (auto intro: extends_trans)
qed auto

lemma extends_transparent:
  assumes "stage_base (sh_base s)" and "transparent d s = Inr s'"
  shows "extends quiet (sh_board s) (sh_board s') \<and> sh_base s' = sh_base s"
proof -
  let ?b0 = "write_all d (transparent_extractor (sh_base s)) (sh_board s)"
  let ?b1 = "scan_extractor d (sh_base s) ?b0"
  let ?key = "replicate 5 0xFFFFFFFF :: u32 list"
  from assms(2) obtain b2 key b3 where
    1: "set_tcamram1 d (sh_base s) 0 ?key ?key 0xFF ?b1 = Inr b2" and
    2: "run_steps (transparent_row d (sh_base s) (?key[0 := 0xFFFFFFFF, 1 := 0xFFFFFF00])) (enumerate 0 transparent_rows)
          (?key[0 := 0xFF], b2) = Inr (key, b3)" and
    3: "sh_board s' = b3" "sh_base s' = sh_base s"
    by (auto simp: transparent_def Let_def access_iff)
  have "extends quiet (sh_board s) ?b0"
    unfolding extends_simps using assms(1) by (auto simp: stage_base_def transparent_extractor_def quiet_def)
  also have "extends quiet ?b0 ?b1" by (rule extends_scans)
  also have "extends quiet ?b1 b2" by (rule extends_set_tcamram1 [OF assms(1) 1]) simp_all
  also have "extends quiet b2 b3"
    using transparent_rows_run [OF assms(1) _ _ _ 2] by (simp add: transparent_rows_def)
  finally show ?thesis using 3 by simp
qed

text \<open>A command other than a register write of the user.\<close>

lemma extends_run_command:
  assumes "stage_base (sh_base s)" and "run_command d ovf msg opcode addr val s = Inr t"
    and "opcode \<noteq> 97" and "opcode \<noteq> 99" and "opcode \<noteq> 0"
  shows "case t of
      Next s' \<Rightarrow> stage_base (sh_base s') \<and> extends quiet (sh_board s) (sh_board s')
    | Waiting b' \<Rightarrow> b' = sh_board s | Stopped b' \<Rightarrow> False"
proof -
  have reg: "quiet (Wr REGTEST0_ADDR v)" for v by (simp add: quiet_def)
  show ?thesis
    using assms(2) assms(1) [unfolded stage_base_def] unfolding run_command_def Let_def
    by (auto simp: assms(3-5) extends_search extends_search_all extends_scans stage_base_def reg
        dest!: extends_transparent [OF assms(1)] split: if_splits option.splits)
qed

fun turn_board :: "'s turn \<Rightarrow> 's board" where
  "turn_board (Waiting b) = b"
| "turn_board (Stopped b) = b"
| "turn_board (Next s) = sh_board s"

text \<open>What a turn, or a run, may add to the accesses when it ends in \<open>t\<close>.\<close>

definition disciplined :: "'s turn \<Rightarrow> bus_event list \<Rightarrow> bool" where
  "disciplined t es \<longleftrightarrow>
     (\<forall>p. guarded p es \<and>
       (case t of
          Waiting _ \<Rightarrow> paused_after p es = (True, True)
        | _ \<Rightarrow> paused_after p es = (False, False)))"

definition base_of :: "'s turn \<Rightarrow> bool" where
  "base_of t = (case t of Next s \<Rightarrow> stage_base (sh_base s) | _ \<Rightarrow> True)"

lemma accesses_pause [simp]: "accesses (pause d v b) = accesses b @ [Wr PAUSE v, Wr (STAGE1_OFFSET + PAUSE) v]"
  by (simp add: pause_def)

lemma pause_events:
  assumes "guarded (True, True) es" and "paused_after (True, True) es = (p2, p1)"
  shows "guarded p ([Wr PAUSE 1, Wr (STAGE1_OFFSET + PAUSE) 1, Sleep n] @ es @ [Wr PAUSE 0, Wr (STAGE1_OFFSET + PAUSE) 0]) \<and>
    paused_after p ([Wr PAUSE 1, Wr (STAGE1_OFFSET + PAUSE) 1, Sleep n] @ es @ [Wr PAUSE 0, Wr (STAGE1_OFFSET + PAUSE) 0])
      = (False, False)"
  using assms by (cases p) (simp add: guarded_append paused_after_append)

lemma user_write_events: "guarded (True, True) [Wr a v]"
  by simp

lemma shell_turn_disciplined:
  assumes "stage_base (sh_base s)" and "shell_turn d ovf msg s = Inr t"
  shows "base_of t \<and> (\<exists>es. accesses (turn_board t) = accesses (sh_board s) @ es \<and>
    (disciplined t es \<or> (es = [] \<and> (\<exists>b. t = Waiting b))))"
proof (cases "getline msg (console s) = Inr None")
  case True
  with assms(2) show ?thesis by (auto simp: shell_turn_def base_of_def)
next
  case False
  with assms(2) obtain msg' rest vs t0 where
    g: "getline msg (console s) = Inr (Some (msg', rest))" and
    c: "run_command d ovf msg' (scanned_int vs 0) (word_of_int (scanned_int vs 1)) (word_of_int (scanned_int vs 2))
          (s\<lparr>console := rest, sh_board := usleep 20000 (pause d 1 (sh_board s))\<rparr>) = Inr t0" and
    t: "t = (case t0 of Next s' \<Rightarrow> Next (s'\<lparr>sh_board := pause d 0 (sh_board s')\<rparr>) | _ \<Rightarrow> t0)"
    by (auto simp: shell_turn_def split: option.splits)
  let ?op = "scanned_int vs 0" and ?s = "s\<lparr>console := rest, sh_board := usleep 20000 (pause d 1 (sh_board s))\<rparr>"
  let ?start = "[Wr PAUSE 1, Wr (STAGE1_OFFSET + PAUSE) 1, Sleep 20000]"
  let ?stop = "[Wr PAUSE 0, Wr (STAGE1_OFFSET + PAUSE) 0 :: bus_event]"
  consider "?op = 0" | "?op = 97 \<or> ?op = 99" | "?op \<noteq> 0" "?op \<noteq> 97" "?op \<noteq> 99" by blast
  then show ?thesis
  proof cases
    case 1
    with c t pause_events [of "[]" True True _ 20000] show ?thesis
      by (auto simp: run_command_def base_of_def disciplined_def intro!: exI [of _ "?start @ ?stop"])
  next
    case 2
    let ?w = "Wr (word_of_int (scanned_int vs 1)) (word_of_int (scanned_int vs 2))"
    obtain q2 q1 where "paused_after (True, True) [?w] = (q2, q1)" by (metis surj_pair)
    from pause_events [OF user_write_events this] 2 c t assms(1) show ?thesis
      by (auto simp: run_command_def base_of_def disciplined_def intro!: exI [of _ "?start @ [?w] @ ?stop"])
  next
    case 3
    from extends_run_command [OF _ c 3(2,3,1)] assms(1)
    show ?thesis
    proof (cases t0)
      case (Waiting b)
      with t extends_run_command [OF _ c 3(2,3,1)] assms(1) show ?thesis
        by (auto simp: base_of_def disciplined_def intro!: exI [of _ ?start])
    next
      case (Next s')
      with extends_run_command [OF _ c 3(2,3,1)] assms(1) obtain es where
        es: "accesses (sh_board s') = accesses (sh_board ?s) @ es" "\<forall>e \<in> set es. quiet e" "stage_base (sh_base s')"
        by (auto simp: extends_def)
      from pause_events [of es True True _ 20000] quiet_guarded [OF es(2)] Next t es(1,3) show ?thesis
        by (auto simp: base_of_def disciplined_def intro!: exI [of _ "?start @ es @ ?stop"])
    qed simp
  qed
qed

lemma shell_loop_disciplined:
  assumes "stage_base (sh_base s)" and "shell_loop d ovf msgs s = Inr t"
  shows "\<exists>es. accesses (turn_board t) = accesses (sh_board s) @ es \<and> guarded (False, False) es \<and>
    paused_after (False, False) es \<in> (case t of Waiting _ \<Rightarrow> {(False, False), (True, True)} | _ \<Rightarrow> {(False, False)})"
  using assms
proof (induction msgs arbitrary: s)
  case Nil
  then show ?case by auto
next
  case (Cons msg msgs)
  from Cons.prems(2) obtain t1 where t1: "shell_turn d ovf msg s = Inr t1"
    and rest: "(case t1 of Next s' \<Rightarrow> shell_loop d ovf msgs s' | _ \<Rightarrow> Inr t1) = Inr t" by auto
  from shell_turn_disciplined [OF Cons.prems(1) t1] obtain es1 where
    es1: "base_of t1" "accesses (turn_board t1) = accesses (sh_board s) @ es1"
      "disciplined t1 es1 \<or> (es1 = [] \<and> (\<exists>b. t1 = Waiting b))" by blast
  show ?case
  proof (cases t1)
    case (Next s')
    with rest es1(1) Cons.IH [of s'] obtain es where
      "accesses (turn_board t) = accesses (sh_board s') @ es" "guarded (False, False) es"
      "paused_after (False, False) es \<in> (case t of Waiting _ \<Rightarrow> {(False, False), (True, True)} | _ \<Rightarrow> {(False, False)})"
      by (auto simp: base_of_def)
    moreover have "guarded (False, False) es1" "paused_after (False, False) es1 = (False, False)"
      using es1(3) Next by (auto simp: disciplined_def)
    ultimately show ?thesis using es1(2) Next
      by (intro exI [of _ "es1 @ es"]) (simp add: guarded_append paused_after_append)
  next
    case (Waiting b)
    with rest es1 show ?thesis by (intro exI [of _ es1]) (auto simp: disciplined_def)
  next
    case (Stopped b)
    with rest es1 show ?thesis by (intro exI [of _ es1]) (auto simp: disciplined_def)
  qed
qed

text \<open>
  C11: The firmware configures only a paused pipeline. Whatever is typed, for any contents of
  the line buffers and any behaviour of the hardware: after start-up, every write of a run to
  a register other than the two pause registers happens while both stages are paused; and
  whenever the shell is at its prompt or has stopped, both stages run again. A wait for the
  second line of a command leaves them paused.
\<close>

theorem configuration_writes_are_paused:
  assumes "fw_main d ovf msgs input b = Inr t"
  shows "\<exists>es. accesses (turn_board t) = accesses b @ [Rd 0x80000004, Wr REGTEST0_ADDR 0] @ es \<and>
    guarded (False, False) es \<and>
    paused_after (False, False) es \<in> (case t of Waiting _ \<Rightarrow> {(False, False), (True, True)} | _ \<Rightarrow> {(False, False)})"
proof -
  have "accesses (snd (boot d b)) = accesses b @ [Rd 0x80000004, Wr REGTEST0_ADDR 0]"
    by (simp add: boot_def regread_def split_beta)
  with shell_loop_disciplined [OF _ assms [unfolded fw_main_def]] show ?thesis by (simp add: stage_base_def)
qed

section \<open>Transparent mode\<close>

lemma transparent_row_ram:
  assumes "ram_like d view UNIV" and "length key = 5" and "length msk = 5" and "r < 64"
  shows "\<exists>b'. transparent_row d base msk (r, port, action) (key, b) = Inr (key[1 := port], b') \<and>
    tcam2_row view (dev b') base r =
      key[1 := port] @ replicate 3 0xFFFFFFFF @ msk @ replicate 3 0xFFFFFFFF @ [10, action, 0] \<and>
    (\<forall>r' < 64. r' \<noteq> r \<longrightarrow> tcam2_row view (dev b') base r' = tcam2_row view (dev b) base r') \<and>
    (\<forall>r' < 64. tcam1_row view (dev b') base r' = tcam1_row view (dev b) base r')"
proof -
  have "5 \<le> length (key[1 := port])" "5 \<le> length msk" "take 5 (key[1 := port]) = key[1 := port]" "take 5 msk = msk"
    using assms(2,3) by simp_all
  with set_tcamram2_row [OF assms(1) this(1,2) assms(4), of base 10 action 0 b] assms(2)
  show ?thesis by (auto simp: transparent_row_def)
qed

lemma transparent_rows_ram:
  assumes "ram_like d view UNIV" and "length msk = 5"
  shows "length key = 5 \<Longrightarrow> k + length rs \<le> 64 \<Longrightarrow>
    \<exists>key' b'. run_steps (transparent_row d base msk) (enumerate k rs) (key, b) = Inr (key', b') \<and>
      (\<forall>i < length rs. tcam2_row view (dev b') base (k + i) =
         key[1 := fst (rs ! i)] @ replicate 3 0xFFFFFFFF @ msk @ replicate 3 0xFFFFFFFF @ [10, snd (rs ! i), 0]) \<and>
      (\<forall>r < k. tcam2_row view (dev b') base r = tcam2_row view (dev b) base r) \<and>
      (\<forall>r < 64. tcam1_row view (dev b') base r = tcam1_row view (dev b) base r)"
proof (induction rs arbitrary: k key b)
  case (Cons p rs)
  obtain port action where p: "p = (port, action)" by (metis surj_pair)
  from transparent_row_ram [OF assms(1) Cons.prems(1) assms(2), of k base port action b] Cons.prems(2)
  obtain b1 where b1: "transparent_row d base msk (k, port, action) (key, b) = Inr (key[1 := port], b1)"
    "tcam2_row view (dev b1) base k = key[1 := port] @ replicate 3 0xFFFFFFFF @ msk @ replicate 3 0xFFFFFFFF @ [10, action, 0]"
    "\<forall>r < 64. r \<noteq> k \<longrightarrow> tcam2_row view (dev b1) base r = tcam2_row view (dev b) base r"
    "\<forall>r < 64. tcam1_row view (dev b1) base r = tcam1_row view (dev b) base r" by auto
  from Cons.IH [of "key[1 := port]" "Suc k" b1] Cons.prems obtain key' b' where
    b': "run_steps (transparent_row d base msk) (enumerate (Suc k) rs) (key[1 := port], b1) = Inr (key', b')"
    "\<forall>i < length rs. tcam2_row view (dev b') base (Suc k + i) =
         key[1 := fst (rs ! i)] @ replicate 3 0xFFFFFFFF @ msk @ replicate 3 0xFFFFFFFF @ [10, snd (rs ! i), 0]"
    "\<forall>r < Suc k. tcam2_row view (dev b') base r = tcam2_row view (dev b1) base r"
    "\<forall>r < 64. tcam1_row view (dev b') base r = tcam1_row view (dev b1) base r" by auto
  have "tcam2_row view (dev b') base (k + i) =
       key[1 := fst ((p # rs) ! i)] @ replicate 3 0xFFFFFFFF @ msk @ replicate 3 0xFFFFFFFF @ [10, snd ((p # rs) ! i), 0]"
    if "i < length (p # rs)" for i
    using that b'(2,3) b1(2) p by (cases i) auto
  moreover have "tcam2_row view (dev b') base r = tcam2_row view (dev b) base r" if "r < k" for r
    using that b'(3) b1(3) Cons.prems(2) by auto
  moreover have "run_steps (transparent_row d base msk) (enumerate k (p # rs)) (key, b) = Inr (key', b')"
    using b1(1) b'(1) p by simp
  ultimately show ?case using b1(4) b'(4) by auto
qed auto



text \<open>A run for the witness: command 5 is typed, then 0.\<close>

definition blank_buffer :: string where
  "blank_buffer = NUL # NUL # NUL # replicate 253 NUL"

lemma demo_scan:
  "rsscanf trap32 (''5'' @ NUL # NUL # replicate 253 NUL) command_format = Inr [Scan_Int 5]"
  "rsscanf trap32 (''0'' @ NUL # NUL # replicate 253 NUL) command_format = Inr [Scan_Int 0]"
  by (simp_all add: rsscanf_def scan_loop.simps convert_def Let_def dec_digit_def trap32_def)

theorem configuration_writes_are_paused_witness:
  "\<exists>t. fw_main ram_device trap32 [blank_buffer, blank_buffer] (''5'' @ [CR] @ ''0'' @ [CR]) zero_board = Inr t \<and>
     (\<exists>es. accesses (turn_board t) = [Rd 0x80000004, Wr REGTEST0_ADDR 0] @ es \<and> guarded (False, False) es \<and>
        paused_after (False, False) es = (False, False))"
proof -
  obtain b where t: "fw_main ram_device trap32 [blank_buffer, blank_buffer] (''5'' @ [CR] @ ''0'' @ [CR]) zero_board
      = Inr (Stopped b)"
    using demo_scan by (auto simp: fw_main_def shell_turn_def getline_def line_end_def Let_def blank_buffer_def run_command_def
        scanned_int_def)
  from configuration_writes_are_paused [OF this] t show ?thesis by (auto simp: zero_board_def)
qed

section \<open>Command lines\<close>

lemma scan_literal:
  "c \<notin> {NUL, CHR '' '', CHR ''%''} \<Longrightarrow> scan_loop ovf (c # str) (c # fmt) out = scan_loop ovf str fmt out"
  by (simp add: scan_loop.simps [of ovf "c # str"])

lemma scan_space:
  "c \<notin> {NUL, CHR '' ''} \<Longrightarrow> fmt \<noteq> [] \<Longrightarrow> scan_loop ovf (c # str) (CHR '' '' # fmt) out = scan_loop ovf (c # str) fmt out"
  by (simp add: scan_loop.simps [of ovf "c # str"])

lemma scan_hex_field:
  assumes "scan_digits ovf hex_digit 16 0 0 (hexadecimal n @ r) = res"
  shows "scan_loop ovf (hexadecimal n @ r) (''%x'' @ fmt) out =
    res_bind res (\<lambda>(v, pos, str). if pos = 0 then Inr out else scan_loop ovf (drop 1 str) fmt (out @ [Scan_Int v]))"
proof -
  from hexadecimal_digits [of n] obtain h hs where h: "hexadecimal n = h # hs" "h \<noteq> NUL" "hex_digit h \<noteq> None"
    by (cases "hexadecimal n") auto
  then have "h \<noteq> CHR '' ''" by (auto simp: hex_digit_def)
  with h assms show ?thesis
    by (simp add: scan_loop.simps [of ovf "h # hs @ r"] convert_def Let_def res_bind_assoc)
      (simp add: res_bind_def split: sum.splits prod.splits)
qed

lemma all_digitsD: "all_digits dig ds \<Longrightarrow> c \<in> set ds \<Longrightarrow> c \<noteq> NUL \<and> dig c \<noteq> None"
  by (auto simp: all_digits_def)

lemma hexadecimal_head:
  "\<exists>c r. hexadecimal n = c # r \<and> c \<notin> {NUL, CHR '' '', CR}" "\<not> list_ex line_end (hexadecimal n)"
proof -
  have no: "hex_digit (CHR '' '') = None" "hex_digit CR = None" "hex_digit (CHR 0xFF) = None"
    by (simp_all add: hex_digit_def)
  have sep: "c \<notin> {NUL, CHR '' '', CR} \<and> \<not> line_end c" if c: "c \<in> set (hexadecimal n)" for c
  proof -
    have "c \<noteq> NUL \<and> hex_digit c \<noteq> None" by (rule all_digitsD [OF _ c]) (use hexadecimal_digits [of n] in blast)
    with no show ?thesis by (auto simp: line_end_def)
  qed
  obtain c r where "hexadecimal n = c # r"
    using hexadecimal_digits [of n] by (cases "hexadecimal n") auto
  with sep show "\<exists>c r. hexadecimal n = c # r \<and> c \<notin> {NUL, CHR '' '', CR}" "\<not> list_ex line_end (hexadecimal n)"
    by (auto simp: list_ex_iff)
qed

text \<open>What a platform reads for a hexadecimal number that is followed by another character.\<close>

definition reads_hex :: "(int \<Rightarrow> int res) \<Rightarrow> nat \<Rightarrow> int res \<Rightarrow> bool" where
  "reads_hex ovf n res \<longleftrightarrow>
     (\<forall>c r. not_digit hex_digit c \<longrightarrow>
        scan_digits ovf hex_digit 16 0 0 (hexadecimal n @ c # r)
          = res_bind res (\<lambda>v. Inr (v, length (hexadecimal n), c # r)))"

lemma reads_hex_wrap: "reads_hex wrap32 n (Inr (sint (word_of_int (int n) :: u32)))"
  using hexadecimal_digits [of n] by (simp add: reads_hex_def scan_digits_wrap_zero)

lemma reads_hex_trap: "reads_hex trap32 n (if n < 2 ^ 31 then Inr (int n) else Inl (UB SignedOvf))"
proof (cases "n < 2 ^ 31")
  case True
  then show ?thesis using hexadecimal_digits [of n] by (simp add: reads_hex_def scan_digits_trap)
next
  case False
  then have "2 ^ 31 \<le> digits_int hex_digit 16 0 (hexadecimal n)" using hexadecimal_digits [of n] by simp
  with False show ?thesis using hexadecimal_digits [of n] by (simp add: reads_hex_def scan_digits_trap_overflow)
qed

definition write_line :: "string \<Rightarrow> nat \<Rightarrow> nat \<Rightarrow> string" where
  "write_line op a v = op @ '' 0x'' @ hexadecimal a @ '' 0x'' @ hexadecimal v"

lemma scan_opcode:
  assumes "ovf \<in> {trap32, wrap32}" and "op \<in> {''97'', ''99''}"
  shows "scan_loop ovf (op @ CHR '' '' # str) (''%d'' @ fmt) [] =
    scan_loop ovf str fmt [Scan_Int (if op = ''97'' then 97 else 99)]"
  using assms
  by (auto simp: scan_loop.simps [of _ "_ # _ # CHR '' '' # str"] convert_def Let_def dec_digit_def trap32_def wrap32_def)

lemma scan_write_line:
  assumes "ovf \<in> {trap32, wrap32}" and op: "op \<in> {''97'', ''99''}"
    and a: "reads_hex ovf a ra" and v: "reads_hex ovf v rv"
  shows "rsscanf ovf (write_line op a v @ NUL # NUL # r) command_format =
    res_bind ra (\<lambda>ka. res_bind rv (\<lambda>kv. Inr [Scan_Int (if op = ''97'' then 97 else 99), Scan_Int ka, Scan_Int kv]))"
proof -
  have lens: "length (hexadecimal a) \<noteq> 0" "length (hexadecimal v) \<noteq> 0" using hexadecimal_digits by auto
  have sp: "not_digit hex_digit (CHR '' '')" "not_digit hex_digit NUL" by (simp_all add: not_digit_def hex_digit_def)
  let ?v = "hexadecimal v @ NUL # NUL # r"
  note ha = a [unfolded reads_hex_def, rule_format, OF sp(1)] and hv = v [unfolded reads_hex_def, rule_format, OF sp(2)]
  have 1: "rsscanf ovf (write_line op a v @ NUL # NUL # r) command_format
    = scan_loop ovf (''0x'' @ hexadecimal a @ '' 0x'' @ ?v) ('' 0x'' @ ''%x'' @ '' 0x'' @ ''%x'' @ [CHR 0x0A])
        [Scan_Int (if op = ''97'' then 97 else 99)]"
    using scan_opcode [OF assms(1) op, of "''0x'' @ hexadecimal a @ '' 0x'' @ ?v" "'' 0x%x 0x%x'' @ [CHR 0x0A]"]
    by (simp add: rsscanf_def write_line_def)
  have lit: "scan_loop ovf (''0x'' @ str) ('' 0x'' @ ''%x'' @ fmt) out = scan_loop ovf str (''%x'' @ fmt) out" for str fmt out
    by (simp add: scan_space scan_literal)
  have fin: "scan_loop ovf (NUL # r) [CHR 0x0A] out = Inr out" for out
    by (simp add: scan_loop.simps)
  have 2: "scan_loop ovf ?v (''%x'' @ [CHR 0x0A]) out = res_bind rv (\<lambda>kv. Inr (out @ [Scan_Int kv]))" for out
    unfolding scan_hex_field [OF hv] using lens by (cases rv) (simp_all add: fin)
  show ?thesis
    unfolding 1 lit
    using scan_hex_field [OF ha, of "''0x'' @ ?v" "'' 0x'' @ ''%x'' @ [CHR 0x0A]"] lens lit [of ?v "[CHR 0x0A]"] 2
    by (cases ra) simp_all
qed

text \<open>
  What a typed line does to the buffer. The line is everything before the end of line; the
  buffer behind it keeps its contents.
\<close>

lemma getline_typed:
  assumes "\<not> list_ex line_end line" and "length line \<le> length msg"
  shows "getline msg (line @ CR # rest) = Inr (Some (line @ drop (length line) msg, rest))"
proof -
  have "takeWhile (\<lambda>ch. \<not> line_end ch) (line @ CR # rest) = line"
    using assms(1) by (induction line) (auto simp: line_end_def)
  with assms(2) show ?thesis by (simp add: getline_def)
qed

lemma write_line_no_CR: "op \<in> {''97'', ''99''} \<Longrightarrow> \<not> list_ex line_end (write_line op a v)"
  using hexadecimal_head(2) by (auto simp: write_line_def line_end_def)

text \<open>
  C15: A write command writes the register it names. On a two's-complement platform the line
  of command 97 or 99 with the address and the value in hexadecimal, in a buffer that is
  null behind it, pauses the pipeline, waits, performs exactly this one write and resumes.
  Under ISO C the same holds only for numbers below 2^31: every register of the board has
  an address above, whose parsing overflows \<open>int\<close>.
\<close>

theorem write_command:
  assumes "op \<in> {''97'', ''99''}" and "length (write_line op (unat a) (unat v)) \<le> length msg"
    and "drop (length (write_line op (unat a) (unat v))) msg = NUL # NUL # r"
    and "s' = s\<lparr>console := rest,
      sh_board := pause d 0 (regwrite d a v (usleep 20000 (pause d 1 (sh_board s))))\<rparr>"
  shows "shell_turn d wrap32 msg (s\<lparr>console := write_line op (unat a) (unat v) @ CR # rest\<rparr>) = Inr (Next s') \<and>
    shell_turn d trap32 msg (s\<lparr>console := write_line op (unat a) (unat v) @ CR # rest\<rparr>)
      = (if unat a < 2 ^ 31 \<and> unat v < 2 ^ 31 then Inr (Next s') else Inl (UB SignedOvf))"
proof -
  let ?op = "if op = ''97'' then 97 else 99 :: int"
  have run: "run_command d ovf m ?op a v t = Inr (Next (t\<lparr>sh_board := regwrite d a v (sh_board t)\<rparr>))" for ovf m t
    by (simp add: run_command_def)
  have words: "word_of_int (int (unat w)) = w" for w :: u32 by simp
  have turn: "shell_turn d ovf msg (s\<lparr>console := write_line op (unat a) (unat v) @ CR # rest\<rparr>)
    = res_bind ra (\<lambda>ka. res_bind rv (\<lambda>kv.
        if word_of_int ka = a \<and> word_of_int kv = v then Inr (Next s') else
          shell_turn d ovf msg (s\<lparr>console := write_line op (unat a) (unat v) @ CR # rest\<rparr>)))"
    if "ovf \<in> {trap32, wrap32}" "reads_hex ovf (unat a) ra" "reads_hex ovf (unat v) rv" for ovf ra rv
  proof -
    have "shell_turn d ovf msg (s\<lparr>console := write_line op (unat a) (unat v) @ CR # rest\<rparr>)
      = res_bind ra (\<lambda>ka. res_bind rv (\<lambda>kv. res_bind
          (run_command d ovf (write_line op (unat a) (unat v) @ NUL # NUL # r) ?op (word_of_int ka) (word_of_int kv)
            (s\<lparr>console := rest, sh_board := usleep 20000 (pause d 1 (sh_board s))\<rparr>))
          (\<lambda>t. Inr (case t of Next s' \<Rightarrow> Next (s'\<lparr>sh_board := pause d 0 (sh_board s')\<rparr>) | _ \<Rightarrow> t))))"
      using getline_typed [OF write_line_no_CR [OF assms(1)] assms(2)] assms(3)
        scan_write_line [OF that(1) assms(1) that(2,3), of r]
      by (simp add: shell_turn_def res_bind_assoc scanned_int_def)
    then show ?thesis
      by (cases ra; cases rv) (auto simp: run assms(4))
  qed
  have "word_of_int (sint (word_of_int (int (unat w)) :: u32)) = w" for w :: u32 by simp
  then show ?thesis
    using turn [OF _ reads_hex_wrap reads_hex_wrap] turn [OF _ reads_hex_trap reads_hex_trap]
    by auto
qed

theorem write_command_witness:
  "shell_turn ram_device wrap32 (write_line ''99'' 0x80000008 0x55 @ NUL # NUL # replicate 230 NUL)
     \<lparr>stage = 0, sh_base = 0, key_tcam = [], mask_tcam = [], console = write_line ''99'' 0x80000008 0x55 @ [CR],
      sh_board = zero_board\<rparr>
   = Inr (Next \<lparr>stage = 0, sh_base = 0, key_tcam = [], mask_tcam = [], console = [],
       sh_board = pause ram_device 0 (regwrite ram_device 0x80000008 0x55
          (usleep 20000 (pause ram_device 1 zero_board)))\<rparr>)"
  using write_command [where op = "''99''" and a = "0x80000008" and v = "0x55" and r = "replicate 230 NUL"
      and msg = "write_line ''99'' 0x80000008 0x55 @ NUL # NUL # replicate 230 NUL" and rest = "[]" and d = ram_device
      and s = "\<lparr>stage = 0, sh_base = 0, key_tcam = [], mask_tcam = [], console = [], sh_board = zero_board\<rparr>"]
  by simp

text \<open>
  The shell does not see where a line ends. \<open>getline\<close> stores no terminator, so a typed line
  is read together with what the buffer holds behind it: for any \<open>es\<close> that the buffer holds
  there, the turn is the one for the line with \<open>es\<close> typed as well, whatever the platform. An
  empty line repeats the command a stale buffer still holds.
\<close>

theorem stale_input_is_read:
  assumes "\<not> list_ex line_end line" and "\<not> list_ex line_end es" and "length (line @ es) \<le> length msg"
    and "take (length es) (drop (length line) msg) = es"
  shows "shell_turn d ovf msg (s\<lparr>console := line @ CR # rest\<rparr>)
       = shell_turn d ovf msg (s\<lparr>console := (line @ es) @ CR # rest\<rparr>)"
proof -
  have "drop (length line) msg = es @ drop (length (line @ es)) msg"
    using assms(4) append_take_drop_id [of "length es" "drop (length line) msg"] by (simp add: add.commute)
  then show ?thesis
    using getline_typed [of line msg rest] getline_typed [of "line @ es" msg rest] assms(1-3)
    by (simp add: shell_turn_def)
qed

theorem stale_input_is_read_witness:
  "shell_turn ram_device trap32 (''99'' @ replicate 254 NUL)
       \<lparr>stage = 0, sh_base = 0, key_tcam = [], mask_tcam = [], console = ''7'' @ [CR], sh_board = zero_board\<rparr>
     = shell_turn ram_device trap32 (''99'' @ replicate 254 NUL)
       \<lparr>stage = 0, sh_base = 0, key_tcam = [], mask_tcam = [], console = ''79'' @ [CR], sh_board = zero_board\<rparr>"
  using stale_input_is_read [where line = "''7''" and es = "''9''" and msg = "''99'' @ replicate 254 NUL"
      and d = ram_device and ovf = trap32 and rest = "[]"
      and s = "\<lparr>stage = 0, sh_base = 0, key_tcam = [], mask_tcam = [], console = [], sh_board = zero_board\<rparr>"] by (simp add: line_end_def)

text \<open>
  A line that is not a number stops the firmware. If the first character behind the spaces
  of a line is neither a digit nor a minus sign, nothing is converted, the opcode keeps its
  initial value 0, which is the exit command: the pipeline is paused and resumed and \<open>main\<close>
  returns.
\<close>

theorem non_number_stops:
  assumes "\<not> list_ex line_end (replicate n (CHR '' '') @ c # cs)" and "length (replicate n (CHR '' '') @ c # cs) \<le> length msg"
    and "dec_digit c = None" and "c \<notin> {CHR ''-'', CHR '' ''}"
  shows "shell_turn d ovf msg (s\<lparr>console := (replicate n (CHR '' '') @ c # cs) @ CR # rest\<rparr>)
       = Inr (Stopped (pause d 0 (usleep 20000 (pause d 1 (sh_board s)))))"
proof -
  let ?line = "replicate n (CHR '' '') @ c # cs"
  have skip: "skip_spaces (replicate n (CHR '' '') @ c # r) = Inr (c # r)" for r
    using assms(4) by (induction n) simp_all
  have conv: "convert ovf (CHR ''d'') (c # r) = Inr None" for r
    using assms(3,4) by (simp add: convert_def)
  have first: "rd (replicate n (CHR '' '') @ c # r) 0 = Inr (if n = 0 then c else CHR '' '')" for r
    by (cases n) simp_all
  have "rsscanf ovf (?line @ r) command_format = Inr []" for r
    using skip [of "cs @ r"] conv [of "cs @ r"] first [of "cs @ r"]
    by (simp add: rsscanf_def scan_loop.simps)
  then show ?thesis
    using getline_typed [OF assms(1,2)] by (simp add: shell_turn_def run_command_def scanned_int_def)
qed

theorem non_number_stops_witness:
  "shell_turn ram_device trap32 (replicate 256 NUL)
       \<lparr>stage = 0, sh_base = 0, key_tcam = [], mask_tcam = [], console = '' help'' @ [CR], sh_board = zero_board\<rparr>
     = Inr (Stopped (pause ram_device 0 (usleep 20000 (pause ram_device 1 zero_board))))"
  using non_number_stops [where n = 1 and c = "CHR ''h''" and cs = "''elp''" and msg = "replicate 256 NUL"
      and d = ram_device and ovf = trap32 and rest = "[]"
      and s = "\<lparr>stage = 0, sh_base = 0, key_tcam = [], mask_tcam = [], console = [], sh_board = zero_board\<rparr>"]
  by (simp add: dec_digit_def line_end_def)

section \<open>The build date\<close>

lemma masked_field: "drop_bit k (w AND push_bit k (mask n)) = take_bit n (drop_bit k (w :: u32))"
  by (rule bit_word_eqI) (auto simp: bit_simps dest: bit_imp_le_length)

lemma bitstream_fields:
  "bitstream_date w =
     \<lparr>bd_day = take_bit 5 (drop_bit 27 w), bd_month = take_bit 4 (drop_bit 23 w),
      bd_year = 2000 + take_bit 6 (drop_bit 17 w), bd_hour = take_bit 5 (drop_bit 12 w),
      bd_min = take_bit 6 (drop_bit 6 w), bd_sec = take_bit 6 w\<rparr>"
proof -
  have "(4160749568 :: u32) = push_bit 27 (mask 5)" "(125829120 :: u32) = push_bit 23 (mask 4)"
    "(8257536 :: u32) = push_bit 17 (mask 6)" "(126976 :: u32) = push_bit 12 (mask 5)"
    "(4032 :: u32) = push_bit 6 (mask 6)" "(63 :: u32) = push_bit 0 (mask 6)"
    by (simp_all add: mask_eq_exp_minus_1 push_bit_eq_mult)
  note m = this
  show ?thesis
    unfolding bitstream_date_def m masked_field using masked_field [of 0 w 6] by simp
qed

definition pack_date :: "u32 \<Rightarrow> u32 \<Rightarrow> u32 \<Rightarrow> u32 \<Rightarrow> u32 \<Rightarrow> u32 \<Rightarrow> u32" where
  "pack_date day month year hour mn sec =
     push_bit 27 day OR push_bit 23 month OR push_bit 17 year OR push_bit 12 hour OR push_bit 6 mn OR sec"

text \<open>Extracting a field from a word put together from fields.\<close>

definition field :: "nat \<Rightarrow> nat \<Rightarrow> u32 \<Rightarrow> u32" where
  "field k n w = take_bit n (drop_bit k w)"

lemma field_or: "field k n (v OR w) = field k n v OR field k n w"
  by (simp add: field_def)

lemma field_same: "k + n \<le> 32 \<Longrightarrow> field k n (push_bit k w) = take_bit n w"
  by (rule bit_word_eqI) (auto simp: field_def bit_simps)

lemma field_high: "k + n \<le> j \<Longrightarrow> field k n (push_bit j w) = 0"
  by (rule bit_word_eqI) (auto simp: field_def bit_simps)

lemma field_low:
  assumes "take_bit m w = w" and "j + m \<le> k"
  shows "field k n (push_bit j w) = 0"
proof (rule bit_word_eqI)
  fix i
  have "\<not> bit w (k + i - j)" using assms by (metis bit_take_bit_iff add_le_imp_le_diff add.commute leD trans_le_add1)
  then show "bit (field k n (push_bit j w)) i = bit 0 i" by (simp add: field_def bit_simps)
qed

lemma field_sec: "field 0 n w = take_bit n w"
  by (simp add: field_def)

text \<open>
  The build date survives the version register: unpacking a packed date gives each field
  back, for days and hours below 32, months below 16 and years since 2000, minutes and
  seconds below 64.
\<close>

theorem bitstream_date_unpacks:
  assumes "take_bit 5 day = day" and "take_bit 4 month = month" and "take_bit 6 year = year"
    and "take_bit 5 hour = hour" and "take_bit 6 mn = mn" and "take_bit 6 sec = sec"
  shows "bitstream_date (pack_date day month year hour mn sec) =
    \<lparr>bd_day = day, bd_month = month, bd_year = 2000 + year, bd_hour = hour, bd_min = mn, bd_sec = sec\<rparr>"
proof -
  let ?w = "pack_date day month year hour mn sec"
  note low = field_low [OF assms(2)] field_low [OF assms(3)] field_low [OF assms(4)] field_low [OF assms(5)]
    field_low [OF assms(6), of 0, simplified]
  note same = field_same [of 27 5] field_same [of 23 4] field_same [of 17 6] field_same [of 12 5] field_same [of 6 6]
  have "take_bit 6 ?w = field 0 6 ?w" by (simp add: field_def)
  then show ?thesis
    unfolding bitstream_fields field_def [symmetric] pack_date_def field_or
    by (simp add: low same assms field_high field_high [of 0, unfolded field_sec, simplified] field_sec)
qed

theorem bitstream_date_unpacks_witness:
  "bitstream_date (pack_date 24 2 19 13 59 7) =
    \<lparr>bd_day = 24, bd_month = 2, bd_year = 2019, bd_hour = 13, bd_min = 59, bd_sec = 7\<rparr>"
  by (subst bitstream_date_unpacks) (simp_all add: take_bit_eq_mod)

end
