(* ===== verification/Fw_Iic.thy ===== *)
theory Fw_Iic
  imports FB_Prelude
begin

text \<open>
  The IIC transfers of the board firmware, iic_config.c. The Xilinx driver behind them is a
  parameter: a record of its calls, each of which reports whether it returned \<open>XST_SUCCESS\<close>.
  The transfer interrupts of the driver arrive between the steps of the code: after every
  call and at every turn of a waiting loop the driver may deliver some. Console messages are
  not modelled. The state carries the sequence of driver calls and the number of turns spent
  in waiting loops.
\<close>

section \<open>The driver\<close>

datatype irq = Irq_Send | Irq_Recv | Irq_Status

record ('c, 's) xiic =
  iic_LookupConfig :: "'c option"
  iic_CfgInitialize :: "'c \<Rightarrow> 's \<Rightarrow> bool \<times> 's"
  iic_SetGpOutput :: "u8 \<Rightarrow> 's \<Rightarrow> 's"
  iic_GetOptions :: "'s \<Rightarrow> u32"
  iic_SetOptions :: "u32 \<Rightarrow> 's \<Rightarrow> 's"
  iic_REPEATED_START :: u32
  iic_Start :: "'s \<Rightarrow> bool \<times> 's"
  iic_SetAddress :: "u8 \<Rightarrow> 's \<Rightarrow> bool \<times> 's"
  iic_ClearTxErrors :: "'s \<Rightarrow> 's"
  iic_MasterSend :: "u8 list \<Rightarrow> 's \<Rightarrow> bool \<times> 's"
  iic_MasterRecv :: "nat \<Rightarrow> 's \<Rightarrow> bool \<times> 's"
  iic_IsIicBusy :: "'s \<Rightarrow> bool \<times> 's"
  iic_Reset :: "'s \<Rightarrow> 's"
  iic_Stop :: "'s \<Rightarrow> bool \<times> 's"
  iic_interrupts :: "'s \<Rightarrow> irq list \<times> 's"
  iic_received :: "'s \<Rightarrow> u8 list"   \<comment> \<open>what the driver has stored in the receive buffer\<close>

datatype iic_call =
    Iic_Init
  | Iic_GpOutput u8
  | Iic_Options u32
  | Iic_Start
  | Iic_SetAddress u8
  | Iic_Send "u8 list"
  | Iic_Recv nat
  | Iic_Reset
  | Iic_Stop

datatype xstatus = XST_SUCCESS | XST_FAILURE

record 's iic =
  IicInstance :: 's
  handlers :: "irq list"
  TransmitComplete :: bool
  ReceiveComplete :: bool
  calls :: "iic_call list"
  wait_turns :: nat

section \<open>Handlers\<close>

text \<open>The flags are set to 1 before a transfer; the handlers clear them.\<close>

definition IicSendHandler :: "'s iic \<Rightarrow> 's iic" where
  "IicSendHandler x = x\<lparr>TransmitComplete := False\<rparr>"

definition IicRecvHandler :: "'s iic \<Rightarrow> 's iic" where
  "IicRecvHandler x = x\<lparr>ReceiveComplete := False\<rparr>"

definition IicStatusHandler :: "'s iic \<Rightarrow> 's iic" where
  "IicStatusHandler x = x"

definition deliver :: "irq \<Rightarrow> 's iic \<Rightarrow> 's iic" where
  "deliver q x =
     (if q \<notin> set (handlers x) then x
      else case q of Irq_Send \<Rightarrow> IicSendHandler x | Irq_Recv \<Rightarrow> IicRecvHandler x | Irq_Status \<Rightarrow> IicStatusHandler x)"

text \<open>The interrupts that arrive before the next step of the code.\<close>

definition interrupts :: "('c, 's) xiic \<Rightarrow> 's iic \<Rightarrow> 's iic" where
  "interrupts d x =
     (case iic_interrupts d (IicInstance x) of (qs, s) \<Rightarrow> fold deliver qs (x\<lparr>IicInstance := s\<rparr>))"

text \<open>A call of the driver.\<close>

definition driver_call ::
  "('c, 's) xiic \<Rightarrow> ('s \<Rightarrow> bool \<times> 's) \<Rightarrow> iic_call \<Rightarrow> 's iic \<Rightarrow> bool \<times> 's iic" where
  "driver_call d f c x =
     (case f (IicInstance x) of
        (ok, s) \<Rightarrow> (ok, interrupts d (x\<lparr>IicInstance := s, calls := calls x @ [c]\<rparr>)))"

abbreviation (input) XIic_Start where "XIic_Start d \<equiv> driver_call d (iic_Start d) Iic_Start"
abbreviation (input) XIic_Stop where "XIic_Stop d \<equiv> driver_call d (iic_Stop d) Iic_Stop"
abbreviation (input) XIic_SetAddress where
  "XIic_SetAddress d a \<equiv> driver_call d (iic_SetAddress d a) (Iic_SetAddress a)"
abbreviation (input) XIic_Reset where
  "XIic_Reset d x \<equiv> snd (driver_call d (\<lambda>s. (True, iic_Reset d s)) Iic_Reset x)"
abbreviation (input) XIic_SetOptions where
  "XIic_SetOptions d opts x \<equiv> snd (driver_call d (\<lambda>s. (True, iic_SetOptions d opts s)) (Iic_Options opts) x)"
abbreviation (input) XIic_SetGpOutput where
  "XIic_SetGpOutput d v x \<equiv> snd (driver_call d (\<lambda>s. (True, iic_SetGpOutput d v s)) (Iic_GpOutput v) x)"

text \<open>The buffers of a transfer: the driver reads or writes \<open>ByteCount\<close> bytes.\<close>

definition XIic_MasterSend ::
  "('c, 's) xiic \<Rightarrow> u8 list \<Rightarrow> nat \<Rightarrow> 's iic \<Rightarrow> (bool \<times> 's iic) res" where
  "XIic_MasterSend d buf n x =
     (if length buf < n then Inl (UB OutOfBounds)
      else Inr (driver_call d (iic_MasterSend d (take n buf)) (Iic_Send (take n buf)) x))"

definition XIic_MasterRecv ::
  "('c, 's) xiic \<Rightarrow> u8 list \<Rightarrow> nat \<Rightarrow> 's iic \<Rightarrow> (bool \<times> 's iic) res" where
  "XIic_MasterRecv d buf n x =
     (if length buf < n then Inl (UB OutOfBounds)
      else Inr (driver_call d (iic_MasterRecv d n) (Iic_Recv n) x))"

definition store_received :: "('c, 's) xiic \<Rightarrow> u8 list \<Rightarrow> nat \<Rightarrow> 's iic \<Rightarrow> u8 list" where
  "store_received d buf n x =
     (let bs = take n (iic_received d (IicInstance x)) in bs @ drop (length bs) buf)"

section \<open>Initialisation\<close>

definition IicInit :: "('c, 's) xiic \<Rightarrow> 's iic \<Rightarrow> xstatus \<times> 's iic" where
  "IicInit d x =
     (case iic_LookupConfig d of
        None \<Rightarrow> (XST_FAILURE, x)
      | Some cfg \<Rightarrow>
          (case driver_call d (iic_CfgInitialize d cfg) Iic_Init x of
             (ok, x) \<Rightarrow> (if ok then XST_SUCCESS else XST_FAILURE, x)))"

definition IicInitPost :: "('c, 's) xiic \<Rightarrow> 's iic \<Rightarrow> xstatus \<times> 's iic" where
  "IicInitPost d x =
     (let x = x\<lparr>handlers := handlers x @ [Irq_Send, Irq_Recv, Irq_Status]\<rparr>;
          x = XIic_SetGpOutput d 0xFF x;
          x = XIic_SetGpOutput d 0x00 x
      in (XST_SUCCESS, x))"

section \<open>Waiting\<close>

definition IIC_TIMEOUT :: nat where "IIC_TIMEOUT = 1000000"

text \<open>The loop conditions: a flag alone, or a flag or else the busy bit of the bus.\<close>

definition flag_set :: "('s iic \<Rightarrow> bool) \<Rightarrow> 's iic \<Rightarrow> bool \<times> 's iic" where
  "flag_set flag x = (flag x, x)"

definition flag_or_busy :: "('c, 's) xiic \<Rightarrow> ('s iic \<Rightarrow> bool) \<Rightarrow> 's iic \<Rightarrow> bool \<times> 's iic" where
  "flag_or_busy d flag x =
     (if flag x then (True, x)
      else case iic_IsIicBusy d (IicInstance x) of (busy, s) \<Rightarrow> (busy, x\<lparr>IicInstance := s\<rparr>))"

function wait_transfer ::
  "('c, 's) xiic \<Rightarrow> ('s iic \<Rightarrow> bool \<times> 's iic) \<Rightarrow> nat \<Rightarrow> 's iic \<Rightarrow> nat \<times> 's iic" where
  "wait_transfer d pending IicTimeoutCounter x =
     (case pending x of
        (wait, x1) \<Rightarrow>
          if wait \<and> IicTimeoutCounter \<le> IIC_TIMEOUT
          then wait_transfer d pending (IicTimeoutCounter + 1) (interrupts d (x1\<lparr>wait_turns := wait_turns x1 + 1\<rparr>))
          else (IicTimeoutCounter, x1))"
  by pat_completeness auto
termination by (relation "measure (\<lambda>(d, p, n, x). IIC_TIMEOUT + 1 - n)") auto

declare wait_transfer.simps [simp del]


section \<open>Transfers\<close>

abbreviation (input) start_transmit :: "('c, 's) xiic \<Rightarrow> 's iic \<Rightarrow> 's iic" where
  "start_transmit d x \<equiv>
     x\<lparr>TransmitComplete := True, IicInstance := iic_ClearTxErrors d (IicInstance x)\<rparr>"

text \<open>The second half of the three read functions, the same in each: receive, wait, stop.\<close>

definition receive_data ::
  "('c, 's) xiic \<Rightarrow> u8 list \<Rightarrow> nat \<Rightarrow> 's iic \<Rightarrow> (xstatus \<times> u8 list \<times> 's iic) res" where
  "receive_data d buf n x =
     res_bind (XIic_MasterRecv d buf n x) (\<lambda>(ok, x).
       if \<not> ok then Inr (XST_FAILURE, store_received d buf n x, x)
       else
         (case wait_transfer d (flag_or_busy d ReceiveComplete) 0 x of
            (counter, x) \<Rightarrow>
              if IIC_TIMEOUT < counter then
                (let x = snd (XIic_Stop d (XIic_Reset d x)) in Inr (XST_FAILURE, store_received d buf n x, x))
              else
                (case XIic_Stop d x of
                   (ok, x) \<Rightarrow> Inr (if ok then XST_SUCCESS else XST_FAILURE, store_received d buf n x, x))))"

definition IicReadData ::
  "('c, 's) xiic \<Rightarrow> u8 \<Rightarrow> u8 \<Rightarrow> u8 list \<Rightarrow> nat \<Rightarrow> 's iic \<Rightarrow> (xstatus \<times> u8 list \<times> 's iic) res" where
  "IicReadData d IicAddr addr buf n x =
     (let x = x\<lparr>ReceiveComplete := True\<rparr>;
          IicOptions = ucast (iic_GetOptions d (IicInstance x)) :: u8;
          x = XIic_SetOptions d (ucast IicOptions OR iic_REPEATED_START d) x in
      case XIic_Start d x of (ok, x) \<Rightarrow>
      if \<not> ok then Inr (XST_FAILURE, buf, x) else
      case XIic_SetAddress d IicAddr x of (ok, x) \<Rightarrow>
      if \<not> ok then Inr (XST_FAILURE, buf, x) else
      res_bind (XIic_MasterSend d [addr] 1 (start_transmit d x)) (\<lambda>(ok, x).
      if \<not> ok then Inr (XST_FAILURE, buf, x) else
      case wait_transfer d (flag_set TransmitComplete) 0 x of (counter, x) \<Rightarrow>
      let x = XIic_SetOptions d (ucast IicOptions) x in
      if IIC_TIMEOUT < counter then Inr (XST_FAILURE, buf, snd (XIic_Stop d (XIic_Reset d x)))
      else receive_data d buf n x))"

definition IicReadData2 ::
  "('c, 's) xiic \<Rightarrow> u8 \<Rightarrow> u8 \<Rightarrow> u8 list \<Rightarrow> nat \<Rightarrow> 's iic \<Rightarrow> (xstatus \<times> u8 list \<times> 's iic) res" where
  "IicReadData2 d IicAddr addr buf n x =
     (case XIic_Start d (x\<lparr>ReceiveComplete := True\<rparr>) of (ok, x) \<Rightarrow>
      if \<not> ok then Inr (XST_FAILURE, buf, x) else
      case XIic_SetAddress d IicAddr x of (ok, x) \<Rightarrow>
      if \<not> ok then Inr (XST_FAILURE, buf, x) else
      res_bind (XIic_MasterSend d [addr] 1 (start_transmit d x)) (\<lambda>(ok, x).
      if \<not> ok then Inr (XST_FAILURE, buf, x) else
      case wait_transfer d (flag_or_busy d TransmitComplete) 0 x of (counter, x) \<Rightarrow>
      if IIC_TIMEOUT < counter then Inr (XST_FAILURE, buf, snd (XIic_Stop d (XIic_Reset d x)))
      else receive_data d buf n x))"

text \<open>
  The 16-bit register address is read through a byte pointer, on the little-endian processor,
  and sent with its high byte first.
\<close>

definition IicReadData3 ::
  "('c, 's) xiic \<Rightarrow> u8 \<Rightarrow> u16 \<Rightarrow> u8 list \<Rightarrow> nat \<Rightarrow> 's iic \<Rightarrow> (xstatus \<times> u8 list \<times> 's iic) res" where
  "IicReadData3 d IicAddr addr buf n x =
     (case XIic_Start d (x\<lparr>ReceiveComplete := True\<rparr>) of (ok, x) \<Rightarrow>
      if \<not> ok then Inr (XST_FAILURE, buf, x) else
      case XIic_SetAddress d IicAddr x of (ok, x) \<Rightarrow>
      if \<not> ok then Inr (XST_FAILURE, buf, x) else
      let addrPtr = le_bytes 2 (ucast addr); addrReorder = [addrPtr ! 1, addrPtr ! 0] in
      res_bind (XIic_MasterSend d addrReorder 2 (start_transmit d x)) (\<lambda>(ok, x).
      if \<not> ok then Inr (XST_FAILURE, buf, x) else
      case wait_transfer d (flag_or_busy d TransmitComplete) 0 x of (counter, x) \<Rightarrow>
      if IIC_TIMEOUT < counter then Inr (XST_FAILURE, buf, snd (XIic_Stop d (XIic_Reset d x)))
      else receive_data d buf n x))"

definition IicWriteData ::
  "('c, 's) xiic \<Rightarrow> u8 \<Rightarrow> u8 list \<Rightarrow> nat \<Rightarrow> 's iic \<Rightarrow> (xstatus \<times> 's iic) res" where
  "IicWriteData d IicAddr buf n x =
     (case XIic_Start d (start_transmit d x) of (ok, x) \<Rightarrow>
      if \<not> ok then Inr (XST_FAILURE, x) else
      case XIic_SetAddress d IicAddr x of (ok, x) \<Rightarrow>
      if \<not> ok then Inr (XST_FAILURE, x) else
      res_bind (XIic_MasterSend d buf n x) (\<lambda>(ok, x).
      if \<not> ok then Inr (XST_FAILURE, x) else
      case wait_transfer d (flag_or_busy d TransmitComplete) 0 x of (counter, x) \<Rightarrow>
      if IIC_TIMEOUT < counter then
        Inr (XST_FAILURE, snd (XIic_Stop d (XIic_Reset d (x\<lparr>TransmitComplete := False\<rparr>))))
      else case XIic_Stop d x of (ok, x) \<Rightarrow> Inr (if ok then XST_SUCCESS else XST_FAILURE, x)))"


section \<open>What a step keeps\<close>

lemma deliver_simps [simp]:
  "calls (deliver q x) = calls x" "wait_turns (deliver q x) = wait_turns x" "handlers (deliver q x) = handlers x"
  "IicInstance (deliver q x) = IicInstance x"
  "TransmitComplete (deliver q x) \<longleftrightarrow> TransmitComplete x \<and> \<not> (q = Irq_Send \<and> q \<in> set (handlers x))"
  "ReceiveComplete (deliver q x) \<longleftrightarrow> ReceiveComplete x \<and> \<not> (q = Irq_Recv \<and> q \<in> set (handlers x))"
  by (cases q; simp add: deliver_def IicSendHandler_def IicRecvHandler_def IicStatusHandler_def)+

lemma fold_deliver_simps [simp]:
  "calls (fold deliver qs x) = calls x" "wait_turns (fold deliver qs x) = wait_turns x"
  "handlers (fold deliver qs x) = handlers x" "IicInstance (fold deliver qs x) = IicInstance x"
  "TransmitComplete (fold deliver qs x) \<longleftrightarrow> TransmitComplete x \<and> \<not> Irq_Send \<in> set qs \<inter> set (handlers x)"
  "ReceiveComplete (fold deliver qs x) \<longleftrightarrow> ReceiveComplete x \<and> \<not> Irq_Recv \<in> set qs \<inter> set (handlers x)"
  by (induction qs arbitrary: x) auto

lemma interrupts_simps [simp]:
  "calls (interrupts d x) = calls x" "wait_turns (interrupts d x) = wait_turns x"
  "handlers (interrupts d x) = handlers x"
  "IicInstance (interrupts d x) = snd (iic_interrupts d (IicInstance x))"
  "TransmitComplete (interrupts d x) \<longleftrightarrow>
     TransmitComplete x \<and> \<not> Irq_Send \<in> set (fst (iic_interrupts d (IicInstance x))) \<inter> set (handlers x)"
  "ReceiveComplete (interrupts d x) \<longleftrightarrow>
     ReceiveComplete x \<and> \<not> Irq_Recv \<in> set (fst (iic_interrupts d (IicInstance x))) \<inter> set (handlers x)"
  by (simp_all add: interrupts_def split_beta)

lemma driver_call_simps [simp]:
  "fst (driver_call d f c x) = fst (f (IicInstance x))"
  "calls (snd (driver_call d f c x)) = calls x @ [c]"
  "wait_turns (snd (driver_call d f c x)) = wait_turns x"
  "handlers (snd (driver_call d f c x)) = handlers x"
  "IicInstance (snd (driver_call d f c x)) = snd (iic_interrupts d (snd (f (IicInstance x))))"
  "\<not> TransmitComplete x \<Longrightarrow> \<not> TransmitComplete (snd (driver_call d f c x))"
  "\<not> ReceiveComplete x \<Longrightarrow> \<not> ReceiveComplete (snd (driver_call d f c x))"
  by (simp_all add: driver_call_def split_beta)

lemma flag_or_busy_simps [simp]:
  "calls (snd (flag_or_busy d g x)) = calls x" "wait_turns (snd (flag_or_busy d g x)) = wait_turns x"
  "handlers (snd (flag_or_busy d g x)) = handlers x"
  "TransmitComplete (snd (flag_or_busy d g x)) = TransmitComplete x"
  "ReceiveComplete (snd (flag_or_busy d g x)) = ReceiveComplete x"
  by (simp_all add: flag_or_busy_def split_beta)

text \<open>The two loop conditions of the code test a flag of the state and touch at most the driver.\<close>

definition tests_flag :: "('s iic \<Rightarrow> bool) \<Rightarrow> ('s iic \<Rightarrow> bool \<times> 's iic) \<Rightarrow> bool" where
  "tests_flag g p \<longleftrightarrow>
     (\<forall>x. (g x \<longrightarrow> fst (p x)) \<and> calls (snd (p x)) = calls x \<and> wait_turns (snd (p x)) = wait_turns x \<and>
          handlers (snd (p x)) = handlers x \<and> TransmitComplete (snd (p x)) = TransmitComplete x \<and>
          ReceiveComplete (snd (p x)) = ReceiveComplete x)"

lemma tests_flagD:
  assumes "tests_flag g p"
  shows "g x \<Longrightarrow> fst (p x)" "calls (snd (p x)) = calls x" "wait_turns (snd (p x)) = wait_turns x"
    "handlers (snd (p x)) = handlers x" "TransmitComplete (snd (p x)) = TransmitComplete x"
    "ReceiveComplete (snd (p x)) = ReceiveComplete x"
  using assms by (simp_all add: tests_flag_def)

lemma conditions_test_flags:
  "tests_flag g (flag_set g)" "tests_flag g (flag_or_busy d g)"
  by (simp_all add: tests_flag_def flag_set_def) (simp add: flag_or_busy_def)

lemma wait_transfer_keeps:
  assumes "tests_flag g p" and "g \<in> {TransmitComplete, ReceiveComplete}" and "k \<le> IIC_TIMEOUT + 1"
    and "wait_transfer d p k x = (n, x')"
  shows "calls x' = calls x \<and> handlers x' = handlers x \<and>
    wait_turns x' + k = wait_turns x + n \<and> k \<le> n \<and> n \<le> IIC_TIMEOUT + 1 \<and>
    (TransmitComplete x' \<longrightarrow> TransmitComplete x) \<and> (ReceiveComplete x' \<longrightarrow> ReceiveComplete x) \<and>
    (n \<le> IIC_TIMEOUT \<longrightarrow> \<not> g x')"
  using assms(1,3,4)
proof (induction d p k x rule: wait_transfer.induct)
  case (1 d p k x)
  obtain b x1 where p: "p x = (b, x1)" by fastforce
  have x1: "g x \<Longrightarrow> b" "calls x1 = calls x" "wait_turns x1 = wait_turns x" "handlers x1 = handlers x"
    "TransmitComplete x1 = TransmitComplete x" "ReceiveComplete x1 = ReceiveComplete x"
    using tests_flagD [OF "1.prems"(1), of x] p by simp_all
  have flag: "g x1 = g x" using assms(2) x1 by auto
  show ?case
  proof (cases "b \<and> k \<le> IIC_TIMEOUT")
    case True
    then have "wait_transfer d p (k + 1) (interrupts d (x1\<lparr>wait_turns := wait_turns x1 + 1\<rparr>)) = (n, x')"
      using "1.prems"(3) p by (subst (asm) wait_transfer.simps) simp
    with "1.IH" [OF p [symmetric] True] "1.prems"(1) True x1 show ?thesis by auto
  next
    case False
    then have "n = k" "x' = x1"
      using "1.prems"(3) p by (auto simp: wait_transfer.simps [of d p k x])
    with False flag "1.prems"(2) x1 show ?thesis by auto
  qed
qed


section \<open>The order of the driver calls\<close>

text \<open>
  The sequences of driver calls a transfer may make: \<open>full\<close> when it goes through, a prefix of
  \<open>full\<close> when the driver refuses its last call, and a prefix that ends with the start of a
  wait, given by its length, followed by reset and stop when the wait times out.
\<close>

definition allowed_calls :: "iic_call list \<Rightarrow> nat list \<Rightarrow> xstatus \<Rightarrow> iic_call list \<Rightarrow> bool" where
  "allowed_calls full waits st cs \<longleftrightarrow>
     (if st = XST_SUCCESS then cs = full
      else list_ex (\<lambda>k. cs = take k full) [1..<length full + 1] \<or>
           list_ex (\<lambda>k. cs = take k full @ [Iic_Reset, Iic_Stop]) waits)"

lemma receive_data_calls:
  assumes "receive_data d buf n x = Inr (st, buf', x')"
  shows "\<exists>cs. calls x' = calls x @ cs \<and> wait_turns x' \<le> wait_turns x + (IIC_TIMEOUT + 1) \<and> handlers x' = handlers x \<and>
    (st = XST_SUCCESS \<longrightarrow> cs = [Iic_Recv n, Iic_Stop] \<and> \<not> ReceiveComplete x') \<and>
    (TransmitComplete x' \<longrightarrow> TransmitComplete x) \<and>
    cs \<in> {[Iic_Recv n], [Iic_Recv n, Iic_Stop], [Iic_Recv n, Iic_Reset, Iic_Stop]}"
proof -
  define x1 where "x1 = snd (driver_call d (iic_MasterRecv d n) (Iic_Recv n) x)"
  obtain k x2 where w: "wait_transfer d (flag_or_busy d ReceiveComplete) 0 x1 = (k, x2)" by fastforce
  have x1: "calls x1 = calls x @ [Iic_Recv n]" "wait_turns x1 = wait_turns x" "handlers x1 = handlers x"
    "TransmitComplete x1 \<longrightarrow> TransmitComplete x"
    using driver_call_simps(6) by (auto simp: x1_def)
  from wait_transfer_keeps [OF conditions_test_flags(2) _ _ w] x1
  have x2: "calls x2 = calls x @ [Iic_Recv n]" "wait_turns x2 \<le> wait_turns x + (IIC_TIMEOUT + 1)" "handlers x2 = handlers x"
    "TransmitComplete x2 \<longrightarrow> TransmitComplete x" "k \<le> IIC_TIMEOUT \<longrightarrow> \<not> ReceiveComplete x2"
    by auto
  from assms w x1 x2 show ?thesis
    by (auto simp: receive_data_def XIic_MasterRecv_def x1_def split_beta Let_def split: if_splits)
qed

lemma allowed_prefix: "1 \<le> k \<Longrightarrow> k \<le> length full \<Longrightarrow> allowed_calls full waits XST_FAILURE (take k full)"
  by (auto simp: allowed_calls_def list_ex_iff)

lemma allowed_timeout:
  "k \<in> set waits \<Longrightarrow> allowed_calls full waits XST_FAILURE (take k full @ [Iic_Reset, Iic_Stop])"
  by (auto simp: allowed_calls_def list_ex_iff)

lemma read_tail_calls:
  assumes "receive_data d buf n x = Inr (st, buf', x')" and "calls x = cs0 @ pre"
    and "wait_turns x \<le> t0 + (IIC_TIMEOUT + 1)" and "\<not> TransmitComplete x"
  shows "\<exists>cs. calls x' = cs0 @ cs \<and>
    allowed_calls (pre @ [Iic_Recv n, Iic_Stop]) [length pre, length pre + 1] st cs \<and>
    wait_turns x' \<le> t0 + 2 * (IIC_TIMEOUT + 1) \<and>
    (st = XST_SUCCESS \<longrightarrow> \<not> TransmitComplete x' \<and> \<not> ReceiveComplete x')"
proof -
  let ?full = "pre @ [Iic_Recv n, Iic_Stop]"
  from receive_data_calls [OF assms(1)] assms(2-4) obtain rs where
    rs: "calls x' = cs0 @ pre @ rs" "wait_turns x' \<le> t0 + 2 * (IIC_TIMEOUT + 1)"
      "st = XST_SUCCESS \<longrightarrow> rs = [Iic_Recv n, Iic_Stop] \<and> \<not> ReceiveComplete x'" "\<not> TransmitComplete x'"
      "rs \<in> {[Iic_Recv n], [Iic_Recv n, Iic_Stop], [Iic_Recv n, Iic_Reset, Iic_Stop]}"
    by auto
  have "allowed_calls ?full [length pre, length pre + 1] st (pre @ rs)"
  proof (cases st)
    case XST_FAILURE
    with rs(5) show ?thesis
      using allowed_prefix [of "length pre + 1" ?full] allowed_prefix [of "length pre + 2" ?full]
        allowed_timeout [of "length pre + 1" "[length pre, length pre + 1]" ?full]
      by auto
  qed (use rs(3) in \<open>simp add: allowed_calls_def\<close>)
  with rs show ?thesis by (intro exI [of _ "pre @ rs"]) simp
qed

lemma refused_call:
  assumes "calls x' = cs0 @ take k full" and "1 \<le> k" and "k \<le> length full" and "wait_turns x' \<le> t"
  shows "\<exists>cs. calls x' = cs0 @ cs \<and> allowed_calls full waits XST_FAILURE cs \<and> wait_turns x' \<le> t \<and>
    (XST_FAILURE = XST_SUCCESS \<longrightarrow> P)"
  using assms allowed_prefix [of k full waits] by blast

lemma timed_out:
  assumes "calls x' = cs0 @ take k full @ [Iic_Reset, Iic_Stop]" and "k \<in> set waits" and "wait_turns x' \<le> t"
  shows "\<exists>cs. calls x' = cs0 @ cs \<and> allowed_calls full waits XST_FAILURE cs \<and> wait_turns x' \<le> t \<and>
    (XST_FAILURE = XST_SUCCESS \<longrightarrow> P)"
  using assms allowed_timeout [of k waits full] by blast

text \<open>The second and third read function differ in the address bytes they send.\<close>

definition read_after_stop ::
  "('c, 's) xiic \<Rightarrow> u8 \<Rightarrow> u8 list \<Rightarrow> u8 list \<Rightarrow> nat \<Rightarrow> 's iic \<Rightarrow> (xstatus \<times> u8 list \<times> 's iic) res" where
  "read_after_stop d a bs buf n x =
     (case XIic_Start d (x\<lparr>ReceiveComplete := True\<rparr>) of (ok, x) \<Rightarrow>
      if \<not> ok then Inr (XST_FAILURE, buf, x) else
      case XIic_SetAddress d a x of (ok, x) \<Rightarrow>
      if \<not> ok then Inr (XST_FAILURE, buf, x) else
      case driver_call d (iic_MasterSend d bs) (Iic_Send bs) (start_transmit d x) of (ok, x) \<Rightarrow>
      if \<not> ok then Inr (XST_FAILURE, buf, x) else
      case wait_transfer d (flag_or_busy d TransmitComplete) 0 x of (counter, x) \<Rightarrow>
      if IIC_TIMEOUT < counter then Inr (XST_FAILURE, buf, snd (XIic_Stop d (XIic_Reset d x)))
      else receive_data d buf n x)"

lemma reads_after_stop:
  "IicReadData2 d a r = read_after_stop d a [r]"
  "IicReadData3 d a w = read_after_stop d a [ucast (drop_bit 8 w), ucast w]"
proof -
  have bytes: "ucast (drop_bit 8 (ucast w :: u64)) = (ucast (drop_bit 8 w) :: u8)" "ucast (ucast w :: u64) = (ucast w :: u8)"
    by (intro bit_word_eqI; simp add: bit_simps; blast dest: bit_imp_le_length)+
  show "IicReadData2 d a r = read_after_stop d a [r]"
    by (intro ext) (simp add: IicReadData2_def read_after_stop_def XIic_MasterSend_def split_beta)
  show "IicReadData3 d a w = read_after_stop d a [ucast (drop_bit 8 w), ucast w]"
    by (intro ext) (simp add: IicReadData3_def read_after_stop_def XIic_MasterSend_def Let_def bytes numeral_2_eq_2 split_beta)
qed

lemma read_after_stop_calls:
  assumes "read_after_stop d a bs buf n x = Inr (st, buf', x')"
  shows "\<exists>cs. calls x' = calls x @ cs \<and>
    allowed_calls [Iic_Start, Iic_SetAddress a, Iic_Send bs, Iic_Recv n, Iic_Stop] [3, 4] st cs \<and>
    wait_turns x' \<le> wait_turns x + 2 * (IIC_TIMEOUT + 1) \<and>
    (st = XST_SUCCESS \<longrightarrow> \<not> TransmitComplete x' \<and> \<not> ReceiveComplete x')"
proof -
  let ?full = "[Iic_Start, Iic_SetAddress a, Iic_Send bs, Iic_Recv n, Iic_Stop]"
  define x1 where "x1 = snd (driver_call d (iic_Start d) Iic_Start (x\<lparr>ReceiveComplete := True\<rparr>))"
  define x2 where "x2 = snd (driver_call d (iic_SetAddress d a) (Iic_SetAddress a) x1)"
  define x3 where "x3 = snd (driver_call d (iic_MasterSend d bs) (Iic_Send bs) (start_transmit d x2))"
  obtain k x4 where w: "wait_transfer d (flag_or_busy d TransmitComplete) 0 x3 = (k, x4)" by fastforce
  have c: "calls x1 = calls x @ [Iic_Start]" "calls x2 = calls x @ [Iic_Start, Iic_SetAddress a]"
    "calls x3 = calls x @ [Iic_Start, Iic_SetAddress a, Iic_Send bs]"
    "wait_turns x1 = wait_turns x" "wait_turns x2 = wait_turns x" "wait_turns x3 = wait_turns x"
    by (simp_all add: x1_def x2_def x3_def)
  from wait_transfer_keeps [OF conditions_test_flags(2) _ _ w] c
  have x4: "calls x4 = calls x @ [Iic_Start, Iic_SetAddress a, Iic_Send bs]"
    "wait_turns x4 \<le> wait_turns x + (IIC_TIMEOUT + 1)" "k \<le> IIC_TIMEOUT \<longrightarrow> \<not> TransmitComplete x4" by auto
  note run = assms [unfolded read_after_stop_def split_beta x1_def [symmetric] x2_def [symmetric]]
  consider "st = XST_FAILURE" "x' = x1" | "st = XST_FAILURE" "x' = x2" | "st = XST_FAILURE" "x' = x3"
    | "st = XST_FAILURE" "x' = snd (XIic_Stop d (XIic_Reset d x4))"
    | "receive_data d buf n x4 = Inr (st, buf', x')" "\<not> TransmitComplete x4"
    using run w x4(3) by (auto simp: x3_def [symmetric] split_beta split: if_splits)
  then show ?thesis
  proof cases
    case 1
    show ?thesis unfolding 1 by (rule refused_call [where k = 1]) (simp_all add: c)
  next
    case 2
    show ?thesis unfolding 2 by (rule refused_call [where k = 2]) (simp_all add: c)
  next
    case 3
    show ?thesis unfolding 3 by (rule refused_call [where k = 3]) (simp_all add: c)
  next
    case 4
    show ?thesis unfolding 4 by (rule timed_out [where k = 3]) (use x4 in simp_all)
  next
    case 5
    from read_tail_calls [OF 5(1) x4(1,2) 5(2)] show ?thesis by (simp add: eval_nat_numeral)
  qed
qed

lemma IicReadData_calls:
  assumes "IicReadData d a r buf n x = Inr (st, buf', x')"
  defines "opts \<equiv> (ucast (ucast (iic_GetOptions d (IicInstance x)) :: u8) :: u32)"
  shows "\<exists>cs. calls x' = calls x @ cs \<and>
    allowed_calls [Iic_Options (opts OR iic_REPEATED_START d), Iic_Start, Iic_SetAddress a, Iic_Send [r],
      Iic_Options opts, Iic_Recv n, Iic_Stop] [5, 6] st cs \<and>
    wait_turns x' \<le> wait_turns x + 2 * (IIC_TIMEOUT + 1) \<and>
    (st = XST_SUCCESS \<longrightarrow> \<not> TransmitComplete x' \<and> \<not> ReceiveComplete x')"
proof -
  define o1 where "o1 = opts OR iic_REPEATED_START d"
  let ?full = "[Iic_Options o1, Iic_Start, Iic_SetAddress a, Iic_Send [r], Iic_Options opts, Iic_Recv n, Iic_Stop]"
  define x0 where "x0 = snd (driver_call d (\<lambda>s. (True, iic_SetOptions d o1 s)) (Iic_Options o1) (x\<lparr>ReceiveComplete := True\<rparr>))"
  define x1 where "x1 = snd (driver_call d (iic_Start d) Iic_Start x0)"
  define x2 where "x2 = snd (driver_call d (iic_SetAddress d a) (Iic_SetAddress a) x1)"
  define x3 where "x3 = snd (driver_call d (iic_MasterSend d [r]) (Iic_Send [r]) (start_transmit d x2))"
  obtain k x4 where w: "wait_transfer d (flag_set TransmitComplete) 0 x3 = (k, x4)" by fastforce
  define x5 where "x5 = snd (driver_call d (\<lambda>s. (True, iic_SetOptions d opts s)) (Iic_Options opts) x4)"
  have c: "calls x1 = calls x @ [Iic_Options o1, Iic_Start]"
    "calls x2 = calls x @ [Iic_Options o1, Iic_Start, Iic_SetAddress a]"
    "calls x3 = calls x @ [Iic_Options o1, Iic_Start, Iic_SetAddress a, Iic_Send [r]]"
    "wait_turns x1 = wait_turns x" "wait_turns x2 = wait_turns x" "wait_turns x3 = wait_turns x"
    by (simp_all add: x0_def x1_def x2_def x3_def)
  from wait_transfer_keeps [OF conditions_test_flags(1) _ _ w] c
  have x5: "calls x5 = calls x @ [Iic_Options o1, Iic_Start, Iic_SetAddress a, Iic_Send [r], Iic_Options opts]"
    "wait_turns x5 \<le> wait_turns x + (IIC_TIMEOUT + 1)" "k \<le> IIC_TIMEOUT \<longrightarrow> \<not> TransmitComplete x5"
    by (auto simp: x5_def)
  consider "st = XST_FAILURE" "x' = x1" | "st = XST_FAILURE" "x' = x2" | "st = XST_FAILURE" "x' = x3"
    | "st = XST_FAILURE" "x' = snd (XIic_Stop d (XIic_Reset d x5))"
    | "receive_data d buf n x5 = Inr (st, buf', x')" "\<not> TransmitComplete x5"
    using assms(1) w x5(3)
    by (auto simp: IicReadData_def Let_def opts_def [symmetric] o1_def [symmetric] x0_def [symmetric]
        x1_def [symmetric] x2_def [symmetric] XIic_MasterSend_def x3_def [symmetric] x5_def [symmetric]
        split_beta split: if_splits)
  then show ?thesis
  proof cases
    case 1
    show ?thesis unfolding 1 o1_def [symmetric] by (rule refused_call [where k = 2]) (simp_all add: c)
  next
    case 2
    show ?thesis unfolding 2 o1_def [symmetric] by (rule refused_call [where k = 3]) (simp_all add: c)
  next
    case 3
    show ?thesis unfolding 3 o1_def [symmetric] by (rule refused_call [where k = 4]) (simp_all add: c)
  next
    case 4
    show ?thesis unfolding 4 o1_def [symmetric] by (rule timed_out [where k = 5]) (use x5 in simp_all)
  next
    case 5
    from read_tail_calls [OF 5(1) x5(1,2) 5(2)] show ?thesis unfolding o1_def [symmetric] by (simp add: eval_nat_numeral)
  qed
qed

lemma IicWriteData_calls:
  assumes "IicWriteData d a buf n x = Inr (st, x')"
  shows "n \<le> length buf \<or> st = XST_FAILURE \<and> Iic_Send (take n buf) \<notin> set (drop (length (calls x)) (calls x'))"
    and "\<exists>cs. calls x' = calls x @ cs \<and>
    allowed_calls [Iic_Start, Iic_SetAddress a, Iic_Send (take n buf), Iic_Stop] [3] st cs \<and>
    wait_turns x' \<le> wait_turns x + (IIC_TIMEOUT + 1) \<and> (st = XST_SUCCESS \<longrightarrow> \<not> TransmitComplete x')"
proof -
  let ?bs = "take n buf"
  let ?full = "[Iic_Start, Iic_SetAddress a, Iic_Send ?bs, Iic_Stop]"
  define x1 where "x1 = snd (driver_call d (iic_Start d) Iic_Start (start_transmit d x))"
  define x2 where "x2 = snd (driver_call d (iic_SetAddress d a) (Iic_SetAddress a) x1)"
  define x3 where "x3 = snd (driver_call d (iic_MasterSend d ?bs) (Iic_Send ?bs) x2)"
  obtain k x4 where w: "wait_transfer d (flag_or_busy d TransmitComplete) 0 x3 = (k, x4)" by fastforce
  have c: "calls x1 = calls x @ [Iic_Start]" "calls x2 = calls x @ [Iic_Start, Iic_SetAddress a]"
    "calls x3 = calls x @ [Iic_Start, Iic_SetAddress a, Iic_Send ?bs]"
    "wait_turns x1 = wait_turns x" "wait_turns x2 = wait_turns x" "wait_turns x3 = wait_turns x"
    by (simp_all add: x1_def x2_def x3_def)
  from wait_transfer_keeps [OF conditions_test_flags(2) _ _ w] c
  have x4: "calls x4 = calls x @ [Iic_Start, Iic_SetAddress a, Iic_Send ?bs]"
    "wait_turns x4 \<le> wait_turns x + (IIC_TIMEOUT + 1)" "k \<le> IIC_TIMEOUT \<longrightarrow> \<not> TransmitComplete x4" by auto
  consider "st = XST_FAILURE" "x' = x1" | "st = XST_FAILURE" "x' = x2" | "st = XST_FAILURE" "x' = x3" "n \<le> length buf"
    | "st = XST_FAILURE" "x' = snd (XIic_Stop d (XIic_Reset d (x4\<lparr>TransmitComplete := False\<rparr>)))" "n \<le> length buf"
    | "x' = snd (XIic_Stop d x4)" "\<not> TransmitComplete x4" "n \<le> length buf"
    using assms w x4(3)
    by (auto simp: IicWriteData_def x1_def [symmetric] x2_def [symmetric] XIic_MasterSend_def x3_def [symmetric]
        split_beta split: if_splits)
  note cs = this
  show "n \<le> length buf \<or> st = XST_FAILURE \<and> Iic_Send ?bs \<notin> set (drop (length (calls x)) (calls x'))"
    using cs by cases (auto simp: c)
  from cs show "\<exists>cs. calls x' = calls x @ cs \<and> allowed_calls ?full [3] st cs \<and>
    wait_turns x' \<le> wait_turns x + (IIC_TIMEOUT + 1) \<and> (st = XST_SUCCESS \<longrightarrow> \<not> TransmitComplete x')"
  proof cases
    case 1
    show ?thesis unfolding 1 by (rule refused_call [where k = 1]) (simp_all add: c)
  next
    case 2
    show ?thesis unfolding 2 by (rule refused_call [where k = 2]) (simp_all add: c)
  next
    case 3
    show ?thesis unfolding 3 by (rule refused_call [where k = 3]) (simp_all add: c)
  next
    case 4
    show ?thesis unfolding 4 by (rule timed_out [where k = 3]) (use x4 in simp_all)
  next
    case 5
    have "allowed_calls ?full [3] st ?full"
      using allowed_prefix [of 4 ?full "[3]"] by (cases st) (simp_all add: allowed_calls_def)
    then show ?thesis unfolding 5(1) using x4 5(2) by (intro exI [of _ ?full]) simp
  qed
qed


section \<open>A driver that answers\<close>

text \<open>
  A driver that accepts every call and finishes every transfer within \<open>T\<close> steps: \<open>busy s\<close> is the
  number of steps the bus will still be busy, \<open>due s\<close> the interrupt that ends the transfer.
\<close>

definition responsive :: "('c, 's) xiic \<Rightarrow> ('s \<Rightarrow> nat) \<Rightarrow> ('s \<Rightarrow> irq) \<Rightarrow> nat \<Rightarrow> bool" where
  "responsive d busy due T \<longleftrightarrow>
     (\<forall>s. fst (iic_Start d s) \<and> fst (iic_Stop d s)) \<and> (\<forall>a s. fst (iic_SetAddress d a s)) \<and>
     (\<forall>bs s. case iic_MasterSend d bs s of (ok, s') \<Rightarrow> ok \<and> 0 < busy s' \<and> busy s' \<le> T \<and> due s' = Irq_Send) \<and>
     (\<forall>n s. case iic_MasterRecv d n s of (ok, s') \<Rightarrow> ok \<and> 0 < busy s' \<and> busy s' \<le> T \<and> due s' = Irq_Recv) \<and>
     (\<forall>s. 0 < busy s \<longrightarrow> (case iic_interrupts d s of
        (qs, s') \<Rightarrow> busy s' < busy s \<and> due s' = due s \<and> (busy s' = 0 \<longrightarrow> due s \<in> set qs))) \<and>
     (\<forall>s. case iic_IsIicBusy d s of (b, s') \<Rightarrow> b = (0 < busy s) \<and> busy s' = busy s \<and> due s' = due s)"

lemma responsiveD:
  assumes "responsive d busy due T"
  shows "fst (iic_Start d s)" "fst (iic_Stop d s)" "fst (iic_SetAddress d a s)"
    "fst (iic_MasterSend d bs s)" "0 < busy (snd (iic_MasterSend d bs s))" "busy (snd (iic_MasterSend d bs s)) \<le> T"
    "due (snd (iic_MasterSend d bs s)) = Irq_Send"
    "fst (iic_MasterRecv d n s)" "0 < busy (snd (iic_MasterRecv d n s))" "busy (snd (iic_MasterRecv d n s)) \<le> T"
    "due (snd (iic_MasterRecv d n s)) = Irq_Recv"
    "0 < busy s \<Longrightarrow> busy (snd (iic_interrupts d s)) < busy s"
    "0 < busy s \<Longrightarrow> due (snd (iic_interrupts d s)) = due s"
    "0 < busy s \<Longrightarrow> due s \<notin> set (fst (iic_interrupts d s)) \<Longrightarrow> 0 < busy (snd (iic_interrupts d s))"
    "fst (iic_IsIicBusy d s) = (0 < busy s)" "busy (snd (iic_IsIicBusy d s)) = busy s"
    "due (snd (iic_IsIicBusy d s)) = due s"
  using assms unfolding responsive_def split_beta neq0_conv [symmetric] by blast+

text \<open>A transfer under way: as long as its flag is set, its interrupt is still to come.\<close>

definition under_way ::
  "('s \<Rightarrow> nat) \<Rightarrow> ('s \<Rightarrow> irq) \<Rightarrow> ('s iic \<Rightarrow> bool) \<Rightarrow> irq \<Rightarrow> 's iic \<Rightarrow> bool" where
  "under_way busy due g q x \<longleftrightarrow>
     q \<in> set (handlers x) \<and> (g, q) \<in> {(TransmitComplete, Irq_Send), (ReceiveComplete, Irq_Recv)} \<and>
     (g x \<longrightarrow> 0 < busy (IicInstance x) \<and> due (IicInstance x) = q)"

lemma interrupts_under_way:
  assumes "responsive d busy due T" and "under_way busy due g q x" and "0 < busy (IicInstance x)"
  shows "under_way busy due g q (interrupts d x)" and "busy (IicInstance (interrupts d x)) < busy (IicInstance x)"
  using assms responsiveD(12-14) [OF assms(1)] by (auto simp: under_way_def)

lemma wait_under_way:
  assumes "responsive d busy due T" and "p \<in> {flag_set g, flag_or_busy d g}" and "under_way busy due g q x"
    and "k + busy (IicInstance x) \<le> IIC_TIMEOUT"
  shows "fst (wait_transfer d p k x) \<le> IIC_TIMEOUT"
  using assms(2-4)
proof (induction d\<equiv>d p\<equiv>p k x rule: wait_transfer.induct)
  case (1 k x)
  obtain b x1 where p: "p x = (b, x1)" by fastforce
  have x1: "busy (IicInstance x1) = busy (IicInstance x)" "b \<longrightarrow> 0 < busy (IicInstance x)" "under_way busy due g q x1"
    using 1(2,3) p responsiveD(15-17) [OF assms(1)]
    by (auto simp: flag_set_def flag_or_busy_def under_way_def split_beta split: if_splits)
  let ?y = "x1\<lparr>wait_turns := wait_turns x1 + 1\<rparr>"
  have y: "under_way busy due g q ?y" "busy (IicInstance ?y) = busy (IicInstance x)"
    using x1 by (auto simp: under_way_def)
  show ?case
  proof (cases b)
    case True
    with y x1(2) interrupts_under_way [OF assms(1) y(1)]
    have z: "under_way busy due g q (interrupts d ?y)" "busy (IicInstance (interrupts d ?y)) < busy (IicInstance x)"
      by auto
    from True z(2) 1(4) have "k + 1 + busy (IicInstance (interrupts d ?y)) \<le> IIC_TIMEOUT" by linarith
    with 1(1) [OF p [symmetric]] 1(2,4) True z(1) show ?thesis
      by (subst wait_transfer.simps) (simp add: p)
  next
    case False
    with 1(4) p show ?thesis by (subst wait_transfer.simps) simp
  qed
qed

lemma call_under_way:
  assumes "responsive d busy due T" and "T \<le> IIC_TIMEOUT" and "q \<in> set (handlers x)"
    and "(g, q, f) \<in> {(TransmitComplete, Irq_Send, iic_MasterSend d bs), (ReceiveComplete, Irq_Recv, iic_MasterRecv d n)}"
    and "p \<in> {flag_set g, flag_or_busy d g}"
  shows "fst (wait_transfer d p 0 (snd (driver_call d f c x))) \<le> IIC_TIMEOUT"
proof (rule wait_under_way [OF assms(1,5)])
  let ?s = "snd (f (IicInstance x))"
  note r = responsiveD [OF assms(1)]
  have f: "0 < busy ?s" "busy ?s \<le> T" "due ?s = q" using assms(4) r(5-7,9-11) by auto
  show "under_way busy due g q (snd (driver_call d f c x))"
    using assms(3,4) f r(13) [OF f(1)] r(14) [OF f(1)]
    by (auto simp: under_way_def driver_call_def split_beta)
  show "0 + busy (IicInstance (snd (driver_call d f c x))) \<le> IIC_TIMEOUT"
    using r(12) [OF f(1)] f(2) assms(2) by simp
qed


lemma receive_data_responsive:
  assumes "responsive d busy due T" and "T \<le> IIC_TIMEOUT" and "Irq_Recv \<in> set (handlers x)" and "n \<le> length buf"
  shows "\<exists>x'. receive_data d buf n x = Inr (XST_SUCCESS, store_received d buf n x', x')"
proof -
  note w = call_under_way [OF assms(1-3), of ReceiveComplete "iic_MasterRecv d n" undefined n "flag_or_busy d ReceiveComplete"]
  from w [of "Iic_Recv n"] show ?thesis
    using assms(4) responsiveD(2,8) [OF assms(1)]
    by (simp add: receive_data_def XIic_MasterRecv_def split_beta not_less)
qed

lemma wait_handlers [simp]:
  "handlers (snd (wait_transfer d (flag_set TransmitComplete) 0 x)) = handlers x"
  "handlers (snd (wait_transfer d (flag_or_busy d TransmitComplete) 0 x)) = handlers x"
proof -
  have "handlers (snd (wait_transfer d p 0 x)) = handlers x" if "tests_flag TransmitComplete p" for p
  proof -
    obtain n x' where w: "wait_transfer d p 0 x = (n, x')" by fastforce
    from wait_transfer_keeps [OF that _ _ w] w show ?thesis by simp
  qed
  then show "handlers (snd (wait_transfer d (flag_set TransmitComplete) 0 x)) = handlers x"
    "handlers (snd (wait_transfer d (flag_or_busy d TransmitComplete) 0 x)) = handlers x"
    using conditions_test_flags by auto
qed

lemma transfers_responsive:
  assumes "responsive d busy due T" and "T \<le> IIC_TIMEOUT" and "{Irq_Send, Irq_Recv} \<subseteq> set (handlers x)"
    and "n \<le> length buf"
  shows "\<exists>x'. IicReadData d a r buf n x = Inr (XST_SUCCESS, store_received d buf n x', x')" (is ?A)
    and "\<exists>x'. IicReadData2 d a r buf n x = Inr (XST_SUCCESS, store_received d buf n x', x')" (is ?B)
    and "\<exists>x'. IicReadData3 d a w buf n x = Inr (XST_SUCCESS, store_received d buf n x', x')" (is ?C)
    and "\<exists>x'. IicWriteData d a buf n x = Inr (XST_SUCCESS, x')" (is ?D)
proof -
  note calls_ok = responsiveD(1-4) [OF assms(1)]
  have send: "fst (wait_transfer d p 0 (snd (driver_call d (iic_MasterSend d bs) c y))) \<le> IIC_TIMEOUT"
    if "handlers y = handlers x" "p \<in> {flag_set TransmitComplete, flag_or_busy d TransmitComplete}" for p bs c y
    by (rule call_under_way [OF assms(1,2)]) (use assms(3) that in auto)
  have recv: "\<exists>x'. receive_data d buf n y = Inr (XST_SUCCESS, store_received d buf n x', x')"
    if "handlers y = handlers x" for y
    by (rule receive_data_responsive [OF assms(1,2) _ assms(4)]) (use assms(3) that in auto)
  have stop: "\<exists>x'. read_after_stop d a bs buf n x = Inr (XST_SUCCESS, store_received d buf n x', x')" for bs
    using send recv by (simp add: read_after_stop_def split_beta calls_ok not_less)
  show ?B ?C unfolding reads_after_stop by (rule stop)+
  show ?A
    using send recv
    by (simp add: IicReadData_def XIic_MasterSend_def Let_def split_beta calls_ok not_less)
  show ?D
    using send assms(4)
    by (simp add: IicWriteData_def XIic_MasterSend_def split_beta calls_ok not_less)
qed

section \<open>Driver calls and their order\<close>

definition follows_protocol ::
  "iic_call list \<Rightarrow> nat list \<Rightarrow> nat \<Rightarrow> 's iic \<Rightarrow> xstatus \<Rightarrow> 's iic \<Rightarrow> bool" where
  "follows_protocol full waits loops x st x' \<longleftrightarrow>
     calls x' = calls x @ drop (length (calls x)) (calls x') \<and>
     allowed_calls full waits st (drop (length (calls x)) (calls x')) \<and>
     wait_turns x' \<le> wait_turns x + loops * (IIC_TIMEOUT + 1)"

lemma follows_protocolI:
  "\<exists>cs. calls x' = calls x @ cs \<and> allowed_calls full waits st cs \<and>
     wait_turns x' \<le> wait_turns x + loops * (IIC_TIMEOUT + 1) \<and> P \<Longrightarrow> follows_protocol full waits loops x st x' \<and> P"
  by (auto simp: follows_protocol_def)

lemma read_follows_protocol:
  "IicReadData d a r buf n x = Inr (st, buf', x') \<Longrightarrow>
     \<exists>o1 o2. follows_protocol [Iic_Options o1, Iic_Start, Iic_SetAddress a, Iic_Send [r], Iic_Options o2, Iic_Recv n, Iic_Stop]
       [5, 6] 2 x st x' \<and> (st = XST_SUCCESS \<longrightarrow> \<not> TransmitComplete x' \<and> \<not> ReceiveComplete x')"
  by (drule IicReadData_calls, drule follows_protocolI) blast

lemma write_follows_protocol:
  "IicWriteData d a buf n x = Inr (st, x') \<Longrightarrow>
     follows_protocol [Iic_Start, Iic_SetAddress a, Iic_Send (take n buf), Iic_Stop] [3] 1 x st x' \<and>
     (st = XST_SUCCESS \<longrightarrow> \<not> TransmitComplete x')"
  using IicWriteData_calls(2) follows_protocolI [where loops = 1] by simp blast


text \<open>A driver for the witnesses: every transfer takes five steps and receives the bytes \<open>7, 6, 5, \<dots>\<close>.\<close>

definition five_steps :: "(unit, nat \<times> irq) xiic" where
  "five_steps =
     \<lparr>iic_LookupConfig = Some (), iic_CfgInitialize = (\<lambda>_ s. (True, s)), iic_SetGpOutput = (\<lambda>_ s. s),
      iic_GetOptions = (\<lambda>_. 0), iic_SetOptions = (\<lambda>_ s. s), iic_REPEATED_START = 4,
      iic_Start = (\<lambda>s. (True, s)), iic_SetAddress = (\<lambda>_ s. (True, s)), iic_ClearTxErrors = (\<lambda>s. s),
      iic_MasterSend = (\<lambda>_ _. (True, (5, Irq_Send))), iic_MasterRecv = (\<lambda>_ _. (True, (5, Irq_Recv))),
      iic_IsIicBusy = (\<lambda>s. (0 < fst s, s)), iic_Reset = (\<lambda>s. s), iic_Stop = (\<lambda>s. (True, s)),
      iic_interrupts = (\<lambda>(n, q). (if n = 1 then [q] else [], (n - 1, q))),
      iic_received = (\<lambda>_. map word_of_nat (rev [0..<8]))\<rparr>"

lemma five_steps_responsive: "responsive five_steps fst snd 5"
  by (auto simp: responsive_def five_steps_def split: if_splits)

definition idle_iic :: "(nat \<times> irq) iic" where
  "idle_iic = \<lparr>IicInstance = (0, Irq_Status), handlers = [Irq_Send, Irq_Recv, Irq_Status],
     TransmitComplete = False, ReceiveComplete = False, calls = [], wait_turns = 0\<rparr>"


text \<open>
  C17: A responsive driver makes every transfer succeed. If the driver accepts its calls and
  finishes each transfer, with its interrupt, within \<open>T \<le> IIC_TIMEOUT\<close> steps, and the handlers
  are installed, then all four transfer functions return success on buffers that are large
  enough, and a read leaves the bytes the driver received in the buffer.
\<close>

theorem responsive_transfers_succeed:
  assumes "responsive d busy due T" and "T \<le> IIC_TIMEOUT" and "{Irq_Send, Irq_Recv} \<subseteq> set (handlers x)"
    and "n \<le> length buf"
  shows "(\<exists>x'. IicReadData d a r buf n x = Inr (XST_SUCCESS, store_received d buf n x', x')) \<and>
    (\<exists>x'. IicReadData2 d a r buf n x = Inr (XST_SUCCESS, store_received d buf n x', x')) \<and>
    (\<exists>x'. IicReadData3 d a w buf n x = Inr (XST_SUCCESS, store_received d buf n x', x')) \<and>
    (\<exists>x'. IicWriteData d a buf n x = Inr (XST_SUCCESS, x'))"
  using transfers_responsive [OF assms] by blast

theorem responsive_transfers_succeed_witness:
  "\<exists>x'. IicReadData five_steps 0x50 20 (replicate 20 0) 2 idle_iic = Inr (XST_SUCCESS, 7 # 6 # replicate 18 0, x')"
proof -
  have "store_received five_steps (replicate 20 0) 2 x' = 7 # 6 # replicate 18 0" for x'
    by (simp add: store_received_def five_steps_def upt_conv_Cons eval_nat_numeral)
  then show ?thesis
    using responsive_transfers_succeed [OF five_steps_responsive, of idle_iic 2 "replicate 20 0" "0x50" 20]
    by (auto simp: IIC_TIMEOUT_def idle_iic_def)
qed

end
