(* ===== verification/Fw_Devices.thy ===== *)
theory Fw_Devices
  imports Fw_Iic Loader_Spec
begin

text \<open>
  The devices behind the IIC bus of the board: the clock generator (iic_si5324.c), the power
  monitor (iic_pm.c) and the optical modules (iic_sfp.c), over the transfers of \<open>Fw_Iic\<close>. A
  write buffer is the list of the bytes assigned to it; a read buffer keeps its old contents
  where nothing is received. What a function prints is part of its result.
\<close>

section \<open>Clock generator\<close>

text \<open>The writes of \<open>config_SI5324\<close>: the switch, then runs of registers, each led by its number.\<close>

definition si5324_writes :: "(u8 \<times> u8 list) list" where
  "si5324_writes =
     [(0x74, [0x10]),
      (0x68, [0, 0x54, 0xE4, 0x12, 0x15, 0x92]),
      (0x68, [10, 0x08, 0x40]),
      (0x68, [25, 0xA0]),
      (0x68, [31, 0x00, 0x00, 0x03]),
      (0x68, [40, 0xC2, 0x49, 0xEF]),
      (0x68, [43, 0x00, 0x77, 0x0B]),
      (0x68, [46, 0x00, 0x77, 0x0B]),
      (0x68, [136, 0x40])]"

fun iic_writes :: "('c, 's) xiic \<Rightarrow> (u8 \<times> u8 list) list \<Rightarrow> 's iic \<Rightarrow> (xstatus \<times> 's iic) res" where
  "iic_writes d [] x = Inr (XST_SUCCESS, x)"
| "iic_writes d ((a, bs) # ws) x =
     res_bind (IicWriteData d a bs (length bs) x) (\<lambda>(st, x).
       if st \<noteq> XST_SUCCESS then Inr (XST_FAILURE, x) else iic_writes d ws x)"

definition config_SI5324 :: "('c, 's) xiic \<Rightarrow> 's iic \<Rightarrow> (xstatus \<times> 's iic) res" where
  "config_SI5324 d x = iic_writes d si5324_writes x"

text \<open>\<open>read5324\<close> prints runs of registers: the first register and the length of each.\<close>

fun read_registers ::
  "('c, 's) xiic \<Rightarrow> (u8 \<times> nat) list \<Rightarrow> u8 list \<Rightarrow> 's iic \<Rightarrow> (xstatus \<times> (u8 \<times> u8) list \<times> 's iic) res" where
  "read_registers d [] buf x = Inr (XST_SUCCESS, [], x)"
| "read_registers d ((reg_addr, n) # rs) buf x =
     res_bind (IicReadData2 d 0x68 reg_addr buf n x) (\<lambda>(st, buf, x).
       if st \<noteq> XST_SUCCESS then Inr (XST_FAILURE, [], x)
       else res_bind (read_registers d rs buf x) (\<lambda>(st, out, x).
         Inr (st, map (\<lambda>i. (reg_addr + of_nat i, buf ! i)) [0..<n] @ out, x)))"

definition read5324 :: "('c, 's) xiic \<Rightarrow> u8 list \<Rightarrow> 's iic \<Rightarrow> (xstatus \<times> (u8 \<times> u8) list \<times> 's iic) res" where
  "read5324 d ReadBuffer x = read_registers d [(25, 1), (31, 3), (40, 3), (43, 3)] ReadBuffer x"

section \<open>Power monitor\<close>

record pm_info =
  railName :: string
  i2cAddress :: u8
  pageIndex :: u8
  voltage :: u16
  current :: u16
  power :: u16

definition pm_rails :: "pm_info list" where
  "pm_rails = map (\<lambda>(name, a, pg). \<lparr>railName = name, i2cAddress = a, pageIndex = pg, voltage = 0, current = 0, power = 0\<rparr>)
     [(''VCC1V0'', 0x5C, 0), (''VCC1V5'', 0x5D, 2), (''VCC1V8'', 0x5C, 1), (''VCC2V0'', 0x5C, 2),
      (''VCC3V3'', 0x5D, 1), (''MGTAVCC'', 0x5C, 3), (''MGTAVTT'', 0x5D, 0), (''MGTVAUX'', 0x5D, 3)]"

text \<open>A measurement: two bytes, the low one first.\<close>

definition pm_value :: "u8 list \<Rightarrow> u16" where
  "pm_value ReadBuffer = push_bit 8 (ucast (ReadBuffer ! 1)) + ucast (ReadBuffer ! 0)"

text \<open>\<open>%d.%d\<close> of the whole part and the thousandths of a fixed-point number with 13 fraction bits.\<close>

definition pm_whole :: "u16 \<Rightarrow> nat" where
  "pm_whole raw = unat (drop_bit 13 raw)"

definition pm_small :: "u16 \<Rightarrow> nat" where
  "pm_small raw = (unat raw - pm_whole raw * 2 ^ 13) * 1000 div 2 ^ 13"

definition pm_text :: "u16 \<Rightarrow> string" where
  "pm_text raw = decimal (pm_whole raw) @ ''.'' @ decimal (pm_small raw)"

text \<open>The three measurements of a rail, in the order of the code: voltage, current, power.\<close>

fun pm_measure ::
  "('c, 's) xiic \<Rightarrow> u8 \<Rightarrow> u8 list \<Rightarrow> u8 list \<Rightarrow> 's iic \<Rightarrow> (xstatus \<times> u16 list \<times> u8 list \<times> 's iic) res" where
  "pm_measure d a [] buf x = Inr (XST_SUCCESS, [], buf, x)"
| "pm_measure d a (cmd # cmds) buf x =
     res_bind (IicReadData d a cmd buf 2 x) (\<lambda>(st, buf, x).
       if st \<noteq> XST_SUCCESS then Inr (XST_FAILURE, [], buf, x)
       else res_bind (pm_measure d a cmds buf x) (\<lambda>(st, vs, buf', x).
         Inr (st, pm_value buf # vs, buf', x)))"

definition pm_store :: "pm_info \<Rightarrow> u16 list \<Rightarrow> pm_info" where
  "pm_store p vs =
     (case vs of [] \<Rightarrow> p
      | v # vs' \<Rightarrow> (case vs' of [] \<Rightarrow> p\<lparr>voltage := v\<rparr>
        | c # vs'' \<Rightarrow> (case vs'' of [] \<Rightarrow> p\<lparr>voltage := v, current := c\<rparr>
          | w # _ \<Rightarrow> p\<lparr>voltage := v, current := c, power := w\<rparr>)))"

definition pm_read_rail ::
  "('c, 's) xiic \<Rightarrow> pm_info \<Rightarrow> u8 list \<Rightarrow> 's iic \<Rightarrow> (xstatus \<times> pm_info \<times> u8 list \<times> 's iic) res" where
  "pm_read_rail d p buf x =
     res_bind (IicWriteData d (i2cAddress p) [0x00, pageIndex p] 2 x) (\<lambda>(st, x).
       if st \<noteq> XST_SUCCESS then Inr (XST_FAILURE, p, buf, x) else
     res_bind (IicReadData d (i2cAddress p) 0x00 buf 1 x) (\<lambda>(st, buf, x).
       if st \<noteq> XST_SUCCESS then Inr (XST_FAILURE, p, buf, x) else
     res_bind (pm_measure d (i2cAddress p) [0x8B, 0x8C, 0x96] buf x) (\<lambda>(st, vs, buf, x).
       Inr (st, pm_store p vs, buf, x))))"

fun pm_read_rails ::
  "('c, 's) xiic \<Rightarrow> pm_info list \<Rightarrow> u8 list \<Rightarrow> 's iic \<Rightarrow> (xstatus \<times> pm_info list \<times> 's iic) res" where
  "pm_read_rails d [] buf x = Inr (XST_SUCCESS, [], x)"
| "pm_read_rails d (p # ps) buf x =
     res_bind (pm_read_rail d p buf x) (\<lambda>(st, p, buf, x).
       if st \<noteq> XST_SUCCESS then Inr (XST_FAILURE, p # ps, x)
       else res_bind (pm_read_rails d ps buf x) (\<lambda>(st, ps, x). Inr (st, p # ps, x)))"

definition pmReadInfo ::
  "('c, 's) xiic \<Rightarrow> pm_info list \<Rightarrow> u8 list \<Rightarrow> 's iic \<Rightarrow> (xstatus \<times> pm_info list \<times> 's iic) res" where
  "pmReadInfo d pm ReadBuffer x =
     res_bind (IicWriteData d 0x74 [0x40] 1 x) (\<lambda>(st, x).
       if st \<noteq> XST_SUCCESS then Inr (XST_FAILURE, pm, x) else pm_read_rails d pm ReadBuffer x)"

section \<open>Optical modules\<close>

definition sfp_bus :: "int \<Rightarrow> u8" where
  "sfp_bus ModuleID =
     (if ModuleID = 1 then 0x01 else if ModuleID = 2 then 0x02 else if ModuleID = 3 then 0x04
      else if ModuleID = 4 then 0x08 else 0x01)"

text \<open>\<open>%s\<close> prints up to the first null byte, wherever it is.\<close>

definition c_string :: "u8 list \<Rightarrow> u8 list res" where
  "c_string buf = (if 0 \<in> set buf then Inr (takeWhile (\<lambda>b. b \<noteq> 0) buf) else Inl (UB OutOfBounds))"

definition sfpReadInfo ::
  "('c, 's) xiic \<Rightarrow> int \<Rightarrow> u8 list \<Rightarrow> 's iic \<Rightarrow> (xstatus \<times> u8 list list \<times> 's iic) res" where
  "sfpReadInfo d ModuleID ReadBuffer x =
     res_bind (IicWriteData d 0x74 [sfp_bus ModuleID] 1 x) (\<lambda>(st, x).
       if st \<noteq> XST_SUCCESS then Inr (XST_FAILURE, [], x) else
     res_bind (IicReadData d 0x50 20 ReadBuffer 17 x) (\<lambda>(st, buf, x).
       if st \<noteq> XST_SUCCESS then Inr (XST_FAILURE, [], x) else
     res_bind (c_string buf) (\<lambda>vendor.
     res_bind (IicReadData d 0x50 40 buf 16 x) (\<lambda>(st, buf, x).
       if st \<noteq> XST_SUCCESS then Inr (XST_FAILURE, [vendor], x) else
     res_bind (wr buf 16 0) (\<lambda>buf.
     res_bind (c_string buf) (\<lambda>part.
       Inr (XST_SUCCESS, [vendor, part], x)))))))"


section \<open>What is sent\<close>

text \<open>The data sent in a sequence of driver calls, with the device each part is addressed to.\<close>

fun transfers :: "iic_call list \<Rightarrow> (u8 \<times> u8 list) list" where
  "transfers (Iic_SetAddress a # Iic_Send bs # cs) = (a, bs) # transfers cs"
| "transfers (_ # cs) = transfers cs"
| "transfers [] = []"

definition no_send_first :: "iic_call list \<Rightarrow> bool" where
  "no_send_first cs \<longleftrightarrow> (case cs of Iic_Send _ # _ \<Rightarrow> False | _ \<Rightarrow> True)"

lemma transfers_Cons: "no_send_first cs \<Longrightarrow> transfers (c # cs) = transfers cs"
  by (cases c; cases cs) (auto simp: no_send_first_def split: iic_call.splits)

lemma transfers_append: "no_send_first cs' \<Longrightarrow> transfers (cs @ cs') = transfers cs @ transfers cs'"
  by (induction cs rule: transfers.induct) (simp_all add: transfers_Cons)

lemma write_transfers:
  assumes "follows_protocol [Iic_Start, Iic_SetAddress a, Iic_Send bs, Iic_Stop] [3] 1 x st x'"
  defines "cs \<equiv> drop (length (calls x)) (calls x')"
  shows "calls x' = calls x @ cs \<and> no_send_first cs \<and> transfers cs = [] \<and> st = XST_FAILURE \<or>
    calls x' = calls x @ cs \<and> no_send_first cs \<and> transfers cs = [(a, bs)]"
proof -
  have "allowed_calls [Iic_Start, Iic_SetAddress a, Iic_Send bs, Iic_Stop] [3] st cs" "calls x' = calls x @ cs"
    using assms by (simp_all add: follows_protocol_def)
  then show ?thesis
    by (cases st) (auto simp: allowed_calls_def no_send_first_def upt_conv_Cons numeral_2_eq_2 numeral_3_eq_3)
qed

lemma IicWriteData_returns:
  "n \<le> length buf \<Longrightarrow> \<exists>st x'. IicWriteData d a buf n x = Inr (st, x')"
  by (auto simp: IicWriteData_def XIic_MasterSend_def split_beta)

lemma iic_writes_sends:
  "\<exists>st x' k. iic_writes d ws x = Inr (st, x') \<and> k \<le> length ws \<and> (st = XST_SUCCESS \<longrightarrow> k = length ws) \<and>
     calls x' = calls x @ drop (length (calls x)) (calls x') \<and> no_send_first (drop (length (calls x)) (calls x')) \<and>
     transfers (drop (length (calls x)) (calls x')) = take k ws \<and>
     wait_turns x' \<le> wait_turns x + length ws * (IIC_TIMEOUT + 1)"
proof (induction ws arbitrary: x)
  case Nil
  then show ?case by (simp add: no_send_first_def)
next
  case (Cons w ws)
  obtain a bs where w: "w = (a, bs)" by fastforce
  obtain st x1 where r: "IicWriteData d a bs (length bs) x = Inr (st, x1)"
    using IicWriteData_returns [OF order_refl] by blast
  from write_follows_protocol [OF r]
  have f: "follows_protocol [Iic_Start, Iic_SetAddress a, Iic_Send bs, Iic_Stop] [3] 1 x st x1" by simp
  define cs where "cs = drop (length (calls x)) (calls x1)"
  have t: "wait_turns x1 \<le> wait_turns x + (IIC_TIMEOUT + 1)" using f by (simp add: follows_protocol_def)
  from write_transfers [OF f] consider
      "calls x1 = calls x @ cs" "no_send_first cs" "transfers cs = []" "st = XST_FAILURE"
    | "calls x1 = calls x @ cs" "no_send_first cs" "transfers cs = [(a, bs)]"
    unfolding cs_def by blast
  then show ?case
  proof cases
    case 1
    then show ?thesis using t by (intro exI [of _ XST_FAILURE] exI [of _ x1] exI [of _ 0]) (simp add: w r)
  next
    case 2
    show ?thesis
    proof (cases st)
      case XST_FAILURE
      then show ?thesis using 2 t
        by (intro exI [of _ XST_FAILURE] exI [of _ x1] exI [of _ 1]) (simp add: w r)
    next
      case XST_SUCCESS
      from Cons.IH [of x1] obtain st' x' k where
        ih: "iic_writes d ws x1 = Inr (st', x')" "k \<le> length ws" "st' = XST_SUCCESS \<longrightarrow> k = length ws"
        "calls x' = calls x1 @ drop (length (calls x1)) (calls x')" "no_send_first (drop (length (calls x1)) (calls x'))"
        "transfers (drop (length (calls x1)) (calls x')) = take k ws" "wait_turns x' \<le> wait_turns x1 + length ws * (IIC_TIMEOUT + 1)"
        by blast
      define cs' where "cs' = drop (length (calls x1)) (calls x')"
      have new: "calls x' = calls x @ cs @ cs'" "drop (length (calls x)) (calls x') = cs @ cs'"
        using ih(4) 2(1) unfolding cs'_def [symmetric] by simp_all
      have "transfers (cs @ cs') = take (Suc k) (w # ws)" "no_send_first (cs @ cs')"
        using transfers_append [of cs' cs] ih(5,6) 2 w unfolding cs'_def [symmetric]
        by (auto simp: no_send_first_def split: list.splits iic_call.splits)
      then show ?thesis using ih(1-3,7) r w XST_SUCCESS new t
        by (intro exI [of _ st'] exI [of _ x'] exI [of _ "Suc k"]) (auto simp: algebra_simps)
    qed
  qed
qed


text \<open>
  The registers of the clock generator after a list of transfers: each run of bytes sent to
  its address starts at the register its first byte names.
\<close>

definition si5324_registers :: "(u8 \<times> u8 list) list \<Rightarrow> u8 \<Rightarrow> u8 option" where
  "si5324_registers ws =
     map_of (rev (concat (map (\<lambda>(a, bs). if a = 0x68 then zip (map (\<lambda>i. hd bs + of_nat i) [0..<length bs - 1]) (tl bs)
       else []) ws)))"

text \<open>The fields of its dividers, most significant byte first, as its data sheet encodes them.\<close>

definition si5324_divider :: "(u8 \<Rightarrow> u8 option) \<Rightarrow> u8 list \<Rightarrow> nat" where
  "si5324_divider regs rs = foldl (\<lambda>n r. 256 * n + unat (the (regs r))) 0 rs"

definition si5324_dividers :: "(u8 \<Rightarrow> u8 option) \<Rightarrow> nat \<times> nat \<times> nat \<times> nat \<times> nat" where
  "si5324_dividers regs =
     (si5324_divider regs [25] div 32 + 4, si5324_divider regs [31, 32, 33] mod 2 ^ 20 + 1,
      si5324_divider regs [40] div 32 + 4, si5324_divider regs [40, 41, 42] mod 2 ^ 20 + 1,
      si5324_divider regs [43, 44, 45] mod 2 ^ 19 + 1)"

lemma si5324_written_dividers: "si5324_dividers (si5324_registers si5324_writes) = (9, 4, 10, 150000, 30476)"
  by (simp add: si5324_dividers_def si5324_registers_def si5324_writes_def si5324_divider_def upt_conv_Cons)

text \<open>
  C18: Configuring the clock generator sends its register table in order. Whatever the driver does,
  \<open>config_SI5324\<close> returns after at most nine bounded waits, having sent a prefix of the table,
  and the whole table when it reports success. The registers then hold the dividers
  N1_HS = 9, NC1_LS = 4, N2_HS = 10, N2_LS = 150000 and N31 = 30476, which make exactly
  156.25 MHz of a reference of 114.285 MHz.
\<close>

theorem si5324_configured:
  "\<exists>st x' k. config_SI5324 d x = Inr (st, x') \<and> k \<le> length si5324_writes \<and>
     (st = XST_SUCCESS \<longrightarrow> k = length si5324_writes) \<and>
     transfers (drop (length (calls x)) (calls x')) = take k si5324_writes \<and>
     wait_turns x' \<le> wait_turns x + 9 * (IIC_TIMEOUT + 1) \<and>
     (st = XST_SUCCESS \<longrightarrow>
       (case si5324_dividers (si5324_registers (transfers (drop (length (calls x)) (calls x')))) of
          (N1_HS, NC1_LS, N2_HS, N2_LS, N31) \<Rightarrow>
            (N1_HS, NC1_LS, N2_HS, N2_LS, N31) = (9, 4, 10, 150000, 30476) \<and>
            114285000 * N2_HS * N2_LS = 156250000 * N31 * N1_HS * NC1_LS))"
proof -
  have n: "length si5324_writes = 9" by (simp add: si5324_writes_def)
  from iic_writes_sends [of d si5324_writes x] show ?thesis
    unfolding config_SI5324_def n using si5324_written_dividers n by fastforce
qed

lemma iic_writes_responsive:
  assumes "responsive d busy due T" and "T \<le> IIC_TIMEOUT"
  shows "{Irq_Send, Irq_Recv} \<subseteq> set (handlers x) \<Longrightarrow> \<exists>x'. iic_writes d ws x = Inr (XST_SUCCESS, x')"
proof (induction ws arbitrary: x)
  case (Cons w ws)
  obtain a bs where w: "w = (a, bs)" by fastforce
  from transfers_responsive(4) [OF assms Cons.prems, of "length bs" bs a]
  obtain x1 where r: "IicWriteData d a bs (length bs) x = Inr (XST_SUCCESS, x1)" by auto
  have "handlers x1 = handlers x"
    using r by (auto simp: IicWriteData_def XIic_MasterSend_def split_beta split: if_splits)
  with Cons.IH [of x1] Cons.prems r show ?case by (auto simp: w)
qed simp

theorem si5324_configured_witness:
  "\<exists>x'. config_SI5324 five_steps idle_iic = Inr (XST_SUCCESS, x') \<and> transfers (calls x') = si5324_writes \<and>
     wait_turns x' \<le> 9 * (IIC_TIMEOUT + 1)"
proof -
  obtain y where y: "config_SI5324 five_steps idle_iic = Inr (XST_SUCCESS, y)"
    using iic_writes_responsive [OF five_steps_responsive, of idle_iic si5324_writes]
    by (auto simp: IIC_TIMEOUT_def idle_iic_def config_SI5324_def)
  have "calls idle_iic = []" "wait_turns idle_iic = 0" by (simp_all add: idle_iic_def)
  with si5324_configured [of five_steps idle_iic] y show ?thesis by auto
qed

section \<open>What is printed\<close>

lemma decimal_length: "n < 10 \<Longrightarrow> length (decimal n) = 1" "10 \<le> n \<Longrightarrow> n < 100 \<Longrightarrow> length (decimal n) = 2"
  "100 \<le> n \<Longrightarrow> n < 1000 \<Longrightarrow> length (decimal n) = 3"
proof -
  have one: "length (decimal n) = 1" if "n < 10" for n using that by (simp add: decimal.simps [of n])
  have step: "length (decimal n) = length (decimal (n div 10)) + 1" if "10 \<le> n" for n
    using that by (simp add: decimal.simps [of n] div_eq_0_iff)
  show "n < 10 \<Longrightarrow> length (decimal n) = 1" by (rule one)
  show "10 \<le> n \<Longrightarrow> n < 100 \<Longrightarrow> length (decimal n) = 2" using step [of n] one [of "n div 10"] by simp
  show "100 \<le> n \<Longrightarrow> n < 1000 \<Longrightarrow> length (decimal n) = 3"
    using step [of n] step [of "n div 10"] one [of "n div 10 div 10"] by simp
qed

text \<open>
  The power monitor prints most values below a tenth wrongly. The two numbers printed are the
  whole part and the thousandths of the measurement, truncated, and below 8 and 1000; but
  they are joined by a point without leading zeros, so the text read as a decimal number is
  the measurement exactly if its thousandths are 0 or at least 100.
\<close>

theorem pm_text_value:
  "pm_whole raw < 8 \<and> pm_small raw < 1000 \<and>
   1000 * pm_whole raw + pm_small raw = unat raw * 1000 div 2 ^ 13 \<and>
   (\<exists>frac. pm_text raw = decimal (pm_whole raw) @ ''.'' @ frac \<and>
      (1000 * digits_value frac = pm_small raw * 10 ^ length frac \<longleftrightarrow> pm_small raw = 0 \<or> 100 \<le> pm_small raw))"
proof -
  let ?r = "unat raw"
  have whole: "pm_whole raw = ?r div 2 ^ 13"
    unfolding pm_whole_def unat_drop_bit_eq by (simp only: drop_bit_eq_div)
  have r: "?r < 2 ^ 16" using unsigned_less [of raw] by simp
  have rest: "?r - pm_whole raw * 2 ^ 13 = ?r mod 2 ^ 13" by (simp add: whole minus_div_mult_eq_mod)
  then have small: "pm_small raw = ?r mod 2 ^ 13 * 1000 div 2 ^ 13" by (simp only: pm_small_def)
  have "?r mod 2 ^ 13 * 1000 < 1000 * 2 ^ 13" by simp
  then have lt: "pm_small raw < 1000" unfolding small by (rule less_mult_imp_div_less)
  have "?r * 1000 = (?r div 2 ^ 13 * 2 ^ 13 + ?r mod 2 ^ 13) * 1000" by simp
  also have "\<dots> = ?r mod 2 ^ 13 * 1000 + ?r div 2 ^ 13 * 1000 * 2 ^ 13" by (simp only: algebra_simps)
  finally have sum: "1000 * pm_whole raw + pm_small raw = ?r * 1000 div 2 ^ 13"
    unfolding whole small by (simp add: mult.commute)
  have val: "digits_value (decimal (pm_small raw)) = pm_small raw" using decimal_props by blast
  have "1000 * pm_small raw = pm_small raw * 10 ^ length (decimal (pm_small raw)) \<longleftrightarrow> pm_small raw = 0 \<or> 100 \<le> pm_small raw"
    using lt decimal_length [of "pm_small raw"]
    by (cases "pm_small raw < 10"; cases "pm_small raw < 100") auto
  then show ?thesis using sum lt whole r val by (auto simp: pm_text_def)
qed

lemma length_store_received: "n \<le> length buf \<Longrightarrow> length (store_received d buf n x) = length buf"
  by (simp add: store_received_def Let_def)

lemma receive_data_returns:
  "n \<le> length buf \<Longrightarrow> \<exists>st buf' x'. receive_data d buf n x = Inr (st, buf', x') \<and> length buf' = length buf"
  by (auto simp: receive_data_def XIic_MasterRecv_def split_beta Let_def length_store_received)

lemma IicReadData_returns:
  assumes "n \<le> length buf"
  shows "\<exists>st buf' x'. IicReadData d a r buf n x = Inr (st, buf', x') \<and> length buf' = length buf"
  using receive_data_returns [OF assms, of d]
  by (simp add: IicReadData_def XIic_MasterSend_def Let_def split_beta)

lemma c_string_terminated: "wr buf 16 0 = Inr buf' \<Longrightarrow> \<exists>s. c_string buf' = Inr s \<and> length s \<le> 16"
proof -
  assume "wr buf 16 0 = Inr buf'"
  then have b: "16 < length buf'" "buf' ! 16 = 0" by (auto simp: wr_Inr_iff)
  then have "length (takeWhile (\<lambda>b. b \<noteq> 0) buf') \<le> 16"
    by (metis (full_types) not_le nth_length_takeWhile nth_mem set_takeWhileD takeWhile_nth)
  with b show ?thesis unfolding c_string_def by (metis nth_mem)
qed

text \<open>
  The vendor of an optical module is printed as a string that need not end. The 17 bytes read
  for it are printed with what the 20-byte buffer held behind them: if there is no null byte
  the print runs out of the buffer, and otherwise it prints up to the first one; the part
  number read next is always terminated and at most 16 characters.
\<close>

theorem sfp_vendor_unterminated:
  assumes "length ReadBuffer = 20" and "IicWriteData d 0x74 [sfp_bus ModuleID] 1 x = Inr (XST_SUCCESS, x1)"
    and "IicReadData d 0x50 20 ReadBuffer 17 x1 = Inr (XST_SUCCESS, vendor, x2)"
  shows "if 0 \<in> set vendor
    then \<exists>st out x'. sfpReadInfo d ModuleID ReadBuffer x = Inr (st, takeWhile (\<lambda>b. b \<noteq> 0) vendor # out, x') \<and>
           list_all (\<lambda>part. length part \<le> 16) out
    else sfpReadInfo d ModuleID ReadBuffer x = Inl (UB OutOfBounds)"
proof -
  from IicReadData_returns [of 17 ReadBuffer d "0x50" 20 x1] assms have len: "length vendor = 20" by auto
  from IicReadData_returns [of 16 vendor d "0x50" 40 x2] len obtain st buf x3 where
    r: "IicReadData d 0x50 40 vendor 16 x2 = Inr (st, buf, x3)" "length buf = 20" by auto
  obtain buf' where w: "wr buf 16 0 = Inr buf'" using r(2) by simp
  from c_string_terminated [OF w] obtain s where "c_string buf' = Inr s" "length s \<le> 16" by blast
  with w r assms show ?thesis
    by (cases st) (simp_all add: sfpReadInfo_def c_string_def [of vendor])
qed

theorem sfp_vendor_unterminated_witness:
  "\<exists>st out x'. sfpReadInfo five_steps 2 (replicate 20 0xFF) idle_iic = Inr (st, [7, 6, 5, 4, 3, 2, 1] # out, x') \<and>
     list_all (\<lambda>part. length part \<le> 16) out"
proof -
  obtain x1 where w: "IicWriteData five_steps 0x74 [sfp_bus 2] 1 idle_iic = Inr (XST_SUCCESS, x1)"
    using transfers_responsive(4) [OF five_steps_responsive, of idle_iic 1 "[sfp_bus 2]"]
    by (auto simp: IIC_TIMEOUT_def idle_iic_def)
  have "handlers x1 = handlers idle_iic"
    using w by (auto simp: IicWriteData_def XIic_MasterSend_def split_beta split: if_splits)
  then have h: "{Irq_Send, Irq_Recv} \<subseteq> set (handlers x1)" by (simp add: idle_iic_def)
  from transfers_responsive(1) [OF five_steps_responsive _ h, of 17 "replicate 20 0xFF" "0x50" 20] obtain x2 where
    r: "IicReadData five_steps 0x50 20 (replicate 20 0xFF) 17 x1
      = Inr (XST_SUCCESS, store_received five_steps (replicate 20 0xFF) 17 x2, x2)"
    by (auto simp: IIC_TIMEOUT_def)
  have v: "store_received five_steps (replicate 20 0xFF) 17 x2 = [7, 6, 5, 4, 3, 2, 1, 0] @ replicate 12 0xFF"
    by (simp add: store_received_def five_steps_def upt_conv_Cons)
  from sfp_vendor_unterminated [OF _ w r] show ?thesis by (simp add: v)
qed

end
