(* ===== verification/CJson_Heap.thy ===== *)
theory CJson_Heap
  imports CJson_Parse
begin

text \<open>
  The memory of the tree-building half of SW-FB/cJSON.c: items linked by their \<open>next\<close>, \<open>prev\<close> and
  \<open>child\<close> pointers, and the strings they point to. A block's address is the number of the request
  that allocated it, so no address is used twice; a freed block is no longer there, and reading or
  freeing it is a fault. \<open>doc m a t F\<close> says that the item at address \<open>a\<close> is the root of the
  document \<open>t\<close> of \<open>CJson_Tree\<close>, whose blocks are exactly the set \<open>F\<close>.
\<close>

section \<open>Blocks and pointers\<close>

text \<open>A string is a block of the allocator, or storage the library does not own.\<close>

datatype sptr = Block nat | Static string

record 'd cell =
  c_next :: "nat option"
  c_prev :: "nat option"
  c_child :: "nat option"
  c_type :: u32
  c_valuestring :: "sptr option"
  c_valueint :: int
  c_valuedouble :: 'd
  c_string :: "sptr option"

datatype 'd block = Cell "'d cell" | Str string

type_synonym 'd mem = "nat \<rightharpoonup> 'd block"

record 'd heap =
  blocks :: "'d mem"
  asked :: nat          \<comment> \<open>requests made so far\<close>

text \<open>Request number \<open>n\<close> succeeds if \<open>ok n\<close>.\<close>

definition allocate :: "(nat \<Rightarrow> bool) \<Rightarrow> 'd block \<Rightarrow> 'd heap \<Rightarrow> nat option \<times> 'd heap" where
  "allocate ok b h =
     (if ok (asked h) then (Some (asked h), \<lparr>blocks = (blocks h)(asked h \<mapsto> b), asked = Suc (asked h)\<rparr>)
      else (None, h\<lparr>asked := Suc (asked h)\<rparr>))"

definition get_cell :: "'d heap \<Rightarrow> nat option \<Rightarrow> 'd cell res" where
  "get_cell h p =
     (case p of
        None \<Rightarrow> Inl (UB NullPtr)
      | Some a \<Rightarrow> (case blocks h a of Some (Cell c) \<Rightarrow> Inr c | _ \<Rightarrow> Inl (UB Dangling)))"

definition set_cell :: "('d cell \<Rightarrow> 'd cell) \<Rightarrow> nat option \<Rightarrow> 'd heap \<Rightarrow> 'd heap res" where
  "set_cell f p h = res_bind (get_cell h p) (\<lambda>c. Inr (h\<lparr>blocks := (blocks h)(the p \<mapsto> Cell (f c))\<rparr>))"

definition text_of :: "'d heap \<Rightarrow> sptr option \<Rightarrow> string res" where
  "text_of h p =
     (case p of
        None \<Rightarrow> Inl (UB NullPtr)
      | Some (Static s) \<Rightarrow> Inr s
      | Some (Block k) \<Rightarrow> (case blocks h k of Some (Str s) \<Rightarrow> Inr s | _ \<Rightarrow> Inl (UB Dangling)))"

definition free_block :: "nat \<Rightarrow> 'd heap \<Rightarrow> 'd heap res" where
  "free_block a h =
     (if blocks h a = None then Inl (UB Dangling) else Inr (h\<lparr>blocks := (blocks h)(a := None)\<rparr>))"

text \<open>\<open>if (s != NULL) deallocate(s)\<close>: storage the allocator did not give out cannot be freed.\<close>

definition free_text :: "sptr option \<Rightarrow> 'd heap \<Rightarrow> 'd heap res" where
  "free_text p h =
     (case p of
        None \<Rightarrow> Inr h
      | Some (Static s) \<Rightarrow> Inl (UB Dangling)
      | Some (Block k) \<Rightarrow> free_block k h)"

definition cJSON_strdup :: "(nat \<Rightarrow> bool) \<Rightarrow> sptr option \<Rightarrow> 'd heap \<Rightarrow> (sptr option \<times> 'd heap) res" where
  "cJSON_strdup ok s h =
     (if s = None then Inr (None, h)
      else res_bind (text_of h s) (\<lambda>x.
        case allocate ok (Str x) h of (p, h1) \<Rightarrow> Inr (map_option Block p, h1)))"

definition empty_cell :: "('d :: zero) cell" where
  "empty_cell = \<lparr>c_next = None, c_prev = None, c_child = None, c_type = cJSON_Invalid, c_valuestring = None,
     c_valueint = 0, c_valuedouble = 0, c_string = None\<rparr>"

definition cJSON_New_Item_p :: "(nat \<Rightarrow> bool) \<Rightarrow> ('d :: zero) heap \<Rightarrow> nat option \<times> 'd heap" where
  "cJSON_New_Item_p ok h = allocate ok (Cell empty_cell) h"

text \<open>
  \<open>cJSON_Delete\<close>. The item's fields are read again after its children are gone. Along a path of
  calls and iterations every item is either freed or an ancestor of the next, so a path longer
  than the number of requests comes back to an item: the fuel runs out only where the recursion
  of the code has no end.
\<close>

fun delete_items :: "nat \<Rightarrow> nat option \<Rightarrow> 'd heap \<Rightarrow> 'd heap res" where
  "delete_items fuel None h = Inr h"
| "delete_items 0 (Some a) h = Inl NoFuel"
| "delete_items (Suc fuel) (Some a) h =
     res_bind (get_cell h (Some a)) (\<lambda>c.
     res_bind (if c_type c AND cJSON_IsReference = 0 \<and> c_child c \<noteq> None
               then delete_items fuel (c_child c) h else Inr h) (\<lambda>h1.
     res_bind (get_cell h1 (Some a)) (\<lambda>c1.
     res_bind (if c_type c1 AND cJSON_IsReference = 0 then free_text (c_valuestring c1) h1 else Inr h1) (\<lambda>h2.
     res_bind (if c_type c1 AND cJSON_StringIsConst = 0 then free_text (c_string c1) h2 else Inr h2) (\<lambda>h3.
     res_bind (free_block a h3) (\<lambda>h4. delete_items fuel (c_next c) h4))))))"

definition cJSON_Delete_p :: "nat option \<Rightarrow> 'd heap \<Rightarrow> 'd heap res" where
  "cJSON_Delete_p item h = delete_items (asked h) item h"

section \<open>Chains of siblings\<close>

definition headp :: "'b option \<Rightarrow> 'b list \<Rightarrow> 'b option" where
  "headp n as = (case as of [] \<Rightarrow> n | a # _ \<Rightarrow> Some a)"

definition lastp :: "'b option \<Rightarrow> 'b list \<Rightarrow> 'b option" where
  "lastp q as = (if as = [] then q else Some (last as))"

lemma headp_simps [simp]: "headp n [] = n" "headp n (a # as) = Some a"
  by (simp_all add: headp_def)

lemma lastp_simps [simp]: "lastp q [] = q" "lastp q (as @ [a]) = Some a" "lastp q (a # as) = lastp (Some a) as"
  by (simp_all add: lastp_def)

lemma headp_append [simp]: "headp n (as @ bs) = headp (headp n bs) as"
  by (cases as) simp_all

text \<open>The items \<open>as\<close> are linked both ways; \<open>q\<close> is before the first and \<open>n\<close> after the last.\<close>

fun seg :: "'d mem \<Rightarrow> nat option \<Rightarrow> nat list \<Rightarrow> nat option \<Rightarrow> bool" where
  "seg m q [] n \<longleftrightarrow> True"
| "seg m q (a # as) n \<longleftrightarrow>
     (\<exists>c. m a = Some (Cell c) \<and> c_prev c = q \<and> c_next c = headp n as) \<and> seg m (Some a) as n"

lemma seg_append [simp]: "seg m q (as @ bs) n \<longleftrightarrow> seg m q as (headp n bs) \<and> seg m (lastp q as) bs n"
  by (induction as arbitrary: q) auto

lemma seg_frame: "(\<And>x. x \<in> set as \<Longrightarrow> m' x = m x) \<Longrightarrow> seg m' q as n = seg m q as n"
  by (induction as arbitrary: q) auto

lemma seg_upd [simp]: "x \<notin> set as \<Longrightarrow> seg (m(x := v)) q as n = seg m q as n"
  by (rule seg_frame) auto

lemma seg_cell: "seg m q as n \<Longrightarrow> a \<in> set as \<Longrightarrow> \<exists>c. m a = Some (Cell c)"
  by (induction as arbitrary: q) auto

section \<open>Documents in memory\<close>

text \<open>A key is owned unless its item says it is constant; then it is storage nobody frees.\<close>

definition key_at :: "'d mem \<Rightarrow> u32 \<Rightarrow> sptr option \<Rightarrow> string option \<Rightarrow> nat set \<Rightarrow> bool" where
  "key_at m ty p s K =
     (case p of
        None \<Rightarrow> s = None \<and> K = {}
      | Some (Static x) \<Rightarrow> ty AND cJSON_StringIsConst \<noteq> 0 \<and> s = Some x \<and> K = {}
      | Some (Block k) \<Rightarrow> ty AND cJSON_StringIsConst = 0 \<and> (\<exists>x. s = Some x \<and> m k = Some (Str x)) \<and> K = {k})"

text \<open>What a reference points to belongs to somebody else and is left out of the document.\<close>

definition value_at :: "'d mem \<Rightarrow> u32 \<Rightarrow> sptr option \<Rightarrow> string option \<Rightarrow> nat set \<Rightarrow> bool" where
  "value_at m ty p s V =
     (if ty AND cJSON_IsReference \<noteq> 0 then s = None \<and> V = {}
      else case p of
        None \<Rightarrow> s = None \<and> V = {}
      | Some (Static x) \<Rightarrow> False
      | Some (Block k) \<Rightarrow> (\<exists>x. s = Some x \<and> m k = Some (Str x)) \<and> V = {k})"

text \<open>The item itself with its strings, whatever its siblings; \<open>ch\<close> is its child pointer.\<close>

definition node_at :: "'d mem \<Rightarrow> nat \<Rightarrow> 'd cjson \<Rightarrow> nat option \<Rightarrow> nat set \<Rightarrow> bool" where
  "node_at m a t ch H \<longleftrightarrow>
     (\<exists>c K V. m a = Some (Cell c) \<and> c_type c = cj_type t \<and> c_valueint c = cj_valueint t \<and>
        c_valuedouble c = cj_valuedouble t \<and> key_at m (cj_type t) (c_string c) (cj_string t) K \<and>
        value_at m (cj_type t) (c_valuestring c) (cj_valuestring t) V \<and> c_child c = ch \<and>
        H = insert a (K \<union> V) \<and> a \<notin> K \<union> V \<and> K \<inter> V = {})"

inductive doc :: "'d mem \<Rightarrow> nat \<Rightarrow> 'd cjson \<Rightarrow> nat set \<Rightarrow> bool"
  and docs :: "'d mem \<Rightarrow> nat list \<Rightarrow> 'd cjson list \<Rightarrow> nat set \<Rightarrow> bool" for m where
  doc_own: "cj_type t AND cJSON_IsReference = 0 \<Longrightarrow> node_at m a t (headp None as) H \<Longrightarrow> seg m None as None \<Longrightarrow>
     docs m as (cj_child t) G \<Longrightarrow> H \<inter> G = {} \<Longrightarrow> doc m a t (H \<union> G)"
| doc_ref: "cj_type t AND cJSON_IsReference \<noteq> 0 \<Longrightarrow> node_at m a t ch H \<Longrightarrow> cj_child t = [] \<Longrightarrow> doc m a t H"
| docs_Nil: "docs m [] [] {}"
| docs_Cons: "doc m a t F \<Longrightarrow> docs m as ts G \<Longrightarrow> F \<inter> G = {} \<Longrightarrow> docs m (a # as) (t # ts) (F \<union> G)"

inductive_cases docE: "doc m a t F"
inductive_cases docs_NilE: "docs m [] ts F"
inductive_cases docs_ConsE: "docs m (a # as) ts F"
inductive_simps docs_Nil_iff [simp]: "docs m [] ts F"
inductive_simps docs_Cons_iff: "docs m (a # as) ts F"

text \<open>The addresses in use were all given out.\<close>

definition heap_ok :: "'d heap \<Rightarrow> bool" where
  "heap_ok h \<longleftrightarrow> dom (blocks h) \<subseteq> {..<asked h}"

text \<open>What an item says, apart from where it is linked; and the same with its child pointer.\<close>

definition cell_data :: "'d cell \<Rightarrow> u32 \<times> sptr option \<times> int \<times> 'd \<times> sptr option" where
  "cell_data c = (c_type c, c_valuestring c, c_valueint c, c_valuedouble c, c_string c)"

definition same_item :: "'d block option \<Rightarrow> 'd block option \<Rightarrow> bool" where
  "same_item b b' \<longleftrightarrow>
     (\<exists>c c'. b = Some (Cell c) \<and> b' = Some (Cell c') \<and> cell_data c' = cell_data c \<and> c_child c' = c_child c)"

lemma node_at_cell: "node_at m a t ch H \<Longrightarrow> \<exists>c. m a = Some (Cell c) \<and> c_type c = cj_type t \<and> c_child c = ch"
  by (auto simp: node_at_def)

lemma key_at_dom: "key_at m ty p s K \<Longrightarrow> K \<subseteq> dom m \<and> finite K"
  by (auto simp: key_at_def split: option.splits sptr.splits)

lemma value_at_dom: "value_at m ty p s V \<Longrightarrow> V \<subseteq> dom m \<and> finite V"
  by (auto simp: value_at_def split: option.splits sptr.splits if_splits)

lemma node_at_dom: "node_at m a t ch H \<Longrightarrow> a \<in> H \<and> H \<subseteq> dom m \<and> finite H"
  by (auto simp: node_at_def dest!: key_at_dom value_at_dom)

lemma key_at_frame: "key_at m ty p s K \<Longrightarrow> (\<And>x. x \<in> K \<Longrightarrow> m' x = m x) \<Longrightarrow> key_at m' ty p s K"
  by (auto simp: key_at_def split: option.splits sptr.splits)

lemma value_at_frame: "value_at m ty p s V \<Longrightarrow> (\<And>x. x \<in> V \<Longrightarrow> m' x = m x) \<Longrightarrow> value_at m' ty p s V"
  by (auto simp: value_at_def split: option.splits sptr.splits if_splits)

lemma node_at_data:
  assumes n: "node_at m a t ch H" and same: "\<And>x. x \<in> H - {a} \<Longrightarrow> m' x = m x"
    and c: "m a = Some (Cell c)" "m' a = Some (Cell c')" "cell_data c' = cell_data c"
    and t: "cj_type t' = cj_type t" "cj_valuestring t' = cj_valuestring t" "cj_valueint t' = cj_valueint t"
      "cj_valuedouble t' = cj_valuedouble t" "cj_string t' = cj_string t"
  shows "node_at m' a t' (c_child c') H"
proof -
  obtain K V where k: "key_at m (cj_type t) (c_string c) (cj_string t) K"
    and v: "value_at m (cj_type t) (c_valuestring c) (cj_valuestring t) V"
    and H: "H = insert a (K \<union> V)" "a \<notin> K \<union> V" "K \<inter> V = {}"
    and d: "c_type c = cj_type t" "c_valueint c = cj_valueint t" "c_valuedouble c = cj_valuedouble t"
    using n c(1) by (auto simp: node_at_def)
  have "key_at m' (cj_type t) (c_string c) (cj_string t) K"
    by (rule key_at_frame [OF k], rule same) (use H in auto)
  moreover have "value_at m' (cj_type t) (c_valuestring c) (cj_valuestring t) V"
    by (rule value_at_frame [OF v], rule same) (use H in auto)
  ultimately show ?thesis
    using H d c t unfolding node_at_def cell_data_def by auto
qed

lemma node_at_frame:
  assumes "node_at m a t ch H" and "\<And>x. x \<in> H \<Longrightarrow> m' x = m x"
  shows "node_at m' a t ch H"
proof -
  obtain c where c: "m a = Some (Cell c)" "c_child c = ch" using node_at_cell [OF assms(1)] by auto
  have "m' a = m a" using assms node_at_dom by blast
  then show ?thesis
    using node_at_data [OF assms(1), where m' = m' and c = c and c' = c and t' = t] c assms(2) by auto
qed

lemma doc_dom: "doc m a t F \<Longrightarrow> a \<in> F \<and> F \<subseteq> dom m \<and> finite F"
  and docs_dom: "docs m as ts F \<Longrightarrow> set as \<subseteq> F \<and> F \<subseteq> dom m \<and> finite F \<and> distinct as \<and> length as = length ts"
  by (induction rule: doc_docs.inducts) (auto dest!: node_at_dom)

lemma doc_cell: "doc m a t F \<Longrightarrow> \<exists>c. m a = Some (Cell c) \<and> c_type c = cj_type t"
  by (erule docE) (auto dest!: node_at_cell)

lemma doc_frame: "doc m a t F \<Longrightarrow> (\<And>x. x \<in> F \<Longrightarrow> m' x = m x) \<Longrightarrow> doc m' a t F"
  and docs_frame: "docs m as ts F \<Longrightarrow> (\<And>x. x \<in> F \<Longrightarrow> m' x = m x) \<Longrightarrow> docs m' as ts F"
proof (induction rule: doc_docs.inducts)
  case (doc_own t a as H G)
  have d: "docs m as (cj_child t) G" and n: "node_at m a t (headp None as) H" and s: "seg m None as None"
    using doc_own by blast+
  have "seg m' None as None"
    using s seg_frame [of as m' m None None] docs_dom [OF d] doc_own.prems by blast
  moreover have "node_at m' a t (headp None as) H"
    by (rule node_at_frame [OF n]) (simp add: doc_own.prems)
  moreover have "docs m' as (cj_child t) G" using doc_own by blast
  ultimately show ?case using doc_own by (intro doc_docs.doc_own)
next
  case (doc_ref t a ch H)
  then show ?case using node_at_frame [of m a t ch H m'] by (auto intro: doc_docs.doc_ref)
next
  case docs_Nil
  then show ?case by (simp add: doc_docs.docs_Nil)
next
  case (docs_Cons a t F as ts G)
  then show ?case by (auto intro: doc_docs.docs_Cons)
qed

text \<open>Linking the root of a document elsewhere leaves it the document it is.\<close>

lemma doc_relink:
  assumes d: "doc m a t F" and same: "\<And>x. x \<in> F - {a} \<Longrightarrow> m' x = m x" and a: "same_item (m a) (m' a)"
  shows "doc m' a t F"
proof -
  obtain c c' where c: "m a = Some (Cell c)" "m' a = Some (Cell c')" "cell_data c' = cell_data c" "c_child c' = c_child c"
    using a by (auto simp: same_item_def)
  show ?thesis
  proof (rule docE [OF d])
    fix as H G assume h: "F = H \<union> G" "cj_type t AND cJSON_IsReference = 0" "node_at m a t (headp None as) H"
      "seg m None as None" "docs m as (cj_child t) G" "H \<inter> G = {}"
    have a: "a \<in> H" using node_at_dom [OF h(3)] by simp
    have n: "node_at m' a t (headp None as) H"
      using node_at_data [OF h(3), where m' = m' and c = c and c' = c' and t' = t] node_at_cell [OF h(3)] c same h(1)
      by auto
    have G: "\<And>x. x \<in> G \<Longrightarrow> m' x = m x" using same h(1,6) a by blast
    have "seg m' None as None" using h(4) seg_frame [of as m' m] G docs_dom [OF h(5)] by blast
    then show ?thesis using h n docs_frame [OF h(5) G] by (auto intro: doc_own)
  next
    fix ch assume h: "cj_type t AND cJSON_IsReference \<noteq> 0" "node_at m a t ch F" "cj_child t = []"
    have "node_at m' a t ch F"
      using node_at_data [OF h(2), where m' = m' and c = c and c' = c' and t' = t] node_at_cell [OF h(2)] c same
      by auto
    then show ?thesis using h by (auto intro: doc_ref)
  qed
qed

lemma docs_relink:
  "docs m as ts F \<Longrightarrow> (\<And>x. x \<in> F - set as \<Longrightarrow> m' x = m x) \<Longrightarrow> (\<And>a. a \<in> set as \<Longrightarrow> same_item (m a) (m' a)) \<Longrightarrow>
   docs m' as ts F"
proof (induction as arbitrary: ts F)
  case Nil
  then show ?case by (simp add: docs_Nil)
next
  case (Cons a as)
  obtain t ts' F1 F2 where d: "ts = t # ts'" "F = F1 \<union> F2" "doc m a t F1" "docs m as ts' F2" "F1 \<inter> F2 = {}"
    using Cons.prems(1) by (auto elim: docs_ConsE)
  have as: "set as \<subseteq> F2" "a \<in> F1" using docs_dom [OF d(4)] doc_dom [OF d(3)] by auto
  have "doc m' a t F1" by (rule doc_relink [OF d(3)]) (use Cons.prems as d in auto)
  moreover have "docs m' as ts' F2" by (rule Cons.IH [OF d(4)]) (use Cons.prems as d in auto)
  ultimately show ?case using d by (auto intro: docs_Cons)
qed

section \<open>Deleting a document\<close>

definition without :: "nat set \<Rightarrow> 'd heap \<Rightarrow> 'd heap" where
  "without F h = h\<lparr>blocks := blocks h |` (- F)\<rparr>"

lemma blocks_without [simp]: "blocks (without F h) x = (if x \<in> F then None else blocks h x)"
  by (simp add: without_def restrict_map_def)

lemma without_empty [simp]: "without {} h = h"
  by (simp add: without_def restrict_map_def)

lemma without_without [simp]: "without A (without B h) = without (B \<union> A) h"
  by (simp add: without_def Int_commute)

lemma asked_without [simp]: "asked (without F h) = asked h"
  by (simp add: without_def)

lemma free_block_without: "blocks h a \<noteq> None \<Longrightarrow> free_block a h = Inr (without {a} h)"
  by (simp add: free_block_def without_def restrict_complement_singleton_eq)

lemma free_value:
  assumes "value_at m ty p s V" and "\<And>x. x \<in> V \<Longrightarrow> blocks h x = m x"
  shows "(if ty AND cJSON_IsReference = 0 then free_text p h else Inr h) = Inr (without V h)"
  using assms by (auto simp: value_at_def free_text_def free_block_without split: option.splits sptr.splits if_splits)

lemma free_key:
  assumes "key_at m ty p s K" and "\<And>x. x \<in> K \<Longrightarrow> blocks h x = m x"
  shows "(if ty AND cJSON_StringIsConst = 0 then free_text p h else Inr h) = Inr (without K h)"
  using assms by (auto simp: key_at_def free_text_def free_block_without split: option.splits sptr.splits)

lemma free_node:
  assumes n: "node_at m a t ch H" and c: "m a = Some (Cell c)" and same: "\<And>x. x \<in> H \<Longrightarrow> blocks h x = m x"
  shows "res_bind (if c_type c AND cJSON_IsReference = 0 then free_text (c_valuestring c) h else Inr h) (\<lambda>h2.
     res_bind (if c_type c AND cJSON_StringIsConst = 0 then free_text (c_string c) h2 else Inr h2) (\<lambda>h3.
     res_bind (free_block a h3) k)) = k (without H h)"
proof -
  obtain K V where k: "key_at m (c_type c) (c_string c) (cj_string t) K"
    and v: "value_at m (c_type c) (c_valuestring c) (cj_valuestring t) V"
    and H: "H = insert a (K \<union> V)" "a \<notin> K \<union> V" "K \<inter> V = {}"
    using n c by (auto simp: node_at_def)
  have 1: "(if c_type c AND cJSON_IsReference = 0 then free_text (c_valuestring c) h else Inr h) = Inr (without V h)"
    by (rule free_value [OF v]) (use H same in auto)
  have 2: "(if c_type c AND cJSON_StringIsConst = 0 then free_text (c_string c) (without V h) else Inr (without V h))
      = Inr (without (V \<union> K) h)"
    using free_key [OF k, of "without V h"] H same by (auto simp: disjoint_iff)
  have "blocks (without (V \<union> K) h) a \<noteq> None" using H same [of a] c by auto
  moreover have "V \<union> K \<union> {a} = H" using H by auto
  ultimately have "free_block a (without (V \<union> K) h) = Inr (without H h)"
    by (metis free_block_without without_without)
  then show ?thesis unfolding 1 res_bind_simps 2 by simp
qed

lemma delete_doc:
  "doc m a t F \<Longrightarrow> (\<And>x. x \<in> F \<Longrightarrow> blocks h x = m x) \<Longrightarrow> m a = Some (Cell c) \<Longrightarrow> card F \<le> Suc n \<Longrightarrow>
     delete_items (Suc n) (Some a) h = delete_items n (c_next c) (without F h)"
  and delete_docs:
  "docs m as ts F \<Longrightarrow> (\<And>x. x \<in> F \<Longrightarrow> blocks h' x = m x) \<Longrightarrow> seg m q as None \<Longrightarrow> card F \<le> n' \<Longrightarrow>
     delete_items n' (headp None as) h' = Inr (without F h')"
proof (induction arbitrary: h c n and h' q n' rule: doc_docs.inducts)
  case (doc_own t a as H G)
  have d: "docs m as (cj_child t) G" and nd: "node_at m a t (headp None as) H" and s: "seg m None as None"
    and dis: "H \<inter> G = {}" and ty: "cj_type t AND cJSON_IsReference = 0"
    using doc_own by blast+
  have a: "a \<in> H" "finite H" and G: "finite G" using node_at_dom [OF nd] docs_dom [OF d] by auto
  have c: "c_type c = cj_type t" "c_child c = headp None as" using node_at_cell [OF nd] doc_own.prems(2) by auto
  have "card (H \<union> G) = card H + card G" using a G dis by (simp add: card_Un_disjoint)
  moreover have "0 < card H" using a by (auto simp: card_gt_0_iff)
  ultimately have n: "card G \<le> n" using doc_own.prems(3) by simp
  have "delete_items n (headp None as) h = Inr (without G h)"
    by (rule doc_own.IH) (use doc_own.prems s n in auto)
  moreover have "G = {}" if "as = []" using d that by simp
  ultimately have 1: "(if c_type c AND cJSON_IsReference = 0 \<and> c_child c \<noteq> None then delete_items n (c_child c) h
      else Inr h) = Inr (without G h)"
    using c ty by (cases as) auto
  have "get_cell h (Some a) = Inr c" "get_cell (without G h) (Some a) = Inr c"
    using doc_own.prems a dis by (auto simp: get_cell_def disjoint_iff)
  moreover note free_node [OF nd doc_own.prems(2), of "without G h" "delete_items n (c_next c)"]
  ultimately show ?case using 1 dis doc_own.prems(1) by (simp add: Un_commute disjoint_iff)
next
  case (doc_ref t a ch H)
  have nd: "node_at m a t ch H" and ty: "cj_type t AND cJSON_IsReference \<noteq> 0" using doc_ref by blast+
  have c: "c_type c = cj_type t" "a \<in> H" using node_at_cell [OF nd] node_at_dom [OF nd] doc_ref.prems(2) by auto
  have "get_cell h (Some a) = Inr c" using doc_ref.prems c by (simp add: get_cell_def)
  with free_node [OF nd doc_ref.prems(2), of h "delete_items n (c_next c)"] show ?case
    using c ty doc_ref.prems(1) by simp
next
  case docs_Nil
  then show ?case by simp
next
  case (docs_Cons a t F as ts G)
  have d: "docs m as ts G" "doc m a t F" "F \<inter> G = {}" using docs_Cons by blast+
  obtain c where c: "m a = Some (Cell c)" "c_next c = headp None as" "seg m (Some a) as None"
    using docs_Cons.prems(2) by auto
  have fin: "a \<in> F" "finite F" "finite G" using doc_dom [OF d(2)] docs_dom [OF d(1)] by auto
  have "card (F \<union> G) = card F + card G" using fin d by (simp add: card_Un_disjoint)
  moreover have "0 < card F" using fin by (auto simp: card_gt_0_iff)
  ultimately obtain n where n: "n' = Suc n" "card F \<le> Suc n" "card G \<le> n" 
    using docs_Cons.prems(3) by (cases n') auto
  have "delete_items (Suc n) (Some a) h' = delete_items n (c_next c) (without F h')"
    by (rule docs_Cons.IH) (use docs_Cons.prems c n in auto)
  also have "\<dots> = Inr (without G (without F h'))"
    unfolding c(2) by (rule docs_Cons.IH) (use docs_Cons.prems c n d in auto)
  finally show ?case using n by simp
qed

lemma heap_ok_card: "heap_ok h \<Longrightarrow> F \<subseteq> dom (blocks h) \<Longrightarrow> card F \<le> asked h"
  unfolding heap_ok_def using card_mono [of "{..<asked h}" F] by auto

text \<open>Deleting a detached document frees its blocks and nothing else.\<close>

lemma delete_frees:
  assumes "heap_ok h" and d: "doc (blocks h) a t F" and c: "blocks h a = Some (Cell c)" "c_next c = None"
  shows "cJSON_Delete_p (Some a) h = Inr (without F h)"
proof -
  have "a \<in> F" "finite F" and n: "card F \<le> asked h" using doc_dom [OF d] heap_ok_card assms(1) by auto
  then have "0 < card F" by (auto simp: card_gt_0_iff)
  with n obtain k where k: "asked h = Suc k" by (cases "asked h") auto
  show ?thesis
    unfolding cJSON_Delete_p_def k using delete_doc [OF d _ c(1), of h k] n k c by simp
qed

end
