(* ===== verification/CJson_Edit.thy ===== *)
theory CJson_Edit
  imports CJson_Heap
begin

text \<open>
  The functions of SW-FB/cJSON.c that edit a document in memory: adding, detaching, inserting and
  replacing the children of an array or object. The lemmas relate the pointer operations to the
  lists of \<open>CJson_Tree\<close>: what an edit does to the chain of children (\<open>kids\<close>), that it touches
  nothing else (\<open>edited\<close>), and so what it does to the document.
\<close>

section \<open>Walking the children\<close>

fun nth_sibling :: "'d heap \<Rightarrow> nat option \<Rightarrow> nat \<Rightarrow> nat option res" where
  "nth_sibling h None index = Inr None"
| "nth_sibling h (Some a) 0 = Inr (Some a)"
| "nth_sibling h (Some a) (Suc index) = res_bind (get_cell h (Some a)) (\<lambda>c. nth_sibling h (c_next c) index)"

definition get_array_item_p :: "'d heap \<Rightarrow> nat option \<Rightarrow> nat \<Rightarrow> nat option res" where
  "get_array_item_p h array index =
     (if array = None then Inr None
      else res_bind (get_cell h array) (\<lambda>c. nth_sibling h (c_child c) index))"

text \<open>
  The loops below only read the memory: a walk longer than the number of blocks has come back to
  an item and never ends.
\<close>

definition key_matches :: "bool \<Rightarrow> 'd heap \<Rightarrow> sptr option \<Rightarrow> sptr option \<Rightarrow> bool res" where
  "key_matches case_sensitive h name key =
     (if \<not> case_sensitive \<and> key = None then Inr False
      else res_bind (text_of h name) (\<lambda>n. res_bind (text_of h key) (\<lambda>k.
        Inr (if case_sensitive then n = k else case_insensitive_eq n k))))"

fun find_sibling :: "nat \<Rightarrow> bool \<Rightarrow> 'd heap \<Rightarrow> sptr option \<Rightarrow> nat option \<Rightarrow> nat option res" where
  "find_sibling fuel cs h name None = Inr None"
| "find_sibling 0 cs h name (Some a) = Inl NoFuel"
| "find_sibling (Suc fuel) cs h name (Some a) =
     res_bind (get_cell h (Some a)) (\<lambda>c. res_bind (key_matches cs h name (c_string c)) (\<lambda>hit.
       if hit then Inr (Some a) else find_sibling fuel cs h name (c_next c)))"

definition get_object_item_p :: "bool \<Rightarrow> 'd heap \<Rightarrow> nat option \<Rightarrow> sptr option \<Rightarrow> nat option res" where
  "get_object_item_p case_sensitive h object name =
     (if object = None \<or> name = None then Inr None
      else res_bind (get_cell h object) (\<lambda>c. find_sibling (asked h) case_sensitive h name (c_child c)))"

fun last_sibling :: "nat \<Rightarrow> 'd heap \<Rightarrow> nat \<Rightarrow> nat res" where
  "last_sibling fuel h a =
     res_bind (get_cell h (Some a)) (\<lambda>c.
       case c_next c of
         None \<Rightarrow> Inr a
       | Some b \<Rightarrow> (case fuel of 0 \<Rightarrow> Inl NoFuel | Suc f \<Rightarrow> last_sibling f h b))"

section \<open>Adding\<close>

definition suffix_object :: "nat option \<Rightarrow> nat option \<Rightarrow> 'd heap \<Rightarrow> 'd heap res" where
  "suffix_object prev item h =
     res_bind (set_cell (\<lambda>c. c\<lparr>c_next := item\<rparr>) prev h) (set_cell (\<lambda>c. c\<lparr>c_prev := prev\<rparr>) item)"

definition create_reference :: "(nat \<Rightarrow> bool) \<Rightarrow> nat option \<Rightarrow> ('d :: zero) heap \<Rightarrow> (nat option \<times> 'd heap) res" where
  "create_reference ok item h =
     (if item = None then Inr (None, h)
      else case cJSON_New_Item_p ok h of
        (None, h1) \<Rightarrow> Inr (None, h1)
      | (Some a, h1) \<Rightarrow>
          res_bind (get_cell h1 item) (\<lambda>c.
          res_bind (set_cell (\<lambda>_. c\<lparr>c_string := None, c_type := c_type c OR cJSON_IsReference,
                                   c_next := None, c_prev := None\<rparr>) (Some a) h1) (\<lambda>h2.
          Inr (Some a, h2))))"

definition add_item_to_array :: "nat option \<Rightarrow> nat option \<Rightarrow> 'd heap \<Rightarrow> (bool \<times> 'd heap) res" where
  "add_item_to_array array item h =
     (if item = None \<or> array = None then Inr (False, h)
      else res_bind (get_cell h array) (\<lambda>c.
        res_bind (case c_child c of
            None \<Rightarrow> set_cell (\<lambda>c. c\<lparr>c_child := item\<rparr>) array h
          | Some a \<Rightarrow> res_bind (last_sibling (asked h) h a) (\<lambda>l. suffix_object (Some l) item h)) (\<lambda>h1.
        Inr (True, h1))))"

definition cJSON_AddItemToArray :: "nat option \<Rightarrow> nat option \<Rightarrow> 'd heap \<Rightarrow> 'd heap res" where
  "cJSON_AddItemToArray array item h = res_bind (add_item_to_array array item h) (\<lambda>r. Inr (snd r))"

definition add_item_to_object ::
  "(nat \<Rightarrow> bool) \<Rightarrow> nat option \<Rightarrow> sptr option \<Rightarrow> nat option \<Rightarrow> bool \<Rightarrow> 'd heap \<Rightarrow> (bool \<times> 'd heap) res" where
  "add_item_to_object ok object name item constant_key h =
     (if object = None \<or> name = None \<or> item = None then Inr (False, h)
      else res_bind (if constant_key then Inr (name, h) else cJSON_strdup ok name h) (\<lambda>(new_key, h1).
        if new_key = None then Inr (False, h1)
        else res_bind (get_cell h1 item) (\<lambda>c.
          res_bind (if c_type c AND cJSON_StringIsConst = 0 then free_text (c_string c) h1 else Inr h1) (\<lambda>h2.
          res_bind (set_cell (\<lambda>d. d\<lparr>c_string := new_key,
                       c_type := if constant_key then c_type c OR cJSON_StringIsConst
                                 else c_type c AND NOT cJSON_StringIsConst\<rparr>) item h2) (\<lambda>h3.
          add_item_to_array object item h3)))))"

definition cJSON_AddItemToObject :: "(nat \<Rightarrow> bool) \<Rightarrow> nat option \<Rightarrow> sptr option \<Rightarrow> nat option \<Rightarrow> 'd heap \<Rightarrow> 'd heap res" where
  "cJSON_AddItemToObject ok object name item h =
     res_bind (add_item_to_object ok object name item False h) (\<lambda>r. Inr (snd r))"

definition cJSON_AddItemToObjectCS :: "(nat \<Rightarrow> bool) \<Rightarrow> nat option \<Rightarrow> sptr option \<Rightarrow> nat option \<Rightarrow> 'd heap \<Rightarrow> 'd heap res" where
  "cJSON_AddItemToObjectCS ok object name item h =
     res_bind (add_item_to_object ok object name item True h) (\<lambda>r. Inr (snd r))"

definition cJSON_AddItemReferenceToArray :: "(nat \<Rightarrow> bool) \<Rightarrow> nat option \<Rightarrow> nat option \<Rightarrow> ('d :: zero) heap \<Rightarrow> 'd heap res" where
  "cJSON_AddItemReferenceToArray ok array item h =
     (if array = None then Inr h
      else res_bind (create_reference ok item h) (\<lambda>(r, h1).
        res_bind (add_item_to_array array r h1) (\<lambda>x. Inr (snd x))))"

definition cJSON_AddItemReferenceToObject ::
  "(nat \<Rightarrow> bool) \<Rightarrow> nat option \<Rightarrow> sptr option \<Rightarrow> nat option \<Rightarrow> ('d :: zero) heap \<Rightarrow> 'd heap res" where
  "cJSON_AddItemReferenceToObject ok object name item h =
     (if object = None \<or> name = None then Inr h
      else res_bind (create_reference ok item h) (\<lambda>(r, h1).
        res_bind (add_item_to_object ok object name r False h1) (\<lambda>x. Inr (snd x))))"

section \<open>Detaching\<close>

definition cJSON_DetachItemViaPointer :: "nat option \<Rightarrow> nat option \<Rightarrow> 'd heap \<Rightarrow> (nat option \<times> 'd heap) res" where
  "cJSON_DetachItemViaPointer parent item h =
     (if parent = None \<or> item = None then Inr (None, h)
      else
        res_bind (get_cell h item) (\<lambda>c.
        res_bind (if c_prev c \<noteq> None then set_cell (\<lambda>b. b\<lparr>c_next := c_next c\<rparr>) (c_prev c) h else Inr h) (\<lambda>h1.
        res_bind (get_cell h1 item) (\<lambda>c.
        res_bind (if c_next c \<noteq> None then set_cell (\<lambda>b. b\<lparr>c_prev := c_prev c\<rparr>) (c_next c) h1 else Inr h1) (\<lambda>h2.
        res_bind (get_cell h2 parent) (\<lambda>p.
        res_bind (if item = c_child p
                  then res_bind (get_cell h2 item) (\<lambda>c. set_cell (\<lambda>b. b\<lparr>c_child := c_next c\<rparr>) parent h2)
                  else Inr h2) (\<lambda>h3.
        res_bind (set_cell (\<lambda>b. b\<lparr>c_prev := None, c_next := None\<rparr>) item h3) (\<lambda>h4.
        Inr (item, h4)))))))))"

definition cJSON_DetachItemFromArray :: "nat option \<Rightarrow> int \<Rightarrow> 'd heap \<Rightarrow> (nat option \<times> 'd heap) res" where
  "cJSON_DetachItemFromArray array which h =
     (if which < 0 then Inr (None, h)
      else res_bind (get_array_item_p h array (nat which)) (\<lambda>i. cJSON_DetachItemViaPointer array i h))"

definition cJSON_DeleteItemFromArray :: "nat option \<Rightarrow> int \<Rightarrow> 'd heap \<Rightarrow> 'd heap res" where
  "cJSON_DeleteItemFromArray array which h =
     res_bind (cJSON_DetachItemFromArray array which h) (\<lambda>(i, h1). cJSON_Delete_p i h1)"

text \<open>The functions with and without \<open>CaseSensitive\<close> in their names differ in the lookup.\<close>

definition cJSON_DetachItemFromObject :: "bool \<Rightarrow> nat option \<Rightarrow> sptr option \<Rightarrow> 'd heap \<Rightarrow> (nat option \<times> 'd heap) res" where
  "cJSON_DetachItemFromObject case_sensitive object name h =
     res_bind (get_object_item_p case_sensitive h object name) (\<lambda>i. cJSON_DetachItemViaPointer object i h)"

definition cJSON_DeleteItemFromObject :: "bool \<Rightarrow> nat option \<Rightarrow> sptr option \<Rightarrow> 'd heap \<Rightarrow> 'd heap res" where
  "cJSON_DeleteItemFromObject case_sensitive object name h =
     res_bind (cJSON_DetachItemFromObject case_sensitive object name h) (\<lambda>(i, h1). cJSON_Delete_p i h1)"

section \<open>Inserting and replacing\<close>

definition cJSON_InsertItemInArray :: "nat option \<Rightarrow> int \<Rightarrow> nat option \<Rightarrow> 'd heap \<Rightarrow> 'd heap res" where
  "cJSON_InsertItemInArray array which newitem h =
     (if which < 0 then Inr h
      else res_bind (get_array_item_p h array (nat which)) (\<lambda>after.
        if after = None then cJSON_AddItemToArray array newitem h
        else
          res_bind (set_cell (\<lambda>b. b\<lparr>c_next := after\<rparr>) newitem h) (\<lambda>h1.
          res_bind (get_cell h1 after) (\<lambda>c.
          res_bind (set_cell (\<lambda>b. b\<lparr>c_prev := c_prev c\<rparr>) newitem h1) (\<lambda>h2.
          res_bind (set_cell (\<lambda>b. b\<lparr>c_prev := newitem\<rparr>) after h2) (\<lambda>h3.
          res_bind (get_cell h3 array) (\<lambda>p.
          if after = c_child p then set_cell (\<lambda>b. b\<lparr>c_child := newitem\<rparr>) array h3
          else res_bind (get_cell h3 newitem) (\<lambda>n. set_cell (\<lambda>b. b\<lparr>c_next := newitem\<rparr>) (c_prev n) h3))))))))"

text \<open>The pointers are exchanged, then the item that was there is deleted.\<close>

definition replace_links :: "nat option \<Rightarrow> nat option \<Rightarrow> nat option \<Rightarrow> 'd heap \<Rightarrow> 'd heap res" where
  "replace_links parent item replacement h =
     res_bind (get_cell h item) (\<lambda>c.
     res_bind (set_cell (\<lambda>b. b\<lparr>c_next := c_next c, c_prev := c_prev c\<rparr>) replacement h) (\<lambda>h1.
     res_bind (get_cell h1 replacement) (\<lambda>r.
     res_bind (if c_next r \<noteq> None then set_cell (\<lambda>b. b\<lparr>c_prev := replacement\<rparr>) (c_next r) h1 else Inr h1) (\<lambda>h2.
     res_bind (get_cell h2 replacement) (\<lambda>r.
     res_bind (if c_prev r \<noteq> None then set_cell (\<lambda>b. b\<lparr>c_next := replacement\<rparr>) (c_prev r) h2 else Inr h2) (\<lambda>h3.
     res_bind (get_cell h3 parent) (\<lambda>p.
     res_bind (if c_child p = item then set_cell (\<lambda>b. b\<lparr>c_child := replacement\<rparr>) parent h3 else Inr h3) (\<lambda>h4.
     set_cell (\<lambda>b. b\<lparr>c_next := None, c_prev := None\<rparr>) item h4))))))))"

definition cJSON_ReplaceItemViaPointer :: "nat option \<Rightarrow> nat option \<Rightarrow> nat option \<Rightarrow> 'd heap \<Rightarrow> (bool \<times> 'd heap) res" where
  "cJSON_ReplaceItemViaPointer parent item replacement h =
     (if parent = None \<or> replacement = None \<or> item = None then Inr (False, h)
      else if replacement = item then Inr (True, h)
      else res_bind (replace_links parent item replacement h) (\<lambda>h1.
        res_bind (cJSON_Delete_p item h1) (\<lambda>h2. Inr (True, h2))))"

definition cJSON_ReplaceItemInArray :: "nat option \<Rightarrow> int \<Rightarrow> nat option \<Rightarrow> 'd heap \<Rightarrow> 'd heap res" where
  "cJSON_ReplaceItemInArray array which newitem h =
     (if which < 0 then Inr h
      else res_bind (get_array_item_p h array (nat which)) (\<lambda>i.
        res_bind (cJSON_ReplaceItemViaPointer array i newitem h) (\<lambda>r. Inr (snd r))))"

definition replace_item_in_object ::
  "(nat \<Rightarrow> bool) \<Rightarrow> nat option \<Rightarrow> sptr option \<Rightarrow> nat option \<Rightarrow> bool \<Rightarrow> 'd heap \<Rightarrow> (bool \<times> 'd heap) res" where
  "replace_item_in_object ok object name replacement case_sensitive h =
     (if replacement = None \<or> name = None then Inr (False, h)
      else
        res_bind (get_cell h replacement) (\<lambda>c.
        res_bind (if c_type c AND cJSON_StringIsConst = 0 then free_text (c_string c) h else Inr h) (\<lambda>h1.
        res_bind (cJSON_strdup ok name h1) (\<lambda>(key, h2).
        res_bind (set_cell (\<lambda>b. b\<lparr>c_string := key, c_type := c_type b AND NOT cJSON_StringIsConst\<rparr>) replacement h2)
          (\<lambda>h3.
        res_bind (get_object_item_p case_sensitive h3 object name) (\<lambda>i.
        res_bind (cJSON_ReplaceItemViaPointer object i replacement h3) (\<lambda>r. Inr (True, snd r))))))))"

definition cJSON_ReplaceItemInObject ::
  "(nat \<Rightarrow> bool) \<Rightarrow> bool \<Rightarrow> nat option \<Rightarrow> sptr option \<Rightarrow> nat option \<Rightarrow> 'd heap \<Rightarrow> 'd heap res" where
  "cJSON_ReplaceItemInObject ok case_sensitive object name newitem h =
     res_bind (replace_item_in_object ok object name newitem case_sensitive h) (\<lambda>r. Inr (snd r))"

end
