(* ===== verification/CJson_Edit_Props.thy ===== *)
theory CJson_Edit_Props
  imports CJson_Edit
begin

text \<open>
  What the edits do: to the chain of an item's children (\<open>kids\<close>), which pointers they touch
  (\<open>edited\<close>), and so to the document and its blocks (\<open>becomes\<close>).
\<close>

section \<open>What an edit does to the chain\<close>

text \<open>The children of the item at \<open>p\<close>, in order; an item in no chain.\<close>

definition kids :: "'d mem \<Rightarrow> nat \<Rightarrow> nat list \<Rightarrow> bool" where
  "kids m p as \<longleftrightarrow>
     (\<exists>c. m p = Some (Cell c) \<and> c_child c = headp None as) \<and> seg m None as None \<and> distinct as \<and> p \<notin> set as"

definition detached :: "'d mem \<Rightarrow> nat \<Rightarrow> bool" where
  "detached m a \<longleftrightarrow> (\<exists>c. m a = Some (Cell c) \<and> c_next c = None \<and> c_prev c = None)"

text \<open>Only the links of the items in \<open>S\<close> and the child pointer of \<open>p\<close> differ.\<close>

definition edited :: "'d mem \<Rightarrow> nat \<Rightarrow> nat set \<Rightarrow> 'd mem \<Rightarrow> bool" where
  "edited m p S m' \<longleftrightarrow>
     (\<forall>x. x \<notin> insert p S \<longrightarrow> m' x = m x) \<and> (\<forall>x \<in> S. same_item (m x) (m' x)) \<and>
     (\<exists>c c'. m p = Some (Cell c) \<and> m' p = Some (Cell c') \<and> cell_data c' = cell_data c \<and>
        c_next c' = c_next c \<and> c_prev c' = c_prev c)"

lemma get_cell_Some [simp]: "blocks h a = Some (Cell c) \<Longrightarrow> get_cell h (Some a) = Inr c"
  by (simp add: get_cell_def)

lemma set_cell_Some [simp]:
  "blocks h a = Some (Cell c) \<Longrightarrow> set_cell f (Some a) h = Inr (h\<lparr>blocks := (blocks h)(a \<mapsto> Cell (f c))\<rparr>)"
  by (simp add: set_cell_def)

lemma same_item_Cell [simp]:
  "same_item (Some (Cell c)) (Some (Cell c')) \<longleftrightarrow> cell_data c' = cell_data c \<and> c_child c' = c_child c"
  by (auto simp: same_item_def)

lemma same_item_refl: "\<exists>c. b = Some (Cell c) \<Longrightarrow> same_item b b"
  by (auto simp: same_item_def)

lemma seg_same: "seg m q as n \<Longrightarrow> x \<in> set as \<Longrightarrow> same_item (m x) (m x)"
  by (rule same_item_refl) (rule seg_cell)

lemma last_sibling_seg:
  "seg (blocks h) q (a # as) None \<Longrightarrow> length as \<le> fuel \<Longrightarrow> last_sibling fuel h a = Inr (last (a # as))"
proof (induction as arbitrary: q a fuel)
  case Nil
  then show ?case by (cases fuel) auto
next
  case (Cons b as)
  then obtain f where "fuel = Suc f" by (cases fuel) auto
  then show ?case using Cons.IH [of "Some a" b f] Cons.prems by auto
qed

lemma nth_sibling_seg:
  "seg (blocks h) q as None \<Longrightarrow> nth_sibling h (headp None as) i = Inr (if i < length as then Some (as ! i) else None)"
proof (induction as arbitrary: q i)
  case (Cons a as)
  then show ?case by (cases i) auto
qed simp

lemma add_kids:
  assumes k: "kids (blocks h) p as" and i: "detached (blocks h) i" "i \<notin> set as" "i \<noteq> p"
    and n: "length as \<le> asked h"
  obtains h' where "add_item_to_array (Some p) (Some i) h = Inr (True, h')" "kids (blocks h') p (as @ [i])"
    "edited (blocks h) p (insert i (set as)) (blocks h')" "asked h' = asked h"
proof -
  obtain c where c: "blocks h p = Some (Cell c)" "c_child c = headp None as" using k by (auto simp: kids_def)
  obtain d where d: "blocks h i = Some (Cell d)" "c_next d = None" "c_prev d = None" using i by (auto simp: detached_def)
  show thesis
  proof (cases as rule: rev_cases)
    case Nil
    show thesis
      by (rule that [of "h\<lparr>blocks := (blocks h)(p \<mapsto> Cell (c\<lparr>c_child := Some i\<rparr>))\<rparr>"])
        (use Nil c d i in \<open>auto simp: add_item_to_array_def kids_def edited_def cell_data_def\<close>)
  next
    case (snoc xs l)
    obtain e where e: "blocks h l = Some (Cell e)" "c_next e = None" "c_prev e = lastp None xs"
      and s: "seg (blocks h) None xs (Some l)" "distinct (xs @ [l])" "p \<notin> set (xs @ [l])"
      using k snoc by (auto simp: kids_def)
    obtain a bs where a: "as = a # bs" using snoc by (metis append_is_Nil_conv list.exhaust not_Cons_self2)
    have "last_sibling (asked h) h a = Inr (last (a # bs))"
      by (rule last_sibling_seg) (use k n a in \<open>auto simp: kids_def\<close>)
    moreover have "last (a # bs) = l" using snoc a by simp
    ultimately have l: "last_sibling (asked h) h a = Inr l" "c_child c = Some a" using c(2) a by auto
    let ?m = "(blocks h)(l \<mapsto> Cell (e\<lparr>c_next := Some i\<rparr>), i \<mapsto> Cell (d\<lparr>c_prev := Some l\<rparr>))"
    show thesis
    proof (rule that [of "h\<lparr>blocks := ?m\<rparr>"])
      show "add_item_to_array (Some p) (Some i) h = Inr (True, h\<lparr>blocks := ?m\<rparr>)"
        using c(1) l d(1) e(1) i(2) snoc by (auto simp: add_item_to_array_def suffix_object_def simp del: last_sibling.simps)
      show "kids (blocks (h\<lparr>blocks := ?m\<rparr>)) p (as @ [i])"
        using c d e s i snoc by (cases xs) (auto simp: kids_def)
      show "edited (blocks h) p (insert i (set as)) (blocks (h\<lparr>blocks := ?m\<rparr>))"
        using c d e s i snoc by (auto simp: edited_def cell_data_def intro: seg_same)
    qed simp
  qed
qed

lemma kids_splitE:
  assumes "kids m p (xs @ i # ys)"
  obtains c d where "m p = Some (Cell c)" "c_child c = headp (Some i) xs" "p \<notin> set xs" "p \<noteq> i" "p \<notin> set ys"
    "m i = Some (Cell d)" "c_prev d = lastp None xs" "c_next d = headp None ys"
    "seg m None xs (Some i)" "seg m (Some i) ys None" "distinct xs" "distinct ys" "set xs \<inter> set ys = {}"
    "i \<notin> set xs" "i \<notin> set ys"
  using assms by (auto simp: kids_def)

lemma segs_same:
  "seg m q xs n \<Longrightarrow> seg m q' ys n' \<Longrightarrow> x \<in> set xs \<or> x \<in> set ys \<Longrightarrow> same_item (m x) (m x)"
  by (auto intro: seg_same)

lemma detach_kids:
  assumes k: "kids (blocks h) p (xs @ i # ys)"
  obtains h' where "cJSON_DetachItemViaPointer (Some p) (Some i) h = Inr (Some i, h')"
    "kids (blocks h') p (xs @ ys)" "detached (blocks h') i"
    "edited (blocks h) p (set (xs @ i # ys)) (blocks h')" "asked h' = asked h"
proof -
  obtain c d where c: "blocks h p = Some (Cell c)" "c_child c = headp (Some i) xs" "p \<notin> set xs" "p \<noteq> i" "p \<notin> set ys"
    and d: "blocks h i = Some (Cell d)" "c_prev d = lastp None xs" "c_next d = headp None ys"
    and s: "seg (blocks h) None xs (Some i)" "seg (blocks h) (Some i) ys None"
    and dis: "distinct xs" "distinct ys" "set xs \<inter> set ys = {}" "i \<notin> set xs" "i \<notin> set ys"
    using k by (elim kids_splitE)
  define I where "I = Cell (d\<lparr>c_prev := None, c_next := None\<rparr>)"
  show thesis
  proof (cases xs rule: rev_cases)
    case xs: Nil
    define C where "C = Cell (c\<lparr>c_child := headp None ys\<rparr>)"
    show thesis
    proof (cases ys)
      case Nil
      show thesis
        by (rule that [of "h\<lparr>blocks := (blocks h)(p \<mapsto> C, i \<mapsto> I)\<rparr>"])
          (use xs Nil c d s dis in \<open>auto simp: cJSON_DetachItemViaPointer_def kids_def edited_def cell_data_def
            detached_def C_def I_def intro: segs_same\<close>)
    next
      case (Cons r ys')
      obtain e where e: "blocks h r = Some (Cell e)" "c_prev e = Some i" "c_next e = headp None ys'"
        "seg (blocks h) (Some r) ys' None" using s(2) Cons by auto
      show thesis
        by (rule that [of "h\<lparr>blocks := (blocks h)(r \<mapsto> Cell (e\<lparr>c_prev := None\<rparr>), p \<mapsto> C, i \<mapsto> I)\<rparr>"])
          (use xs Cons c d e s dis in \<open>auto simp: cJSON_DetachItemViaPointer_def kids_def edited_def cell_data_def
            detached_def C_def I_def intro: segs_same\<close>)
    qed
  next
    case xs: (snoc xs' l)
    obtain f where f: "blocks h l = Some (Cell f)" "c_prev f = lastp None xs'" "c_next f = Some i"
      "seg (blocks h) None xs' (Some l)" using s(1) xs by auto
    have ch: "c_child c \<noteq> Some i" using c dis xs by (cases xs') auto
    define L where "L = Cell (f\<lparr>c_next := headp None ys\<rparr>)"
    show thesis
    proof (cases ys)
      case Nil
      show thesis
        by (rule that [of "h\<lparr>blocks := (blocks h)(l \<mapsto> L, i \<mapsto> I)\<rparr>"])
          (use xs Nil c d s f ch dis in \<open>auto simp: cJSON_DetachItemViaPointer_def kids_def edited_def cell_data_def
            detached_def L_def I_def intro: segs_same\<close>)
    next
      case (Cons r ys')
      obtain e where e: "blocks h r = Some (Cell e)" "c_prev e = Some i" "c_next e = headp None ys'"
        "seg (blocks h) (Some r) ys' None" using s(2) Cons by auto
      show thesis
        by (rule that [of "h\<lparr>blocks := (blocks h)(l \<mapsto> L, r \<mapsto> Cell (e\<lparr>c_prev := Some l\<rparr>), i \<mapsto> I)\<rparr>"])
          (use xs Cons c d e s f ch dis in \<open>auto simp: cJSON_DetachItemViaPointer_def kids_def edited_def cell_data_def
            detached_def L_def I_def intro: segs_same\<close>)
    qed
  qed
qed

lemma insert_kids:
  assumes k: "kids (blocks h) p (xs @ i # ys)"
    and n: "blocks h b = Some (Cell n)" "b \<notin> set (xs @ i # ys)" "b \<noteq> p"
    and w: "0 \<le> w" "nat w = length xs"
  obtains h' where "cJSON_InsertItemInArray (Some p) w (Some b) h = Inr h'"
    "kids (blocks h') p (xs @ b # i # ys)"
    "edited (blocks h) p (insert b (set (xs @ i # ys))) (blocks h')" "asked h' = asked h"
proof -
  obtain c d where c: "blocks h p = Some (Cell c)" "c_child c = headp (Some i) xs" "p \<notin> set xs" "p \<noteq> i" "p \<notin> set ys"
    and d: "blocks h i = Some (Cell d)" "c_prev d = lastp None xs" "c_next d = headp None ys"
    and s: "seg (blocks h) None xs (Some i)" "seg (blocks h) (Some i) ys None"
    and dis: "distinct xs" "distinct ys" "set xs \<inter> set ys = {}" "i \<notin> set xs" "i \<notin> set ys"
    using k by (elim kids_splitE)
  have "nth_sibling h (headp None (xs @ i # ys)) (length xs) = Inr (Some i)"
    using k nth_sibling_seg [of h None "xs @ i # ys" "length xs"] by (simp add: kids_def)
  then have get: "get_array_item_p h (Some p) (nat w) = Inr (Some i)"
    using c w by (simp add: get_array_item_p_def)
  define B where "B = Cell (n\<lparr>c_next := Some i, c_prev := lastp None xs\<rparr>)"
  define I where "I = Cell (d\<lparr>c_prev := Some b\<rparr>)"
  show thesis
  proof (cases xs rule: rev_cases)
    case xs: Nil
    show thesis
      by (rule that [of "h\<lparr>blocks := (blocks h)(b \<mapsto> B, i \<mapsto> I, p \<mapsto> Cell (c\<lparr>c_child := Some b\<rparr>))\<rparr>"])
        (use w(1) xs get n c d s dis in \<open>auto simp: cJSON_InsertItemInArray_def kids_def edited_def cell_data_def
          B_def I_def intro: segs_same\<close>)
  next
    case xs: (snoc xs' l)
    obtain f where f: "blocks h l = Some (Cell f)" "c_prev f = lastp None xs'" "c_next f = Some i"
      "seg (blocks h) None xs' (Some l)" using s(1) xs by auto
    have ch: "c_child c \<noteq> Some i" using c dis xs by (cases xs') auto
    show thesis
      by (rule that [of "h\<lparr>blocks := (blocks h)(b \<mapsto> B, i \<mapsto> I, l \<mapsto> Cell (f\<lparr>c_next := Some b\<rparr>))\<rparr>"])
        (use w(1) xs get n c d s f ch dis in \<open>auto simp: cJSON_InsertItemInArray_def kids_def edited_def cell_data_def
          B_def I_def intro: segs_same\<close>)
  qed
qed

lemma replace_kids:
  assumes k: "kids (blocks h) p (xs @ i # ys)"
    and n: "blocks h b = Some (Cell n)" "b \<notin> set (xs @ i # ys)" "b \<noteq> p"
  obtains h' where "replace_links (Some p) (Some i) (Some b) h = Inr h'"
    "kids (blocks h') p (xs @ b # ys)" "detached (blocks h') i"
    "edited (blocks h) p (insert b (set (xs @ i # ys))) (blocks h')" "asked h' = asked h"
proof -
  obtain c d where c: "blocks h p = Some (Cell c)" "c_child c = headp (Some i) xs" "p \<notin> set xs" "p \<noteq> i" "p \<notin> set ys"
    and d: "blocks h i = Some (Cell d)" "c_prev d = lastp None xs" "c_next d = headp None ys"
    and s: "seg (blocks h) None xs (Some i)" "seg (blocks h) (Some i) ys None"
    and dis: "distinct xs" "distinct ys" "set xs \<inter> set ys = {}" "i \<notin> set xs" "i \<notin> set ys"
    using k by (elim kids_splitE)
  define B where "B = Cell (n\<lparr>c_next := headp None ys, c_prev := lastp None xs\<rparr>)"
  define I where "I = Cell (d\<lparr>c_next := None, c_prev := None\<rparr>)"
  note defs = replace_links_def kids_def edited_def cell_data_def detached_def B_def I_def
  show thesis
  proof (cases xs rule: rev_cases)
    case xs: Nil
    define C where "C = Cell (c\<lparr>c_child := Some b\<rparr>)"
    show thesis
    proof (cases ys)
      case Nil
      show thesis
        by (rule that [of "h\<lparr>blocks := (blocks h)(b \<mapsto> B, p \<mapsto> C, i \<mapsto> I)\<rparr>"])
          (use xs Nil n c d s dis in \<open>auto simp: defs C_def intro: segs_same\<close>)
    next
      case (Cons r ys')
      obtain e where e: "blocks h r = Some (Cell e)" "c_prev e = Some i" "c_next e = headp None ys'"
        "seg (blocks h) (Some r) ys' None" using s(2) Cons by auto
      show thesis
        by (rule that [of "h\<lparr>blocks := (blocks h)(b \<mapsto> B, r \<mapsto> Cell (e\<lparr>c_prev := Some b\<rparr>), p \<mapsto> C, i \<mapsto> I)\<rparr>"])
          (use xs Cons n c d e s dis in \<open>auto simp: defs C_def intro: segs_same\<close>)
    qed
  next
    case xs: (snoc xs' l)
    obtain f where f: "blocks h l = Some (Cell f)" "c_prev f = lastp None xs'" "c_next f = Some i"
      "seg (blocks h) None xs' (Some l)" using s(1) xs by auto
    have ch: "c_child c \<noteq> Some i" using c dis xs by (cases xs') auto
    define L where "L = Cell (f\<lparr>c_next := Some b\<rparr>)"
    show thesis
    proof (cases ys)
      case Nil
      show thesis
        by (rule that [of "h\<lparr>blocks := (blocks h)(b \<mapsto> B, l \<mapsto> L, i \<mapsto> I)\<rparr>"])
          (use xs Nil n c d s f ch dis in \<open>auto simp: defs L_def intro: segs_same\<close>)
    next
      case (Cons r ys')
      obtain e where e: "blocks h r = Some (Cell e)" "c_prev e = Some i" "c_next e = headp None ys'"
        "seg (blocks h) (Some r) ys' None" using s(2) Cons by auto
      show thesis
        by (rule that [of "h\<lparr>blocks := (blocks h)(b \<mapsto> B, r \<mapsto> Cell (e\<lparr>c_prev := Some b\<rparr>), l \<mapsto> L, i \<mapsto> I)\<rparr>"])
          (use xs Cons n c d e s f ch dis in \<open>auto simp: defs L_def intro: segs_same\<close>)
    qed
  qed
qed

section \<open>What an edit does to the document\<close>

text \<open>The document with other children, and an item that is no reference.\<close>

definition with_children :: "'d cjson list \<Rightarrow> 'd cjson \<Rightarrow> 'd cjson" where
  "with_children ts t = CJson (cj_type t) (cj_valuestring t) (cj_valueint t) (cj_valuedouble t) (cj_string t) ts"

definition owner :: "'d cjson \<Rightarrow> bool" where
  "owner t \<longleftrightarrow> cj_type t AND cJSON_IsReference = 0"

text \<open>Nothing outside \<open>F\<close> differs, nor the place of \<open>p\<close> in its own chain; no request was made.\<close>

definition framed :: "nat \<Rightarrow> nat set \<Rightarrow> 'd heap \<Rightarrow> 'd heap \<Rightarrow> bool" where
  "framed p F h h' \<longleftrightarrow>
     (\<forall>x. x \<notin> F \<longrightarrow> blocks h' x = blocks h x) \<and> asked h' = asked h \<and>
     (\<exists>c c'. blocks h p = Some (Cell c) \<and> blocks h' p = Some (Cell c') \<and> c_next c' = c_next c \<and> c_prev c' = c_prev c)"

lemma doc_partsE:
  assumes "doc m p t F" and "owner t"
  obtains as H G where "node_at m p t (headp None as) H" "kids m p as" "docs m as (cj_child t) G" "H \<inter> G = {}"
    "F = H \<union> G" "p \<in> H" "set as \<subseteq> G" "length as = length (cj_child t)" "finite G"
proof (rule docE [OF assms(1)])
  fix as H G
  assume h: "F = H \<union> G" "node_at m p t (headp None as) H" "seg m None as None" "docs m as (cj_child t) G" "H \<inter> G = {}"
  have p: "p \<in> H" using node_at_dom [OF h(2)] by simp
  have as: "set as \<subseteq> G" "distinct as" "length as = length (cj_child t)" "finite G" using docs_dom [OF h(4)] by auto
  have "kids m p as" using h(3,5) p as node_at_cell [OF h(2)] by (auto simp: kids_def)
  then show thesis using that h p as by blast
qed (use assms(2) in \<open>simp add: owner_def\<close>)

lemma kids_edited_doc:
  assumes n: "node_at m p t ch H" and e: "edited m p S m'" and S: "S \<inter> H = {}"
    and k: "kids m' p as" and d: "docs m' as ts G" and H: "H \<inter> G = {}" and o: "owner t"
  shows "doc m' p (with_children ts t) (H \<union> G)"
proof -
  obtain c c' where c: "m p = Some (Cell c)" "m' p = Some (Cell c')" "cell_data c' = cell_data c"
    using e by (auto simp: edited_def)
  have "node_at m' p (with_children ts t) (c_child c') H"
    by (rule node_at_data [where t = t and m = m and c = c and ch = ch])
      (use n c e S in \<open>auto simp: with_children_def edited_def\<close>)
  moreover have "c_child c' = headp None as" using k c by (auto simp: kids_def)
  ultimately show ?thesis
    using d k H o by (intro doc_own) (auto simp: owner_def with_children_def kids_def)
qed

lemma docs_edited:
  assumes d: "docs m as ts G" and e: "edited m p S m'" and "p \<notin> G" and S: "S \<inter> G \<subseteq> set as"
  shows "docs m' as ts G"
proof (rule docs_relink [OF d])
  fix x assume "x \<in> G - set as"
  then show "m' x = m x" using e S assms(3) by (auto simp: edited_def)
next
  fix a assume a: "a \<in> set as"
  have "a \<in> G" "a \<in> dom m" using docs_dom [OF d] a by auto
  moreover have "\<exists>c. m a = Some (Cell c)" using d a
    by (induction as arbitrary: ts G) (auto simp: docs_Cons_iff dest: doc_cell)
  ultimately show "same_item (m a) (m' a)"
    using e assms(3) by (cases "a \<in> S") (auto simp: edited_def same_item_refl)
qed

lemma doc_edited:
  assumes d: "doc m a t G" and e: "edited m p S m'" and "p \<notin> G" and S: "S \<inter> G \<subseteq> {a}"
  shows "doc m' a t G"
  using docs_edited [of m "[a]" "[t]" G p S m'] assms by (auto simp: docs_Cons_iff)

lemma docs_append:
  "docs m xs us A \<Longrightarrow> docs m ys vs B \<Longrightarrow> A \<inter> B = {} \<Longrightarrow> docs m (xs @ ys) (us @ vs) (A \<union> B)"
proof (induction xs arbitrary: us A)
  case (Cons x xs)
  obtain t ts K G where g: "us = t # ts" "A = K \<union> G" "doc m x t K" "docs m xs ts G" "K \<inter> G = {}"
    using Cons.prems(1) by (auto simp: docs_Cons_iff)
  have "docs m (xs @ ys) (ts @ vs) (G \<union> B)" using Cons.IH g Cons.prems by blast
  then have "docs m (x # xs @ ys) (t # ts @ vs) (K \<union> (G \<union> B))"
    using g Cons.prems(3) by (intro docs_Cons) auto
  then show ?case using g by (simp add: Un_assoc)
qed simp

lemma docs_appendE:
  assumes "docs m (xs @ ys) ts F"
  obtains A B where "docs m xs (take (length xs) ts) A" "docs m ys (drop (length xs) ts) B" "A \<inter> B = {}" "F = A \<union> B"
  using assms
proof (induction xs arbitrary: ts F thesis)
  case Nil
  then show ?case by simp
next
  case (Cons x xs)
  obtain t ts' K G where g: "ts = t # ts'" "F = K \<union> G" "doc m x t K" "docs m (xs @ ys) ts' G" "K \<inter> G = {}"
    using Cons.prems(2) by (auto simp: docs_Cons_iff)
  obtain A B where "docs m xs (take (length xs) ts') A" "docs m ys (drop (length xs) ts') B" "A \<inter> B = {}" "G = A \<union> B"
    using Cons.IH [OF _ g(4)] by blast
  then show ?case using g by (intro Cons.prems(1) [of "K \<union> A" B]) (auto intro: docs_Cons)
qed

lemma docs_nthE:
  assumes "docs m as ts F" and "n < length ts"
  obtains xs i ys A K B where "as = xs @ i # ys" "length xs = n" "docs m xs (take n ts) A" "doc m i (ts ! n) K"
    "docs m ys (drop (Suc n) ts) B" "A \<inter> K = {}" "A \<inter> B = {}" "K \<inter> B = {}" "F = A \<union> K \<union> B" "i = as ! n"
proof -
  have n: "n < length as" using docs_dom [OF assms(1)] assms(2) by auto
  obtain xs i ys where as: "as = xs @ i # ys" "length xs = n" "i = as ! n"
    using id_take_nth_drop [OF n] n by (metis length_take min.absorb4)
  obtain A G where g: "docs m xs (take n ts) A" "docs m (i # ys) (drop n ts) G" "A \<inter> G = {}" "F = A \<union> G"
    using assms(1) as(1,2) by (metis docs_appendE)
  moreover have "drop n ts = ts ! n # drop (Suc n) ts" using assms(2) by (rule Cons_nth_drop_Suc [symmetric])
  ultimately obtain K B where "doc m i (ts ! n) K" "docs m ys (drop (Suc n) ts) B" "K \<inter> B = {}" "G = K \<union> B"
    by (auto simp: docs_Cons_iff)
  then show thesis using g by (intro that [OF as(1,2) g(1)]) (auto simp: as(3))
qed

lemma edited_dom: "edited m p S m' \<Longrightarrow> dom m' = dom m"
  unfolding edited_def same_item_def dom_def by (auto; metis insert_iff option.distinct(1))

lemma edited_framed:
  assumes e: "edited (blocks h) p S (blocks h')" and "asked h' = asked h" and "insert p S \<subseteq> F"
  shows "framed p F h h'"
  using assms unfolding framed_def edited_def by blast

lemma edited_heap_ok: "edited (blocks h) p S (blocks h') \<Longrightarrow> asked h' = asked h \<Longrightarrow> heap_ok h \<Longrightarrow> heap_ok h'"
  using edited_dom by (fastforce simp: heap_ok_def)

lemma docs_length_asked: "heap_ok h \<Longrightarrow> docs (blocks h) as ts G \<Longrightarrow> length as \<le> asked h"
  using docs_dom [of "blocks h" as ts G] heap_ok_card [of h G]
  by (metis card_mono distinct_card order_trans)

lemma add_doc:
  assumes ok: "heap_ok h" and t: "doc (blocks h) p t F" "owner t"
    and u: "doc (blocks h) b u K" "F \<inter> K = {}" "detached (blocks h) b"
  obtains h' where "add_item_to_array (Some p) (Some b) h = Inr (True, h')" "heap_ok h'"
    "doc (blocks h') p (with_children (cj_child t @ [u]) t) (F \<union> K)" "framed p (F \<union> K) h h'"
proof (rule doc_partsE [OF t])
  fix as H G
  assume n: "node_at (blocks h) p t (headp None as) H" and k: "kids (blocks h) p as"
    and d: "docs (blocks h) as (cj_child t) G" and F: "H \<inter> G = {}" "F = H \<union> G" "p \<in> H" "set as \<subseteq> G"
  have b: "b \<in> K" using doc_dom [OF u(1)] by simp
  have "b \<notin> set as" "b \<noteq> p" using b F u(2) by auto
  then obtain h' where h: "add_item_to_array (Some p) (Some b) h = Inr (True, h')" "kids (blocks h') p (as @ [b])"
    "edited (blocks h) p (insert b (set as)) (blocks h')" "asked h' = asked h"
    using add_kids [OF k u(3)] docs_length_asked [OF ok d] by metis
  have "docs (blocks h') as (cj_child t) G" by (rule docs_edited [OF d h(3)]) (use F b u(2) in auto)
  moreover have "doc (blocks h') b u K" by (rule doc_edited [OF u(1) h(3)]) (use F b u(2) in auto)
  moreover have GK: "G \<inter> K = {}" using F u(2) by auto
  ultimately have "docs (blocks h') (as @ [b]) (cj_child t @ [u]) (G \<union> K)"
    by (intro docs_append) (simp_all add: docs_Cons_iff)
  then have "doc (blocks h') p (with_children (cj_child t @ [u]) t) (H \<union> (G \<union> K))"
    by (intro kids_edited_doc [OF n h(3) _ h(2) _ _ t(2)]) (use F b u(2) in auto)
  moreover have "framed p (F \<union> K) h h'" by (rule edited_framed [OF h(3,4)]) (use F b in auto)
  ultimately show thesis using that h edited_heap_ok [OF h(3,4) ok] F by (simp add: Un_assoc)
qed

lemma get_array_item_doc:
  assumes t: "doc (blocks h) p t F" "owner t" and "0 \<le> w"
    and n: "node_at (blocks h) p t (headp None as) H" and k: "kids (blocks h) p as" "length as = length (cj_child t)"
  shows "get_array_item_p h (Some p) (nat w) = Inr (if nat w < length (cj_child t) then Some (as ! nat w) else None)"
  using k nth_sibling_seg [of h None as "nat w"] by (auto simp: kids_def get_array_item_p_def)

lemma detach_child:
  assumes ok: "heap_ok h" and t: "owner t" and w: "w < length (cj_child t)"
    and n: "node_at (blocks h) p t (headp None as) H" and k: "kids (blocks h) p as"
    and d: "docs (blocks h) as (cj_child t) G" and F: "H \<inter> G = {}" "F = H \<union> G" "p \<in> H" "set as \<subseteq> G"
  obtains h' K where "cJSON_DetachItemViaPointer (Some p) (Some (as ! w)) h = Inr (Some (as ! w), h')" "heap_ok h'"
    "doc (blocks h') p (with_children (take w (cj_child t) @ drop (Suc w) (cj_child t)) t) (F - K)"
    "doc (blocks h') (as ! w) (cj_child t ! w) K" "detached (blocks h') (as ! w)" "K \<subseteq> F" "framed p F h h'"
proof -
  obtain xs i ys A K B where s: "as = xs @ i # ys" "docs (blocks h) xs (take (w) (cj_child t)) A"
    "doc (blocks h) i (cj_child t ! w) K" "docs (blocks h) ys (drop (Suc (w)) (cj_child t)) B"
    "A \<inter> K = {}" "A \<inter> B = {}" "K \<inter> B = {}" "G = A \<union> K \<union> B" "i = as ! w"
    by (rule docs_nthE [OF d w]) (rule that; assumption)
  have k': "kids (blocks h) p (xs @ i # ys)" using k s(1) by simp
  obtain h' where h: "cJSON_DetachItemViaPointer (Some p) (Some i) h = Inr (Some i, h')"
    "kids (blocks h') p (xs @ ys)" "detached (blocks h') i" "edited (blocks h) p (set (xs @ i # ys)) (blocks h')"
    "asked h' = asked h"
    using detach_kids [OF k'] by blast
  have sub: "set xs \<subseteq> A" "set ys \<subseteq> B" "i \<in> K" using docs_dom [OF s(2)] docs_dom [OF s(4)] doc_dom [OF s(3)] by auto
  have "docs (blocks h') xs (take (w) (cj_child t)) A"
    by (rule docs_edited [OF s(2) h(4)]) (use F s(1-8) sub in auto)
  moreover have "docs (blocks h') ys (drop (Suc (w)) (cj_child t)) B"
    by (rule docs_edited [OF s(4) h(4)]) (use F s(1-8) sub in auto)
  ultimately have "docs (blocks h') (xs @ ys) (take (w) (cj_child t) @ drop (Suc (w)) (cj_child t)) (A \<union> B)"
    using s(6) by (rule docs_append)
  then have "doc (blocks h') p (with_children (take (w) (cj_child t) @ drop (Suc (w)) (cj_child t)) t) (H \<union> (A \<union> B))"
    by (intro kids_edited_doc [OF n h(4) _ h(2) _ _ t]) (use F s(1-8) sub in auto)
  moreover have "H \<union> (A \<union> B) = F - K" using F s(1-8) by auto
  moreover have "doc (blocks h') i (cj_child t ! w) K"
    by (rule doc_edited [OF s(3) h(4)]) (use F s(1-8) sub in auto)
  moreover have "framed p F h h'" by (rule edited_framed [OF h(4,5)]) (use F s(1-8) sub in auto)
  ultimately show thesis using that [of h' K] h(1,3) edited_heap_ok [OF h(4,5) ok] F s(8,9) by auto
qed

lemma detach_doc:
  assumes ok: "heap_ok h" and t: "doc (blocks h) p t F" "owner t" and w: "0 \<le> w" "nat w < length (cj_child t)"
  obtains i K h' where "cJSON_DetachItemFromArray (Some p) w h = Inr (Some i, h')" "heap_ok h'"
    "doc (blocks h') p (with_children (take (nat w) (cj_child t) @ drop (Suc (nat w)) (cj_child t)) t) (F - K)"
    "doc (blocks h') i (cj_child t ! nat w) K" "detached (blocks h') i" "K \<subseteq> F" "framed p F h h'"
proof (rule doc_partsE [OF t])
  fix as H G
  assume n: "node_at (blocks h) p t (headp None as) H" and k: "kids (blocks h) p as"
    and d: "docs (blocks h) as (cj_child t) G" and F: "H \<inter> G = {}" "F = H \<union> G" "p \<in> H" "set as \<subseteq> G"
    and len: "length as = length (cj_child t)"
  have "get_array_item_p h (Some p) (nat w) = Inr (Some (as ! nat w))"
    using get_array_item_doc [OF t w(1) n k len] w(2) by simp
  then have eq: "cJSON_DetachItemFromArray (Some p) w h = cJSON_DetachItemViaPointer (Some p) (Some (as ! nat w)) h"
    using w(1) by (simp add: cJSON_DetachItemFromArray_def)
  show thesis by (rule detach_child [OF ok t(2) w(2) n k d F]) (rule that [of "as ! nat w"]; simp add: eq)
qed

lemma insert_doc:
  assumes ok: "heap_ok h" and t: "doc (blocks h) p t F" "owner t" and w: "0 \<le> w"
    and u: "doc (blocks h) b u K" "F \<inter> K = {}" "detached (blocks h) b"
  obtains h' where "cJSON_InsertItemInArray (Some p) w (Some b) h = Inr h'" "heap_ok h'"
    "doc (blocks h') p (with_children (take (nat w) (cj_child t) @ u # drop (nat w) (cj_child t)) t) (F \<union> K)"
    "framed p (F \<union> K) h h'"
proof (rule doc_partsE [OF t])
  fix as H G
  assume n: "node_at (blocks h) p t (headp None as) H" and k: "kids (blocks h) p as"
    and d: "docs (blocks h) as (cj_child t) G" and F: "H \<inter> G = {}" "F = H \<union> G" "p \<in> H" "set as \<subseteq> G"
    and len: "length as = length (cj_child t)"
  note get = get_array_item_doc [OF t w n k len]
  show thesis
  proof (cases "nat w < length (cj_child t)")
    case False
    obtain h' where h: "add_item_to_array (Some p) (Some b) h = Inr (True, h')" "heap_ok h'"
      "doc (blocks h') p (with_children (cj_child t @ [u]) t) (F \<union> K)" "framed p (F \<union> K) h h'"
      using add_doc [OF ok t u] by blast
    show thesis by (rule that [of h'])
      (use False w get h in \<open>auto simp: cJSON_InsertItemInArray_def cJSON_AddItemToArray_def\<close>)
  next
    case True
    then obtain xs i ys A I B where s: "as = xs @ i # ys" "length xs = nat w" "docs (blocks h) xs (take (nat w) (cj_child t)) A"
      "doc (blocks h) i (cj_child t ! nat w) I" "docs (blocks h) ys (drop (Suc (nat w)) (cj_child t)) B"
      "A \<inter> I = {}" "A \<inter> B = {}" "I \<inter> B = {}" "G = A \<union> I \<union> B"
      by - (rule docs_nthE [OF d]; (rule that)?; assumption)
    have k': "kids (blocks h) p (xs @ i # ys)" using k s(1) by simp
    have sub: "set xs \<subseteq> A" "set ys \<subseteq> B" "i \<in> I" "b \<in> K"
      using docs_dom [OF s(3)] docs_dom [OF s(5)] doc_dom [OF s(4)] doc_dom [OF u(1)] by auto
    obtain c where "blocks h b = Some (Cell c)" using u(3) by (auto simp: detached_def)
    then obtain h' where h: "cJSON_InsertItemInArray (Some p) w (Some b) h = Inr h'"
      "kids (blocks h') p (xs @ b # i # ys)" "edited (blocks h) p (insert b (set (xs @ i # ys))) (blocks h')"
      "asked h' = asked h"
      using insert_kids [OF k', of b c w] w s sub F u(2) by (metis Int_iff Un_iff empty_iff s(1) subsetD)
    have "docs (blocks h') xs (take (nat w) (cj_child t)) A"
      by (rule docs_edited [OF s(3) h(3)]) (use F s sub u(2) in auto)
    moreover have "docs (blocks h') ys (drop (Suc (nat w)) (cj_child t)) B"
      by (rule docs_edited [OF s(5) h(3)]) (use F s sub u(2) in auto)
    moreover have "doc (blocks h') i (cj_child t ! nat w) I"
      by (rule doc_edited [OF s(4) h(3)]) (use F s sub u(2) in auto)
    moreover have "doc (blocks h') b u K"
      by (rule doc_edited [OF u(1) h(3)]) (use F s sub u(2) in auto)
    ultimately
    have "docs (blocks h') (b # i # ys) (u # cj_child t ! nat w # drop (Suc (nat w)) (cj_child t)) (K \<union> (I \<union> B))"
      "docs (blocks h') xs (take (nat w) (cj_child t)) A"
      using s(8,9) F(2) u(2) by (auto intro!: docs_Cons)
    then have "docs (blocks h') (xs @ b # i # ys) (take (nat w) (cj_child t) @ u # drop (nat w) (cj_child t)) (A \<union> (K \<union> (I \<union> B)))"
      using docs_append [of "blocks h'" xs _ A] s(6,7,9) F(2) u(2) Cons_nth_drop_Suc [OF True] by fastforce
    then have "doc (blocks h') p (with_children (take (nat w) (cj_child t) @ u # drop (nat w) (cj_child t)) t) (H \<union> (A \<union> (K \<union> (I \<union> B))))"
      by (intro kids_edited_doc [OF n h(3) _ h(2) _ _ t(2)]) (use F s sub u(2) in auto)
    moreover have "H \<union> (A \<union> (K \<union> (I \<union> B))) = F \<union> K" using F s by auto
    moreover have "framed p (F \<union> K) h h'" by (rule edited_framed [OF h(3,4)]) (use F s sub in auto)
    ultimately show thesis using that h(1) edited_heap_ok [OF h(3,4) ok] by auto
  qed
qed


lemma doc_without: "doc (blocks h) a t F \<Longrightarrow> F \<inter> K = {} \<Longrightarrow> doc (blocks (without K h)) a t F"
  by (erule doc_frame) auto

lemma detached_without: "detached (blocks h) a \<Longrightarrow> a \<notin> K \<Longrightarrow> detached (blocks (without K h)) a"
  by (simp add: detached_def)

lemma heap_ok_without: "heap_ok h \<Longrightarrow> heap_ok (without K h)"
  by (auto simp: heap_ok_def dom_def subset_iff)

lemma framed_without: "framed p F h h' \<Longrightarrow> K \<subseteq> F \<Longrightarrow> p \<notin> K \<Longrightarrow> framed p F h (without K h')"
  by (auto simp: framed_def)

lemma delete_detached:
  "heap_ok h \<Longrightarrow> doc (blocks h) a t F \<Longrightarrow> detached (blocks h) a \<Longrightarrow> cJSON_Delete_p (Some a) h = Inr (without F h)"
  by (auto simp: detached_def intro: delete_frees)

lemma replace_child:
  assumes ok: "heap_ok h" and t: "owner t" and w: "w < length (cj_child t)"
    and u: "doc (blocks h) b u K" "F \<inter> K = {}"
    and n: "node_at (blocks h) p t (headp None as) H" and k: "kids (blocks h) p as"
    and d: "docs (blocks h) as (cj_child t) G" and F: "H \<inter> G = {}" "F = H \<union> G" "p \<in> H" "set as \<subseteq> G"
  obtains h' I where "cJSON_ReplaceItemViaPointer (Some p) (Some (as ! w)) (Some b) h = Inr (True, h')" "heap_ok h'"
    "doc (blocks h') p (with_children ((cj_child t)[w := u]) t) ((F - I) \<union> K)"
    "framed p (F \<union> K) h h'" "I \<subseteq> F" "doc (blocks h) (as ! w) (cj_child t ! w) I" "\<forall>x \<in> I. blocks h' x = None"
proof -
  obtain xs i ys A I B where s: "as = xs @ i # ys" "docs (blocks h) xs (take (w) (cj_child t)) A"
    "doc (blocks h) i (cj_child t ! w) I" "docs (blocks h) ys (drop (Suc (w)) (cj_child t)) B"
    "A \<inter> I = {}" "A \<inter> B = {}" "I \<inter> B = {}" "G = A \<union> I \<union> B" "i = as ! w"
    by (rule docs_nthE [OF d w]) (rule that; assumption)
  have k': "kids (blocks h) p (xs @ i # ys)" using k s(1) by simp
  have sub: "set xs \<subseteq> A" "set ys \<subseteq> B" "i \<in> I" "b \<in> K"
    using docs_dom [OF s(2)] docs_dom [OF s(4)] doc_dom [OF s(3)] doc_dom [OF u(1)] by auto
  obtain c where c: "blocks h b = Some (Cell c)" using doc_cell [OF u(1)] by auto
  have b: "b \<notin> set (xs @ i # ys)" "b \<noteq> p" using F s(1-8) sub u(2) by auto
  obtain h1 where h: "replace_links (Some p) (Some i) (Some b) h = Inr h1"
    "kids (blocks h1) p (xs @ b # ys)" "detached (blocks h1) i"
    "edited (blocks h) p (insert b (set (xs @ i # ys))) (blocks h1)" "asked h1 = asked h"
    by (rule replace_kids [OF k' c b]) (rule that; assumption)
  have ok1: "heap_ok h1" by (rule edited_heap_ok [OF h(4,5) ok])
  have "docs (blocks h1) xs (take (w) (cj_child t)) A"
    by (rule docs_edited [OF s(2) h(4)]) (use F s(1-8) sub u(2) in auto)
  moreover have "docs (blocks h1) ys (drop (Suc (w)) (cj_child t)) B"
    by (rule docs_edited [OF s(4) h(4)]) (use F s(1-8) sub u(2) in auto)
  moreover have "doc (blocks h1) b u K"
    by (rule doc_edited [OF u(1) h(4)]) (use F s(1-8) sub u(2) in auto)
  ultimately have "docs (blocks h1) (xs @ b # ys) (take (w) (cj_child t) @ u # drop (Suc (w)) (cj_child t))
      (A \<union> (K \<union> B))"
    by (intro docs_append docs_Cons) (use F s(1-8) u(2) in auto)
  then have new: "doc (blocks h1) p (with_children ((cj_child t)[w := u]) t) (H \<union> (A \<union> (K \<union> B)))"
    using w by (intro kids_edited_doc [OF n h(4) _ h(2) _ _ t])
      (use F s(1-8) sub u(2) in \<open>auto simp: upd_conv_take_nth_drop\<close>)
  have old: "doc (blocks h1) i (cj_child t ! w) I"
    by (rule doc_edited [OF s(3) h(4)]) (use F s(1-8) sub u(2) in auto)
  have fr: "framed p (F \<union> K) h h1" by (rule edited_framed [OF h(4,5)]) (use F s(1-8) sub in auto)
  have dis: "(H \<union> (A \<union> (K \<union> B))) \<inter> I = {}" using F s(1-8) u(2) by auto
  show thesis
  proof (rule that [of "without I h1" I])
    show "cJSON_ReplaceItemViaPointer (Some p) (Some (as ! w)) (Some b) h = Inr (True, without I h1)"
      using b(1) h(1) delete_detached [OF ok1 old h(3)] s(9) by (simp add: cJSON_ReplaceItemViaPointer_def)
    have "H \<union> (A \<union> (K \<union> B)) = (F - I) \<union> K" using F s(1-8) u(2) by auto
    then show "doc (blocks (without I h1)) p (with_children ((cj_child t)[w := u]) t) ((F - I) \<union> K)"
      using doc_without [OF new dis] by simp
    show "framed p (F \<union> K) h (without I h1)" by (rule framed_without [OF fr]) (use F s(1-8) in auto)
    show "doc (blocks h) (as ! w) (cj_child t ! w) I" using s(3,9) by simp
  qed (use ok1 F(2) s(8) in \<open>auto intro: heap_ok_without\<close>)
qed

lemma replace_doc:
  assumes ok: "heap_ok h" and t: "doc (blocks h) p t F" "owner t" and w: "0 \<le> w" "nat w < length (cj_child t)"
    and u: "doc (blocks h) b u K" "F \<inter> K = {}"
  obtains h' i I where "cJSON_ReplaceItemInArray (Some p) w (Some b) h = Inr h'" "heap_ok h'"
    "doc (blocks h') p (with_children ((cj_child t)[nat w := u]) t) ((F - I) \<union> K)"
    "framed p (F \<union> K) h h'" "I \<subseteq> F" "doc (blocks h) i (cj_child t ! nat w) I" "\<forall>x \<in> I. blocks h' x = None"
proof (rule doc_partsE [OF t])
  fix as H G
  assume n: "node_at (blocks h) p t (headp None as) H" and k: "kids (blocks h) p as"
    and d: "docs (blocks h) as (cj_child t) G" and F: "H \<inter> G = {}" "F = H \<union> G" "p \<in> H" "set as \<subseteq> G"
    and len: "length as = length (cj_child t)"
  have "get_array_item_p h (Some p) (nat w) = Inr (Some (as ! nat w))"
    using get_array_item_doc [OF t w(1) n k len] w(2) by simp
  then have eq: "cJSON_ReplaceItemInArray (Some p) w (Some b) h =
      res_bind (cJSON_ReplaceItemViaPointer (Some p) (Some (as ! nat w)) (Some b) h) (\<lambda>r. Inr (snd r))"
    using w(1) by (simp add: cJSON_ReplaceItemInArray_def)
  obtain h' I where "cJSON_ReplaceItemViaPointer (Some p) (Some (as ! nat w)) (Some b) h = Inr (True, h')" "heap_ok h'"
    "doc (blocks h') p (with_children ((cj_child t)[nat w := u]) t) ((F - I) \<union> K)"
    "framed p (F \<union> K) h h'" "I \<subseteq> F" "doc (blocks h) (as ! nat w) (cj_child t ! nat w) I" "\<forall>x \<in> I. blocks h' x = None"
    by (rule replace_child [OF ok t(2) w(2) u n k d F]) (rule that; assumption)
  then show thesis using that [of h' I "as ! nat w"] eq by simp
qed

section \<open>The edits of an array\<close>

text \<open>After an edit, the item at \<open>p\<close> is the document \<open>t\<close> in \<open>F'\<close>, and nothing outside \<open>F\<close> has changed.\<close>

definition becomes :: "'d heap \<Rightarrow> nat \<Rightarrow> nat set \<Rightarrow> 'd heap \<Rightarrow> 'd cjson \<Rightarrow> nat set \<Rightarrow> bool" where
  "becomes h p F h' t F' \<longleftrightarrow> heap_ok h' \<and> framed p F h h' \<and> doc (blocks h') p t F'"

lemma array_edits:
  assumes "heap_ok h" and "doc (blocks h) p t F" and "owner t" and "0 \<le> w"
    and "doc (blocks h) b u K" and "F \<inter> K = {}" and "detached (blocks h) b"
  shows array_add: "\<exists>h'. add_item_to_array (Some p) (Some b) h = Inr (True, h') \<and>
      becomes h p (F \<union> K) h' (with_children (cj_child t @ [u]) t) (F \<union> K)"
    and array_insert: "\<exists>h'. cJSON_InsertItemInArray (Some p) w (Some b) h = Inr h' \<and>
      becomes h p (F \<union> K) h' (with_children (take (nat w) (cj_child t) @ u # drop (nat w) (cj_child t)) t) (F \<union> K)"
    and array_replace: "nat w < length (cj_child t) \<Longrightarrow>
      \<exists>h' i I. cJSON_ReplaceItemInArray (Some p) w (Some b) h = Inr h' \<and>
        becomes h p (F \<union> K) h' (with_children ((cj_child t)[nat w := u]) t) ((F - I) \<union> K) \<and>
        doc (blocks h) i (cj_child t ! nat w) I \<and> (\<forall>x \<in> I. blocks h' x = None)"
    and array_detach: "nat w < length (cj_child t) \<Longrightarrow>
      \<exists>i h' I. cJSON_DetachItemFromArray (Some p) w h = Inr (Some i, h') \<and>
        becomes h p F h' (with_children (take (nat w) (cj_child t) @ drop (Suc (nat w)) (cj_child t)) t) (F - I) \<and>
        doc (blocks h') i (cj_child t ! nat w) I \<and> detached (blocks h') i \<and> I \<subseteq> F"
    and array_past_end: "length (cj_child t) \<le> nat w \<Longrightarrow>
      cJSON_ReplaceItemInArray (Some p) w (Some b) h = Inr h \<and> cJSON_DetachItemFromArray (Some p) w h = Inr (None, h)"
proof -
  note a = assms(1-3)
  show "\<exists>h'. add_item_to_array (Some p) (Some b) h = Inr (True, h') \<and>
      becomes h p (F \<union> K) h' (with_children (cj_child t @ [u]) t) (F \<union> K)"
    unfolding becomes_def by (rule add_doc [OF a assms(5-7)]) blast
  show "\<exists>h'. cJSON_InsertItemInArray (Some p) w (Some b) h = Inr h' \<and>
      becomes h p (F \<union> K) h' (with_children (take (nat w) (cj_child t) @ u # drop (nat w) (cj_child t)) t) (F \<union> K)"
    unfolding becomes_def by (rule insert_doc [OF a assms(4-7)]) blast
  show "\<exists>h' i I. cJSON_ReplaceItemInArray (Some p) w (Some b) h = Inr h' \<and>
        becomes h p (F \<union> K) h' (with_children ((cj_child t)[nat w := u]) t) ((F - I) \<union> K) \<and>
        doc (blocks h) i (cj_child t ! nat w) I \<and> (\<forall>x \<in> I. blocks h' x = None)" if "nat w < length (cj_child t)"
    unfolding becomes_def by (rule replace_doc [OF a assms(4) that assms(5,6)]) blast
  show "\<exists>i h' I. cJSON_DetachItemFromArray (Some p) w h = Inr (Some i, h') \<and>
        becomes h p F h' (with_children (take (nat w) (cj_child t) @ drop (Suc (nat w)) (cj_child t)) t) (F - I) \<and>
        doc (blocks h') i (cj_child t ! nat w) I \<and> detached (blocks h') i \<and> I \<subseteq> F" if "nat w < length (cj_child t)"
    unfolding becomes_def by (rule detach_doc [OF a assms(4) that]) blast
  show "cJSON_ReplaceItemInArray (Some p) w (Some b) h = Inr h \<and> cJSON_DetachItemFromArray (Some p) w h = Inr (None, h)"
    if "length (cj_child t) \<le> nat w"
  proof (rule doc_partsE [OF assms(2,3)])
    fix as H G
    assume "node_at (blocks h) p t (headp None as) H" "kids (blocks h) p as" "length as = length (cj_child t)"
    from get_array_item_doc [OF assms(2-4) this] that assms(4) show ?thesis
      by (simp add: cJSON_ReplaceItemInArray_def cJSON_ReplaceItemViaPointer_def cJSON_DetachItemFromArray_def
          cJSON_DetachItemViaPointer_def)
  qed
qed

lemma doc_leaf:
  "m a = Some (Cell c) \<Longrightarrow> c_type c = ty \<Longrightarrow> ty AND cJSON_IsReference = 0 \<Longrightarrow> c_child c = None \<Longrightarrow> c_string c = None \<Longrightarrow>
   c_valuestring c = None \<Longrightarrow> doc m a (CJson ty None (c_valueint c) (c_valuedouble c) None []) {a}"
  using doc_own [of "CJson ty None (c_valueint c) (c_valuedouble c) None []" m a "[]" "{a}" "{}"]
  by (simp add: node_at_def key_at_def value_at_def docs_Nil)

text \<open>
  C30: For an array of a document in memory, whatever the shape of its chain: adding an item, inserting and
  replacing at an index, and detaching do to the document what the list operations do to its children; a replaced
  item is freed, a detached one is a document of its own; no block outside the two documents changes, and past the
  end replacing and detaching do nothing.\<close>

theorem array_edits_refine:
  assumes "heap_ok h" and "doc (blocks h) p t F" and "owner t" and "0 \<le> w"
    and "doc (blocks h) b u K" and "F \<inter> K = {}" and "detached (blocks h) b"
  shows "(\<exists>h'. add_item_to_array (Some p) (Some b) h = Inr (True, h') \<and>
       becomes h p (F \<union> K) h' (with_children (cj_child t @ [u]) t) (F \<union> K)) \<and>
     (\<exists>h'. cJSON_InsertItemInArray (Some p) w (Some b) h = Inr h' \<and>
       becomes h p (F \<union> K) h' (with_children (take (nat w) (cj_child t) @ u # drop (nat w) (cj_child t)) t) (F \<union> K)) \<and>
     (if nat w < length (cj_child t)
      then (\<exists>h' i I. cJSON_ReplaceItemInArray (Some p) w (Some b) h = Inr h' \<and>
          becomes h p (F \<union> K) h' (with_children ((cj_child t)[nat w := u]) t) ((F - I) \<union> K) \<and>
          doc (blocks h) i (cj_child t ! nat w) I \<and> (\<forall>x \<in> I. blocks h' x = None)) \<and>
        (\<exists>i h' I. cJSON_DetachItemFromArray (Some p) w h = Inr (Some i, h') \<and>
          becomes h p F h' (with_children (take (nat w) (cj_child t) @ drop (Suc (nat w)) (cj_child t)) t) (F - I) \<and>
          doc (blocks h') i (cj_child t ! nat w) I \<and> detached (blocks h') i \<and> I \<subseteq> F)
      else cJSON_ReplaceItemInArray (Some p) w (Some b) h = Inr h \<and> cJSON_DetachItemFromArray (Some p) w h = Inr (None, h))"
  using array_edits [OF assms] by (simp split del: if_split, simp)

text \<open>An array of one null, and a \<open>true\<close> that is in no chain.\<close>

definition sample_cell :: "u32 \<Rightarrow> nat option \<Rightarrow> int cell" where
  "sample_cell ty ch = empty_cell\<lparr>c_type := ty, c_child := ch\<rparr>"

definition sample_heap :: "int heap" where
  "sample_heap = \<lparr>blocks = [0 \<mapsto> Cell (sample_cell cJSON_Array (Some 1)), 1 \<mapsto> Cell (sample_cell cJSON_NULL None),
     2 \<mapsto> Cell (sample_cell cJSON_True None)], asked = 3\<rparr>"

definition sample_item :: "u32 \<Rightarrow> int cjson list \<Rightarrow> int cjson" where
  "sample_item ty ts = CJson ty None 0 0 None ts"

lemma sample_docs:
  "heap_ok sample_heap" "doc (blocks sample_heap) 0 (sample_item cJSON_Array [sample_item cJSON_NULL []]) ({0} \<union> ({1} \<union> {}))"
  "doc (blocks sample_heap) 2 (sample_item cJSON_True []) {2}" "detached (blocks sample_heap) 2"
proof -
  show "heap_ok sample_heap" by (auto simp: heap_ok_def sample_heap_def)
  have "doc (blocks sample_heap) 1 (sample_item cJSON_NULL []) {1}"
    using doc_leaf [of "blocks sample_heap" 1 "sample_cell cJSON_NULL None" cJSON_NULL]
    by (simp add: sample_heap_def sample_cell_def sample_item_def empty_cell_def)
  then have "docs (blocks sample_heap) [1] [sample_item cJSON_NULL []] ({1} \<union> {})"
    by (intro docs_Cons docs_Nil) simp_all
  then show "doc (blocks sample_heap) 0 (sample_item cJSON_Array [sample_item cJSON_NULL []]) ({0} \<union> ({1} \<union> {}))"
    by (intro doc_own [where as = "[1]"])
      (simp_all add: sample_item_def node_at_def key_at_def value_at_def sample_heap_def sample_cell_def empty_cell_def)
  show "doc (blocks sample_heap) 2 (sample_item cJSON_True []) {2}"
    using doc_leaf [of "blocks sample_heap" 2 "sample_cell cJSON_True None" cJSON_True]
    by (simp add: sample_heap_def sample_cell_def sample_item_def empty_cell_def)
  show "detached (blocks sample_heap) 2" by (simp add: detached_def sample_heap_def sample_cell_def empty_cell_def)
qed

lemma array_edits_refine_witness:
  "\<exists>h'. cJSON_InsertItemInArray (Some 0) 0 (Some 2) sample_heap = Inr h' \<and>
     doc (blocks h') 0 (sample_item cJSON_Array [sample_item cJSON_True [], sample_item cJSON_NULL []]) {0, 1, 2}"
  using array_edits_refine [OF sample_docs(1,2) _ _ sample_docs(3) _ sample_docs(4), of 0]
  by (auto simp: becomes_def with_children_def sample_item_def owner_def insert_commute)

text \<open>
  C32: Deleting a document that is in no chain frees its blocks, all of them and no others: the items, the
  strings and the keys it owns, and neither what its references point to nor its constant keys.\<close>

theorem delete_frees_document:
  assumes "heap_ok h" and "doc (blocks h) a t F" and "detached (blocks h) a"
  shows "cJSON_Delete_p (Some a) h = Inr (without F h)"
  using assms by (rule delete_detached)

lemma delete_frees_document_witness:
  "\<exists>h'. cJSON_Delete_p (Some 2) sample_heap = Inr h' \<and> blocks h' 2 = None \<and> blocks h' 1 = blocks sample_heap 1"
  using delete_frees_document [OF sample_docs(1,3,4)] by simp

end
