(* ===== verification/CJson_Objects.thy ===== *)
theory CJson_Objects
  imports CJson_Edit_Props
begin

text \<open>
  Objects in memory: replacing the key of an item, the lookup by name and the edits of an object
  by name, related to the lookups and lists of \<open>CJson_Tree\<close>.
\<close>

section \<open>Keys\<close>

definition with_key :: "string \<Rightarrow> u32 \<Rightarrow> 'd cjson \<Rightarrow> 'd cjson" where
  "with_key s ty u = CJson ty (cj_valuestring u) (cj_valueint u) (cj_valuedouble u) (Some s) (cj_child u)"

lemma node_rekey:
  assumes n: "node_at m b u ch H" and c: "m b = Some (Cell c)"
    and k: "key_at m (cj_type u) (c_string c) (cj_string u) K0"
    and same: "\<And>x. x \<in> H - K0 - {b} \<Longrightarrow> m' x = m x" and c': "m' b = Some (Cell (c\<lparr>c_string := kp, c_type := ty\<rparr>))"
    and new: "key_at m' ty kp (Some s) N" "N \<inter> H = {}" "ty AND cJSON_IsReference = cj_type u AND cJSON_IsReference"
  shows "node_at m' b (with_key s ty u) ch ((H - K0) \<union> N)"
proof -
  obtain K V where K: "key_at m (cj_type u) (c_string c) (cj_string u) K"
    and v: "value_at m (cj_type u) (c_valuestring c) (cj_valuestring u) V"
    and H: "H = insert b (K \<union> V)" "b \<notin> K \<union> V" "K \<inter> V = {}"
    and d: "c_type c = cj_type u" "c_valueint c = cj_valueint u" "c_valuedouble c = cj_valuedouble u" "c_child c = ch"
    using n c by (auto simp: node_at_def)
  have "K = K0" using K k by (auto simp: key_at_def split: option.splits sptr.splits)
  then have eq: "(H - K0) \<union> N = insert b (N \<union> V)" and N: "b \<notin> N \<union> V" "N \<inter> V = {}"
    using H new(2) by auto
  have "value_at m' (cj_type u) (c_valuestring c) (cj_valuestring u) V"
    by (rule value_at_frame [OF v], rule same) (use H \<open>K = K0\<close> in auto)
  then have "value_at m' ty (c_valuestring c) (cj_valuestring u) V" by (simp add: value_at_def new(3))
  then show ?thesis
    unfolding node_at_def eq using N c' new(1) d by (auto simp: with_key_def)
qed

lemma doc_rekey:
  assumes n: "doc m b u K" and c: "m b = Some (Cell c)" and K0: "K0 \<subseteq> K" "b \<notin> K0"
    and k: "key_at m (cj_type u) (c_string c) (cj_string u) K0"
    and same: "\<And>x. x \<in> K - K0 - {b} \<Longrightarrow> m' x = m x" and c': "m' b = Some (Cell (c\<lparr>c_string := kp, c_type := ty\<rparr>))"
    and new: "key_at m' ty kp (Some s) N" "N \<inter> K = {}" "ty AND cJSON_IsReference = cj_type u AND cJSON_IsReference"
  shows "doc m' b (with_key s ty u) ((K - K0) \<union> N)"
proof (rule docE [OF n])
  fix as H G
  assume h: "K = H \<union> G" "cj_type u AND cJSON_IsReference = 0" "node_at m b u (headp None as) H" "seg m None as None"
    "docs m as (cj_child u) G" "H \<inter> G = {}"
  have K0H: "K0 \<subseteq> H" using h(3) c k
    by (auto simp: node_at_def key_at_def split: option.splits sptr.splits)
  have G: "m' x = m x" if "x \<in> G" for x using same that h(1,6) K0H node_at_dom [OF h(3)] by blast
  have "node_at m' b (with_key s ty u) (headp None as) ((H - K0) \<union> N)"
    by (rule node_rekey [OF h(3) c k _ c' new(1)]) (use same new h(1) in auto)
  moreover have "seg m' None as None" using h(4) seg_frame [of as m' m] G docs_dom [OF h(5)] by blast
  moreover have "docs m' as (cj_child (with_key s ty u)) G" using docs_frame [OF h(5)] G by (auto simp: with_key_def)
  moreover have "((H - K0) \<union> N) \<inter> G = {}" using new(2) h(1,6) by auto
  moreover have "cj_type (with_key s ty u) AND cJSON_IsReference = 0" using h(2) new(3) by (simp add: with_key_def)
  ultimately have "doc m' b (with_key s ty u) ((H - K0) \<union> N \<union> G)" by (intro doc_own)
  moreover have "(H - K0) \<union> N \<union> G = (K - K0) \<union> N" using K0H h(1,6) by auto
  ultimately show ?thesis by simp
next
  fix ch assume h: "cj_type u AND cJSON_IsReference \<noteq> 0" "node_at m b u ch K" "cj_child u = []"
  have "node_at m' b (with_key s ty u) ch ((K - K0) \<union> N)"
    by (rule node_rekey [OF h(2) c k _ c' new(1)]) (use same new in auto)
  then show ?thesis using h new(3) by (intro doc_ref) (auto simp: with_key_def)
qed

lemma doc_keyE:
  assumes "doc m b u K"
  obtains c K0 where "m b = Some (Cell c)" "c_type c = cj_type u" "key_at m (cj_type u) (c_string c) (cj_string u) K0"
    "K0 \<subseteq> K" "b \<notin> K0"
  using assms by (elim docE) (auto simp: node_at_def)

text \<open>The walk over keys finds what the walk over the list of children finds.\<close>

lemma text_of_key: "key_at (blocks h) ty p (Some s) K \<Longrightarrow> text_of h p = Inr s"
  by (auto simp: key_at_def text_of_def split: option.splits sptr.splits)

lemma key_at_None: "key_at m ty p s K \<Longrightarrow> (p = None) = (s = None)"
  by (auto simp: key_at_def split: option.splits sptr.splits)

lemma key_matches_doc:
  assumes "key_at (blocks h) ty p s K" and "text_of h name = Inr n"
  shows "key_matches cs h name p =
    (case s of None \<Rightarrow> if cs then Inl (UB NullPtr) else Inr False
     | Some k \<Rightarrow> Inr (if cs then n = k else case_insensitive_eq n k))"
  using assms text_of_key [of h ty p _ K] key_at_None [OF assms(1)]
  by (auto simp: key_matches_def text_of_def split: option.splits)

definition finds :: "nat list \<Rightarrow> 'd cjson list \<Rightarrow> 'd cjson option res \<Rightarrow> nat option res \<Rightarrow> bool" where
  "finds as ts spec r \<longleftrightarrow>
     (case spec of
        Inl e \<Rightarrow> r = Inl e
      | Inr None \<Rightarrow> r = Inr None
      | Inr (Some c) \<Rightarrow> \<exists>k < length ts. c = ts ! k \<and> r = Inr (Some (as ! k)))"

lemma finds_skip: "finds as ts spec r \<Longrightarrow> finds (a # as) (t # ts) spec r"
  unfolding finds_def by (auto split: sum.splits option.splits intro: exI [where x = "Suc k" for k])

lemma finds_here: "finds (a # as) (t # ts) (Inr (Some t)) (Inr (Some a))"
  by (auto simp: finds_def intro!: exI [of _ 0])

lemma find_sibling_docs:
  assumes "docs (blocks h) as ts F" and "seg (blocks h) q as None" and "text_of h name = Inr n" and "length as \<le> fuel"
  shows "finds as ts (if cs then find_item_cs n ts else Inr (find_item_ci n ts)) (find_sibling fuel cs h name (headp None as))"
  using assms
proof (induction as arbitrary: q ts F fuel)
  case Nil
  then show ?case by (auto simp: finds_def)
next
  case (Cons a as)
  obtain t ts' K G where d: "ts = t # ts'" "F = K \<union> G" "doc (blocks h) a t K" "docs (blocks h) as ts' G"
    using Cons.prems(1) by (auto simp: docs_Cons_iff)
  obtain f where f: "fuel = Suc f" "length as \<le> f" using Cons.prems(4) by (cases fuel) auto
  obtain c where c: "blocks h a = Some (Cell c)" "c_next c = headp None as" "seg (blocks h) (Some a) as None"
    using Cons.prems(2) by auto
  obtain K0 where k: "key_at (blocks h) (cj_type t) (c_string c) (cj_string t) K0"
    by (rule doc_keyE [OF d(3)]) (use c that in auto)
  note IH = finds_skip [OF Cons.IH [OF d(4) c(3) Cons.prems(3) f(2)], of a t]
  show ?case
    using IH d(1) f(1) c(1,2) key_matches_doc [OF k Cons.prems(3), of cs]
    by (cases cs) (auto split: option.splits simp: finds_here, auto simp: finds_def)
qed

lemma lookup_kids:
  assumes k: "kids (blocks h) p as" and d: "docs (blocks h) as (cj_child t) G" and n: "text_of h (Some name) = Inr n"
    and len: "length as \<le> asked h"
  shows "finds as (cj_child t) (get_object_item (Some t) (Some n) cs) (get_object_item_p cs h (Some p) (Some name))"
proof -
  obtain c where c: "blocks h p = Some (Cell c)" "c_child c = headp None as" "seg (blocks h) None as None"
    using k by (auto simp: kids_def)
  show ?thesis
    using find_sibling_docs [OF d c(3) n len, of cs] c by (cases cs) (simp_all add: get_object_item_p_def get_object_item_def)
qed

section \<open>Members of objects\<close>

lemma heap_ok_fresh: "heap_ok h \<Longrightarrow> blocks h (asked h) = None"
  by (auto simp: heap_ok_def dom_def)

lemma not_ref_bits [simp]:
  "(ty AND NOT cJSON_StringIsConst) AND cJSON_IsReference = ty AND cJSON_IsReference"
  "(ty OR cJSON_StringIsConst) AND cJSON_IsReference = ty AND cJSON_IsReference"
  "(ty AND NOT cJSON_StringIsConst) AND cJSON_StringIsConst = 0"
  "(ty OR cJSON_StringIsConst) AND cJSON_StringIsConst = cJSON_StringIsConst"
  for ty :: u32
  by (simp_all add: and.assoc bit.conj_disj_distrib2)

text \<open>
  The key of a detached item replaced, whether the new key is a fresh block or constant storage:
  the memory in which the item is then added to its object.
\<close>

lemma rekeyed:
  assumes ok: "heap_ok h" and u: "doc (blocks h) b u K" "detached (blocks h) b"
    and new: "key_at (blocks h) ty kp (Some s) N" "N \<inter> K = {}" "ty AND cJSON_IsReference = cj_type u AND cJSON_IsReference"
    and c: "get_cell h (Some b) = Inr c"
    and ty: "\<And>d. c_type d = cj_type u \<Longrightarrow> g d = ty"
  obtains K0 h3 where "K0 \<subseteq> K" "(if c_type c AND cJSON_StringIsConst = 0 then free_text (c_string c) h else Inr h) = Inr (without K0 h)"
    "set_cell (\<lambda>d. d\<lparr>c_string := kp, c_type := g d\<rparr>) (Some b) (without K0 h) = Inr h3"
    "heap_ok h3" "asked h3 = asked h" "doc (blocks h3) b (with_key s ty u) ((K - K0) \<union> N)" "detached (blocks h3) b"
    "\<And>x. x \<notin> K \<Longrightarrow> blocks h3 x = blocks h x" "\<And>x. x \<in> K0 \<Longrightarrow> blocks h3 x = None"
    "key_at (blocks h) (cj_type u) (c_string c) (cj_string u) K0" "b \<notin> K0"
proof (rule doc_keyE [OF u(1)])
  fix d K0
  assume d: "blocks h b = Some (Cell d)" "c_type d = cj_type u" "key_at (blocks h) (cj_type u) (c_string d) (cj_string u) K0"
    "K0 \<subseteq> K" "b \<notin> K0"
  have cd: "c = d" using c d(1) by simp
  have b: "b \<in> K" using doc_dom [OF u(1)] by simp
  let ?h3 = "(without K0 h)\<lparr>blocks := (blocks (without K0 h))(b \<mapsto> Cell (d\<lparr>c_string := kp, c_type := ty\<rparr>))\<rparr>"
  show thesis
  proof (rule that [of K0 ?h3])
    show "(if c_type c AND cJSON_StringIsConst = 0 then free_text (c_string c) h else Inr h) = Inr (without K0 h)"
      unfolding cd d(2) by (rule free_key [OF d(3)]) simp
    show "set_cell (\<lambda>d. d\<lparr>c_string := kp, c_type := g d\<rparr>) (Some b) (without K0 h) = Inr ?h3"
      using d(1,5) ty [OF d(2)] by simp
    show "heap_ok ?h3" using ok d(1) by (auto simp: heap_ok_def dom_def subset_iff split: if_splits)
    show "doc (blocks ?h3) b (with_key s ty u) ((K - K0) \<union> N)"
    proof (rule doc_rekey [OF u(1) d(1,4,5,3)])
      show "key_at (blocks ?h3) ty kp (Some s) N"
        by (rule key_at_frame [OF new(1)]) (use new(2) d(4) b in auto)
    qed (use new d(4) in auto)
    show "detached (blocks ?h3) b" using u(2) d(1) by (auto simp: detached_def)
  qed (use d b cd in auto)
qed

lemma add_object_doc:
  assumes ok: "heap_ok h" and t: "doc (blocks h) p t F" "owner t"
    and u: "doc (blocks h) b u K" "F \<inter> K = {}" "detached (blocks h) b"
    and n: "text_of h (Some name) = Inr s" and alloc: "ok (asked h)"
  obtains h' K' where "add_item_to_object ok (Some p) (Some name) (Some b) False h = Inr (True, h')" "heap_ok h'"
    "doc (blocks h') p (with_children (cj_child t @ [with_key s (cj_type u AND NOT cJSON_StringIsConst) u]) t) (F \<union> K')"
    "K' \<subseteq> insert (asked h) K" "\<And>x. x \<notin> F \<union> K \<union> K' \<Longrightarrow> blocks h' x = blocks h x" "\<And>x. x \<in> K - K' \<Longrightarrow> blocks h' x = None"
proof -
  let ?n = "asked h"
  define ty where "ty = cj_type u AND NOT cJSON_StringIsConst"
  have ty: "ty AND cJSON_IsReference = cj_type u AND cJSON_IsReference" "ty AND cJSON_StringIsConst = 0"
    unfolding ty_def by (rule not_ref_bits)+
  define h1 where "h1 = \<lparr>blocks = (blocks h)(?n \<mapsto> Str s), asked = Suc ?n\<rparr>"
  have fresh: "?n \<notin> F" "?n \<notin> K" using heap_ok_fresh [OF ok] doc_dom [OF t(1)] doc_dom [OF u(1)] by auto
  have ok1: "heap_ok h1" using ok by (auto simp: heap_ok_def h1_def)
  have t1: "doc (blocks h1) p t F" by (rule doc_frame [OF t(1)]) (use fresh in \<open>auto simp: h1_def\<close>)
  have u1: "doc (blocks h1) b u K" by (rule doc_frame [OF u(1)]) (use fresh in \<open>auto simp: h1_def\<close>)
  have b: "b \<in> K" using doc_dom [OF u(1)] by simp
  then have det1: "detached (blocks h1) b" using u(3) fresh by (auto simp: detached_def h1_def)
  obtain c where c: "get_cell h1 (Some b) = Inr c" "c_type c = cj_type u" using doc_cell [OF u1] by auto
  obtain K0 h3 where r: "K0 \<subseteq> K"
    "(if c_type c AND cJSON_StringIsConst = 0 then free_text (c_string c) h1 else Inr h1) = Inr (without K0 h1)"
    "set_cell (\<lambda>d. d\<lparr>c_string := Some (Block ?n), c_type := ty\<rparr>) (Some b) (without K0 h1) = Inr h3"
    "heap_ok h3" "doc (blocks h3) b (with_key s ty u) ((K - K0) \<union> {?n})" "detached (blocks h3) b"
    "\<And>x. x \<notin> K \<Longrightarrow> blocks h3 x = blocks h1 x" "\<And>x. x \<in> K0 \<Longrightarrow> blocks h3 x = None"
  proof (rule rekeyed [OF ok1 u1 det1 _ _ _ c(1), where ty = ty and kp = "Some (Block ?n)" and s = s and N = "{?n}"
      and g = "\<lambda>_. ty"])
    show "key_at (blocks h1) ty (Some (Block ?n)) (Some s) {?n}" using ty by (simp add: key_at_def h1_def)
  qed (use fresh that ty in auto)
  have t3: "doc (blocks h3) p t F" by (rule doc_frame [OF t1]) (use r(7) u(2) in blast)
  have dis: "F \<inter> ((K - K0) \<union> {?n}) = {}" using u(2) fresh by auto
  obtain h' where h: "add_item_to_array (Some p) (Some b) h3 = Inr (True, h')" "heap_ok h'"
    "doc (blocks h') p (with_children (cj_child t @ [with_key s ty u]) t) (F \<union> ((K - K0) \<union> {?n}))"
    "framed p (F \<union> ((K - K0) \<union> {?n})) h3 h'"
    by (rule add_doc [OF r(4) t3 t(2) r(5) dis r(6)]) (rule that; assumption)
  show thesis
  proof (rule that [of h' "(K - K0) \<union> {?n}"])
    have "cJSON_strdup ok (Some name) h = Inr (Some (Block ?n), h1)"
      using n alloc by (simp add: cJSON_strdup_def allocate_def h1_def)
    then show "add_item_to_object ok (Some p) (Some name) (Some b) False h = Inr (True, h')"
      using c r(2,3) h(1) unfolding ty_def by (simp add: add_item_to_object_def)
    show "blocks h' x = blocks h x" if "x \<notin> F \<union> K \<union> ((K - K0) \<union> {?n})" for x
      using that h(4) r(7) by (auto simp: framed_def h1_def)
    show "blocks h' x = None" if "x \<in> K - ((K - K0) \<union> {?n})" for x
      using that h(4) r(8) u(2) by (auto simp: framed_def)
  qed (use h in \<open>auto simp: ty_def\<close>)
qed


lemma finds_doc:
  assumes "finds as ts (Inr (Some c)) r" and "docs m as ts G"
  shows "\<exists>i K. r = Inr (Some i) \<and> doc m i c K \<and> K \<subseteq> G"
proof -
  obtain k where k: "k < length ts" "c = ts ! k" "r = Inr (Some (as ! k))" using assms(1) by (auto simp: finds_def)
  show ?thesis by (rule docs_nthE [OF assms(2) k(1)]) (use k in auto)
qed

lemma lookup_doc:
  assumes ok: "heap_ok h" and t: "doc (blocks h) p t F" "owner t" and n: "text_of h (Some name) = Inr n"
  shows "case get_object_item (Some t) (Some n) cs of
      Inl e \<Rightarrow> get_object_item_p cs h (Some p) (Some name) = Inl e
    | Inr None \<Rightarrow> get_object_item_p cs h (Some p) (Some name) = Inr None
    | Inr (Some c) \<Rightarrow> \<exists>i K. get_object_item_p cs h (Some p) (Some name) = Inr (Some i) \<and> doc (blocks h) i c K \<and> K \<subseteq> F"
proof (rule doc_partsE [OF t])
  fix as H G
  assume k: "kids (blocks h) p as" and d: "docs (blocks h) as (cj_child t) G" and F: "F = H \<union> G"
  have f: "finds as (cj_child t) (get_object_item (Some t) (Some n) cs) (get_object_item_p cs h (Some p) (Some name))"
    by (rule lookup_kids [OF k d n docs_length_asked [OF ok d]])
  show ?thesis
  proof (cases "get_object_item (Some t) (Some n) cs")
    case (Inl e)
    then show ?thesis using f by (simp add: finds_def)
  next
    case (Inr r)
    then show ?thesis using f finds_doc [OF _ d, of _ "get_object_item_p cs h (Some p) (Some name)"] F
      by (cases r) (auto simp: finds_def, blast)
  qed
qed

lemma finds_SomeE:
  assumes "finds as ts (Inr (Some c)) r"
  obtains k where "k < length ts" "ts ! k = c" "r = Inr (Some (as ! k))"
  using assms by (auto simp: finds_def)

lemma detach_object_doc:
  assumes ok: "heap_ok h" and t: "doc (blocks h) p t F" "owner t" and n: "text_of h (Some name) = Inr n"
    and c: "get_object_item (Some t) (Some n) cs = Inr (Some c)"
  obtains i k I h' where "cJSON_DetachItemFromObject cs (Some p) (Some name) h = Inr (Some i, h')"
    "k < length (cj_child t)" "cj_child t ! k = c"
    "becomes h p F h' (with_children (take k (cj_child t) @ drop (Suc k) (cj_child t)) t) (F - I)"
    "doc (blocks h') i c I" "detached (blocks h') i" "I \<subseteq> F"
proof (rule doc_partsE [OF t])
  fix as H G
  assume nd: "node_at (blocks h) p t (headp None as) H" and k: "kids (blocks h) p as"
    and d: "docs (blocks h) as (cj_child t) G" and F: "H \<inter> G = {}" "F = H \<union> G" "p \<in> H" "set as \<subseteq> G"
  have f: "finds as (cj_child t) (Inr (Some c)) (get_object_item_p cs h (Some p) (Some name))"
    using lookup_kids [OF k d n docs_length_asked [OF ok d], of cs] c by simp
  obtain j where j: "j < length (cj_child t)" "cj_child t ! j = c"
    "get_object_item_p cs h (Some p) (Some name) = Inr (Some (as ! j))"
    by (rule finds_SomeE [OF f])
  show thesis
    by (rule detach_child [OF ok t(2) j(1) nd k d F], rule that [of "as ! j" _ j])
      (use j in \<open>auto simp: cJSON_DetachItemFromObject_def becomes_def\<close>)
qed

lemma text_of_frame: "text_of h (Some name) = Inr s \<Longrightarrow> (\<And>k. name = Block k \<Longrightarrow> blocks h' k = blocks h k) \<Longrightarrow>
    text_of h' (Some name) = Inr s"
  by (auto simp: text_of_def split: sptr.splits)

lemma replace_object_doc:
  assumes ok: "heap_ok h" and t: "doc (blocks h) p t F" "owner t"
    and u: "doc (blocks h) b u K" "F \<inter> K = {}" "detached (blocks h) b"
    and n: "text_of h (Some name) = Inr s" "\<And>k. name = Block k \<Longrightarrow> k \<notin> K" and alloc: "ok (asked h)"
    and c: "get_object_item (Some t) (Some s) cs = Inr (Some c)"
  obtains h' k F' i I where "replace_item_in_object ok (Some p) (Some name) (Some b) cs h = Inr (True, h')"
    "k < length (cj_child t)" "cj_child t ! k = c" "heap_ok h'"
    "doc (blocks h') p (with_children ((cj_child t)[k := with_key s (cj_type u AND NOT cJSON_StringIsConst) u]) t) F'"
    "F' \<subseteq> insert (asked h) (F \<union> K)" "\<And>x. x \<notin> insert (asked h) (F \<union> K) \<Longrightarrow> blocks h' x = blocks h x"
    "doc (blocks h) i c I" "\<And>x. x \<in> I \<Longrightarrow> blocks h' x = None"
proof -
  let ?n = "asked h"
  define ty where "ty = cj_type u AND NOT cJSON_StringIsConst"
  have ty: "ty AND cJSON_IsReference = cj_type u AND cJSON_IsReference" "ty AND cJSON_StringIsConst = 0"
    unfolding ty_def by (rule not_ref_bits)+
  define h1 where "h1 = \<lparr>blocks = (blocks h)(?n \<mapsto> Str s), asked = Suc ?n\<rparr>"
  have fresh: "?n \<notin> F" "?n \<notin> K" using heap_ok_fresh [OF ok] doc_dom [OF t(1)] doc_dom [OF u(1)] by auto
  have ok1: "heap_ok h1" using ok by (auto simp: heap_ok_def h1_def)
  have t1: "doc (blocks h1) p t F" by (rule doc_frame [OF t(1)]) (use fresh in \<open>auto simp: h1_def\<close>)
  have u1: "doc (blocks h1) b u K" by (rule doc_frame [OF u(1)]) (use fresh in \<open>auto simp: h1_def\<close>)
  have b: "b \<in> K" using doc_dom [OF u(1)] by simp
  then have det1: "detached (blocks h1) b" using u(3) fresh by (auto simp: detached_def h1_def)
  obtain d where d: "get_cell h1 (Some b) = Inr d" "c_type d = cj_type u" "blocks h1 b = Some (Cell d)"
    using doc_cell [OF u1] by auto
  then have d0: "get_cell h (Some b) = Inr d" using b fresh by (auto simp: h1_def split: if_splits)
  obtain K0 h3 where r: "K0 \<subseteq> K"
    "set_cell (\<lambda>d. d\<lparr>c_string := Some (Block ?n), c_type := c_type d AND NOT cJSON_StringIsConst\<rparr>) (Some b) (without K0 h1) = Inr h3"
    "heap_ok h3" "doc (blocks h3) b (with_key s ty u) ((K - K0) \<union> {?n})"
    "\<And>x. x \<notin> K \<Longrightarrow> blocks h3 x = blocks h1 x"
    "key_at (blocks h1) (cj_type u) (c_string d) (cj_string u) K0" "b \<notin> K0"
  proof (rule rekeyed [OF ok1 u1 det1 _ _ _ d(1), where ty = ty and kp = "Some (Block ?n)" and s = s and N = "{?n}"
      and g = "\<lambda>d. c_type d AND NOT cJSON_StringIsConst"])
    show "key_at (blocks h1) ty (Some (Block ?n)) (Some s) {?n}" using ty by (simp add: key_at_def h1_def)
  qed (use fresh ty that in \<open>auto simp: ty_def\<close>)
  have "blocks h x = blocks h1 x" if "x \<in> K0" for x using that r(1) fresh by (auto simp: h1_def)
  then have free: "(if c_type d AND cJSON_StringIsConst = 0 then free_text (c_string d) h else Inr h) = Inr (without K0 h)"
    unfolding d(2) by (intro free_key [OF r(6)])
  have "text_of (without K0 h) (Some name) = Inr s"
    by (rule text_of_frame [OF n(1)]) (use n(2) r(1) in auto)
  moreover have "\<lparr>blocks = (blocks (without K0 h))(?n \<mapsto> Str s), asked = Suc ?n\<rparr> = without K0 h1"
    using r(1) fresh by (auto simp: without_def h1_def fun_eq_iff restrict_map_def)
  ultimately have dup: "cJSON_strdup ok (Some name) (without K0 h) = Inr (Some (Block ?n), without K0 h1)"
    using alloc by (simp add: cJSON_strdup_def allocate_def)
  have t3: "doc (blocks h3) p t F" by (rule doc_frame [OF t1]) (use r(5) u(2) in blast)
  have n3: "text_of h3 (Some name) = Inr s"
  proof (rule text_of_frame [OF n(1)])
    fix k assume k: "name = Block k"
    then have "k \<noteq> ?n" using n(1) heap_ok_fresh [OF ok] by (auto simp: text_of_def)
    then show "blocks h3 k = blocks h k" using r(5) n(2) [OF k] by (simp add: h1_def)
  qed
  have dis: "F \<inter> ((K - K0) \<union> {?n}) = {}" using u(2) fresh by auto
  show thesis
  proof (rule doc_partsE [OF t3 t(2)])
    fix as H G
    assume nd: "node_at (blocks h3) p t (headp None as) H" and k: "kids (blocks h3) p as"
      and dd: "docs (blocks h3) as (cj_child t) G" and F: "H \<inter> G = {}" "F = H \<union> G" "p \<in> H" "set as \<subseteq> G"
    have f: "finds as (cj_child t) (Inr (Some c)) (get_object_item_p cs h3 (Some p) (Some name))"
      using lookup_kids [OF k dd n3 docs_length_asked [OF r(3) dd], of cs] c by simp
    obtain j where j: "j < length (cj_child t)" "cj_child t ! j = c"
      "get_object_item_p cs h3 (Some p) (Some name) = Inr (Some (as ! j))"
      by (rule finds_SomeE [OF f])
    obtain h' I where h: "cJSON_ReplaceItemViaPointer (Some p) (Some (as ! j)) (Some b) h3 = Inr (True, h')" "heap_ok h'"
      "doc (blocks h') p (with_children ((cj_child t)[j := with_key s ty u]) t) ((F - I) \<union> ((K - K0) \<union> {?n}))"
      "framed p (F \<union> ((K - K0) \<union> {?n})) h3 h'" "I \<subseteq> F" "doc (blocks h3) (as ! j) (cj_child t ! j) I"
      "\<forall>x \<in> I. blocks h' x = None"
      by (rule replace_child [OF r(3) t(2) j(1) r(4) dis nd k dd F]) (rule that; assumption)
    have "blocks h x = blocks h3 x" if "x \<in> I" for x
    proof -
      have "x \<notin> K" "x \<noteq> ?n" using that h(5) u(2) fresh by auto
      then show ?thesis using r(5) [of x] by (simp add: h1_def)
    qed
    then have i: "doc (blocks h) (as ! j) c I"
      unfolding j(2) [symmetric] by (rule doc_frame [OF h(6)])
    show thesis
    proof (rule that [OF _ j(1,2) h(2) _ _ _ i])
      show "replace_item_in_object ok (Some p) (Some name) (Some b) cs h = Inr (True, h')"
        using d0 free dup r(2) j(3) h(1) by (simp add: replace_item_in_object_def)
      show "blocks h' x = blocks h x" if "x \<notin> insert ?n (F \<union> K)" for x
        using that h(4) r(5) by (auto simp: framed_def h1_def)
    qed (use h in \<open>auto simp: ty_def\<close>)
  qed
qed

text \<open>
  Renaming the replacement first has three consequences. A name that is the replacement's own key
  is read after it is freed; a failed copy leaves the replacement without a key; and the function
  reports success, the replacement renamed, when the object has no such member.
\<close>

lemma replace_by_own_key_reads_freed:
  assumes "get_cell h (Some b) = Inr c" and "c_type c AND cJSON_StringIsConst = 0" and "c_string c = Some (Block k)"
    and "blocks h k = Some (Str s)"
  shows "replace_item_in_object ok (Some p) (Some (Block k)) (Some b) cs h = Inl (UB Dangling)"
  using assms by (simp add: replace_item_in_object_def free_text_def free_block_def cJSON_strdup_def text_of_def)

lemma replace_member_loses_key:
  assumes "get_cell h (Some b) = Inr c" and "c_type c AND cJSON_StringIsConst \<noteq> 0" and "\<not> ok (asked h)"
    and "blocks h p = Some (Cell d)" and "c_child d = None" and "b \<noteq> p"
  shows "\<exists>h' c'. replace_item_in_object ok (Some p) (Some (Static s)) (Some b) cs h = Inr (True, h') \<and>
     get_cell h' (Some b) = Inr c' \<and> c_string c' = None"
proof -
  have "blocks h b = Some (Cell c)" using assms(1) by (auto simp: get_cell_def split: option.splits block.splits)
  then show ?thesis
    using assms by (simp add: replace_item_in_object_def cJSON_strdup_def text_of_def allocate_def get_object_item_p_def
        cJSON_ReplaceItemViaPointer_def)
qed

section \<open>The edits of an object\<close>

abbreviation (input) renamed :: "string \<Rightarrow> 'd cjson \<Rightarrow> 'd cjson" where
  "renamed s u \<equiv> with_key s (cj_type u AND NOT cJSON_StringIsConst) u"

lemma member_absent:
  assumes ok: "heap_ok h" and t: "doc (blocks h) p t F" "owner t" and n: "text_of h (Some name) = Inr n"
    and c: "get_object_item (Some t) (Some n) cs = Inr None"
  shows "get_object_item_p cs h (Some p) (Some name) = Inr None"
    and "cJSON_DetachItemFromObject cs (Some p) (Some name) h = Inr (None, h)"
  using lookup_doc [OF ok t n, of cs] c by (simp_all add: cJSON_DetachItemFromObject_def cJSON_DetachItemViaPointer_def)

text \<open>
  C31: For an object of a document in memory, when the copy of the name can be allocated: an
  added member comes last, with a copy of the name as its key; looking up a name on the heap
  finds the member that the lookup in the document finds, with either comparison; detaching by
  name removes that member, and leaves the memory as it is if the name is absent; replacing by
  name puts the renamed item in the place of the member, which is freed.
\<close>

theorem object_edits_refine:
  assumes "heap_ok h" and "doc (blocks h) p t F" and "owner t"
    and "doc (blocks h) b u K" and "F \<inter> K = {}" and "detached (blocks h) b"
    and "text_of h (Some name) = Inr s" and "\<And>k. name = Block k \<Longrightarrow> k \<notin> K" and "ok (asked h)"
  shows "(\<exists>h' K'. add_item_to_object ok (Some p) (Some name) (Some b) False h = Inr (True, h') \<and>
       doc (blocks h') p (with_children (cj_child t @ [renamed s u]) t) (F \<union> K') \<and> K' \<subseteq> insert (asked h) K \<and>
       (\<forall>x. x \<notin> F \<union> K \<union> K' \<longrightarrow> blocks h' x = blocks h x)) \<and>
     (case get_object_item (Some t) (Some s) cs of
        Inl e \<Rightarrow> get_object_item_p cs h (Some p) (Some name) = Inl e
      | Inr None \<Rightarrow> get_object_item_p cs h (Some p) (Some name) = Inr None \<and>
          cJSON_DetachItemFromObject cs (Some p) (Some name) h = Inr (None, h)
      | Inr (Some c) \<Rightarrow>
          (\<exists>i I. get_object_item_p cs h (Some p) (Some name) = Inr (Some i) \<and> doc (blocks h) i c I) \<and>
          (\<exists>i k I h'. cJSON_DetachItemFromObject cs (Some p) (Some name) h = Inr (Some i, h') \<and>
             k < length (cj_child t) \<and> cj_child t ! k = c \<and> doc (blocks h') i c I \<and>
             becomes h p F h' (with_children (take k (cj_child t) @ drop (Suc k) (cj_child t)) t) (F - I)) \<and>
          (\<exists>h' k F' i I. replace_item_in_object ok (Some p) (Some name) (Some b) cs h = Inr (True, h') \<and>
             k < length (cj_child t) \<and> cj_child t ! k = c \<and>
             doc (blocks h') p (with_children ((cj_child t)[k := renamed s u]) t) F' \<and>
             (\<forall>x. x \<notin> insert (asked h) (F \<union> K) \<longrightarrow> blocks h' x = blocks h x) \<and>
             doc (blocks h) i c I \<and> (\<forall>x \<in> I. blocks h' x = None)))"
proof (rule conjI)
  note a = assms(1-3)
  show "\<exists>h' K'. add_item_to_object ok (Some p) (Some name) (Some b) False h = Inr (True, h') \<and>
       doc (blocks h') p (with_children (cj_child t @ [renamed s u]) t) (F \<union> K') \<and> K' \<subseteq> insert (asked h) K \<and>
       (\<forall>x. x \<notin> F \<union> K \<union> K' \<longrightarrow> blocks h' x = blocks h x)"
    by (rule add_object_doc [where ok = ok, OF a assms(4-7,9)]) blast
  show "case get_object_item (Some t) (Some s) cs of
        Inl e \<Rightarrow> get_object_item_p cs h (Some p) (Some name) = Inl e
      | Inr None \<Rightarrow> get_object_item_p cs h (Some p) (Some name) = Inr None \<and>
          cJSON_DetachItemFromObject cs (Some p) (Some name) h = Inr (None, h)
      | Inr (Some c) \<Rightarrow>
          (\<exists>i I. get_object_item_p cs h (Some p) (Some name) = Inr (Some i) \<and> doc (blocks h) i c I) \<and>
          (\<exists>i k I h'. cJSON_DetachItemFromObject cs (Some p) (Some name) h = Inr (Some i, h') \<and>
             k < length (cj_child t) \<and> cj_child t ! k = c \<and> doc (blocks h') i c I \<and>
             becomes h p F h' (with_children (take k (cj_child t) @ drop (Suc k) (cj_child t)) t) (F - I)) \<and>
          (\<exists>h' k F' i I. replace_item_in_object ok (Some p) (Some name) (Some b) cs h = Inr (True, h') \<and>
             k < length (cj_child t) \<and> cj_child t ! k = c \<and>
             doc (blocks h') p (with_children ((cj_child t)[k := renamed s u]) t) F' \<and>
             (\<forall>x. x \<notin> insert (asked h) (F \<union> K) \<longrightarrow> blocks h' x = blocks h x) \<and>
             doc (blocks h) i c I \<and> (\<forall>x \<in> I. blocks h' x = None))"
  proof (cases "get_object_item (Some t) (Some s) cs")
    case (Inl e)
    then show ?thesis using lookup_doc [OF a assms(7), of cs] by simp
  next
    case (Inr r)
    show ?thesis
    proof (cases r)
      case None
      then show ?thesis using member_absent [OF a assms(7), of cs] Inr by simp
    next
      case (Some c)
      then have c: "get_object_item (Some t) (Some s) cs = Inr (Some c)" using Inr by simp
      have "\<exists>i I. get_object_item_p cs h (Some p) (Some name) = Inr (Some i) \<and> doc (blocks h) i c I"
        using lookup_doc [OF a assms(7), of cs] c by auto
      moreover have "\<exists>i k I h'. cJSON_DetachItemFromObject cs (Some p) (Some name) h = Inr (Some i, h') \<and>
             k < length (cj_child t) \<and> cj_child t ! k = c \<and> doc (blocks h') i c I \<and>
             becomes h p F h' (with_children (take k (cj_child t) @ drop (Suc k) (cj_child t)) t) (F - I)"
        by (rule detach_object_doc [OF a assms(7) c]) blast
      moreover have "\<exists>h' k F' i I. replace_item_in_object ok (Some p) (Some name) (Some b) cs h = Inr (True, h') \<and>
             k < length (cj_child t) \<and> cj_child t ! k = c \<and>
             doc (blocks h') p (with_children ((cj_child t)[k := renamed s u]) t) F' \<and>
             (\<forall>x. x \<notin> insert (asked h) (F \<union> K) \<longrightarrow> blocks h' x = blocks h x) \<and>
             doc (blocks h) i c I \<and> (\<forall>x \<in> I. blocks h' x = None)"
        by (rule replace_object_doc [where ok = ok, OF a assms(4-7) _ assms(9) c]) (use assms(8) in blast)+
      ultimately show ?thesis using c by simp
    qed
  qed
qed

lemma object_edits_refine_witness:
  "\<exists>h' F. add_item_to_object (\<lambda>_. True) (Some 0) (Some (Static ''k'')) (Some 2) False sample_heap = Inr (True, h') \<and>
     doc (blocks h') 0 (sample_item cJSON_Array [sample_item cJSON_NULL [], CJson cJSON_True None 0 0 (Some ''k'') []]) F"
proof -
  have "text_of sample_heap (Some (Static ''k'')) = Inr ''k''" by (simp add: text_of_def)
  from object_edits_refine [OF sample_docs(1,2) _ sample_docs(3) _ sample_docs(4) this, of "\<lambda>_. True" False]
  show ?thesis by (auto simp: with_children_def with_key_def sample_item_def owner_def)
qed

end
