(* ===== verification/CJson_Copy.thy ===== *)
theory CJson_Copy
  imports CJson_Objects
begin

text \<open>
  The functions of SW-FB/cJSON.c that create, copy and compare documents in memory. Allocation
  may fail at any request; what a failed function has built so far it frees again.
\<close>

section \<open>Creating items\<close>

definition create_item :: "(nat \<Rightarrow> bool) \<Rightarrow> ('d cell \<Rightarrow> 'd cell) \<Rightarrow> ('d :: zero) heap \<Rightarrow> (nat option \<times> 'd heap) res" where
  "create_item ok f h =
     (case cJSON_New_Item_p ok h of
        (None, h1) \<Rightarrow> Inr (None, h1)
      | (Some a, h1) \<Rightarrow> res_bind (set_cell f (Some a) h1) (\<lambda>h2. Inr (Some a, h2)))"

definition cJSON_CreateNull :: "(nat \<Rightarrow> bool) \<Rightarrow> ('d :: zero) heap \<Rightarrow> (nat option \<times> 'd heap) res" where
  "cJSON_CreateNull ok = create_item ok (\<lambda>c. c\<lparr>c_type := cJSON_NULL\<rparr>)"

definition cJSON_CreateTrue :: "(nat \<Rightarrow> bool) \<Rightarrow> ('d :: zero) heap \<Rightarrow> (nat option \<times> 'd heap) res" where
  "cJSON_CreateTrue ok = create_item ok (\<lambda>c. c\<lparr>c_type := cJSON_True\<rparr>)"

definition cJSON_CreateFalse :: "(nat \<Rightarrow> bool) \<Rightarrow> ('d :: zero) heap \<Rightarrow> (nat option \<times> 'd heap) res" where
  "cJSON_CreateFalse ok = create_item ok (\<lambda>c. c\<lparr>c_type := cJSON_False\<rparr>)"

definition cJSON_CreateBool :: "(nat \<Rightarrow> bool) \<Rightarrow> bool \<Rightarrow> ('d :: zero) heap \<Rightarrow> (nat option \<times> 'd heap) res" where
  "cJSON_CreateBool ok b = create_item ok (\<lambda>c. c\<lparr>c_type := if b then cJSON_True else cJSON_False\<rparr>)"

definition cJSON_CreateNumber :: "'d numbers \<Rightarrow> (nat \<Rightarrow> bool) \<Rightarrow> 'd \<Rightarrow> ('d :: zero) heap \<Rightarrow> (nat option \<times> 'd heap) res" where
  "cJSON_CreateNumber nl ok num =
     create_item ok (\<lambda>c. c\<lparr>c_type := cJSON_Number, c_valuedouble := num,
       c_valueint := if num_ge nl num INT_MAX then INT_MAX
                     else if num_le nl num INT_MIN then INT_MIN else num_int nl num\<rparr>)"

definition cJSON_SetNumberHelper :: "'d numbers \<Rightarrow> nat option \<Rightarrow> 'd \<Rightarrow> 'd heap \<Rightarrow> ('d \<times> 'd heap) res" where
  "cJSON_SetNumberHelper nl object num h =
     res_bind (set_cell (\<lambda>c. c\<lparr>c_valueint := if num_ge nl num INT_MAX then INT_MAX
                                       else if num_le nl num INT_MIN then INT_MIN else num_int nl num,
                             c_valuedouble := num\<rparr>) object h) (\<lambda>h'. Inr (num, h'))"

text \<open>The common body of \<open>cJSON_CreateString\<close> and \<open>cJSON_CreateRaw\<close>.\<close>

definition create_text :: "u32 \<Rightarrow> (nat \<Rightarrow> bool) \<Rightarrow> sptr option \<Rightarrow> ('d :: zero) heap \<Rightarrow> (nat option \<times> 'd heap) res" where
  "create_text ty ok s h =
     res_bind (create_item ok (\<lambda>c. c\<lparr>c_type := ty\<rparr>) h) (\<lambda>(item, h1).
       if item = None then Inr (None, h1)
       else
         res_bind (cJSON_strdup ok s h1) (\<lambda>(v, h2).
         res_bind (set_cell (\<lambda>c. c\<lparr>c_valuestring := v\<rparr>) item h2) (\<lambda>h3.
         if v = None then res_bind (cJSON_Delete_p item h3) (\<lambda>h4. Inr (None, h4)) else Inr (item, h3))))"

definition cJSON_CreateString :: "(nat \<Rightarrow> bool) \<Rightarrow> sptr option \<Rightarrow> ('d :: zero) heap \<Rightarrow> (nat option \<times> 'd heap) res" where
  "cJSON_CreateString = create_text cJSON_String"

definition cJSON_CreateRaw :: "(nat \<Rightarrow> bool) \<Rightarrow> sptr option \<Rightarrow> ('d :: zero) heap \<Rightarrow> (nat option \<times> 'd heap) res" where
  "cJSON_CreateRaw = create_text cJSON_Raw"

definition cJSON_CreateStringReference :: "(nat \<Rightarrow> bool) \<Rightarrow> sptr option \<Rightarrow> ('d :: zero) heap \<Rightarrow> (nat option \<times> 'd heap) res" where
  "cJSON_CreateStringReference ok s =
     create_item ok (\<lambda>c. c\<lparr>c_type := cJSON_String OR cJSON_IsReference, c_valuestring := s\<rparr>)"

definition cJSON_CreateObjectReference :: "(nat \<Rightarrow> bool) \<Rightarrow> nat option \<Rightarrow> ('d :: zero) heap \<Rightarrow> (nat option \<times> 'd heap) res" where
  "cJSON_CreateObjectReference ok child =
     create_item ok (\<lambda>c. c\<lparr>c_type := cJSON_Object OR cJSON_IsReference, c_child := child\<rparr>)"

definition cJSON_CreateArrayReference :: "(nat \<Rightarrow> bool) \<Rightarrow> nat option \<Rightarrow> ('d :: zero) heap \<Rightarrow> (nat option \<times> 'd heap) res" where
  "cJSON_CreateArrayReference ok child =
     create_item ok (\<lambda>c. c\<lparr>c_type := cJSON_Array OR cJSON_IsReference, c_child := child\<rparr>)"

definition cJSON_CreateArray :: "(nat \<Rightarrow> bool) \<Rightarrow> ('d :: zero) heap \<Rightarrow> (nat option \<times> 'd heap) res" where
  "cJSON_CreateArray ok = create_item ok (\<lambda>c. c\<lparr>c_type := cJSON_Array\<rparr>)"

definition cJSON_CreateObject :: "(nat \<Rightarrow> bool) \<Rightarrow> ('d :: zero) heap \<Rightarrow> (nat option \<times> 'd heap) res" where
  "cJSON_CreateObject ok = create_item ok (\<lambda>c. c\<lparr>c_type := cJSON_Object\<rparr>)"

section \<open>Creating members\<close>

text \<open>The shape of the \<open>cJSON_Add...ToObject\<close> functions, around one of the functions above.\<close>

definition add_created ::
  "(nat \<Rightarrow> bool) \<Rightarrow> nat option \<Rightarrow> sptr option \<Rightarrow> (nat option \<times> 'd heap) res \<Rightarrow> (nat option \<times> 'd heap) res" where
  "add_created ok object name created =
     res_bind created (\<lambda>(item, h1).
     res_bind (add_item_to_object ok object name item False h1) (\<lambda>(added, h2).
     if added then Inr (item, h2) else res_bind (cJSON_Delete_p item h2) (\<lambda>h3. Inr (None, h3))))"

definition cJSON_AddNullToObject :: "(nat \<Rightarrow> bool) \<Rightarrow> nat option \<Rightarrow> sptr option \<Rightarrow> ('d :: zero) heap \<Rightarrow> (nat option \<times> 'd heap) res" where
  "cJSON_AddNullToObject ok object name h = add_created ok object name (cJSON_CreateNull ok h)"

definition cJSON_AddTrueToObject :: "(nat \<Rightarrow> bool) \<Rightarrow> nat option \<Rightarrow> sptr option \<Rightarrow> ('d :: zero) heap \<Rightarrow> (nat option \<times> 'd heap) res" where
  "cJSON_AddTrueToObject ok object name h = add_created ok object name (cJSON_CreateTrue ok h)"

definition cJSON_AddFalseToObject :: "(nat \<Rightarrow> bool) \<Rightarrow> nat option \<Rightarrow> sptr option \<Rightarrow> ('d :: zero) heap \<Rightarrow> (nat option \<times> 'd heap) res" where
  "cJSON_AddFalseToObject ok object name h = add_created ok object name (cJSON_CreateFalse ok h)"

definition cJSON_AddBoolToObject ::
  "(nat \<Rightarrow> bool) \<Rightarrow> nat option \<Rightarrow> sptr option \<Rightarrow> bool \<Rightarrow> ('d :: zero) heap \<Rightarrow> (nat option \<times> 'd heap) res" where
  "cJSON_AddBoolToObject ok object name b h = add_created ok object name (cJSON_CreateBool ok b h)"

definition cJSON_AddNumberToObject ::
  "'d numbers \<Rightarrow> (nat \<Rightarrow> bool) \<Rightarrow> nat option \<Rightarrow> sptr option \<Rightarrow> 'd \<Rightarrow> ('d :: zero) heap \<Rightarrow> (nat option \<times> 'd heap) res" where
  "cJSON_AddNumberToObject nl ok object name num h = add_created ok object name (cJSON_CreateNumber nl ok num h)"

definition cJSON_AddStringToObject ::
  "(nat \<Rightarrow> bool) \<Rightarrow> nat option \<Rightarrow> sptr option \<Rightarrow> sptr option \<Rightarrow> ('d :: zero) heap \<Rightarrow> (nat option \<times> 'd heap) res" where
  "cJSON_AddStringToObject ok object name s h = add_created ok object name (cJSON_CreateString ok s h)"

definition cJSON_AddRawToObject ::
  "(nat \<Rightarrow> bool) \<Rightarrow> nat option \<Rightarrow> sptr option \<Rightarrow> sptr option \<Rightarrow> ('d :: zero) heap \<Rightarrow> (nat option \<times> 'd heap) res" where
  "cJSON_AddRawToObject ok object name s h = add_created ok object name (cJSON_CreateRaw ok s h)"

definition cJSON_AddObjectToObject :: "(nat \<Rightarrow> bool) \<Rightarrow> nat option \<Rightarrow> sptr option \<Rightarrow> ('d :: zero) heap \<Rightarrow> (nat option \<times> 'd heap) res" where
  "cJSON_AddObjectToObject ok object name h = add_created ok object name (cJSON_CreateObject ok h)"

definition cJSON_AddArrayToObject :: "(nat \<Rightarrow> bool) \<Rightarrow> nat option \<Rightarrow> sptr option \<Rightarrow> ('d :: zero) heap \<Rightarrow> (nat option \<times> 'd heap) res" where
  "cJSON_AddArrayToObject ok object name h = add_created ok object name (cJSON_CreateArray ok h)"

section \<open>Creating arrays\<close>

text \<open>The loop over the elements; \<open>p\<close> is the item added last.\<close>

fun fill_array ::
  "('x \<Rightarrow> 'd heap \<Rightarrow> (nat option \<times> 'd heap) res) \<Rightarrow> nat \<Rightarrow> nat option \<Rightarrow> 'x list \<Rightarrow> nat \<Rightarrow> nat \<Rightarrow> 'd heap \<Rightarrow>
   (nat option \<times> 'd heap) res" where
  "fill_array mk a p xs i 0 h = Inr (Some a, h)"
| "fill_array mk a p xs i (Suc left) h =
     res_bind (rd xs i) (\<lambda>x.
     res_bind (mk x h) (\<lambda>(n, h1).
       if n = None then res_bind (cJSON_Delete_p (Some a) h1) (\<lambda>h2. Inr (None, h2))
       else res_bind (if i = 0 then set_cell (\<lambda>c. c\<lparr>c_child := n\<rparr>) (Some a) h1 else suffix_object p n h1) (\<lambda>h2.
         fill_array mk a n xs (i + 1) left h2)))"

definition create_array_of ::
  "('x \<Rightarrow> 'd heap \<Rightarrow> (nat option \<times> 'd heap) res) \<Rightarrow> (nat \<Rightarrow> bool) \<Rightarrow> 'x list option \<Rightarrow> int \<Rightarrow> ('d :: zero) heap \<Rightarrow>
   (nat option \<times> 'd heap) res" where
  "create_array_of mk ok xs count h =
     (if count < 0 \<or> xs = None then Inr (None, h)
      else res_bind (cJSON_CreateArray ok h) (\<lambda>(a, h1).
        if a = None then Inr (None, h1) else fill_array mk (the a) None (the xs) 0 (nat count) h1))"

text \<open>The conversions of \<open>int\<close> and \<open>float\<close> to \<open>double\<close> are those of the C implementation.\<close>

definition cJSON_CreateIntArray ::
  "(int \<Rightarrow> 'd) \<Rightarrow> 'd numbers \<Rightarrow> (nat \<Rightarrow> bool) \<Rightarrow> int list option \<Rightarrow> int \<Rightarrow> ('d :: zero) heap \<Rightarrow> (nat option \<times> 'd heap) res" where
  "cJSON_CreateIntArray of_number nl ok = create_array_of (\<lambda>x. cJSON_CreateNumber nl ok (of_number x)) ok"

definition cJSON_CreateFloatArray ::
  "('f \<Rightarrow> 'd) \<Rightarrow> 'd numbers \<Rightarrow> (nat \<Rightarrow> bool) \<Rightarrow> 'f list option \<Rightarrow> int \<Rightarrow> ('d :: zero) heap \<Rightarrow> (nat option \<times> 'd heap) res" where
  "cJSON_CreateFloatArray of_float nl ok = create_array_of (\<lambda>x. cJSON_CreateNumber nl ok (of_float x)) ok"

definition cJSON_CreateDoubleArray ::
  "'d numbers \<Rightarrow> (nat \<Rightarrow> bool) \<Rightarrow> 'd list option \<Rightarrow> int \<Rightarrow> ('d :: zero) heap \<Rightarrow> (nat option \<times> 'd heap) res" where
  "cJSON_CreateDoubleArray nl ok = create_array_of (cJSON_CreateNumber nl ok) ok"

definition cJSON_CreateStringArray ::
  "(nat \<Rightarrow> bool) \<Rightarrow> sptr option list option \<Rightarrow> int \<Rightarrow> ('d :: zero) heap \<Rightarrow> (nat option \<times> 'd heap) res" where
  "cJSON_CreateStringArray ok = create_array_of (cJSON_CreateString ok) ok"

section \<open>Copying\<close>

text \<open>A failed copy of a string leaves NULL; the item under construction is then deleted.\<close>

definition dup_text ::
  "(nat \<Rightarrow> bool) \<Rightarrow> nat \<Rightarrow> sptr option \<Rightarrow> (sptr option \<Rightarrow> 'd cell \<Rightarrow> 'd cell) \<Rightarrow> 'd heap \<Rightarrow> (bool \<times> 'd heap) res" where
  "dup_text ok b s put h =
     (if s = None then Inr (True, h)
      else res_bind (cJSON_strdup ok s h) (\<lambda>(v, h1).
        res_bind (set_cell (put v) (Some b) h1) (\<lambda>h2. Inr (v \<noteq> None, h2))))"

definition dup_strings :: "(nat \<Rightarrow> bool) \<Rightarrow> nat \<Rightarrow> 'd cell \<Rightarrow> 'd heap \<Rightarrow> (bool \<times> 'd heap) res" where
  "dup_strings ok b c h =
     res_bind (dup_text ok b (c_valuestring c) (\<lambda>v n. n\<lparr>c_valuestring := v\<rparr>) h) (\<lambda>(fine, h1).
       if \<not> fine then Inr (False, h1)
       else if c_string c \<noteq> None \<and> c_type c AND cJSON_StringIsConst \<noteq> 0
       then res_bind (set_cell (\<lambda>n. n\<lparr>c_string := c_string c\<rparr>) (Some b) h1) (\<lambda>h2. Inr (True, h2))
       else dup_text ok b (c_string c) (\<lambda>v n. n\<lparr>c_string := v\<rparr>) h1)"

definition dup_node :: "(nat \<Rightarrow> bool) \<Rightarrow> 'd cell \<Rightarrow> ('d :: zero) heap \<Rightarrow> (nat option \<times> 'd heap) res" where
  "dup_node ok c h =
     (case cJSON_New_Item_p ok h of
        (None, h1) \<Rightarrow> Inr (None, h1)
      | (Some b, h1) \<Rightarrow>
          res_bind (set_cell (\<lambda>n. n\<lparr>c_type := c_type c AND NOT cJSON_IsReference, c_valueint := c_valueint c,
                                     c_valuedouble := c_valuedouble c\<rparr>) (Some b) h1) (\<lambda>h2.
          res_bind (dup_strings ok b c h2) (\<lambda>(fine, h3).
            if fine then Inr (Some b, h3) else res_bind (cJSON_Delete_p (Some b) h3) (\<lambda>h4. Inr (None, h4)))))"

text \<open>
  Along a path of calls and iterations every second step is at an item of its own, so a path
  longer than twice the number of requests comes back to an item and has no end.
\<close>

fun dup_item :: "(nat \<Rightarrow> bool) \<Rightarrow> nat \<Rightarrow> nat option \<Rightarrow> bool \<Rightarrow> ('d :: zero) heap \<Rightarrow> (nat option \<times> 'd heap) res"
  and dup_children :: "(nat \<Rightarrow> bool) \<Rightarrow> nat \<Rightarrow> nat \<Rightarrow> nat option \<Rightarrow> nat option \<Rightarrow> ('d :: zero) heap \<Rightarrow> (nat option \<times> 'd heap) res"
  where
  "dup_item ok fuel None recurse h = Inr (None, h)"
| "dup_item ok 0 (Some a) recurse h = Inl NoFuel"
| "dup_item ok (Suc fuel) (Some a) recurse h =
     res_bind (get_cell h (Some a)) (\<lambda>c.
     res_bind (dup_node ok c h) (\<lambda>(b, h1).
     case b of
       None \<Rightarrow> Inr (None, h1)
     | Some b \<Rightarrow> if recurse then dup_children ok fuel b None (c_child c) h1 else Inr (Some b, h1)))"
| "dup_children ok fuel b prev None h = Inr (Some b, h)"
| "dup_children ok 0 b prev (Some a) h = Inl NoFuel"
| "dup_children ok (Suc fuel) b prev (Some a) h =
     res_bind (dup_item ok fuel (Some a) True h) (\<lambda>(n, h1).
       if n = None then res_bind (cJSON_Delete_p (Some b) h1) (\<lambda>h2. Inr (None, h2))
       else res_bind (if prev = None then set_cell (\<lambda>c. c\<lparr>c_child := n\<rparr>) (Some b) h1 else suffix_object prev n h1) (\<lambda>h2.
         res_bind (get_cell h2 (Some a)) (\<lambda>c. dup_children ok fuel b n (c_next c) h2)))"

definition cJSON_Duplicate :: "(nat \<Rightarrow> bool) \<Rightarrow> nat option \<Rightarrow> bool \<Rightarrow> ('d :: zero) heap \<Rightarrow> (nat option \<times> 'd heap) res" where
  "cJSON_Duplicate ok item recurse h = dup_item ok (2 * asked h) item recurse h"

end
