(* ===== verification/CJson_Copy_Props.thy ===== *)
theory CJson_Copy_Props
  imports CJson_Copy
begin

text \<open>
  What creating and copying do: the document is built in new blocks, or the memory is as it was
  (\<open>built\<close>); every loop appends with the step \<open>link_next\<close>, which is what adding to an array does.
\<close>

section \<open>Documents that grow from a heap\<close>

text \<open>
  From \<open>h0\<close> on, the document \<open>t\<close> has been built at \<open>a\<close>, in no chain, in the blocks \<open>K\<close>: all of them
  new, and the old ones as they were.
\<close>

definition grown :: "'d heap \<Rightarrow> 'd heap \<Rightarrow> nat \<Rightarrow> 'd cjson \<Rightarrow> nat set \<Rightarrow> bool" where
  "grown h0 h a t K \<longleftrightarrow>
     heap_ok h \<and> asked h0 \<le> asked h \<and> K \<subseteq> {asked h0..} \<and> doc (blocks h) a t K \<and> detached (blocks h) a \<and>
     (\<forall>x. x \<notin> K \<longrightarrow> blocks h x = blocks h0 x)"

text \<open>A function that builds a document gives it, or NULL and the memory as it was.\<close>

definition built :: "'d heap \<Rightarrow> nat option \<Rightarrow> 'd heap \<Rightarrow> 'd cjson \<Rightarrow> bool" where
  "built h0 r h t \<longleftrightarrow>
     heap_ok h \<and> asked h0 \<le> asked h \<and>
     (case r of None \<Rightarrow> blocks h = blocks h0 | Some a \<Rightarrow> \<exists>K. grown h0 h a t K)"

inductive_simps docs_no_items [simp]: "docs m as [] G"

lemma heap_ok_above: "heap_ok h \<Longrightarrow> asked h \<le> x \<Longrightarrow> blocks h x = None"
  by (force simp: heap_ok_def dom_def)

lemma grown_below: "grown h0 h a t K \<Longrightarrow> x < asked h0 \<Longrightarrow> blocks h x = blocks h0 x"
  by (force simp: grown_def)

lemma grown_heap_ok: "grown h0 h a t K \<Longrightarrow> heap_ok h"
  by (simp add: grown_def)

lemma grown_used: "grown h0 h a t K \<Longrightarrow> K \<subseteq> {..<asked h}"
  using doc_dom by (fastforce simp: grown_def heap_ok_def)

lemma grown_built: "grown h0 h a t K \<Longrightarrow> built h0 (Some a) h t"
  by (auto simp: built_def grown_def)

lemma grown_deleted:
  assumes "heap_ok h0" and g: "grown h0 h a t K" and "heap_ok h1" and "blocks h1 = blocks h" and "asked h \<le> asked h1"
  shows "\<exists>h2. cJSON_Delete_p (Some a) h1 = Inr h2 \<and> built h0 None h2 u"
proof -
  have "cJSON_Delete_p (Some a) h1 = Inr (without K h1)"
    using g assms(3,4) by (intro delete_detached) (auto simp: grown_def)
  moreover have "blocks (without K h1) = blocks h0"
    using g assms(1,4) by (force simp: grown_def fun_eq_iff heap_ok_above)
  ultimately show ?thesis using heap_ok_without [OF assms(3)] g assms(5) by (auto simp: built_def grown_def)
qed

lemma kids_frame: "kids m p as \<Longrightarrow> (\<And>x. x \<in> insert p (set as) \<Longrightarrow> m' x = m x) \<Longrightarrow> kids m' p as"
  using seg_frame [of as m' m None None] by (auto simp: kids_def)

lemma seg_unique: "seg m q as None \<Longrightarrow> seg m q' bs None \<Longrightarrow> headp None as = headp None bs \<Longrightarrow> as = bs"
proof (induction as arbitrary: q q' bs)
  case (Cons a as)
  then obtain bs' where "bs = a # bs'" by (cases bs) auto
  with Cons show ?case by auto
qed (case_tac bs; simp)

lemma kids_unique: "kids m p as \<Longrightarrow> kids m p bs \<Longrightarrow> as = bs"
  using seg_unique [of m None as None bs] by (auto simp: kids_def)

text \<open>The step with which a loop appends to the chain it has built.\<close>

definition link_next :: "nat \<Rightarrow> nat list \<Rightarrow> nat \<Rightarrow> 'd heap \<Rightarrow> 'd heap res" where
  "link_next a as n h =
     (if as = [] then set_cell (\<lambda>c. c\<lparr>c_child := Some n\<rparr>) (Some a) h else suffix_object (lastp None as) (Some n) h)"

lemma add_link_next:
  assumes k: "kids (blocks h) a as" and n: "length as \<le> asked h"
  shows "add_item_to_array (Some a) (Some n) h = res_bind (link_next a as n h) (\<lambda>h1. Inr (True, h1))"
proof -
  obtain c where c: "get_cell h (Some a) = Inr c" "c_child c = headp None as" using k by (auto simp: kids_def)
  show ?thesis
  proof (cases as)
    case Nil
    then show ?thesis using c by (simp add: add_item_to_array_def link_next_def)
  next
    case (Cons b bs)
    have "last_sibling (asked h) h b = Inr (last as)"
      unfolding Cons by (rule last_sibling_seg) (use k n Cons in \<open>auto simp: kids_def\<close>)
    moreover have "lastp None as = Some (last as)" using Cons by (simp add: lastp_def)
    ultimately show ?thesis using c Cons by (simp add: add_item_to_array_def link_next_def del: last_sibling.simps)
  qed
qed

lemma kids_length:
  assumes "heap_ok h" and "kids (blocks h) a as"
  shows "length as \<le> asked h"
proof -
  have "set as \<subseteq> dom (blocks h)" using assms(2) seg_cell [of "blocks h" None as None] by (fastforce simp: kids_def)
  then show ?thesis using heap_ok_card [OF assms(1), of "set as"] assms(2) distinct_card [of as] by (simp add: kids_def)
qed

lemma grown_link:
  assumes g: "grown h0 h a t K" and "owner t" and k: "kids (blocks h) a as" and b: "built h (Some n) h1 u"
  obtains h2 K2 where "link_next a as n h1 = Inr h2" "grown h0 h2 a (with_children (cj_child t @ [u]) t) K2"
    "kids (blocks h2) a (as @ [n])" "asked h1 \<le> asked h2"
proof -
  obtain N where N: "grown h h1 n u N" using b by (auto simp: built_def)
  have sub: "K \<subseteq> {..<asked h}" by (rule grown_used [OF g])
  have dis: "K \<inter> N = {}" using sub N by (fastforce simp: grown_def)
  have t1: "doc (blocks h1) a t K"
    by (rule doc_frame [of "blocks h"]) (use g sub grown_below [OF N] in \<open>auto simp: grown_def\<close>)
  have na: "n \<in> N" using N doc_dom by (fastforce simp: grown_def)
  have as: "insert a (set as) \<subseteq> dom (blocks h)"
    using k seg_cell [of "blocks h" None as None] by (fastforce simp: kids_def)
  then have as': "insert a (set as) \<subseteq> {..<asked h}" using g by (auto simp: grown_def heap_ok_def)
  have k1: "kids (blocks h1) a as"
    by (rule kids_frame [OF k]) (use as' grown_below [OF N] in auto)
  have "asked h \<le> n" using N na by (auto simp: grown_def)
  then have n: "detached (blocks h1) n" "n \<notin> set as" "n \<noteq> a" using N as' by (auto simp: grown_def)
  have len: "length as \<le> asked h1" using kids_length [OF _ k1] N by (simp add: grown_def)
  obtain h2 where h: "add_item_to_array (Some a) (Some n) h1 = Inr (True, h2)" "heap_ok h2"
    "doc (blocks h2) a (with_children (cj_child t @ [u]) t) (K \<union> N)" "framed a (K \<union> N) h1 h2"
    by (rule add_doc [OF grown_heap_ok [OF N] t1 assms(2) _ dis n(1)]) (use N that in \<open>auto simp: grown_def\<close>)
  obtain h2' where h': "add_item_to_array (Some a) (Some n) h1 = Inr (True, h2')" "kids (blocks h2') a (as @ [n])"
    by (rule add_kids [OF k1 n len]) (rule that; assumption)
  have link: "link_next a as n h1 = Inr h2"
    using h(1) add_link_next [OF k1 len, of n] by (cases "link_next a as n h1") auto
  have "detached (blocks h2) a"
    using g h(4) t1 grown_below [OF N] sub as' by (force simp: grown_def framed_def detached_def)
  then have "grown h0 h2 a (with_children (cj_child t @ [u]) t) (K \<union> N)"
    using g N h by (fastforce simp: grown_def framed_def)
  with link h h' show thesis by (intro that) (auto simp: framed_def)
qed

section \<open>Created items\<close>

lemma detached_leaf: "m a = Some (Cell c) \<Longrightarrow> c_next c = None \<Longrightarrow> c_prev c = None \<Longrightarrow> detached m a"
  by (simp add: detached_def)

lemma created:
  assumes ok: "heap_ok h" and c: "f empty_cell = c" "c_next c = None" "c_prev c = None" "c_child c = None" "c_string c = None"
      "c_valuestring c = None" "c_type c AND cJSON_IsReference = 0"
  obtains r h' where "create_item alloc f h = Inr (r, h')" "alloc (asked h) \<Longrightarrow> r = Some (asked h)" "\<not> alloc (asked h) \<Longrightarrow> r = None"
    "built h r h' (CJson (c_type c) None (c_valueint c) (c_valuedouble c) None [])"
    "alloc (asked h) \<Longrightarrow> h' = \<lparr>blocks = (blocks h)(asked h \<mapsto> Cell c), asked = Suc (asked h)\<rparr> \<and>
       grown h h' (asked h) (CJson (c_type c) None (c_valueint c) (c_valuedouble c) None []) {asked h}"
proof (cases "alloc (asked h)")
  case False
  have "heap_ok (h\<lparr>asked := Suc (asked h)\<rparr>)" using ok by (auto simp: heap_ok_def)
  with False show thesis
    by (intro that [of None "h\<lparr>asked := Suc (asked h)\<rparr>"]) (auto simp: create_item_def cJSON_New_Item_p_def allocate_def built_def)
next
  case True
  let ?h = "\<lparr>blocks = (blocks h)(asked h \<mapsto> Cell c), asked = Suc (asked h)\<rparr>"
  have "doc (blocks ?h) (asked h) (CJson (c_type c) None (c_valueint c) (c_valuedouble c) None []) {asked h}"
    by (rule doc_leaf) (use c in auto)
  then have g: "grown h ?h (asked h) (CJson (c_type c) None (c_valueint c) (c_valuedouble c) None []) {asked h}"
    using ok c(2,3) by (auto simp: grown_def heap_ok_def detached_def)
  have "create_item alloc f h = Inr (Some (asked h), ?h)"
    using True c(1) by (simp add: create_item_def cJSON_New_Item_p_def allocate_def)
  then show thesis using that [of "Some (asked h)" ?h] True grown_built [OF g] g by simp
qed

definition number_item :: "'d numbers \<Rightarrow> 'd \<Rightarrow> 'd cjson" where
  "number_item nl x = CJson cJSON_Number None
     (if num_ge nl x INT_MAX then INT_MAX else if num_le nl x INT_MIN then INT_MIN else num_int nl x) x None []"

lemma number_built:
  "heap_ok h \<Longrightarrow> \<exists>r h'. cJSON_CreateNumber nl ok x h = Inr (r, h') \<and> built h r h' (number_item nl x) \<and>
     (ok (asked h) \<longrightarrow> r \<noteq> None)"
proof -
  let ?v = "if num_ge nl x INT_MAX then INT_MAX else if num_le nl x INT_MIN then INT_MIN else num_int nl x"
  assume "heap_ok h"
  then obtain r h' where "create_item ok (\<lambda>c. c\<lparr>c_type := cJSON_Number, c_valuedouble := x, c_valueint := ?v\<rparr>) h = Inr (r, h')"
    "built h r h' (CJson cJSON_Number None ?v x None [])" "ok (asked h) \<Longrightarrow> r = Some (asked h)"
    by (rule created [where alloc = ok and f = "\<lambda>c. c\<lparr>c_type := cJSON_Number, c_valuedouble := x, c_valueint := ?v\<rparr>"
          and c = "empty_cell\<lparr>c_type := cJSON_Number, c_valuedouble := x, c_valueint := ?v\<rparr>"])
      (simp_all add: empty_cell_def)
  then show ?thesis unfolding cJSON_CreateNumber_def number_item_def by blast
qed

text \<open>A string is attached to an item under construction, as value or as key.\<close>

lemma attach_value:
  assumes g: "grown h0 h a (CJson ty None vi vd None []) K" and "heap_ok h0"
    and s: "text_of h (Some s) = Inr x" and c: "blocks h a = Some (Cell c)" "c_valuestring c = None" "c_child c = None"
    and ty: "ty AND cJSON_IsReference = 0"
  obtains v h1 where "cJSON_strdup ok (Some s) h = Inr (v, h1)" "ok (asked h) \<Longrightarrow> v \<noteq> None"
    "v = None \<Longrightarrow> heap_ok h1 \<and> blocks h1 = blocks h \<and> asked h1 = Suc (asked h)"
    "v \<noteq> None \<Longrightarrow> \<exists>h2. set_cell (\<lambda>c. c\<lparr>c_valuestring := v\<rparr>) (Some a) h1 = Inr h2 \<and>
       grown h0 h2 a (CJson ty (Some x) vi vd None []) (insert (asked h) K) \<and> asked h2 = Suc (asked h) \<and>
       blocks h2 a = Some (Cell (c\<lparr>c_valuestring := v\<rparr>))"
proof (cases "ok (asked h)")
  case False
  then show thesis using s g
    by (intro that [of None "h\<lparr>asked := Suc (asked h)\<rparr>"]) (auto simp: cJSON_strdup_def allocate_def grown_def heap_ok_def)
next
  case True
  let ?n = "asked h"
  let ?h1 = "\<lparr>blocks = (blocks h)(?n \<mapsto> Str x), asked = Suc ?n\<rparr>"
  let ?h2 = "?h1\<lparr>blocks := (blocks ?h1)(a \<mapsto> Cell (c\<lparr>c_valuestring := Some (Block ?n)\<rparr>))\<rparr>"
  have ok: "heap_ok h" and d: "doc (blocks h) a (CJson ty None vi vd None []) K" and det: "detached (blocks h) a"
    and K: "K \<subseteq> {asked h0..}" "asked h0 \<le> ?n" "\<forall>x. x \<notin> K \<longrightarrow> blocks h x = blocks h0 x"
    using g by (auto simp: grown_def)
  have a: "a \<noteq> ?n" "?n \<notin> K" "a \<in> K" using heap_ok_fresh [OF ok] c doc_dom [OF d] by auto
  have n: "node_at (blocks h) a (CJson ty None vi vd None []) None K"
    using d by (rule docE) (use c ty in \<open>auto simp: node_at_def\<close>)
  have "node_at (blocks ?h2) a (CJson ty (Some x) vi vd None []) None (insert ?n K)"
    using n c a ty by (auto simp: node_at_def key_at_def value_at_def split: option.splits sptr.splits)
  then have "doc (blocks ?h2) a (CJson ty (Some x) vi vd None []) (insert ?n K)"
    using doc_own [of "CJson ty (Some x) vi vd None []" "blocks ?h2" a "[]" "insert ?n K" "{}"] ty by (simp add: docs_Nil)
  moreover have "heap_ok ?h2" using ok c by (auto simp: heap_ok_def dom_def subset_iff less_Suc_eq)
  moreover have "detached (blocks ?h2) a" using det c by (auto simp: detached_def)
  ultimately have "grown h0 ?h2 a (CJson ty (Some x) vi vd None []) (insert ?n K)"
    using K a by (auto simp: grown_def)
  then show thesis using True s c a
    by (intro that [of "Some (Block ?n)" ?h1]) (auto simp: cJSON_strdup_def allocate_def)
qed

lemma no_ref_bits: "ty AND NOT cJSON_IsReference = ty" if "ty AND cJSON_IsReference = 0" for ty :: u32
proof -
  have "ty = (ty AND cJSON_IsReference) OR (ty AND NOT cJSON_IsReference)"
    by (simp only: bit.conj_disj_distrib [symmetric] bit.disj_cancel_right bit.conj_one_right)
  then show ?thesis using that by simp
qed

lemma grown_rekey:
  assumes g: "grown h0 h a u K" and u: "cj_string u = None" and h1: "heap_ok h1" "asked h \<le> asked h1"
    and N: "N \<subseteq> {asked h..}" and old: "\<And>x. x \<notin> N \<Longrightarrow> blocks h1 x = blocks h x"
    and key: "key_at (blocks h1) (cj_type u) kp (Some s) N"
  obtains h2 where "set_cell (\<lambda>c. c\<lparr>c_string := kp\<rparr>) (Some a) h1 = Inr h2"
    "grown h0 h2 a (with_key s (cj_type u) u) (K \<union> N)"
proof -
  have K: "K \<subseteq> {..<asked h}" by (rule grown_used [OF g])
  then have NK: "N \<inter> K = {}" using N by force
  have d: "doc (blocks h1) a u K"
    by (rule doc_frame [of "blocks h"]) (use g old NK in \<open>auto simp: grown_def\<close>)
  have a: "a \<in> K" using doc_dom [OF d] by simp
  have "a \<notin> N" using NK a by auto
  then have det: "detached (blocks h1) a" using g old by (simp add: grown_def detached_def)
  obtain c where c: "get_cell h1 (Some a) = Inr c" "c_type c = cj_type u" using doc_cell [OF d] by auto
  obtain K0 h2 where r: "K0 \<subseteq> K" "set_cell (\<lambda>d. d\<lparr>c_string := kp, c_type := c_type d\<rparr>) (Some a) (without K0 h1) = Inr h2"
    "heap_ok h2" "asked h2 = asked h1" "doc (blocks h2) a (with_key s (cj_type u) u) ((K - K0) \<union> N)" "detached (blocks h2) a"
    "\<And>x. x \<notin> K \<Longrightarrow> blocks h2 x = blocks h1 x" "key_at (blocks h1) (cj_type u) (c_string c) (cj_string u) K0"
    by (rule rekeyed [OF h1(1) d det key NK refl c(1), of c_type]) (assumption | rule that; assumption)+
  have K0: "K0 = {}" using r(8) u by (auto simp: key_at_def split: option.splits sptr.splits)
  have "set_cell (\<lambda>c. c\<lparr>c_string := kp\<rparr>) (Some a) h1 = Inr h2" using r(2) K0 by simp
  moreover have "grown h0 h2 a (with_key s (cj_type u) u) (K \<union> N)"
    using r K0 g h1(2) N old by (fastforce simp: grown_def)
  ultimately show thesis by (rule that)
qed

lemma dup_key:
  assumes g: "grown h0 h a u K" and ok0: "heap_ok h0" and u: "cj_string u = None" and ty: "cj_type u AND cJSON_StringIsConst = 0"
    and s: "text_of h (Some s) = Inr x"
  obtains fine h1 where "dup_text ok a (Some s) (\<lambda>v n. n\<lparr>c_string := v\<rparr>) h = Inr (fine, h1)" "ok (asked h) \<Longrightarrow> fine"
    "fine \<Longrightarrow> \<exists>K'. grown h0 h1 a (with_key x (cj_type u) u) K'"
    "\<not> fine \<Longrightarrow> \<exists>h2. cJSON_Delete_p (Some a) h1 = Inr h2 \<and> built h0 None h2 t"
proof (cases "ok (asked h)")
  case True
  let ?h1 = "\<lparr>blocks = (blocks h)(asked h \<mapsto> Str x), asked = Suc (asked h)\<rparr>"
  obtain h2 where "set_cell (\<lambda>c. c\<lparr>c_string := Some (Block (asked h))\<rparr>) (Some a) ?h1 = Inr h2"
    "grown h0 h2 a (with_key x (cj_type u) u) (K \<union> {asked h})"
    by (rule grown_rekey [OF g u, of ?h1 "{asked h}" "Some (Block (asked h))" x])
      (use grown_heap_ok [OF g] ty that in \<open>auto simp: heap_ok_def key_at_def\<close>)
  then show thesis using True s
    by (intro that [of True h2]) (auto simp: dup_text_def cJSON_strdup_def allocate_def)
next
  case False
  let ?h1 = "h\<lparr>asked := Suc (asked h)\<rparr>"
  obtain c where c: "blocks h a = Some (Cell c)" using doc_cell g by (fastforce simp: grown_def)
  obtain K0 where "key_at (blocks h) (cj_type u) (c_string c) (cj_string u) K0"
    by (rule doc_keyE [of "blocks h" a u K]) (use g c that in \<open>auto simp: grown_def\<close>)
  then have "c_string c = None" using u key_at_None by blast
  then have same: "(blocks h)(a \<mapsto> Cell (c\<lparr>c_string := None\<rparr>)) = blocks h" using c by (cases c) (auto simp: fun_eq_iff)
  have ok1: "heap_ok ?h1" using grown_heap_ok [OF g] by (auto simp: heap_ok_def)
  have "dup_text ok a (Some s) (\<lambda>v n. n\<lparr>c_string := v\<rparr>) h = Inr (False, ?h1)"
    using False s c same by (simp add: dup_text_def cJSON_strdup_def allocate_def)
  moreover obtain h2 where "cJSON_Delete_p (Some a) ?h1 = Inr h2" "built h0 None h2 t"
    using grown_deleted [OF ok0 g ok1] by auto
  ultimately show thesis using False by (intro that [of False ?h1]) auto
qed

lemma cjson_with_children [simp]:
  "cj_type (with_children ts t) = cj_type t" "cj_child (with_children ts t) = ts" "cj_string (with_children ts t) = cj_string t"
  "cj_valuestring (with_children ts t) = cj_valuestring t" "with_children ts (with_children us t) = with_children ts t"
  "with_children (cj_child t) t = t" "owner (with_children ts t) = owner t"
  by (simp_all add: with_children_def owner_def)

lemma dup_value:
  assumes g: "grown h0 h a (CJson ty None vi vd None []) K" and ok0: "heap_ok h0"
    and s: "text_of h (Some s) = Inr x" and c: "blocks h a = Some (Cell c)" "c_valuestring c = None" "c_child c = None"
    and ty: "ty AND cJSON_IsReference = 0"
  obtains fine h1 where "dup_text ok a (Some s) (\<lambda>v n. n\<lparr>c_valuestring := v\<rparr>) h = Inr (fine, h1)" "ok (asked h) \<Longrightarrow> fine"
    "fine \<Longrightarrow> \<exists>K'. grown h0 h1 a (CJson ty (Some x) vi vd None []) K'"
    "\<not> fine \<Longrightarrow> \<exists>h2. cJSON_Delete_p (Some a) h1 = Inr h2 \<and> built h0 None h2 t"
proof -
  obtain v h1 where v: "cJSON_strdup ok (Some s) h = Inr (v, h1)" "ok (asked h) \<Longrightarrow> v \<noteq> None"
    "v = None \<Longrightarrow> heap_ok h1 \<and> blocks h1 = blocks h \<and> asked h1 = Suc (asked h)"
    "v \<noteq> None \<Longrightarrow> \<exists>h2. set_cell (\<lambda>c. c\<lparr>c_valuestring := v\<rparr>) (Some a) h1 = Inr h2 \<and>
       grown h0 h2 a (CJson ty (Some x) vi vd None []) (insert (asked h) K) \<and> asked h2 = Suc (asked h) \<and>
       blocks h2 a = Some (Cell (c\<lparr>c_valuestring := v\<rparr>))"
    by (rule attach_value [OF g ok0 s c ty, of ok]) (rule that; assumption)
  show thesis
  proof (cases v)
    case None
    have same: "(blocks h)(a \<mapsto> Cell (c\<lparr>c_valuestring := None\<rparr>)) = blocks h" using c by (cases c) (auto simp: fun_eq_iff)
    have h1: "heap_ok h1" "blocks h1 = blocks h" "asked h \<le> asked h1" using v(3) None by auto
    obtain h2 where "cJSON_Delete_p (Some a) h1 = Inr h2" "built h0 None h2 t"
      using grown_deleted [OF ok0 g h1] by blast
    moreover have "dup_text ok a (Some s) (\<lambda>v n. n\<lparr>c_valuestring := v\<rparr>) h = Inr (False, h1)"
      using v(1) None c(1) h1(2) same by (cases h1) (simp add: dup_text_def)
    ultimately show thesis using v(2) None by (intro that [of False h1]) auto
  next
    case (Some w)
    obtain h2 where h2: "set_cell (\<lambda>c. c\<lparr>c_valuestring := v\<rparr>) (Some a) h1 = Inr h2"
      "grown h0 h2 a (CJson ty (Some x) vi vd None []) (insert (asked h) K)"
      using v(4) Some by auto
    have "dup_text ok a (Some s) (\<lambda>v n. n\<lparr>c_valuestring := v\<rparr>) h = Inr (True, h2)"
      using v(1) Some h2(1) by (simp add: dup_text_def)
    then show thesis using h2(2) by (intro that [of True h2]) auto
  qed
qed

lemma text_below:
  "text_of h0 (Some s) = Inr x \<Longrightarrow> heap_ok h0 \<Longrightarrow> grown h0 h a t K \<Longrightarrow> text_of h (Some s) = Inr x"
  using grown_below [of h0 h a t K] by (auto simp: text_of_def heap_ok_def split: sptr.splits option.splits)

text \<open>The strings of an item under construction: all copied, or the item can be deleted.\<close>

lemma dup_strings_built:
  assumes g: "grown h0 h b (CJson ty None vi vd None []) K" and ok0: "heap_ok h0"
    and b: "blocks h b = Some (Cell n)" "c_valuestring n = None" "c_child n = None"
    and ty: "ty AND cJSON_IsReference = 0" "c_type c = ty"
    and kv: "key_at (blocks h0) ty (c_string c) st Ks" "value_at (blocks h0) ty (c_valuestring c) vs V"
  obtains fine h1 where "dup_strings ok b c h = Inr (fine, h1)" "(\<forall>i. ok i) \<Longrightarrow> fine"
    "fine \<Longrightarrow> \<exists>K'. grown h0 h1 b (CJson ty vs vi vd st []) K'"
    "\<not> fine \<Longrightarrow> \<exists>h2. cJSON_Delete_p (Some b) h1 = Inr h2 \<and> built h0 None h2 t"
proof -
  obtain fine1 h1 where v: "dup_text ok b (c_valuestring c) (\<lambda>v n. n\<lparr>c_valuestring := v\<rparr>) h = Inr (fine1, h1)"
    "(\<forall>i. ok i) \<Longrightarrow> fine1" "fine1 \<Longrightarrow> \<exists>K'. grown h0 h1 b (CJson ty vs vi vd None []) K'"
    "\<not> fine1 \<Longrightarrow> \<exists>h2. cJSON_Delete_p (Some b) h1 = Inr h2 \<and> built h0 None h2 t"
  proof (cases "c_valuestring c")
    case None
    then have "vs = None" using kv(2) ty by (simp add: value_at_def)
    then show thesis using that [of True h] None g by (auto simp: dup_text_def)
  next
    case (Some s)
    then obtain x where x: "vs = Some x" "text_of h0 (Some s) = Inr x"
      using kv(2) ty by (auto simp: value_at_def text_of_def split: sptr.splits)
    show thesis
      by (rule dup_value [OF g ok0 text_below [OF x(2) ok0 g] b ty(1), of ok t])
        (use that Some x in auto)
  qed
  show thesis
  proof (cases fine1)
    case False
    then show thesis using v by (intro that [of False h1]) (auto simp: dup_strings_def)
  next
    case True
    then obtain K1 where g1: "grown h0 h1 b (CJson ty vs vi vd None []) K1" using v(3) by auto
    show thesis
    proof (cases "c_string c")
      case None
      then have "st = None" using kv(1) by (simp add: key_at_def)
      then show thesis using None True v(1) g1 by (intro that [of True h1]) (auto simp: dup_strings_def dup_text_def)
    next
      case (Some s)
      then obtain y where y: "st = Some y" "text_of h0 (Some s) = Inr y"
        using kv(1) by (auto simp: key_at_def text_of_def split: sptr.splits)
      show thesis
      proof (cases "ty AND cJSON_StringIsConst = 0")
        case const: False
        then have key: "key_at (blocks h1) (cj_type (CJson ty vs vi vd None [])) (Some s) (Some y) {}"
          using kv(1) Some y by (auto simp: key_at_def split: sptr.splits)
        obtain h2 where h2: "set_cell (\<lambda>n. n\<lparr>c_string := Some s\<rparr>) (Some b) h1 = Inr h2"
          "grown h0 h2 b (CJson ty vs vi vd st []) (K1 \<union> {})"
          by (rule grown_rekey [OF g1 _ grown_heap_ok [OF g1] _ _ _ key])
            (use that y in \<open>auto simp: with_key_def\<close>)
        then show thesis using True v(1) const Some ty(2)
          by (intro that [of True h2]) (auto simp: dup_strings_def)
      next
        case reference_free: True
        obtain fine h2 where h2: "dup_text ok b (Some s) (\<lambda>v n. n\<lparr>c_string := v\<rparr>) h1 = Inr (fine, h2)" "ok (asked h1) \<Longrightarrow> fine"
          "fine \<Longrightarrow> \<exists>K'. grown h0 h2 b (CJson ty vs vi vd st []) K'"
          "\<not> fine \<Longrightarrow> \<exists>h3. cJSON_Delete_p (Some b) h2 = Inr h3 \<and> built h0 None h3 t"
          by (rule dup_key [OF g1 ok0 _ _ text_below [OF y(2) ok0 g1], of ok t])
            (use reference_free that y in \<open>auto simp: with_key_def\<close>)
        then show thesis using True v(1) reference_free Some ty(2)
          by (intro that [of fine h2]) (auto simp: dup_strings_def)
      qed
    qed
  qed
qed

text \<open>An item copied without its children.\<close>

lemma dup_node_built:
  assumes ok0: "heap_ok h" and n: "node_at (blocks h) a t ch H" and c: "blocks h a = Some (Cell c)" and own: "owner t"
  shows "\<exists>r h'. dup_node ok c h = Inr (r, h') \<and> built h r h' (with_children [] t) \<and> ((\<forall>i. ok i) \<longrightarrow> r \<noteq> None)"
proof (cases "ok (asked h)")
  case False
  then show ?thesis using ok0
    by (auto simp: dup_node_def cJSON_New_Item_p_def allocate_def built_def heap_ok_def)
next
  case True
  let ?b = "asked h"
  define ty where "ty = cj_type t"
  obtain K V where kv: "key_at (blocks h) ty (c_string c) (cj_string t) K" "value_at (blocks h) ty (c_valuestring c) (cj_valuestring t) V"
    and cf: "c_type c = ty" "c_valueint c = cj_valueint t" "c_valuedouble c = cj_valuedouble t"
    using n c by (auto simp: node_at_def ty_def)
  have ref: "ty AND cJSON_IsReference = 0" using own by (simp add: owner_def ty_def)
  define n0 :: "'a cell" where "n0 = empty_cell\<lparr>c_type := ty, c_valueint := cj_valueint t, c_valuedouble := cj_valuedouble t\<rparr>"
  define h2 where "h2 = \<lparr>blocks = (blocks h)(?b \<mapsto> Cell n0), asked = Suc ?b\<rparr>"
  have n0: "c_next n0 = None" "c_prev n0 = None" "c_child n0 = None" "c_string n0 = None" "c_valuestring n0 = None"
    "c_type n0 = ty" "c_valueint n0 = cj_valueint t" "c_valuedouble n0 = cj_valuedouble t"
    by (simp_all add: n0_def empty_cell_def)
  have g2: "grown h h2 ?b (CJson ty None (cj_valueint t) (cj_valuedouble t) None []) {?b}"
    by (rule created [OF ok0, of "\<lambda>_. n0" n0 "\<lambda>_. True"]) (use ref n0 in \<open>auto simp: h2_def\<close>)
  have cell: "blocks h2 ?b = Some (Cell n0)" by (simp add: h2_def)
  obtain fine h3 where s: "dup_strings ok ?b c h2 = Inr (fine, h3)" "(\<forall>i. ok i) \<Longrightarrow> fine"
    "fine \<Longrightarrow> \<exists>K'. grown h h3 ?b (CJson ty (cj_valuestring t) (cj_valueint t) (cj_valuedouble t) (cj_string t) []) K'"
    "\<not> fine \<Longrightarrow> \<exists>h4. cJSON_Delete_p (Some ?b) h3 = Inr h4 \<and> built h None h4 (with_children [] t)"
    by (rule dup_strings_built [where ok = ok and t = "with_children [] t", OF g2 ok0 cell n0(5,3) ref cf(1) kv]) (rule that; assumption)
  have node: "dup_node ok c h = res_bind (dup_strings ok ?b c h2) (\<lambda>(fine, h3).
      if fine then Inr (Some ?b, h3) else res_bind (cJSON_Delete_p (Some ?b) h3) (\<lambda>h4. Inr (None, h4)))"
    using True cf no_ref_bits [OF ref] by (simp add: dup_node_def cJSON_New_Item_p_def allocate_def h2_def n0_def)
  show ?thesis
  proof (cases fine)
    case True
    then obtain K' where "grown h h3 ?b (with_children [] t) K'" using s(3) by (auto simp: with_children_def ty_def)
    then show ?thesis using True s(1) node grown_built by fastforce
  next
    case False
    then obtain h4 where "cJSON_Delete_p (Some ?b) h3 = Inr h4" "built h None h4 (with_children [] t)" using s(4) by auto
    then show ?thesis using False s(1,2) node by auto
  qed
qed

section \<open>Copied documents\<close>

text \<open>A document without references.\<close>

primrec reference_free :: "'d cjson \<Rightarrow> bool" where
  "reference_free (CJson ty vs vi vd st ch) \<longleftrightarrow> ty AND cJSON_IsReference = 0 \<and> list_all id (map reference_free ch)"

lemma reference_free_iff: "reference_free t \<longleftrightarrow> owner t \<and> (\<forall>c \<in> set (cj_child t). reference_free c)"
  by (cases t) (auto simp: owner_def list_all_iff)

lemma grown_kids_Nil:
  assumes "grown h0 h a t K" and "owner t" and "cj_child t = []"
  shows "kids (blocks h) a []"
  using assms by (auto simp: grown_def elim!: doc_partsE)

lemma grown_trans_agree: "grown h0 h a t K \<Longrightarrow> (\<And>x. x \<in> F \<Longrightarrow> x < asked h0 \<and> blocks h0 x = m x) \<Longrightarrow> x \<in> F \<Longrightarrow> blocks h x = m x"
  using grown_below by fastforce

lemma dup_doc:
  "doc m a t F \<Longrightarrow> reference_free t \<Longrightarrow> heap_ok h \<Longrightarrow> (\<And>x. x \<in> F \<Longrightarrow> blocks h x = m x) \<Longrightarrow> 2 * card F \<le> Suc (Suc n) \<Longrightarrow>
     \<exists>r h'. dup_item ok (Suc n) (Some a) True h = Inr (r, h') \<and> built h r h' t \<and> ((\<forall>i. ok i) \<longrightarrow> r \<noteq> None)"
  and dup_docs:
  "docs m as ts G \<Longrightarrow> (\<forall>t \<in> set ts. reference_free t) \<Longrightarrow> seg m q as None \<Longrightarrow> heap_ok h0 \<Longrightarrow> (\<And>x. x \<in> G \<Longrightarrow> blocks h0 x = m x) \<Longrightarrow>
     2 * card G \<le> n' \<Longrightarrow> grown h0 h' b u K \<Longrightarrow> owner u \<Longrightarrow> kids (blocks h') b bs \<Longrightarrow>
     \<exists>r h''. dup_children ok n' b (lastp None bs) (headp None as) h' = Inr (r, h'') \<and>
       built h0 r h'' (with_children (cj_child u @ ts) u) \<and> ((\<forall>i. ok i) \<longrightarrow> r \<noteq> None)"
proof (induction arbitrary: h n and q h0 n' h' b u K bs rule: doc_docs.inducts)
  case (doc_own t a as H G)
  have d: "docs m as (cj_child t) G" and nd: "node_at m a t (headp None as) H" and s: "seg m None as None" and dis: "H \<inter> G = {}"
    using doc_own by blast+
  obtain c where c: "m a = Some (Cell c)" "c_child c = headp None as" using node_at_cell [OF nd] by auto
  have H: "a \<in> H" "finite H" and G: "finite G" using node_at_dom [OF nd] docs_dom [OF d] by auto
  have ca: "blocks h a = Some (Cell c)" using c H doc_own.prems(3) by auto
  have own: "owner t" "\<forall>t' \<in> set (cj_child t). reference_free t'" using doc_own.prems(1) reference_free_iff by blast+
  have "node_at (blocks h) a t (headp None as) H" by (rule node_at_frame [OF nd]) (simp add: doc_own.prems)
  from dup_node_built [OF doc_own.prems(2) this ca own(1), of ok]
  obtain r h1 where r: "dup_node ok c h = Inr (r, h1)" "built h r h1 (with_children [] t)" "(\<forall>i. ok i) \<longrightarrow> r \<noteq> None" by blast
  show ?case
  proof (cases r)
    case None
    then show ?thesis using r ca by (auto simp: built_def)
  next
    case (Some b)
    then obtain K where g: "grown h h1 b (with_children [] t) K" using r(2) by (auto simp: built_def)
    have k: "kids (blocks h1) b []" by (rule grown_kids_Nil [OF g]) (use own in simp_all)
    have "card (H \<union> G) = card H + card G" using H G dis by (simp add: card_Un_disjoint)
    moreover have "0 < card H" using H by (auto simp: card_gt_0_iff)
    ultimately have n: "2 * card G \<le> n" using doc_own.prems(4) by simp
    have "\<exists>r h''. dup_children ok n b (lastp None []) (headp None as) h1 = Inr (r, h'') \<and>
       built h r h'' (with_children (cj_child (with_children [] t) @ cj_child t) (with_children [] t)) \<and> ((\<forall>i. ok i) \<longrightarrow> r \<noteq> None)"
      by (rule doc_own.IH) (use doc_own.prems own s n g k in auto)
    then show ?thesis using r(1) Some ca c(2) by auto
  qed
next
  case (doc_ref t a ch H)
  then show ?case using reference_free_iff [of t] by (simp add: owner_def)
next
  case docs_Nil
  then show ?case using grown_built by fastforce
next
  case (docs_Cons a t F as ts G)
  have d: "docs m as ts G" "doc m a t F" "F \<inter> G = {}" using docs_Cons by blast+
  obtain c where c: "m a = Some (Cell c)" "c_next c = headp None as" "seg m (Some a) as None"
    using docs_Cons.prems(2) by auto
  have fin: "a \<in> F" "finite F" "finite G" using doc_dom [OF d(2)] docs_dom [OF d(1)] by auto
  have "card (F \<union> G) = card F + card G" using fin d by (simp add: card_Un_disjoint)
  moreover have F0: "0 < card F" using fin by (auto simp: card_gt_0_iff)
  ultimately obtain k where k: "n' = Suc (Suc k)" "2 * card F \<le> Suc (Suc k)" "2 * card G \<le> Suc k"
    using docs_Cons.prems(5) by (intro that [of "n' - 2"]) linarith+
  note g = docs_Cons.prems(6) and ok0 = docs_Cons.prems(3)
  have low: "x < asked h0 \<and> blocks h0 x = m x" if "x \<in> F \<union> G" for x
  proof -
    have "blocks h0 x = m x" by (rule docs_Cons.prems(4) [OF that])
    moreover have "x \<in> dom m" using that doc_dom [OF d(2)] docs_dom [OF d(1)] by auto
    ultimately show ?thesis using heap_ok_above [OF ok0, of x] by (cases "x < asked h0") auto
  qed
  have "\<exists>r h1. dup_item ok (Suc k) (Some a) True h' = Inr (r, h1) \<and> built h' r h1 t \<and> ((\<forall>i. ok i) \<longrightarrow> r \<noteq> None)"
    by (rule docs_Cons.IH) (use docs_Cons.prems(1) k grown_heap_ok [OF g] low grown_below [OF g] in auto)
  then obtain r h1 where r: "dup_item ok (Suc k) (Some a) True h' = Inr (r, h1)" "built h' r h1 t" "(\<forall>i. ok i) \<longrightarrow> r \<noteq> None"
    by blast
  show ?case
  proof (cases r)
    case None
    then have h1: "heap_ok h1" "blocks h1 = blocks h'" "asked h' \<le> asked h1" using r(2) by (auto simp: built_def)
    obtain h2 where "cJSON_Delete_p (Some b) h1 = Inr h2" "built h0 None h2 (with_children (cj_child u @ t # ts) u)"
      using grown_deleted [OF ok0 g h1] by blast
    then show ?thesis using r(1,3) None k(1) by auto
  next
    case (Some nn)
    obtain h2 K2 where h2: "link_next b bs nn h1 = Inr h2" "grown h0 h2 b (with_children (cj_child u @ [t]) u) K2"
      "kids (blocks h2) b (bs @ [nn])"
      by (rule grown_link [OF g docs_Cons.prems(7,8)]) (use r(2) Some that in auto)
    have "blocks h2 a = Some (Cell c)" using low [of a] fin(1) grown_below [OF h2(2), of a] c(1) by simp
    moreover have "(if lastp None bs = None then set_cell (\<lambda>c. c\<lparr>c_child := Some nn\<rparr>) (Some b) h1
        else suffix_object (lastp None bs) (Some nn) h1) = Inr h2"
      using h2(1) by (cases bs) (auto simp: link_next_def lastp_def)
    ultimately have step: "dup_children ok n' b (lastp None bs) (headp None (a # as)) h' =
        dup_children ok (Suc k) b (lastp None (bs @ [nn])) (headp None as) h2"
      using r(1) Some k(1) c(2) by (simp del: lastp_simps(3))
    have "\<exists>r h''. dup_children ok (Suc k) b (lastp None (bs @ [nn])) (headp None as) h2 = Inr (r, h'') \<and>
       built h0 r h'' (with_children (cj_child (with_children (cj_child u @ [t]) u) @ ts) (with_children (cj_child u @ [t]) u)) \<and>
       ((\<forall>i. ok i) \<longrightarrow> r \<noteq> None)"
      by (rule docs_Cons.IH) (use docs_Cons.prems c(3) k low h2 in auto)
    then show ?thesis unfolding step by simp
  qed
qed

lemma duplicate_built:
  assumes ok: "heap_ok h" and d: "doc (blocks h) a t F" and t: "reference_free t"
  shows "\<exists>r h'. cJSON_Duplicate alloc (Some a) True h = Inr (r, h') \<and> built h r h' t \<and> ((\<forall>i. alloc i) \<longrightarrow> r \<noteq> None)"
proof -
  have "a \<in> F" "finite F" and n: "card F \<le> asked h" using doc_dom [OF d] heap_ok_card ok by auto
  then have "0 < card F" by (auto simp: card_gt_0_iff)
  with n obtain k where k: "2 * asked h = Suc k" "2 * card F \<le> Suc (Suc k)" by (intro that [of "2 * asked h - 1"]) linarith+
  show ?thesis unfolding cJSON_Duplicate_def k(1) by (rule dup_doc [OF d t ok _ k(2)]) simp
qed

section \<open>Created arrays\<close>

lemma fill_array_built:
  assumes ok0: "heap_ok h0"
    and mk: "\<And>j h. j < length xs \<Longrightarrow> heap_ok h \<Longrightarrow> asked h0 \<le> asked h \<Longrightarrow> (\<And>x. x < asked h0 \<Longrightarrow> blocks h x = blocks h0 x) \<Longrightarrow>
      \<exists>r h'. mk (xs ! j) h = Inr (r, h') \<and> built h r h' (el (xs ! j)) \<and> (always \<longrightarrow> r \<noteq> None)"
  shows "grown h0 h a t K \<Longrightarrow> owner t \<Longrightarrow> kids (blocks h) a as \<Longrightarrow> length as = i \<Longrightarrow> i + left \<le> length xs \<Longrightarrow>
    \<exists>r h'. fill_array mk a (lastp None as) xs i left h = Inr (r, h') \<and>
      built h0 r h' (with_children (cj_child t @ map el (take left (drop i xs))) t) \<and> (always \<longrightarrow> r \<noteq> None)"
proof (induction left arbitrary: h t K as i)
  case 0
  then show ?case using grown_built by auto
next
  case (Suc left)
  have i: "i < length xs" using Suc.prems(5) by simp
  note g = Suc.prems(1)
  obtain r h1 where r: "mk (xs ! i) h = Inr (r, h1)" "built h r h1 (el (xs ! i))" "always \<longrightarrow> r \<noteq> None"
    using mk [OF i grown_heap_ok [OF g] _ grown_below [OF g]] g by (auto simp: grown_def)
  show ?case
  proof (cases r)
    case None
    then have h1: "heap_ok h1" "blocks h1 = blocks h" "asked h \<le> asked h1" using r(2) by (auto simp: built_def)
    obtain h2 where "cJSON_Delete_p (Some a) h1 = Inr h2"
      "built h0 None h2 (with_children (cj_child t @ map el (take (Suc left) (drop i xs))) t)"
      using grown_deleted [OF ok0 g h1] by blast
    then show ?thesis using r None i by auto
  next
    case (Some n)
    obtain h2 K2 where h2: "link_next a as n h1 = Inr h2" "grown h0 h2 a (with_children (cj_child t @ [el (xs ! i)]) t) K2"
      "kids (blocks h2) a (as @ [n])"
      by (rule grown_link [OF g Suc.prems(2,3)]) (use r(2) Some that in auto)
    have "(if i = 0 then set_cell (\<lambda>c. c\<lparr>c_child := Some n\<rparr>) (Some a) h1 else suffix_object (lastp None as) (Some n) h1) = Inr h2"
      using h2(1) Suc.prems(4) by (auto simp: link_next_def)
    then have step: "fill_array mk a (lastp None as) xs i (Suc left) h = fill_array mk a (lastp None (as @ [n])) xs (Suc i) left h2"
      using r(1) Some i by simp
    have "\<exists>r h'. fill_array mk a (lastp None (as @ [n])) xs (Suc i) left h2 = Inr (r, h') \<and>
      built h0 r h' (with_children (cj_child (with_children (cj_child t @ [el (xs ! i)]) t) @ map el (take left (drop (Suc i) xs)))
        (with_children (cj_child t @ [el (xs ! i)]) t)) \<and> (always \<longrightarrow> r \<noteq> None)"
      by (rule Suc.IH [OF h2(2) _ h2(3)]) (use Suc.prems in auto)
    moreover have "take (Suc left) (drop i xs) = xs ! i # take left (drop (Suc i) xs)"
      using Cons_nth_drop_Suc [OF i] by (metis take_Suc_Cons)
    ultimately show ?thesis unfolding step by simp
  qed
qed

definition array_item :: "('d :: zero) cjson list \<Rightarrow> 'd cjson" where
  "array_item ts = CJson cJSON_Array None 0 0 None ts"

lemma create_array_built:
  assumes ok: "heap_ok h"
    and mk: "\<And>j h'. j < length xs \<Longrightarrow> heap_ok h' \<Longrightarrow> asked h \<le> asked h' \<Longrightarrow> (\<And>x. x < asked h \<Longrightarrow> blocks h' x = blocks h x) \<Longrightarrow>
      \<exists>r h''. mk (xs ! j) h' = Inr (r, h'') \<and> built h' r h'' (el (xs ! j)) \<and> ((\<forall>i. alloc i) \<longrightarrow> r \<noteq> None)"
    and count: "0 \<le> count" "nat count \<le> length xs"
  shows "\<exists>r h'. create_array_of mk alloc (Some xs) count h = Inr (r, h') \<and>
     built h r h' (array_item (map el (take (nat count) xs))) \<and> ((\<forall>i. alloc i) \<longrightarrow> r \<noteq> None)"
proof (cases "alloc (asked h)")
  case False
  then show ?thesis using ok count
    by (auto simp: create_array_of_def cJSON_CreateArray_def create_item_def cJSON_New_Item_p_def allocate_def built_def heap_ok_def)
next
  case True
  let ?a = "asked h"
  let ?f = "\<lambda>c :: 'a cell. c\<lparr>c_type := cJSON_Array\<rparr>"
  obtain r h1 where h1: "create_item alloc ?f h = Inr (r, h1)" "r = Some ?a" "grown h h1 ?a (array_item []) {?a}"
    by (rule created [OF ok refl, of ?f alloc]) (use True that in \<open>auto simp: empty_cell_def array_item_def\<close>)
  have own: "owner (array_item [])" by (simp add: owner_def array_item_def)
  have k: "kids (blocks h1) ?a []" by (rule grown_kids_Nil [OF h1(3) own]) (simp add: array_item_def)
  have "\<exists>r h'. fill_array mk ?a (lastp None []) xs 0 (nat count) h1 = Inr (r, h') \<and>
      built h r h' (with_children (cj_child (array_item []) @ map el (take (nat count) (drop 0 xs))) (array_item [])) \<and>
      ((\<forall>i. alloc i) \<longrightarrow> r \<noteq> None)"
    by (rule fill_array_built [where mk = mk and xs = xs and el = el and h = h1 and K = "{?a}", OF ok])
      (use mk h1(3) own k count in auto)
  then show ?thesis using h1 count
    by (auto simp: create_array_of_def cJSON_CreateArray_def with_children_def array_item_def)
qed

lemma text_built:
  assumes ok: "heap_ok h" and s: "text_of h (Some s) = Inr x" and ty: "ty AND cJSON_IsReference = 0"
  shows "\<exists>r h'. create_text ty alloc (Some s) h = Inr (r, h') \<and> built h r h' (CJson ty (Some x) 0 0 None []) \<and>
     ((\<forall>i. alloc i) \<longrightarrow> r \<noteq> None)"
proof (cases "alloc (asked h)")
  case False
  then show ?thesis using ok
    by (auto simp: create_text_def create_item_def cJSON_New_Item_p_def allocate_def built_def heap_ok_def)
next
  case True
  let ?a = "asked h"
  let ?f = "\<lambda>c :: 'a cell. c\<lparr>c_type := ty\<rparr>"
  define c where "c = ?f empty_cell"
  have cf: "c_next c = None" "c_prev c = None" "c_child c = None" "c_string c = None" "c_valuestring c = None"
      "c_type c AND cJSON_IsReference = 0" "c_type c = ty" "c_valueint c = 0" "c_valuedouble c = 0"
    using ty by (simp_all add: c_def empty_cell_def)
  obtain h1 where h1: "create_item alloc ?f h = Inr (Some ?a, h1)" "grown h h1 ?a (CJson ty None 0 0 None []) {?a}"
    "blocks h1 ?a = Some (Cell c)"
    by (rule created [where alloc = alloc and f = ?f, OF ok c_def [symmetric] cf(1-6)]) (use True that cf in auto)
  obtain fine h2 where v: "dup_text alloc ?a (Some s) (\<lambda>v n. n\<lparr>c_valuestring := v\<rparr>) h1 = Inr (fine, h2)" "alloc (asked h1) \<Longrightarrow> fine"
    "fine \<Longrightarrow> \<exists>K'. grown h h2 ?a (CJson ty (Some x) 0 0 None []) K'"
    "\<not> fine \<Longrightarrow> \<exists>h3. cJSON_Delete_p (Some ?a) h2 = Inr h3 \<and> built h None h3 (CJson ty (Some x) 0 0 None [])"
    by (rule dup_value [OF h1(2) ok text_below [OF s ok h1(2)] h1(3) cf(5,3) ty, of alloc "CJson ty (Some x) 0 0 None []"])
      (rule that; assumption)
  have "create_text ty alloc (Some s) h =
      (if fine then Inr (Some ?a, h2) else res_bind (cJSON_Delete_p (Some ?a) h2) (\<lambda>h3. Inr (None, h3)))"
    using v(1) h1(1) by (auto simp: create_text_def dup_text_def elim!: res_bindE split: prod.splits)
  then show ?thesis using v(2-4) grown_built by (cases fine) fastforce+
qed

section \<open>Created members\<close>

lemma leaf_built:
  assumes "heap_ok h" and "ty AND cJSON_IsReference = 0"
  shows "\<exists>r h'. create_item ok (\<lambda>c. c\<lparr>c_type := ty\<rparr>) h = Inr (r, h') \<and> built h r h' (CJson ty None 0 0 None [])"
  by (rule created [where alloc = ok and f = "\<lambda>c. c\<lparr>c_type := ty\<rparr>" and c = "empty_cell\<lparr>c_type := ty\<rparr>", OF assms(1)])
    (use assms(2) in \<open>auto simp: empty_cell_def\<close>)

text \<open>The member was added, its blocks all new; or nothing was.\<close>

definition member_added :: "'d heap \<Rightarrow> nat \<Rightarrow> 'd cjson \<Rightarrow> nat set \<Rightarrow> string \<Rightarrow> 'd cjson \<Rightarrow> nat option \<Rightarrow> 'd heap \<Rightarrow> bool" where
  "member_added h p t F s u r h' \<longleftrightarrow>
     heap_ok h' \<and>
     (if r = None then blocks h' = blocks h
      else \<exists>K. K \<subseteq> {asked h..} \<and> doc (blocks h') p (with_children (cj_child t @ [renamed s u]) t) (F \<union> K) \<and>
        (\<forall>x. x \<notin> F \<union> K \<longrightarrow> blocks h' x = blocks h x))"

lemma add_created_built:
  assumes ok: "heap_ok h" and t: "doc (blocks h) p t F" "owner t" and n: "text_of h (Some name) = Inr s"
    and b: "\<exists>r h'. made = Inr (r, h') \<and> built h r h' u"
  shows "\<exists>r h'. add_created alloc (Some p) (Some name) made = Inr (r, h') \<and> member_added h p t F s u r h'"
proof -
  obtain r1 h1 where m: "made = Inr (r1, h1)" "built h r1 h1 u" using b by blast
  show ?thesis
  proof (cases r1)
    case None
    then show ?thesis using m
      by (auto simp: add_created_def add_item_to_object_def cJSON_Delete_p_def member_added_def built_def)
  next
    case (Some i)
    then obtain K where g: "grown h h1 i u K" using m(2) by (auto simp: built_def)
    have ok1: "heap_ok h1" by (rule grown_heap_ok [OF g])
    have F: "F \<subseteq> {..<asked h}" using doc_dom [OF t(1)] ok by (meson heap_ok_def order_trans)
    have t1: "doc (blocks h1) p t F" by (rule doc_frame [OF t(1)]) (use F grown_below [OF g] in auto)
    have dis: "F \<inter> K = {}" using F g by (fastforce simp: grown_def)
    have u1: "doc (blocks h1) i u K" "detached (blocks h1) i" using g by (auto simp: grown_def)
    have n1: "text_of h1 (Some name) = Inr s" by (rule text_below [OF n ok g])
    show ?thesis
    proof (cases "alloc (asked h1)")
      case True
      obtain h' K' where h': "add_item_to_object alloc (Some p) (Some name) (Some i) False h1 = Inr (True, h')" "heap_ok h'"
        "doc (blocks h') p (with_children (cj_child t @ [renamed s u]) t) (F \<union> K')"
        "K' \<subseteq> insert (asked h1) K" "\<And>x. x \<notin> F \<union> K \<union> K' \<Longrightarrow> blocks h' x = blocks h1 x" "\<And>x. x \<in> K - K' \<Longrightarrow> blocks h' x = None"
        by (rule add_object_doc [where ok = alloc, OF ok1 t1 t(2) u1(1) dis u1(2) n1 True]) (rule that; assumption)
      have new: "K' \<subseteq> {asked h..}" "K \<subseteq> {asked h..}" using h'(4) g by (auto simp: grown_def)
      have "blocks h' x = blocks h x" if "x \<notin> F \<union> K'" for x
      proof (cases "x \<in> K")
        case True
        then show ?thesis using h'(6) that new(2) heap_ok_above [OF ok, of x] by auto
      next
        case False
        then show ?thesis using h'(5) that g by (simp add: grown_def)
      qed
      then have "member_added h p t F s u (Some i) h'"
        unfolding member_added_def using h'(2,3) new(1) by (auto intro!: exI [of _ K'])
      moreover have "add_created alloc (Some p) (Some name) made = Inr (Some i, h')"
        using m(1) Some h'(1) by (simp add: add_created_def)
      ultimately show ?thesis by blast
    next
      case False
      let ?h1 = "h1\<lparr>asked := Suc (asked h1)\<rparr>"
      have ok1': "heap_ok ?h1" using ok1 by (auto simp: heap_ok_def)
      have eq: "blocks ?h1 = blocks h1" "asked h1 \<le> asked ?h1" by simp_all
      obtain h2 where d: "cJSON_Delete_p (Some i) ?h1 = Inr h2" "built h None h2 u"
        using grown_deleted [OF ok g ok1' eq] by blast
      have "add_item_to_object alloc (Some p) (Some name) (Some i) False h1 = Inr (False, ?h1)"
        using False n1 by (simp add: add_item_to_object_def cJSON_strdup_def allocate_def)
      then show ?thesis using m(1) Some d by (auto simp: add_created_def member_added_def built_def)
    qed
  qed
qed

section \<open>What the three families do\<close>

text \<open>
  C33: Copying a document without references ends and gives an equal document in new blocks, or NULL and the
  memory as it was: whatever allocation fails, everything copied so far is freed and nothing else is touched. If no
  allocation fails, it is the copy.\<close>

theorem duplicate_copies_or_restores:
  assumes "heap_ok h" and "doc (blocks h) a t F" and "reference_free t"
  shows "\<exists>r h'. cJSON_Duplicate ok (Some a) True h = Inr (r, h') \<and> heap_ok h' \<and>
     (case r of
        None \<Rightarrow> blocks h' = blocks h \<and> (\<exists>i. \<not> ok i)
      | Some b \<Rightarrow> \<exists>K. doc (blocks h') b t K \<and> detached (blocks h') b \<and> K \<inter> dom (blocks h) = {} \<and>
          (\<forall>x. x \<notin> K \<longrightarrow> blocks h' x = blocks h x))"
proof -
  obtain r h' where r: "cJSON_Duplicate ok (Some a) True h = Inr (r, h')" "built h r h' t" "(\<forall>i. ok i) \<longrightarrow> r \<noteq> None"
    using duplicate_built [OF assms] by blast
  show ?thesis
  proof (cases r)
    case None
    then show ?thesis using r by (auto simp: built_def)
  next
    case (Some b)
    then obtain K where K: "grown h h' b t K" using r(2) by (auto simp: built_def)
    moreover have "K \<inter> dom (blocks h) = {}" using K assms(1) by (fastforce simp: grown_def heap_ok_def)
    ultimately show ?thesis using r(1) Some by (auto simp: grown_def)
  qed
qed

lemma sample_reference_free: "reference_free (sample_item cJSON_Array [sample_item cJSON_NULL []])"
  by (simp add: sample_item_def)

lemma duplicate_copies_or_restores_witness:
  "\<exists>b h' K. cJSON_Duplicate (\<lambda>_. True) (Some 0) True sample_heap = Inr (Some b, h') \<and>
     doc (blocks h') b (sample_item cJSON_Array [sample_item cJSON_NULL []]) K"
  using duplicate_copies_or_restores [OF sample_docs(1,2) sample_reference_free, of "\<lambda>_. True"] by (auto split: option.splits)

text \<open>The array functions give the array of the given numbers or strings, in order, in new blocks, or NULL and
  the memory as it was; if no allocation fails, it is the array.\<close>

theorem created_arrays:
  assumes "heap_ok h" and "0 \<le> count" and "nat count \<le> length ns" and "nat count \<le> length ss"
    and "\<And>s. s \<in> set ss \<Longrightarrow> text_of h (Some s) = Inr (tx s)"
  shows "(\<exists>r h'. cJSON_CreateIntArray conv nl ok (Some ns) count h = Inr (r, h') \<and> ((\<forall>i. ok i) \<longrightarrow> r \<noteq> None) \<and>
       built h r h' (array_item (map (\<lambda>n. number_item nl (conv n)) (take (nat count) ns)))) \<and>
     (\<exists>r h'. cJSON_CreateStringArray ok (Some (map Some ss)) count h = Inr (r, h') \<and> ((\<forall>i. ok i) \<longrightarrow> r \<noteq> None) \<and>
       built h r h' (array_item (map (\<lambda>s. CJson cJSON_String (Some (tx s)) 0 0 None []) (take (nat count) ss))))"
proof (rule conjI)
  have "\<exists>r h'. create_array_of (\<lambda>x. cJSON_CreateNumber nl ok (conv x)) ok (Some ns) count h = Inr (r, h') \<and>
     built h r h' (array_item (map (\<lambda>n. number_item nl (conv n)) (take (nat count) ns))) \<and> ((\<forall>i. ok i) \<longrightarrow> r \<noteq> None)"
    by (rule create_array_built [OF assms(1) _ assms(2,3)]) (use number_built in blast)
  then show "\<exists>r h'. cJSON_CreateIntArray conv nl ok (Some ns) count h = Inr (r, h') \<and> ((\<forall>i. ok i) \<longrightarrow> r \<noteq> None) \<and>
       built h r h' (array_item (map (\<lambda>n. number_item nl (conv n)) (take (nat count) ns)))"
    unfolding cJSON_CreateIntArray_def by blast
next
  let ?el = "\<lambda>p. CJson cJSON_String (Some (tx (the p))) 0 0 None []"
  have "\<exists>r h''. cJSON_CreateString ok (map Some ss ! j) h' = Inr (r, h'') \<and> built h' r h'' (?el (map Some ss ! j)) \<and>
      ((\<forall>i. ok i) \<longrightarrow> r \<noteq> None)"
    if j: "j < length (map Some ss)" and h': "heap_ok h'" "asked h \<le> asked h'" "\<And>x. x < asked h \<Longrightarrow> blocks h' x = blocks h x" for j h'
  proof -
    have s: "text_of h (Some (ss ! j)) = Inr (tx (ss ! j))" using assms(5) j by simp
    have "text_of h' (Some (ss ! j)) = Inr (tx (ss ! j))"
    proof (rule text_of_frame [OF s])
      fix k assume "ss ! j = Block k"
      then have "blocks h k \<noteq> None" using s by (auto simp: text_of_def split: option.splits)
      then show "blocks h' k = blocks h k" using h'(3) heap_ok_above [OF assms(1), of k] by (cases "k < asked h") auto
    qed
    from text_built [OF h'(1) this, of cJSON_String ok] j show ?thesis by (simp add: cJSON_CreateString_def)
  qed
  then have "\<exists>r h'. create_array_of (cJSON_CreateString ok) ok (Some (map Some ss)) count h = Inr (r, h') \<and>
     built h r h' (array_item (map ?el (take (nat count) (map Some ss)))) \<and> ((\<forall>i. ok i) \<longrightarrow> r \<noteq> None)"
    by (intro create_array_built [OF assms(1) _ assms(2)]) (use assms(4) in auto)
  then show "\<exists>r h'. cJSON_CreateStringArray ok (Some (map Some ss)) count h = Inr (r, h') \<and> ((\<forall>i. ok i) \<longrightarrow> r \<noteq> None) \<and>
       built h r h' (array_item (map (\<lambda>s. CJson cJSON_String (Some (tx s)) 0 0 None []) (take (nat count) ss)))"
    unfolding cJSON_CreateStringArray_def by (simp add: take_map comp_def) blast
qed


lemma created_arrays_witness:
  "\<exists>b h'. cJSON_CreateIntArray id \<lparr>strtod = \<lambda>s. (0, 0), num_ge = (\<ge>), num_le = (\<le>), num_int = id\<rparr> (\<lambda>_. True) (Some [7, 8]) 2 sample_heap =
     Inr (Some b, h') \<and> (\<exists>K. grown sample_heap h' b (array_item [CJson cJSON_Number None 7 7 None [], CJson cJSON_Number None 8 8 None []]) K)"
proof -
  let ?tx = "\<lambda>s. case s of Static x \<Rightarrow> x | Block k \<Rightarrow> []"
  let ?nl = "\<lparr>strtod = \<lambda>s. (0, 0), num_ge = (\<ge>), num_le = (\<le>), num_int = id\<rparr> :: int numbers"
  have tx: "text_of sample_heap (Some s) = Inr (?tx s)" if "s \<in> set [Static ''a'', Static ''b'']" for s
    using that by (auto simp: text_of_def)
  have "\<exists>r h'. cJSON_CreateIntArray id ?nl (\<lambda>_. True) (Some [7, 8]) 2 sample_heap = Inr (r, h') \<and> ((\<forall>i :: nat. True) \<longrightarrow> r \<noteq> None) \<and>
      built sample_heap r h' (array_item (map (\<lambda>n. number_item ?nl (id n)) (take (nat 2) [7, 8])))"
    by (rule conjunct1, rule created_arrays [where ss = "[Static ''a'', Static ''b'']", OF sample_docs(1) _ _ _ tx]) simp_all
  then show ?thesis by (auto simp: number_item_def INT_MAX_def INT_MIN_def built_def)
qed

text \<open>The functions that create a member add the named item at the end of their object and return it, or return
  NULL with the memory as it was, whichever of their allocations fails.\<close>

theorem created_members:
  assumes "heap_ok h" and "doc (blocks h) p t F" and "owner t" and "text_of h (Some name) = Inr s"
    and "text_of h (Some tx) = Inr x"
  shows "(\<exists>r h'. cJSON_AddNullToObject ok (Some p) (Some name) h = Inr (r, h') \<and>
       member_added h p t F s (CJson cJSON_NULL None 0 0 None []) r h') \<and>
     (\<exists>r h'. cJSON_AddObjectToObject ok (Some p) (Some name) h = Inr (r, h') \<and>
       member_added h p t F s (CJson cJSON_Object None 0 0 None []) r h') \<and>
     (\<exists>r h'. cJSON_AddNumberToObject nl ok (Some p) (Some name) n h = Inr (r, h') \<and>
       member_added h p t F s (number_item nl n) r h') \<and>
     (\<exists>r h'. cJSON_AddStringToObject ok (Some p) (Some name) (Some tx) h = Inr (r, h') \<and>
       member_added h p t F s (CJson cJSON_String (Some x) 0 0 None []) r h')"
proof -
  note add = add_created_built [OF assms(1-4), of _ _ ok]
  have "\<exists>r h'. cJSON_AddNullToObject ok (Some p) (Some name) h = Inr (r, h') \<and>
       member_added h p t F s (CJson cJSON_NULL None 0 0 None []) r h'"
    unfolding cJSON_AddNullToObject_def cJSON_CreateNull_def by (rule add, rule leaf_built [OF assms(1)]) simp
  moreover have "\<exists>r h'. cJSON_AddObjectToObject ok (Some p) (Some name) h = Inr (r, h') \<and>
       member_added h p t F s (CJson cJSON_Object None 0 0 None []) r h'"
    unfolding cJSON_AddObjectToObject_def cJSON_CreateObject_def by (rule add, rule leaf_built [OF assms(1)]) simp
  moreover have "\<exists>r h'. cJSON_AddNumberToObject nl ok (Some p) (Some name) n h = Inr (r, h') \<and>
       member_added h p t F s (number_item nl n) r h'"
    unfolding cJSON_AddNumberToObject_def by (rule add) (use number_built [OF assms(1)] in blast)
  moreover have "\<exists>r h'. cJSON_AddStringToObject ok (Some p) (Some name) (Some tx) h = Inr (r, h') \<and>
       member_added h p t F s (CJson cJSON_String (Some x) 0 0 None []) r h'"
    unfolding cJSON_AddStringToObject_def cJSON_CreateString_def
    by (rule add) (use text_built [OF assms(1,5), of cJSON_String ok] in auto)
  ultimately show ?thesis by blast
qed

lemma created_members_witness:
  "\<exists>r h'. cJSON_AddNullToObject (\<lambda>_. True) (Some 0) (Some (Static ''k'')) sample_heap = Inr (r, h') \<and>
     member_added sample_heap 0 (sample_item cJSON_Array [sample_item cJSON_NULL []]) ({0} \<union> ({1} \<union> {})) ''k''
       (CJson cJSON_NULL None 0 0 None []) r h'"
proof -
  have n: "text_of sample_heap (Some (Static ''k'')) = Inr ''k''" by (simp add: text_of_def)
  have own: "owner (sample_item cJSON_Array [sample_item cJSON_NULL []])" by (simp add: owner_def sample_item_def)
  from created_members [OF sample_docs(1,2) own n n, of "\<lambda>_. True"] show ?thesis by blast
qed

end
