(* ===== verification/CJson_Compare.thy ===== *)
theory CJson_Compare
  imports CJson_Copy_Props
begin

text \<open>
  \<open>cJSON_Compare\<close> of SW-FB/cJSON.c on documents in memory. The comparison of two doubles is a
  parameter. What it accepts is alike (\<open>alike\<close>), and it accepts a copy of every document whose
  objects have distinct keys.
\<close>

section \<open>The comparison\<close>

definition json_kind :: "'d cell \<Rightarrow> u32" where
  "json_kind c = c_type c AND 255"

text \<open>What the types decide: an answer, or the children have to be compared in order or by key.\<close>

datatype head_result = Answer bool | By_Position | By_Key

definition same_text :: "'d heap \<Rightarrow> 'd cell \<Rightarrow> 'd cell \<Rightarrow> bool res" where
  "same_text h ca cb =
     (if c_valuestring ca = None \<or> c_valuestring cb = None then Inr False
      else res_bind (text_of h (c_valuestring ca)) (\<lambda>s. res_bind (text_of h (c_valuestring cb)) (\<lambda>t. Inr (s = t))))"

definition compare_head :: "('d \<Rightarrow> 'd \<Rightarrow> bool) \<Rightarrow> 'd heap \<Rightarrow> nat option \<Rightarrow> nat option \<Rightarrow> 'd cell \<Rightarrow> 'd cell \<Rightarrow> head_result res" where
  "compare_head deq h a b ca cb =
     (let k = json_kind ca in
      if k \<noteq> json_kind cb \<or> k = cJSON_Invalid then Inr (Answer False)
      else if k \<notin> {cJSON_False, cJSON_True, cJSON_NULL, cJSON_Number, cJSON_String, cJSON_Raw, cJSON_Array, cJSON_Object}
      then Inr (Answer False)
      else if a = b then Inr (Answer True)
      else if k \<in> {cJSON_False, cJSON_True, cJSON_NULL} then Inr (Answer True)
      else if k = cJSON_Number then Inr (Answer (deq (c_valuedouble ca) (c_valuedouble cb)))
      else if k \<in> {cJSON_String, cJSON_Raw} then res_bind (same_text h ca cb) (\<lambda>r. Inr (Answer r))
      else if k = cJSON_Array then Inr By_Position
      else Inr By_Key)"

text \<open>
  The loops over the children, given the comparison of two items. They only read: a walk longer
  than the number of blocks has come back to an item in both chains, or in the one it follows,
  and never ends.
\<close>

primrec compare_elements ::
  "(nat option \<Rightarrow> nat option \<Rightarrow> bool res) \<Rightarrow> 'd heap \<Rightarrow> nat \<Rightarrow> nat option \<Rightarrow> nat option \<Rightarrow> bool res" where
  "compare_elements cmp h 0 a b = (if a = None \<or> b = None then Inr (a = b) else Inl NoFuel)"
| "compare_elements cmp h (Suc fuel) a b =
     (if a = None \<or> b = None then Inr (a = b)
      else res_bind (cmp a b) (\<lambda>r.
        if \<not> r then Inr False
        else res_bind (get_cell h a) (\<lambda>ca. res_bind (get_cell h b) (\<lambda>cb.
          compare_elements cmp h fuel (c_next ca) (c_next cb)))))"

primrec compare_members ::
  "(nat option \<Rightarrow> nat option \<Rightarrow> bool res) \<Rightarrow> bool \<Rightarrow> 'd heap \<Rightarrow> nat \<Rightarrow> nat option \<Rightarrow> nat option \<Rightarrow> bool res" where
  "compare_members cmp cs h 0 a other = (if a = None then Inr True else Inl NoFuel)"
| "compare_members cmp cs h (Suc fuel) a other =
     (if a = None then Inr True
      else res_bind (get_cell h a) (\<lambda>c. res_bind (get_object_item_p cs h other (c_string c)) (\<lambda>b.
        if b = None then Inr False
        else res_bind (cmp a b) (\<lambda>r.
          if \<not> r then Inr False else compare_members cmp cs h fuel (c_next c) other))))"

text \<open>Nested deeper than the number of pairs of blocks, the recursion is at a pair it is already comparing.\<close>

primrec compare_items :: "('d \<Rightarrow> 'd \<Rightarrow> bool) \<Rightarrow> bool \<Rightarrow> 'd heap \<Rightarrow> nat \<Rightarrow> nat option \<Rightarrow> nat option \<Rightarrow> bool res" where
  "compare_items deq cs h 0 a b = Inl NoFuel"
| "compare_items deq cs h (Suc fuel) a b =
     (if a = None \<or> b = None then Inr False
      else res_bind (get_cell h a) (\<lambda>ca. res_bind (get_cell h b) (\<lambda>cb. res_bind (compare_head deq h a b ca cb) (\<lambda>v.
        case v of
          Answer r \<Rightarrow> Inr r
        | By_Position \<Rightarrow> compare_elements (compare_items deq cs h fuel) h (asked h) (c_child ca) (c_child cb)
        | By_Key \<Rightarrow> res_bind (compare_members (compare_items deq cs h fuel) cs h (asked h) (c_child ca) b) (\<lambda>r.
            if r then compare_members (compare_items deq cs h fuel) cs h (asked h) (c_child cb) a else Inr False)))))"

definition cJSON_Compare :: "('d \<Rightarrow> 'd \<Rightarrow> bool) \<Rightarrow> nat option \<Rightarrow> nat option \<Rightarrow> bool \<Rightarrow> 'd heap \<Rightarrow> bool res" where
  "cJSON_Compare deq a b case_sensitive h = compare_items deq case_sensitive h (Suc (asked h * asked h)) a b"

section \<open>Copies compare equal\<close>

definition fold_key :: "bool \<Rightarrow> string \<Rightarrow> nat list" where
  "fold_key cs s = map (if cs then of_char else tolower) s"

lemma case_insensitive_eq_iff: "case_insensitive_eq s t \<longleftrightarrow> map tolower s = map tolower t"
  by (induction s t rule: case_insensitive_eq.induct) auto

lemma fold_key_eq: "(if cs then s = t else case_insensitive_eq s t) \<longleftrightarrow> fold_key cs s = fold_key cs t"
  by (auto simp: fold_key_def case_insensitive_eq_iff inj_map_eq_map [OF inj_of_char] simp del: of_char_eq_iff)

text \<open>The documents that equal their copies: no NaN, and keys that the comparison tells apart.\<close>

primrec comparable :: "bool \<Rightarrow> ('d \<Rightarrow> 'd \<Rightarrow> bool) \<Rightarrow> 'd cjson \<Rightarrow> bool" where
  "comparable cs deq (CJson ty vs vi vd st ch) \<longleftrightarrow>
     (let k = ty AND 255 in
      k \<in> {cJSON_False, cJSON_True, cJSON_NULL} \<or> k = cJSON_Number \<and> deq vd vd \<or>
      k \<in> {cJSON_String, cJSON_Raw} \<and> vs \<noteq> None \<or>
      k = cJSON_Array \<and> list_all id (map (comparable cs deq) ch) \<or>
      k = cJSON_Object \<and> list_all id (map (comparable cs deq) ch) \<and> (\<forall>c \<in> set ch. cj_string c \<noteq> None) \<and>
        distinct (map (\<lambda>c. fold_key cs (the (cj_string c))) ch))"

lemma lookup_own_key:
  assumes "c \<in> set ts" and "\<forall>c \<in> set ts. cj_string c \<noteq> None" and "distinct (map (\<lambda>c. fold_key cs (the (cj_string c))) ts)"
    and "cj_string c = Some s"
  shows "(if cs then find_item_cs s ts else Inr (find_item_ci s ts)) = Inr (Some c)"
  using assms
proof (induction ts)
  case (Cons d ts)
  obtain k where k: "cj_string d = Some k" using Cons.prems(2) by auto
  show ?case
  proof (cases "fold_key cs s = fold_key cs k")
    case True
    then have "d = c" using Cons.prems k by (auto simp: image_iff)
    then show ?thesis using Cons.prems(4) fold_key_eq [of cs s s] by (cases cs) auto
  next
    case False
    then have "c \<noteq> d" using Cons.prems(4) k by auto
    then show ?thesis using Cons False k fold_key_eq [of cs s k] by (cases cs) auto
  qed
qed simp

primrec json_nodes :: "'d cjson \<Rightarrow> nat" where
  "json_nodes (CJson ty vs vi vd st ch) = Suc (sum_list (map json_nodes ch))"

lemma json_nodes_unfold: "json_nodes t = Suc (sum_list (map json_nodes (cj_child t)))"
  by (cases t) simp

lemma json_nodes_child: "c \<in> set (cj_child t) \<Longrightarrow> json_nodes c < json_nodes t"
  by (simp add: json_nodes_unfold [of t] less_Suc_eq_le member_le_sum_list)

lemma doc_nodes: "doc m a t F \<Longrightarrow> json_nodes t \<le> card F"
  and docs_nodes: "docs m as ts F \<Longrightarrow> sum_list (map json_nodes ts) \<le> card F"
proof (induction rule: doc_docs.inducts)
  case (doc_own t a as H G)
  have "a \<in> H" "finite H" "finite G" "H \<inter> G = {}" using node_at_dom docs_dom doc_own by blast+
  then have "card (H \<union> G) = card H + card G" "0 < card H" by (auto simp: card_Un_disjoint card_gt_0_iff)
  then show ?case using doc_own by (simp add: json_nodes_unfold [of t])
next
  case (doc_ref t a ch H)
  have "a \<in> H" "finite H" using node_at_dom doc_ref by blast+
  then have "0 < card H" by (auto simp: card_gt_0_iff)
  then show ?case using doc_ref by (simp add: json_nodes_unfold [of t])
next
  case (docs_Cons a t F as ts G)
  have "finite F" "finite G" "F \<inter> G = {}" using doc_dom docs_dom docs_Cons by blast+
  then show ?case using docs_Cons by (simp add: card_Un_disjoint)
qed simp

lemma compare_elements_chain:
  assumes "seg (blocks h) q as None" and "seg (blocks h) q' bs None" and "length as = length bs" and "length as \<le> fuel"
    and "\<And>i. i < length as \<Longrightarrow> cmp (Some (as ! i)) (Some (bs ! i)) = Inr True"
  shows "compare_elements cmp h fuel (headp None as) (headp None bs) = Inr True"
  using assms
proof (induction as arbitrary: q q' bs fuel)
  case Nil
  then show ?case by (cases fuel) auto
next
  case (Cons a as)
  then obtain b bs' f where b: "bs = b # bs'" "fuel = Suc f" by (cases bs; cases fuel) auto
  have "cmp (Some a) (Some b) = Inr True" using Cons.prems(5) [of 0] b by simp
  moreover have "compare_elements cmp h f (headp None as) (headp None bs') = Inr True"
  proof (rule Cons.IH)
    fix i assume "i < length as"
    then show "cmp (Some (as ! i)) (Some (bs' ! i)) = Inr True" using Cons.prems(5) [of "Suc i"] b by simp
  qed (use Cons.prems b in auto)
  ultimately show ?case using Cons.prems(1,2) b by auto
qed

lemma compare_members_chain:
  assumes "seg (blocks h) q as None" and "length as \<le> fuel"
    and "\<And>x c. x \<in> set as \<Longrightarrow> blocks h x = Some (Cell c) \<Longrightarrow>
      \<exists>b. get_object_item_p cs h other (c_string c) = Inr (Some b) \<and> cmp (Some x) (Some b) = Inr True"
  shows "compare_members cmp cs h fuel (headp None as) other = Inr True"
  using assms
proof (induction as arbitrary: q fuel)
  case Nil
  then show ?case by (cases fuel) auto
next
  case (Cons a as)
  obtain f where f: "fuel = Suc f" using Cons.prems(2) by (cases fuel) auto
  obtain c where c: "blocks h a = Some (Cell c)" "c_next c = headp None as" "seg (blocks h) (Some a) as None"
    using Cons.prems(1) by auto
  obtain b where "get_object_item_p cs h other (c_string c) = Inr (Some b)" "cmp (Some a) (Some b) = Inr True"
    using Cons.prems(3) [of a c] c(1) by auto
  moreover have "compare_members cmp cs h f (headp None as) other = Inr True"
    by (rule Cons.IH [OF c(3)]) (use Cons.prems f in auto)
  ultimately show ?case using c f by simp
qed

lemma comparable_kind:
  assumes "comparable cs deq t"
  obtains "cj_type t AND 255 \<in> {cJSON_False, cJSON_True, cJSON_NULL}"
  | "cj_type t AND 255 = cJSON_Number" "deq (cj_valuedouble t) (cj_valuedouble t)"
  | s where "cj_type t AND 255 \<in> {cJSON_String, cJSON_Raw}" "cj_valuestring t = Some s"
  | "cj_type t AND 255 = cJSON_Array" "\<forall>c \<in> set (cj_child t). comparable cs deq c"
  | "cj_type t AND 255 = cJSON_Object" "\<forall>c \<in> set (cj_child t). comparable cs deq c" "\<forall>c \<in> set (cj_child t). cj_string c \<noteq> None"
    "distinct (map (\<lambda>c. fold_key cs (the (cj_string c))) (cj_child t))"
  using assms by (cases t) (auto simp: Let_def list_all_iff)

text \<open>Two items that say the same.\<close>

lemma compare_head_copies:
  assumes a: "node_at (blocks h) a t ch H" "blocks h a = Some (Cell ca)" and b: "node_at (blocks h) b t ch' H'" "blocks h b = Some (Cell cb)"
    and t: "owner t" "comparable cs deq t"
  shows "compare_head deq h (Some a) (Some b) ca cb \<in>
    {Inr (Answer True)} \<union> (if cj_type t AND 255 = cJSON_Array then {Inr By_Position} else {}) \<union>
    (if cj_type t AND 255 = cJSON_Object then {Inr By_Key} else {})"
proof -
  have k: "json_kind ca = cj_type t AND 255" "json_kind cb = cj_type t AND 255"
    "c_valuedouble ca = cj_valuedouble t" "c_valuedouble cb = cj_valuedouble t"
    using a b by (auto simp: node_at_def json_kind_def)
  have v: "\<exists>V. value_at (blocks h) (cj_type t) (c_valuestring ca) (cj_valuestring t) V"
    "\<exists>V. value_at (blocks h) (cj_type t) (c_valuestring cb) (cj_valuestring t) V"
    using a b by (auto simp: node_at_def)
  have same: "same_text h ca cb = Inr True" if "cj_valuestring t = Some s" for s
    using v that t(1) by (auto simp: same_text_def value_at_def owner_def text_of_def split: option.splits sptr.splits)
  show ?thesis
    using t(2) by (rule comparable_kind) (auto simp: compare_head_def k same Let_def)
qed

lemma docs_nth:
  assumes "docs m as ts G" and "n < length ts"
  shows "\<exists>K. doc m (as ! n) (ts ! n) K \<and> K \<subseteq> G"
proof (rule docs_nthE [OF assms])
  fix i A K B
  assume "doc m i (ts ! n) K" and "i = as ! n" and "G = A \<union> K \<union> B"
  then show ?thesis by blast
qed

lemma child_lookup:
  assumes ok: "heap_ok h" and as: "docs (blocks h) as (cj_child t) G" and x: "x \<in> set as" "blocks h x = Some (Cell c)"
    and keys: "\<forall>c \<in> set (cj_child t). cj_string c \<noteq> None" "distinct (map (\<lambda>c. fold_key cs (the (cj_string c))) (cj_child t))"
    and b: "kids (blocks h) b bs" "docs (blocks h) bs (cj_child t) G'"
  obtains u i K K' where "u \<in> set (cj_child t)" "doc (blocks h) x u K" "get_object_item_p cs h (Some b) (c_string c) = Inr (Some i)"
    "doc (blocks h) i u K'"
proof -
  obtain n where n: "n < length as" "as ! n = x" using x(1) by (auto simp: in_set_conv_nth)
  then have n': "n < length (cj_child t)" using docs_dom [OF as] by simp
  obtain K where d: "doc (blocks h) x (cj_child t ! n) K" using docs_nth [OF as n'] n by auto
  have u: "cj_child t ! n \<in> set (cj_child t)" using n' by simp
  then obtain s where s: "cj_string (cj_child t ! n) = Some s" using keys(1) by auto
  obtain c' K0 where "blocks h x = Some (Cell c')"
    "key_at (blocks h) (cj_type (cj_child t ! n)) (c_string c') (cj_string (cj_child t ! n)) K0"
    by (rule doc_keyE [OF d]) (rule that; assumption)
  then have "key_at (blocks h) (cj_type (cj_child t ! n)) (c_string c) (Some s) K0" using x(2) s by simp
  then have key: "text_of h (c_string c) = Inr s" "c_string c \<noteq> None" using text_of_key key_at_None by blast+
  then obtain nm where nm: "c_string c = Some nm" "text_of h (Some nm) = Inr s" by (cases "c_string c") auto
  have "get_object_item (Some t) (Some s) cs = Inr (Some (cj_child t ! n))"
    using lookup_own_key [OF u keys s] by (simp add: get_object_item_def)
  then have "finds bs (cj_child t) (Inr (Some (cj_child t ! n))) (get_object_item_p cs h (Some b) (Some nm))"
    using lookup_kids [OF b nm(2) docs_length_asked [OF ok b(2)], of cs] by simp
  from finds_doc [OF this b(2)] show thesis using that [OF u d] nm(1) by auto
qed

lemma compare_copies:
  "reference_free t \<Longrightarrow> comparable cs deq t \<Longrightarrow> heap_ok h \<Longrightarrow> doc (blocks h) a t F \<Longrightarrow> doc (blocks h) b t G \<Longrightarrow> json_nodes t \<le> n \<Longrightarrow>
   compare_items deq cs h n (Some a) (Some b) = Inr True"
proof (induction n arbitrary: t a b F G)
  case 0
  then show ?case by (simp add: json_nodes_unfold [of t])
next
  case (Suc n)
  have own: "owner t" "\<And>c. c \<in> set (cj_child t) \<Longrightarrow> reference_free c" using Suc.prems(1) reference_free_iff by blast+
  have IH: "compare_items deq cs h n (Some x) (Some y) = Inr True"
    if "u \<in> set (cj_child t)" "comparable cs deq u" "doc (blocks h) x u K" "doc (blocks h) y u K'" for u x y K K'
    by (rule Suc.IH [OF own(2) [OF that(1)] that(2) Suc.prems(3) that(3,4)])
      (use json_nodes_child [OF that(1)] Suc.prems(6) in simp)
  show ?case
  proof (rule doc_partsE [OF Suc.prems(4) own(1)], rule doc_partsE [OF Suc.prems(5) own(1)])
    fix as H G1 bs H' G2
    assume a: "node_at (blocks h) a t (headp None as) H" "kids (blocks h) a as" "docs (blocks h) as (cj_child t) G1"
      "length as = length (cj_child t)"
    assume b: "node_at (blocks h) b t (headp None bs) H'" "kids (blocks h) b bs" "docs (blocks h) bs (cj_child t) G2"
      "length bs = length (cj_child t)"
    obtain ca cb where ca: "blocks h a = Some (Cell ca)" "c_child ca = headp None as"
      and cb: "blocks h b = Some (Cell cb)" "c_child cb = headp None bs"
      using node_at_cell [OF a(1)] node_at_cell [OF b(1)] by auto
    have len: "length as \<le> asked h" "length bs \<le> asked h"
      using docs_length_asked [OF Suc.prems(3)] a(3) b(3) by auto
    have seg: "seg (blocks h) None as None" "seg (blocks h) None bs None" using a(2) b(2) by (auto simp: kids_def)
    have members: "compare_members (compare_items deq cs h n) cs h (asked h) (headp None xs) (Some y) = Inr True"
      if "cj_type t AND 255 = cJSON_Object" "docs (blocks h) xs (cj_child t) X" "seg (blocks h) None xs None"
        "kids (blocks h) y ys" "docs (blocks h) ys (cj_child t) Y" for xs X y ys Y
    proof -
      note p = that
      have keys: "\<forall>c \<in> set (cj_child t). comparable cs deq c" "\<forall>c \<in> set (cj_child t). cj_string c \<noteq> None"
        "distinct (map (\<lambda>c. fold_key cs (the (cj_string c))) (cj_child t))"
        using Suc.prems(2) that(1) by (auto elim!: comparable_kind)
      show ?thesis
      proof (rule compare_members_chain [OF that(3) docs_length_asked [OF Suc.prems(3) that(2)]])
        fix x c assume x: "x \<in> set xs" "blocks h x = Some (Cell c)"
        obtain u i K K' where "u \<in> set (cj_child t)" "doc (blocks h) x u K"
          "get_object_item_p cs h (Some y) (c_string c) = Inr (Some i)" "doc (blocks h) i u K'"
          by (rule child_lookup [OF Suc.prems(3) p(2) x keys(2,3) p(4,5)]) (rule that; assumption)
        then show "\<exists>b. get_object_item_p cs h (Some y) (c_string c) = Inr (Some b) \<and> compare_items deq cs h n (Some x) (Some b) = Inr True"
          using IH keys(1) by blast
      qed
    qed
    have elements: "compare_elements (compare_items deq cs h n) h (asked h) (headp None as) (headp None bs) = Inr True"
      if "cj_type t AND 255 = cJSON_Array"
    proof (rule compare_elements_chain [OF seg _ len(1)])
      fix i assume i: "i < length as"
      have "comparable cs deq (cj_child t ! i)"
        using Suc.prems(2) that i a(4) by (auto elim!: comparable_kind)
      then show "compare_items deq cs h n (Some (as ! i)) (Some (bs ! i)) = Inr True"
        using docs_nth [OF a(3), of i] docs_nth [OF b(3), of i] i a(4) IH [of "cj_child t ! i"] by auto
    qed (use a(4) b(4) in simp)
    show ?thesis
      using compare_head_copies [OF a(1) ca(1) b(1) cb(1) own(1) Suc.prems(2)] ca cb elements
        members [OF _ a(3) seg(1) b(2,3)] members [OF _ b(3) seg(2) a(2,3)]
      by (auto split: if_splits)
  qed
qed

lemma compare_fuel:
  assumes "heap_ok h" and "doc (blocks h) a t F"
  shows "json_nodes t \<le> Suc (asked h * asked h)"
proof -
  have "json_nodes t \<le> asked h"
    using doc_nodes [OF assms(2)] heap_ok_card [OF assms(1), of F] doc_dom [OF assms(2)] by simp
  then show ?thesis using le_square [of "asked h"] by linarith
qed


section \<open>What compares equal is alike\<close>

inductive alike :: "bool \<Rightarrow> ('d \<Rightarrow> 'd \<Rightarrow> bool) \<Rightarrow> 'd cjson \<Rightarrow> 'd cjson \<Rightarrow> bool" for cs deq where
  alike_constant: "cj_type t AND 255 \<in> {cJSON_False, cJSON_True, cJSON_NULL} \<Longrightarrow> cj_type u AND 255 = cj_type t AND 255 \<Longrightarrow>
     alike cs deq t u"
| alike_number: "cj_type t AND 255 = cJSON_Number \<Longrightarrow> cj_type u AND 255 = cJSON_Number \<Longrightarrow>
     deq (cj_valuedouble t) (cj_valuedouble u) \<Longrightarrow> alike cs deq t u"
| alike_text: "cj_type t AND 255 \<in> {cJSON_String, cJSON_Raw} \<Longrightarrow> cj_type u AND 255 = cj_type t AND 255 \<Longrightarrow>
     cj_valuestring t = Some s \<Longrightarrow> cj_valuestring u = Some s \<Longrightarrow> alike cs deq t u"
| alike_array: "cj_type t AND 255 = cJSON_Array \<Longrightarrow> cj_type u AND 255 = cJSON_Array \<Longrightarrow>
     list_all2 (alike cs deq) (cj_child t) (cj_child u) \<Longrightarrow> alike cs deq t u"
| alike_object: "cj_type t AND 255 = cJSON_Object \<Longrightarrow> cj_type u AND 255 = cJSON_Object \<Longrightarrow>
     (\<forall>c \<in> set (cj_child t). \<exists>d \<in> set (cj_child u). \<exists>k l. cj_string c = Some k \<and> cj_string d = Some l \<and>
        fold_key cs k = fold_key cs l \<and> alike cs deq c d) \<Longrightarrow>
     (\<forall>d \<in> set (cj_child u). \<exists>c \<in> set (cj_child t). \<exists>k l. cj_string d = Some k \<and> cj_string c = Some l \<and>
        fold_key cs k = fold_key cs l \<and> alike cs deq d c) \<Longrightarrow> alike cs deq t u"
  monos list_all2_mono

lemma compare_elements_TrueD:
  assumes "seg (blocks h) q as None" and "seg (blocks h) q' bs None"
    and "compare_elements cmp h fuel (headp None as) (headp None bs) = Inr True"
  shows "length as = length bs \<and> (\<forall>i < length as. cmp (Some (as ! i)) (Some (bs ! i)) = Inr True)"
  using assms
proof (induction fuel arbitrary: as bs q q')
  case 0
  then show ?case by (cases as; cases bs) auto
next
  case (Suc fuel)
  show ?case
  proof (cases "as = [] \<or> bs = []")
    case True
    then show ?thesis using Suc.prems by (cases as; cases bs) auto
  next
    case False
    then obtain a as' b bs' where ab: "as = a # as'" "bs = b # bs'" by (meson list.exhaust)
    obtain ca cb where c: "blocks h a = Some (Cell ca)" "c_next ca = headp None as'" "seg (blocks h) (Some a) as' None"
      "blocks h b = Some (Cell cb)" "c_next cb = headp None bs'" "seg (blocks h) (Some b) bs' None"
      using Suc.prems(1,2) ab by auto
    have "cmp (Some a) (Some b) = Inr True" "compare_elements cmp h fuel (headp None as') (headp None bs') = Inr True"
      using Suc.prems(3) ab c by (auto split: if_splits)
    with Suc.IH [OF c(3,6)] show ?thesis using ab by (auto simp: less_Suc_eq_0_disj)
  qed
qed

lemma compare_members_TrueD:
  assumes "seg (blocks h) q as None" and "compare_members cmp cs h fuel (headp None as) other = Inr True"
    and "x \<in> set as" and "blocks h x = Some (Cell c)"
  shows "\<exists>b. get_object_item_p cs h other (c_string c) = Inr (Some b) \<and> cmp (Some x) (Some b) = Inr True"
  using assms
proof (induction fuel arbitrary: as q)
  case 0
  then show ?case by (cases as) auto
next
  case (Suc fuel)
  then obtain a as' where a: "as = a # as'" by (cases as) auto
  obtain ca where ca: "blocks h a = Some (Cell ca)" "c_next ca = headp None as'" "seg (blocks h) (Some a) as' None"
    using Suc.prems(1) a by auto
  obtain b where b: "get_object_item_p cs h other (c_string ca) = Inr (Some b)" "cmp (Some a) (Some b) = Inr True"
    "compare_members cmp cs h fuel (headp None as') other = Inr True"
    using Suc.prems(2) a ca by (auto split: if_splits)
  show ?case
  proof (cases "x = a")
    case True
    then show ?thesis using b(1,2) ca(1) Suc.prems(4) by auto
  next
    case False
    then show ?thesis using Suc.IH [OF ca(3) b(3) _ Suc.prems(4)] Suc.prems(3) a by auto
  qed
qed

lemma find_item_key:
  "(if cs then find_item_cs s ts else Inr (find_item_ci s ts)) = Inr (Some d) \<Longrightarrow>
     \<exists>l. cj_string d = Some l \<and> fold_key cs s = fold_key cs l"
proof (induction ts)
  case (Cons e ts)
  then show ?case using fold_key_eq [of cs s] by (cases cs) (auto split: option.splits if_splits)
qed (cases cs; simp)

text \<open>A member that the loop finds in the other object.\<close>

lemma member_found:
  assumes ok: "heap_ok h" and d: "doc (blocks h) x c K" "blocks h x = Some (Cell cc)"
    and b: "kids (blocks h) b bs" "docs (blocks h) bs (cj_child u) G"
    and f: "get_object_item_p cs h (Some b) (c_string cc) = Inr (Some y)"
  obtains e K' k l where "e \<in> set (cj_child u)" "doc (blocks h) y e K'" "K' \<subseteq> G"
    "cj_string c = Some k" "cj_string e = Some l" "fold_key cs k = fold_key cs l"
proof -
  obtain c' K0 where "blocks h x = Some (Cell c')" "key_at (blocks h) (cj_type c) (c_string c') (cj_string c) K0"
    by (rule doc_keyE [OF d(1)]) (rule that; assumption)
  then have key: "key_at (blocks h) (cj_type c) (c_string cc) (cj_string c) K0" using d(2) by simp
  obtain nm where nm: "c_string cc = Some nm" using f by (cases "c_string cc") (auto simp: get_object_item_p_def)
  then obtain k where k: "cj_string c = Some k" "text_of h (Some nm) = Inr k"
    using key key_at_None [OF key] text_of_key [of h "cj_type c" "Some nm" _ K0] by auto
  have F: "finds bs (cj_child u) (get_object_item (Some u) (Some k) cs) (Inr (Some y))"
    using lookup_kids [OF b k(2) docs_length_asked [OF ok b(2)], of cs] f nm by simp
  then obtain e where e: "get_object_item (Some u) (Some k) cs = Inr (Some e)"
    by (auto simp: finds_def split: sum.splits option.splits)
  then obtain j where j: "j < length (cj_child u)" "cj_child u ! j = e" "y = bs ! j"
    using F by (auto simp: finds_def)
  obtain K' where K': "doc (blocks h) y e K'" "K' \<subseteq> G" using docs_nth [OF b(2) j(1)] j by auto
  have "e \<in> set (cj_child u)" using j nth_mem by auto
  moreover obtain l where "cj_string e = Some l" "fold_key cs k = fold_key cs l"
    using find_item_key [of cs k "cj_child u" e] e by (cases cs) (auto simp: get_object_item_def)
  ultimately show thesis using that K' k(1) by blast
qed


lemma compare_head_facts:
  assumes "compare_head deq h (Some a) (Some b) ca cb = Inr v" and "a \<noteq> b"
  shows "v \<noteq> Answer False \<Longrightarrow> json_kind cb = json_kind ca"
    and "v = Answer True \<Longrightarrow> json_kind ca \<in> {cJSON_False, cJSON_True, cJSON_NULL} \<or>
      json_kind ca = cJSON_Number \<and> deq (c_valuedouble ca) (c_valuedouble cb) \<or>
      json_kind ca \<in> {cJSON_String, cJSON_Raw} \<and> same_text h ca cb = Inr True"
    and "v = By_Position \<Longrightarrow> json_kind ca = cJSON_Array"
    and "v = By_Key \<Longrightarrow> json_kind ca = cJSON_Object"
  using assms by (auto simp: compare_head_def Let_def split: if_splits)

lemma same_textD:
  assumes "same_text h ca cb = Inr True" and "value_at (blocks h) ty (c_valuestring ca) vs V" and "ty AND cJSON_IsReference = 0"
    and "value_at (blocks h) ty' (c_valuestring cb) vs' V'" and "ty' AND cJSON_IsReference = 0"
  shows "\<exists>s. vs = Some s \<and> vs' = Some s"
  using assms by (auto simp: same_text_def value_at_def text_of_def split: if_splits option.splits sptr.splits)

lemma compare_alike:
  "reference_free t \<Longrightarrow> reference_free u \<Longrightarrow> heap_ok h \<Longrightarrow> doc (blocks h) a t F \<Longrightarrow> doc (blocks h) b u G \<Longrightarrow> F \<inter> G = {} \<Longrightarrow>
   compare_items deq cs h n (Some a) (Some b) = Inr True \<Longrightarrow> alike cs deq t u"
proof (induction n arbitrary: t u a b F G)
  case (Suc n)
  note ok = Suc.prems(3)
  have own: "owner t" "owner u" "\<And>c. c \<in> set (cj_child t) \<Longrightarrow> reference_free c" "\<And>c. c \<in> set (cj_child u) \<Longrightarrow> reference_free c"
    using Suc.prems(1,2) reference_free_iff by blast+
  show ?case
  proof (rule doc_partsE [OF Suc.prems(4) own(1)], rule doc_partsE [OF Suc.prems(5) own(2)])
    fix as H G1 bs H' G2
    assume a: "node_at (blocks h) a t (headp None as) H" "kids (blocks h) a as" "docs (blocks h) as (cj_child t) G1"
      "F = H \<union> G1" "a \<in> H" "length as = length (cj_child t)"
    assume b: "node_at (blocks h) b u (headp None bs) H'" "kids (blocks h) b bs" "docs (blocks h) bs (cj_child u) G2"
      "G = H' \<union> G2" "b \<in> H'" "length bs = length (cj_child u)"
    have seg: "seg (blocks h) None as None" "seg (blocks h) None bs None" using a(2) b(2) by (auto simp: kids_def)
    have dis: "a \<noteq> b" "G1 \<inter> G2 = {}" using a(4,5) b(4,5) Suc.prems(6) by auto
    obtain ca V where ca: "blocks h a = Some (Cell ca)" "c_child ca = headp None as" "json_kind ca = cj_type t AND 255"
      "c_valuedouble ca = cj_valuedouble t" "value_at (blocks h) (cj_type t) (c_valuestring ca) (cj_valuestring t) V"
      using a(1) by (auto simp: node_at_def json_kind_def)
    obtain cb V' where cb: "blocks h b = Some (Cell cb)" "c_child cb = headp None bs" "json_kind cb = cj_type u AND 255"
      "c_valuedouble cb = cj_valuedouble u" "value_at (blocks h) (cj_type u) (c_valuestring cb) (cj_valuestring u) V'"
      using b(1) by (auto simp: node_at_def json_kind_def)
    obtain v where v1: "compare_head deq h (Some a) (Some b) ca cb = Inr v"
      using Suc.prems(7) ca(1) cb(1) by (cases "compare_head deq h (Some a) (Some b) ca cb") auto
    moreover have "v \<noteq> Answer False" using Suc.prems(7) ca(1) cb(1) v1 by auto
    ultimately have v: "compare_head deq h (Some a) (Some b) ca cb = Inr v" "v \<noteq> Answer False" by auto
    note facts = compare_head_facts [OF v(1) dis(1)]
    have members: "\<forall>c \<in> set (cj_child t'). \<exists>d \<in> set (cj_child u'). \<exists>k l. cj_string c = Some k \<and> cj_string d = Some l \<and>
        fold_key cs k = fold_key cs l \<and> alike cs deq c d"
      if p: "compare_members (compare_items deq cs h n) cs h (asked h) (headp None xs) (Some y) = Inr True"
        "docs (blocks h) xs (cj_child t') X" "seg (blocks h) None xs None" "kids (blocks h) y ys" "docs (blocks h) ys (cj_child u') Y"
        "X \<inter> Y = {}" "\<And>c. c \<in> set (cj_child t') \<Longrightarrow> reference_free c" "\<And>c. c \<in> set (cj_child u') \<Longrightarrow> reference_free c" for t' u' xs X y ys Y
    proof
      fix c assume "c \<in> set (cj_child t')"
      then obtain i where i: "i < length (cj_child t')" "cj_child t' ! i = c" by (auto simp: in_set_conv_nth)
      obtain K where K: "doc (blocks h) (xs ! i) c K" "K \<subseteq> X" using docs_nth [OF p(2) i(1)] i(2) by auto
      obtain cc where cc: "blocks h (xs ! i) = Some (Cell cc)" using doc_cell [OF K(1)] by auto
      have "xs ! i \<in> set xs" using i docs_dom [OF p(2)] by auto
      then obtain z where z: "get_object_item_p cs h (Some y) (c_string cc) = Inr (Some z)"
        "compare_items deq cs h n (Some (xs ! i)) (Some z) = Inr True"
        using compare_members_TrueD [OF p(3,1) _ cc] by blast
      obtain e K' k l where e: "e \<in> set (cj_child u')" "doc (blocks h) z e K'" "K' \<subseteq> Y"
        "cj_string c = Some k" "cj_string e = Some l" "fold_key cs k = fold_key cs l"
        by (rule member_found [OF ok K(1) cc p(4,5) z(1)]) (rule that; assumption)
      have "reference_free c" using p(7) i nth_mem by blast
      moreover have "K \<inter> K' = {}" using K(2) e(3) p(6) by blast
      ultimately have "alike cs deq c e" using Suc.IH [OF _ p(8) [OF e(1)] ok K(1) e(2) _ z(2)] by blast
      then show "\<exists>d \<in> set (cj_child u'). \<exists>k l. cj_string c = Some k \<and> cj_string d = Some l \<and>
          fold_key cs k = fold_key cs l \<and> alike cs deq c d"
        using e by blast
    qed
    show ?thesis
    proof (cases v)
      case (Answer r)
      then have "r" using v(2) by (cases r) auto
      then show ?thesis
        using facts(1,2) Answer ca cb same_textD [OF _ ca(5) _ cb(5)] own(1,2)
        by (auto simp: owner_def intro: alike_constant alike_number alike_text)
    next
      case By_Position
      then have "compare_elements (compare_items deq cs h n) h (asked h) (headp None as) (headp None bs) = Inr True"
        using Suc.prems(7) ca cb v(1) by simp
      from compare_elements_TrueD [OF seg this]
      have el: "length as = length bs" "\<And>i. i < length as \<Longrightarrow> compare_items deq cs h n (Some (as ! i)) (Some (bs ! i)) = Inr True"
        by auto
      have "list_all2 (alike cs deq) (cj_child t) (cj_child u)"
      proof (rule list_all2_all_nthI)
        show "length (cj_child t) = length (cj_child u)" using el(1) a(6) b(6) by simp
        fix i assume i: "i < length (cj_child t)"
        then have i': "i < length (cj_child u)" using el(1) a(6) b(6) by simp
        obtain K K' where K: "doc (blocks h) (as ! i) (cj_child t ! i) K" "K \<subseteq> G1"
          "doc (blocks h) (bs ! i) (cj_child u ! i) K'" "K' \<subseteq> G2"
          using docs_nth [OF a(3) i] docs_nth [OF b(3) i'] by blast
        show "alike cs deq (cj_child t ! i) (cj_child u ! i)"
          by (rule Suc.IH [OF own(3) own(4) ok K(1,3)]) (use i i' el(2) a(6) K(2,4) dis(2) in auto)
      qed
      then show ?thesis using facts(1,3) By_Position ca(3) cb(3) by (intro alike_array) auto
    next
      case By_Key
      then have m: "compare_members (compare_items deq cs h n) cs h (asked h) (headp None as) (Some b) = Inr True"
        "compare_members (compare_items deq cs h n) cs h (asked h) (headp None bs) (Some a) = Inr True"
        using Suc.prems(7) ca cb v(1) by (auto split: if_splits)
      have "G2 \<inter> G1 = {}" using dis(2) by blast
      with members [OF m(1) a(3) seg(1) b(2,3) dis(2) own(3,4)] members [OF m(2) b(3) seg(2) a(2,3) _ own(4,3)]
      show ?thesis using facts(1,4) By_Key ca(3) cb(3) by (intro alike_object) auto
    qed
  qed
qed simp

text \<open>
  C34: Comparing a document with a copy of it, made by the copy function, gives true in both directions, if its
  objects have keys that the comparison tells apart and no number differs from itself.\<close>

theorem copies_compare_equal:
  assumes "heap_ok h" and "doc (blocks h) a t F" and "reference_free t" and "comparable cs deq t" and "\<forall>i. ok i"
  shows "\<exists>b h'. cJSON_Duplicate ok (Some a) True h = Inr (Some b, h') \<and>
     cJSON_Compare deq (Some a) (Some b) cs h' = Inr True \<and> cJSON_Compare deq (Some b) (Some a) cs h' = Inr True"
proof -
  obtain r h' where r: "cJSON_Duplicate ok (Some a) True h = Inr (r, h')" "built h r h' t" "r \<noteq> None"
    using duplicate_built [OF assms(1-3), of ok] assms(5) by blast
  then obtain b K where b: "r = Some b" "grown h h' b t K" by (auto simp: built_def)
  have d: "doc (blocks h') b t K" and ok': "heap_ok h'" using b(2) by (auto simp: grown_def)
  have F: "F \<subseteq> {..<asked h}" using doc_dom [OF assms(2)] assms(1) by (meson heap_ok_def order_trans)
  have a: "doc (blocks h') a t F" by (rule doc_frame [OF assms(2)]) (use F grown_below [OF b(2)] in auto)
  show ?thesis
    using r(1) b(1) compare_copies [OF assms(3,4) ok' a d compare_fuel [OF ok' a]]
      compare_copies [OF assms(3,4) ok' d a compare_fuel [OF ok' a]]
    by (auto simp: cJSON_Compare_def)
qed

lemma copies_compare_equal_witness:
  "\<exists>b h'. cJSON_Duplicate (\<lambda>_. True) (Some 0) True sample_heap = Inr (Some b, h') \<and>
     cJSON_Compare (=) (Some 0) (Some b) True h' = Inr True"
proof -
  have c: "comparable True (=) (sample_item cJSON_Array [sample_item cJSON_NULL []])" by (simp add: sample_item_def)
  from copies_compare_equal [OF sample_docs(1,2) sample_reference_free c, of "\<lambda>_. True"] show ?thesis by auto
qed

text \<open>
  C35: Two documents in separate memory that compare equal are alike: the same kinds, equal numbers and strings,
  arrays of alike elements in the same order, and objects in which every member of either has an alike member of
  the same key in the other.\<close>

theorem equal_documents_are_alike:
  assumes "heap_ok h" and "doc (blocks h) a t F" and "doc (blocks h) b u G" and "F \<inter> G = {}" and "reference_free t" and "reference_free u"
    and "cJSON_Compare deq (Some a) (Some b) cs h = Inr True"
  shows "alike cs deq t u"
  using assms by (intro compare_alike [where n = "Suc (asked h * asked h)"]) (simp_all add: cJSON_Compare_def)


lemma equal_documents_are_alike_witness:
  "alike True (=) (sample_item cJSON_NULL []) (sample_item cJSON_NULL [])"
proof -
  define h where "h = \<lparr>blocks = [0 \<mapsto> Cell (sample_cell cJSON_NULL None), 1 \<mapsto> Cell (sample_cell cJSON_NULL None)], asked = 2\<rparr>"
  have leaf: "doc (blocks h) x (sample_item cJSON_NULL []) {x}" if "x < 2" for x
    using doc_leaf [of "blocks h" x "sample_cell cJSON_NULL None" cJSON_NULL] that
    by (auto simp: h_def sample_cell_def sample_item_def empty_cell_def less_2_cases_iff)
  have "compare_items (=) True h (Suc 4) (Some 0) (Some 1) = Inr True"
    by (subst compare_items.simps(2)) (simp add: h_def compare_head_def json_kind_def sample_cell_def get_cell_def)
  then have "cJSON_Compare (=) (Some 0) (Some 1) True h = Inr True" by (simp add: cJSON_Compare_def h_def)
  then show ?thesis
    by (intro equal_documents_are_alike [OF _ leaf leaf]) (auto simp: heap_ok_def h_def sample_item_def less_Suc_eq)
qed

end
