(* ===== verification/CJson_Minify.thy ===== *)
theory CJson_Minify
  imports CJson_Escapes
begin

text \<open>
  \<open>cJSON_Minify\<close> of SW-FB/cJSON.c: blanks and comments are removed from a text, in place. Every
  read and write is checked against the block that holds the text. \<open>i\<close> is where \<open>json\<close> points,
  \<open>k\<close> where \<open>into\<close> points; the recursions end because \<open>i\<close> grows and a read past the block faults.
\<close>

section \<open>The function\<close>

text \<open>The loop over the characters of a string literal.\<close>

function minify_string :: "string \<Rightarrow> nat \<Rightarrow> nat \<Rightarrow> (string \<times> nat \<times> nat) res" where
  "minify_string buf i k =
     res_bind (rd buf i) (\<lambda>c.
       if c = CHR 0x00 \<or> c = CHR 0x22 then Inr (buf, i, k)
       else res_bind (wr buf k c) (\<lambda>b1.
         if c = CHR 0x5C
         then res_bind (rd b1 (i + 1)) (\<lambda>d. res_bind (wr b1 (k + 1) d) (\<lambda>b2. minify_string b2 (i + 2) (k + 2)))
         else minify_string b1 (i + 1) (k + 1)))"
  by auto
termination
  by (relation "measure (\<lambda>(buf, i, k). length buf - i)") (auto simp: access_iff)

function skip_line :: "string \<Rightarrow> nat \<Rightarrow> nat res" where
  "skip_line buf i =
     res_bind (rd buf i) (\<lambda>c. if c = CHR 0x00 \<or> c = CHR 0x0A then Inr i else skip_line buf (i + 1))"
  by auto
termination
  by (relation "measure (\<lambda>(buf, i). length buf - i)") (auto simp: access_iff)

function skip_comment :: "string \<Rightarrow> nat \<Rightarrow> nat res" where
  "skip_comment buf i =
     res_bind (rd buf i) (\<lambda>c.
       if c = CHR 0x00 then Inr i
       else if c = CHR ''*''
       then res_bind (rd buf (i + 1)) (\<lambda>d. if d = CHR ''/'' then Inr i else skip_comment buf (i + 1))
       else skip_comment buf (i + 1))"
  by auto
termination
  by (relation "measure (\<lambda>(buf, i). length buf - i)") (auto simp: access_iff)

declare minify_string.simps [simp del] skip_line.simps [simp del] skip_comment.simps [simp del]

lemma minify_string_grows: "minify_string buf i k = Inr (buf', i', k') \<Longrightarrow> length buf' = length buf \<and> i \<le> i'"
proof (induction buf i k rule: minify_string.induct)
  case (1 buf i k)
  note unfold = 1(3) [unfolded minify_string.simps [of buf i k]]
  then obtain c where c: "rd buf i = Inr c" by auto
  show ?case
  proof (cases "c = CHR 0x00 \<or> c = CHR 0x22")
    case True
    then show ?thesis using unfold c by auto
  next
    case False
    then obtain b1 where b1: "wr buf k c = Inr b1" using unfold c by (auto split: if_splits)
    show ?thesis
    proof (cases "c = CHR 0x5C")
      case True
      then obtain d b2 where d: "rd b1 (i + 1) = Inr d" "wr b1 (k + 1) d = Inr b2" "minify_string b2 (i + 2) (k + 2) = Inr (buf', i', k')"
        using unfold c False b1 by auto
      from 1(1) [OF c False b1 True d(1,2,3)] show ?thesis using b1 d(2) by (auto simp: access_iff)
    next
      case other: False
      then have "minify_string b1 (i + 1) (k + 1) = Inr (buf', i', k')" using unfold c False b1 by auto
      from 1(2) [OF c False b1 other this] show ?thesis using b1 by (auto simp: access_iff)
    qed
  qed
qed

lemma skip_line_grows: "skip_line buf i = Inr j \<Longrightarrow> i \<le> j"
  by (induction buf i rule: skip_line.induct) (subst (asm) (2) skip_line.simps, auto split: if_splits)

lemma skip_comment_grows: "skip_comment buf i = Inr j \<Longrightarrow> i \<le> j"
proof (induction buf i rule: skip_comment.induct)
  case (1 buf i)
  from 1(3) obtain c where c: "rd buf i = Inr c" by (subst (asm) skip_comment.simps) auto
  have step: "i = j \<or> skip_comment buf (i + 1) = Inr j" "c = CHR 0x00 \<Longrightarrow> i = j"
    using 1(3) c by (subst (asm) skip_comment.simps, auto split: if_splits)+
  show ?case
  proof (cases "i = j")
    case False
    then have n: "c \<noteq> CHR 0x00" "skip_comment buf (i + 1) = Inr j" using step by auto
    show ?thesis
    proof (cases "c = CHR ''*''")
      case True
      then obtain d where "rd buf (i + 1) = Inr d" "d \<noteq> CHR ''/''"
        using 1(3) c False by (subst (asm) skip_comment.simps) (auto split: if_splits)
      then show ?thesis using 1(1) [OF c n(1) True _ _ n(2)] by simp
    next
      case other: False
      then show ?thesis using 1(2) [OF c n(1) other n(2)] by simp
    qed
  qed simp
qed

lemma skip_line_moves: "skip_line buf i = Inr j \<Longrightarrow> rd buf i = Inr (CHR ''/'') \<Longrightarrow> i < j"
  using skip_line_grows [of buf "i + 1" j] by (simp add: skip_line.simps [of buf i])

function minify_from :: "string \<Rightarrow> nat \<Rightarrow> nat \<Rightarrow> string res" where
  "minify_from buf i k =
     res_bind (rd buf i) (\<lambda>c.
       if c = CHR 0x00 then wr buf k (CHR 0x00)
       else if c \<in> {CHR '' '', CHR 0x09, CHR 0x0D, CHR 0x0A} then minify_from buf (i + 1) k
       else if c = CHR ''/'' then
         res_bind (rd buf (i + 1)) (\<lambda>d.
           if d = CHR ''/'' then res_bind (skip_line buf i) (\<lambda>j. minify_from buf j k)
           else if d = CHR ''*'' then res_bind (skip_comment buf i) (\<lambda>j. minify_from buf (j + 2) k)
           else res_bind (wr buf k c) (\<lambda>b1. minify_from b1 (i + 1) (k + 1)))
       else if c = CHR 0x22 then
         res_bind (wr buf k c) (\<lambda>b1.
         res_bind (minify_string b1 (i + 1) (k + 1)) (\<lambda>(b2, j, m).
         res_bind (rd b2 j) (\<lambda>d. res_bind (wr b2 m d) (\<lambda>b3. minify_from b3 (j + 1) (m + 1)))))
       else res_bind (wr buf k c) (\<lambda>b1. minify_from b1 (i + 1) (k + 1)))"
  by auto
termination
proof (relation "measure (\<lambda>(buf, i, k). length buf - i)", goal_cases)
  case 1
  then show ?case by simp
qed (auto simp: access_iff dest!: minify_string_grows skip_line_moves skip_comment_grows)

declare minify_from.simps [simp del]

definition cJSON_Minify :: "string option \<Rightarrow> string option res" where
  "cJSON_Minify json =
     (case json of None \<Rightarrow> Inr None | Some buf \<Rightarrow> res_bind (minify_from buf 0 0) (\<lambda>b. Inr (Some b)))"

section \<open>Texts and what is left of them\<close>

text \<open>
  In a block that holds the output so far, a gap and the rest of the text, the text \<open>w\<close> is
  replaced by \<open>v\<close>, whatever follows; the same for the part of a string literal.
\<close>

definition reduces :: "string \<Rightarrow> string \<Rightarrow> bool" where
  "reduces w v \<longleftrightarrow>
     (\<forall>out gap r. \<exists>gap'. length v + length gap' = length w + length gap \<and>
        minify_from (out @ gap @ w @ r) (length out + length gap) (length out) =
        minify_from (out @ v @ gap' @ r) (length out + length v + length gap') (length out + length v))"

definition in_string :: "string \<Rightarrow> bool" where
  "in_string w \<longleftrightarrow>
     (\<forall>out gap r. \<exists>gap'. length gap' = length gap \<and>
        minify_string (out @ gap @ w @ r) (length out + length gap) (length out) =
        minify_string (out @ w @ gap' @ r) (length out + length w + length gap') (length out + length w))"

lemma rd_append [simp]: "rd (out @ gap @ c # r) (length out + length gap) = Inr c"
  by (simp add: rd_def nth_append)

lemma put_char:
  obtains gap' where "wr (out @ gap @ c # r) (length out) c = Inr (out @ c # gap' @ r)" "length gap' = length gap"
proof (cases gap)
  case Nil
  then show thesis using that [of "[]"] by (simp add: wr_def)
next
  case (Cons g gs)
  then show thesis using that [of "gs @ [c]"] by (simp add: wr_def)
qed

lemma reduces_Nil [simp]: "reduces [] []"
  unfolding reduces_def by (auto intro: exI)

lemma reduces_append: "reduces w v \<Longrightarrow> reduces w' v' \<Longrightarrow> reduces (w @ w') (v @ v')"
proof (unfold reduces_def, intro allI)
  fix out gap r
  assume 1: "\<forall>out gap r. \<exists>gap'. length v + length gap' = length w + length gap \<and>
        minify_from (out @ gap @ w @ r) (length out + length gap) (length out) =
        minify_from (out @ v @ gap' @ r) (length out + length v + length gap') (length out + length v)"
    and 2: "\<forall>out gap r. \<exists>gap'. length v' + length gap' = length w' + length gap \<and>
        minify_from (out @ gap @ w' @ r) (length out + length gap) (length out) =
        minify_from (out @ v' @ gap' @ r) (length out + length v' + length gap') (length out + length v')"
  obtain g1 where g1: "length v + length g1 = length w + length gap"
    "minify_from (out @ gap @ w @ w' @ r) (length out + length gap) (length out) =
     minify_from (out @ v @ g1 @ w' @ r) (length out + length v + length g1) (length out + length v)"
    using 1 by metis
  obtain g2 where g2: "length v' + length g2 = length w' + length g1"
    "minify_from ((out @ v) @ g1 @ w' @ r) (length (out @ v) + length g1) (length (out @ v)) =
     minify_from ((out @ v) @ v' @ g2 @ r) (length (out @ v) + length v' + length g2) (length (out @ v) + length v')"
    using 2 by metis
  show "\<exists>gap'. length (v @ v') + length gap' = length (w @ w') + length gap \<and>
      minify_from (out @ gap @ (w @ w') @ r) (length out + length gap) (length out) =
      minify_from (out @ (v @ v') @ gap' @ r) (length out + length (v @ v') + length gap') (length out + length (v @ v'))"
    using g1 g2 by (intro exI [of _ g2]) (simp add: add.assoc)
qed

lemma reduces_blank: "c \<in> {CHR '' '', CHR 0x09, CHR 0x0D, CHR 0x0A} \<Longrightarrow> reduces [c] []"
proof (unfold reduces_def, intro allI)
  fix out gap r
  assume "c \<in> {CHR '' '', CHR 0x09, CHR 0x0D, CHR 0x0A}"
  then show "\<exists>gap'. length [] + length gap' = length [c] + length gap \<and>
      minify_from (out @ gap @ [c] @ r) (length out + length gap) (length out) =
      minify_from (out @ [] @ gap' @ r) (length out + length [] + length gap') (length out + length [])"
    by (intro exI [of _ "gap @ [c]"]) (subst minify_from.simps, auto)
qed

definition kept :: "char \<Rightarrow> bool" where
  "kept c \<longleftrightarrow> c \<notin> {CHR 0x00, CHR '' '', CHR 0x09, CHR 0x0D, CHR 0x0A, CHR ''/'', CHR 0x22}"

lemma reduces_char: "kept c \<Longrightarrow> reduces [c] [c]"
proof (unfold reduces_def, intro allI)
  fix out gap r
  assume c: "kept c"
  obtain gap' where w: "wr (out @ gap @ c # r) (length out) c = Inr (out @ c # gap' @ r)" "length gap' = length gap"
    by (rule put_char)
  show "\<exists>gap'. length [c] + length gap' = length [c] + length gap \<and>
      minify_from (out @ gap @ [c] @ r) (length out + length gap) (length out) =
      minify_from (out @ [c] @ gap' @ r) (length out + length [c] + length gap') (length out + length [c])"
    using c w by (intro exI [of _ gap']) (subst minify_from.simps, auto simp: kept_def)
qed

lemma reduces_kept: "\<forall>c \<in> set w. kept c \<Longrightarrow> reduces w w"
proof (induction w)
  case (Cons c w)
  then show ?case using reduces_append [OF reduces_char [of c], of w w] by simp
qed simp

lemma in_string_Nil [simp]: "in_string []"
  unfolding in_string_def by (auto intro: exI)

lemma in_string_append: "in_string w \<Longrightarrow> in_string w' \<Longrightarrow> in_string (w @ w')"
proof (unfold in_string_def, intro allI)
  fix out gap r
  assume 1: "\<forall>out gap r. \<exists>gap'. length gap' = length gap \<and>
        minify_string (out @ gap @ w @ r) (length out + length gap) (length out) =
        minify_string (out @ w @ gap' @ r) (length out + length w + length gap') (length out + length w)"
    and 2: "\<forall>out gap r. \<exists>gap'. length gap' = length gap \<and>
        minify_string (out @ gap @ w' @ r) (length out + length gap) (length out) =
        minify_string (out @ w' @ gap' @ r) (length out + length w' + length gap') (length out + length w')"
  obtain g1 where g1: "length g1 = length gap"
    "minify_string (out @ gap @ w @ w' @ r) (length out + length gap) (length out) =
     minify_string (out @ w @ g1 @ w' @ r) (length out + length w + length g1) (length out + length w)"
    using 1 by metis
  obtain g2 where g2: "length g2 = length g1"
    "minify_string ((out @ w) @ g1 @ w' @ r) (length (out @ w) + length g1) (length (out @ w)) =
     minify_string ((out @ w) @ w' @ g2 @ r) (length (out @ w) + length w' + length g2) (length (out @ w) + length w')"
    using 2 by metis
  show "\<exists>gap'. length gap' = length gap \<and>
      minify_string (out @ gap @ (w @ w') @ r) (length out + length gap) (length out) =
      minify_string (out @ (w @ w') @ gap' @ r) (length out + length (w @ w') + length gap') (length out + length (w @ w'))"
    using g1 g2 by (intro exI [of _ g2]) (simp add: add.assoc)
qed

lemma in_string_plain: "c \<notin> {CHR 0x00, CHR 0x22, CHR 0x5C} \<Longrightarrow> in_string [c]"
proof (unfold in_string_def, intro allI)
  fix out gap r
  assume c: "c \<notin> {CHR 0x00, CHR 0x22, CHR 0x5C}"
  obtain gap' where w: "wr (out @ gap @ c # r) (length out) c = Inr (out @ c # gap' @ r)" "length gap' = length gap"
    by (rule put_char)
  show "\<exists>gap'. length gap' = length gap \<and>
      minify_string (out @ gap @ [c] @ r) (length out + length gap) (length out) =
      minify_string (out @ [c] @ gap' @ r) (length out + length [c] + length gap') (length out + length [c])"
    using c w by (intro exI [of _ gap']) (subst minify_string.simps, auto)
qed

lemma in_string_pair: "in_string [CHR 0x5C, x]"
proof (unfold in_string_def, intro allI)
  fix out gap r
  obtain g1 where w1: "wr (out @ gap @ CHR 0x5C # x # r) (length out) (CHR 0x5C) = Inr (out @ CHR 0x5C # g1 @ x # r)"
    "length g1 = length gap" by (rule put_char)
  obtain g2 where w2: "wr ((out @ [CHR 0x5C]) @ g1 @ x # r) (length (out @ [CHR 0x5C])) x = Inr ((out @ [CHR 0x5C]) @ x # g2 @ r)"
    "length g2 = length g1" by (rule put_char)
  have "rd ((out @ [CHR 0x5C]) @ g1 @ x # r) (length (out @ [CHR 0x5C]) + length g1) = Inr x" by (rule rd_append)
  then show "\<exists>gap'. length gap' = length gap \<and>
      minify_string (out @ gap @ [CHR 0x5C, x] @ r) (length out + length gap) (length out) =
      minify_string (out @ [CHR 0x5C, x] @ gap' @ r) (length out + length [CHR 0x5C, x] + length gap') (length out + length [CHR 0x5C, x])"
    using w1 w2 by (intro exI [of _ g2]) (subst minify_string.simps, auto)
qed

lemma hex_letter_ordinary: "n < 16 \<Longrightarrow> hex_letter n \<notin> {CHR 0x00, CHR 0x22, CHR 0x5C}"
proof -
  assume n: "n < 16"
  then have "(of_char (hex_letter n) :: nat) \<ge> 48 \<and> (of_char (hex_letter n) :: nat) \<noteq> 92"
    by (simp add: of_char_hex_letter)
  then show ?thesis by (auto simp: numeral_2_eq_2 [symmetric])
qed

lemma in_string_escape:
  assumes c: "c \<noteq> CHR 0x00"
  shows "in_string (escape c)"
proof (rule escape_forms [OF c])
  assume "escape c = [c]" "c \<noteq> CHR 0x22" "c \<noteq> CHR 0x5C"
  then show ?thesis using in_string_plain [of c] c by simp
next
  fix x assume "escape c = [CHR 0x5C, x]"
  then show ?thesis using in_string_pair by simp
next
  assume e: "escape c = CHR 0x5C # unicode_text c" "of_char c < (32 :: nat)"
  have h: "in_string [hex_letter (of_char c div 16)]" "in_string [hex_letter (of_char c mod 16)]"
    using e(2) by (intro in_string_plain hex_letter_ordinary; simp)+
  have "in_string ([CHR 0x5C, CHR ''u''] @ [CHR ''0''] @ [CHR ''0''] @ [hex_letter (of_char c div 16)] @ [hex_letter (of_char c mod 16)])"
    by (intro in_string_append in_string_pair h in_string_plain) auto
  then show ?thesis using e by (simp add: unicode_text_def Let_def)
qed


lemma in_string_escapes: "nul_free s \<Longrightarrow> in_string (concat (map escape s))"
  by (induction s) (auto intro: in_string_append in_string_escape)

lemma reduces_literal: "in_string w \<Longrightarrow> reduces (CHR 0x22 # w @ [CHR 0x22]) (CHR 0x22 # w @ [CHR 0x22])"
proof (unfold reduces_def, intro allI)
  fix out gap r
  assume w: "in_string w"
  obtain g1 where g1: "wr (out @ gap @ CHR 0x22 # w @ CHR 0x22 # r) (length out) (CHR 0x22) =
      Inr (out @ CHR 0x22 # g1 @ w @ CHR 0x22 # r)" "length g1 = length gap" by (rule put_char)
  obtain g2 where g2: "length g2 = length g1"
    "minify_string ((out @ [CHR 0x22]) @ g1 @ w @ CHR 0x22 # r) (length (out @ [CHR 0x22]) + length g1) (length (out @ [CHR 0x22])) =
     minify_string ((out @ [CHR 0x22]) @ w @ g2 @ CHR 0x22 # r) (length (out @ [CHR 0x22]) + length w + length g2)
       (length (out @ [CHR 0x22]) + length w)"
    using w unfolding in_string_def by metis
  let ?out = "out @ CHR 0x22 # w"
  have rd: "rd (?out @ g2 @ CHR 0x22 # r) (length ?out + length g2) = Inr (CHR 0x22)" by (rule rd_append)
  then have stop: "minify_string (?out @ g2 @ CHR 0x22 # r) (length ?out + length g2) (length ?out) =
      Inr (?out @ g2 @ CHR 0x22 # r, length ?out + length g2, length ?out)"
    by (subst minify_string.simps) (simp only: res_bind_simps, simp)
  obtain g3 where g3: "wr (?out @ g2 @ CHR 0x22 # r) (length ?out) (CHR 0x22) = Inr (?out @ CHR 0x22 # g3 @ r)" "length g3 = length g2"
    by (rule put_char)
  have "minify_from (out @ gap @ CHR 0x22 # w @ CHR 0x22 # r) (length out + length gap) (length out) =
      minify_from (?out @ CHR 0x22 # g3 @ r) (length ?out + length g2 + 1) (length ?out + 1)"
    using g1 g2 stop rd g3(1) by (subst minify_from.simps) simp
  then show "\<exists>gap'. length (CHR 0x22 # w @ [CHR 0x22]) + length gap' = length (CHR 0x22 # w @ [CHR 0x22]) + length gap \<and>
      minify_from (out @ gap @ (CHR 0x22 # w @ [CHR 0x22]) @ r) (length out + length gap) (length out) =
      minify_from (out @ (CHR 0x22 # w @ [CHR 0x22]) @ gap' @ r)
        (length out + length (CHR 0x22 # w @ [CHR 0x22]) + length gap') (length out + length (CHR 0x22 # w @ [CHR 0x22]))"
    using g1(2) g2(1) g3(2) by (intro exI [of _ g3]) simp
qed

lemma reduces_quote: "pred_option nul_free s \<Longrightarrow> reduces (quote s) (quote s)"
  using reduces_literal [of "case s of None \<Rightarrow> [] | Some s \<Rightarrow> concat (map escape s)"]
  by (cases s) (auto simp: quote_def in_string_escapes)

section \<open>Minified texts of the printer\<close>

lemma reduces_tabs: "reduces (tabs fmt n) []"
proof -
  have "reduces (replicate n (CHR 0x09)) []"
    by (induction n) (use reduces_append [OF reduces_blank [of "CHR 0x09"], of _ "[]"] in auto)
  then show ?thesis by (simp add: tabs_def)
qed

lemma reduces_newline: "reduces (newline fmt) []"
  using reduces_blank [of "CHR 0x0A"] by (simp add: newline_def)

lemma reduces_word: "list_all kept w \<Longrightarrow> reduces w w"
  by (simp add: reduces_kept list_all_iff)

lemma reduces_join:
  assumes "list_all2 reduces ws vs" and "reduces sep sep'"
  shows "reduces (join sep ws) (join sep' vs)"
  using assms(1)
proof (induction rule: list_all2_induct)
  case (Cons w ws v vs)
  have "ws = [] \<longleftrightarrow> vs = []" using Cons by auto
  then show ?case using Cons assms(2) by (auto intro!: reduces_append)
qed simp

lemma reduces_member:
  "pred_option nul_free k \<Longrightarrow> reduces t t' \<Longrightarrow> reduces (member_text True d k t) (member_text False d' k t')"
  unfolding member_text_def
  using reduces_append [OF reduces_tabs [of True d] reduces_append [OF reduces_quote [of k]
    reduces_append [OF reduces_word [of "'':''"] reduces_append [OF reduces_tabs [of True 1], of t t']]]]
  by (simp add: tabs_def kept_def)

text \<open>Texts of numbers are made of digits, signs, points and letters.\<close>

definition plain_numbers :: "'d formats \<Rightarrow> bool" where
  "plain_numbers nf \<longleftrightarrow> (\<forall>d. list_all kept (number_text nf d))"

primrec no_raw :: "'d cjson \<Rightarrow> bool" where
  "no_raw (CJson ty vs vi vd st ch) \<longleftrightarrow> ty AND 255 \<noteq> cJSON_Raw \<and> list_all no_raw ch"

lemma reduces_render:
  "plain_numbers nf \<Longrightarrow> c_strings j \<Longrightarrow> no_raw j \<Longrightarrow> reduces (render nf True j d) (render nf False j d')"
proof (induction j arbitrary: d d')
  case (CJson ty vs vi vd st ch)
  have ch: "list_all2 reduces (map (\<lambda>c. render nf True c e) ch) (map (\<lambda>c. render nf False c e') ch)" for e e'
    using CJson by (auto simp: list_all2_map1 list_all2_map2 list_all_iff intro!: list.rel_refl_strong)
  have sep: "reduces '', '' '',''" "reduces ('','' @ newline True) ('','' @ newline False)"
    using reduces_append [OF reduces_word [of "'',''"] reduces_blank [of "CHR '' ''"]]
      reduces_append [OF reduces_word [of "'',''"] reduces_newline [of True]]
    by (simp_all add: kept_def newline_def)
  have arr: "reduces (array_text True (map (\<lambda>c. render nf True c (d + 1)) ch)) (array_text False (map (\<lambda>c. render nf False c (d' + 1)) ch))"
    unfolding array_text_def
    using reduces_append [OF reduces_word [of "''[''"] reduces_append [OF reduces_join [OF ch sep(1)] reduces_word [of "'']''"]]]
    by (simp add: kept_def)
  let ?m = "\<lambda>fmt e c. member_text fmt e (cj_string c) (render nf fmt c e)"
  have keys: "pred_option nul_free (cj_string c)" if "c \<in> set ch" for c
    using CJson.prems(2) that by (cases c) (auto simp: list_all_iff)
  have mem: "list_all2 reduces (map (?m True (d + 1)) ch) (map (?m False (d' + 1)) ch)"
    using CJson keys by (auto simp: list_all2_map1 list_all2_map2 list_all_iff intro!: list.rel_refl_strong reduces_member)
  have obj: "reduces (object_text True d (map (?m True (d + 1)) ch)) (object_text False d' (map (?m False (d' + 1)) ch))"
    unfolding object_text_def
    using reduces_append [OF reduces_word [of "''{''"] reduces_append [OF reduces_newline [of True]
        reduces_append [OF reduces_join [OF mem sep(2)] reduces_append [OF reduces_newline [of "ch \<noteq> []"]
        reduces_append [OF reduces_tabs [of True d] reduces_word [of "''}''"]]]]]]
    by (cases ch) (auto simp: kept_def newline_def tabs_def)
  have zip: "map (\<lambda>(k, r). member_text fmt e k (r e)) (zip (map cj_string ch) (map (render nf fmt) ch)) = map (?m fmt e) ch" for fmt e
    by (induction ch) auto
  show ?case
    using arr obj CJson.prems unfolding render.simps zip
    by (auto simp: Let_def comp_def plain_numbers_def kept_def intro!: reduces_word reduces_quote)
qed

lemma minify_render:
  assumes "plain_numbers nf" and "c_strings j" and "no_raw j"
  shows "\<exists>tail. cJSON_Minify (Some (render nf True j 0 @ [CHR 0x00])) = Inr (Some (render nf False j 0 @ CHR 0x00 # tail))"
proof -
  let ?v = "render nf False j 0"
  obtain gap where g: "minify_from (render nf True j 0 @ [CHR 0x00]) 0 0 = minify_from (?v @ gap @ [CHR 0x00]) (length ?v + length gap) (length ?v)"
    using reduces_render [OF assms, of 0 0] unfolding reduces_def
    by (metis append_Nil list.size(3) add_0)
  obtain gap' where "wr (?v @ gap @ CHR 0x00 # []) (length ?v) (CHR 0x00) = Inr (?v @ CHR 0x00 # gap' @ [])"
    by (rule put_char)
  then show ?thesis using g by (subst (asm) minify_from.simps) (auto simp: cJSON_Minify_def minify_from.simps [of "?v @ gap @ [CHR 0x00]"])
qed

text \<open>
  C36: Minifying the indented text of a tree leaves the unindented text of the tree at the start
  of its block: what \<open>cJSON_Minify\<close> makes of what \<open>cJSON_Print\<close> returned is what
  \<open>cJSON_PrintUnformatted\<close> returns, for trees without raw text, and no access leaves the block.
\<close>

theorem minify_gives_unformatted:
  assumes "formats_ok nf" and "plain_numbers nf" and "c_strings j" and "no_raw j"
    and "cJSON_Print h nf (Some j) = Inr (Some blk, n)" and "cJSON_PrintUnformatted h' nf (Some j) = Inr (Some blk', n')"
  shows "\<exists>tail. cJSON_Minify (Some blk) = Inr (Some (blk' @ tail))"
proof -
  have "blk = render nf True j 0 @ [CHR 0x00]" "blk' = render nf False j 0 @ [CHR 0x00]"
    using print_renders [OF assms(1,3), of h True] print_renders [OF assms(1,3), of h' False] assms(5,6)
    by (auto simp: cJSON_Print_def cJSON_PrintUnformatted_def)
  then show ?thesis using minify_render [OF assms(2-4)] by auto
qed

lemma minify_gives_unformatted_witness:
  "\<exists>blk blk' tail. cJSON_Minify (Some blk) = Inr (Some (blk' @ tail)) \<and> blk \<noteq> blk' \<and>
     cJSON_Print \<lparr>grant = (\<lambda>i. True), fresh = (\<lambda>i j. CHR ''x''), has_realloc = False\<rparr> int_formats
       (Some (CJson cJSON_Array None 0 0 None [CJson cJSON_NULL None 0 0 None [], CJson cJSON_NULL None 0 0 None []])) = Inr (Some blk, 1)"
proof -
  let ?h = "\<lparr>grant = (\<lambda>i. True), fresh = (\<lambda>i j. CHR ''x''), has_realloc = False\<rparr>"
  let ?j = "CJson cJSON_Array None 0 0 None [CJson cJSON_NULL None 0 0 None [], CJson cJSON_NULL None 0 0 None []] :: int cjson"
  have digit: "kept (char_of (48 + n mod 10))" for n :: nat
  proof -
    have c: "(of_char (char_of (48 + n mod 10) :: char) :: nat) = 48 + n mod 10" by simp
    show ?thesis unfolding kept_def
    proof
      assume "char_of (48 + n mod 10) \<in> {CHR 0x00, CHR '' '', CHR 0x09, CHR 0x0D, CHR 0x0A, CHR ''/'', CHR 0x22}"
      then have "(of_char (char_of (48 + n mod 10) :: char) :: nat) \<in>
          of_char ` {CHR 0x00, CHR '' '', CHR 0x09, CHR 0x0D, CHR 0x0A, CHR ''/'', CHR 0x22}" by (rule imageI)
      then show False unfolding c by auto
    qed
  qed
  have plain: "plain_numbers int_formats" using digit by (simp add: plain_numbers_def number_text_def int_formats_def kept_def)
  have c: "c_strings ?j" "no_raw ?j" by simp_all
  have p: "printable ?j" by simp
  have r: "render int_formats fmt ?j 0 = (if fmt then ''[null, null]'' else ''[null,null]'')" for fmt
    by (simp add: array_text_def)
  have t: "cJSON_Print ?h int_formats (Some ?j) = Inr (Some (''[null, null]'' @ [CHR 0x00]), 1)"
    "cJSON_PrintUnformatted ?h int_formats (Some ?j) = Inr (Some (''[null,null]'' @ [CHR 0x00]), 1)"
    using print_renders [OF int_formats_ok c(1), of ?h True] print_renders [OF int_formats_ok c(1), of ?h False] p
    unfolding r cJSON_Print_def cJSON_PrintUnformatted_def by (auto simp: INT_MAX_def split: option.splits)
  from minify_gives_unformatted [OF int_formats_ok plain c t] t(1) show ?thesis by fastforce
qed

text \<open>
  Texts that are not JSON: an open comment makes the pointer step over the terminator, an open
  string copies the terminator and goes on, and \<open>/*/\<close> counts as a whole comment.
\<close>

lemma open_comment_leaves_block: "cJSON_Minify (Some [CHR ''/'', CHR ''*'', CHR 0x00]) = Inl (UB OutOfBounds)"
  by (simp add: cJSON_Minify_def minify_from.simps skip_comment.simps rd_def)

lemma open_string_leaves_block: "cJSON_Minify (Some [CHR 0x22, CHR ''a'', CHR 0x00]) = Inl (UB OutOfBounds)"
  by (simp add: cJSON_Minify_def minify_from.simps minify_string.simps rd_def wr_def)

lemma short_comment: "cJSON_Minify (Some [CHR ''/'', CHR ''*'', CHR ''/'', CHR ''1'', CHR 0x00]) = Inr (Some [CHR ''1'', CHR 0x00, CHR ''/'', CHR ''1'', CHR 0x00])"
  by (simp add: cJSON_Minify_def minify_from.simps skip_comment.simps rd_def wr_def)

end
