(* ===== verification/Spec2Isabelle.thy ===== *)
theory Spec2Isabelle
  imports Match_Cache Fw_Props Fw_Devices CJson_Compare CJson_Minify
begin

text \<open>
  FlowBlaze: stateful packet processing as an extended finite state machine (XFSM), in two
  implementations: a software switch on DPDK (SW-FB) and an FPGA pipeline whose processor
  runs the firmware of NetFPGA-SUME-FB/firmware.src. This development models the C code of
  both and proves what makes it correct. C is taken as gcc compiles it for x86-64 (and, for
  the firmware, for a little-endian 32-bit processor); what that leaves undefined is a fault
  value, and integers are kept at their width.

  \<^bold>\<open>The software switch.\<close> \<open>Startup\<close> is \<open>main\<close> of flowblaze.c: the arguments, the set-up of ports
  and queues, the launch of the workers, over the DPDK environment layer as a record parameter.
  Each worker reads the program file (\<open>Program_File\<close>): a JSON document that cJSON.c parses into
  a tree (\<open>CJson_Parse\<close>) and loader.c reads, over that tree, into
  the rows, conditions and lookup key of one table per stage (\<open>Loader\<close>, \<open>CJson_Tree\<close>); each is
  passed to \<open>xfsm_table_create\<close> of xfsm.c, which groups the rows by state in a hash table and
  initialises the pool of flow instances (\<open>Xfsm_Table\<close>). The worker of flowblaze.c sends each
  packet of a burst through the stages (\<open>Pipeline\<close>): parse the headers into a table of
  pointers (\<open>Pkt_Parser\<close>, pkt-parser.c), extract the flow key (\<open>Flow_Key\<close>), look up or create
  the instance of the flow (\<open>Instances\<close>), evaluate the conditions (\<open>Conditions\<close>), look up the
  first row of the instance's state that matches the results (\<open>Xfsm_Table\<close>), execute its
  actions (\<open>Actions\<close>: registers, packet fields, transmission, destruction), and go to its next
  state and stage. \<open>Xfsm_Types\<close> holds the data of xfsm.h, \<open>Packet_Mem\<close> the packet buffers with
  freed buffers and pointers into them, \<open>Dpdk\<close> the DPDK hash tables, pools and clock as a
  record parameter with the documented laws \<open>rte_hash_ok\<close>, and a list-based instance of it.
  \<open>Test_Programs\<close> are simple-test and rss-test, workers with a compiled-in table;
  \<open>Match_Cache\<close> is the cache of matched rows they can be compiled with.
  \<open>CJson_Print\<close> is the other half of cJSON.c, the printer with its growing buffer. \<open>strtod\<close>,
  \<open>sprintf\<close> of doubles and the allocator are parameters (\<open>numbers\<close>, \<open>mem_ok\<close>).
  The rest of cJSON.c works on the linked items themselves: \<open>CJson_Heap\<close> is the memory (items and
  strings at addresses, a freed block is dangling, the request number \<open>n\<close> succeeds if \<open>ok n\<close>)
  with its constructor and \<open>cJSON_Delete\<close>, \<open>CJson_Edit\<close> the functions that add, insert,
  replace and detach items, \<open>CJson_Copy\<close> those that create items, members and arrays and
  \<open>cJSON_Duplicate\<close>, \<open>CJson_Compare\<close> is \<open>cJSON_Compare\<close>, and \<open>CJson_Minify\<close> is
  \<open>cJSON_Minify\<close> on the characters of a block.

  \<^bold>\<open>The firmware.\<close> \<open>Fw_Bus\<close> is the register bus: the hardware is a record parameter, the
  accesses are recorded in order. \<open>Fw_Tools\<close> is tool_flowblaze.h: programming rows of the
  TCAMs, searching, clearing and ageing the hash tables. \<open>Fw_Scan\<close> is the console input of
  main.c (\<open>getline\<close>, \<open>rsscanf\<close>; overflow of \<open>int\<close> is a parameter) and \<open>Fw_Shell\<close> its command
  loop. \<open>Fw_Iic\<close> is iic_config.c: transfers over the Xilinx driver, a parameter, with its
  interrupts arriving between any two steps; \<open>Fw_Devices\<close> are the clock generator, the power
  monitor and the optical modules behind it (iic_si5324.c, iic_pm.c, iic_sfp.c).

  \<^bold>\<open>Conventions.\<close> A definition has the name of the C function or of the part of one it models.
  A C function is a function of the state it reads and returns the state it changes; what can
  fault returns \<open>fault + 'a\<close>, with the faults of \<open>FB_Prelude\<close>: process exit, undefined
  behaviour by kind, and exhausted fuel. Structs are records, arrays lists with checked
  accesses. Shared laws are locales: stepping systems with an invariant (\<open>FB_Prelude\<close>) and the
  keyed store of instances (\<open>Instances\<close>), interpreted on the definitions of the model.

  \<^bold>\<open>Results.\<close>
  \<^item> \<open>Pkt_Parser\<close>, \<open>Conditions\<close>, \<open>Actions\<close>, \<open>Flow_Key\<close>: what each operation computes on every branch,
    against a specification in mathematical integers or on packet bytes; memory safety under
    stated bounds; the cases C leaves undefined.
  \<^item> \<open>Xfsm_Table\<close>: the hash lookup equals first-match search over the configured rows; what goes
    wrong without a row for state 0 or with a row for the reserved state.
  \<^item> \<open>Instances\<close>: the instance store refines a map from flows to instances.
  \<^item> \<open>Pipeline_Safety\<close>, \<open>Worker_Props\<close>: the worker invariant is preserved by packets, bursts and
    turns; a packet ends within eight stages (the fuel: stages only go forward, there are
    eight), is freed exactly once and never causes a memory fault; flows are isolated.
  \<^item> \<open>Loader_Spec\<close>: the loader is the inverse of a printer of programs, and what it accepts.
  \<^item> \<open>CJson_Safe\<close>: on every terminated text the parser ends without a memory fault or a leak,
    whatever allocations fail; its fuel, the length of the text and 2, is never used up.
  \<^item> \<open>CJson_Print_Props\<close>: the printer writes the reference rendering \<open>render\<close> of the tree inside
    its buffer or gives NULL; \<open>CJson_Escapes\<close>, \<open>CJson_Roundtrip\<close>: what is printed parses to the tree.
  \<^item> \<open>CJson_Heap\<close> relates the memory to the trees of \<open>CJson_Tree\<close> (\<open>doc\<close>: the item at an address is
    a tree, in exactly these blocks). \<open>CJson_Edit_Props\<close>, \<open>CJson_Objects\<close>: the edits of the chains
    are list operations on the children, and deletion frees exactly the blocks of the tree;
    what replacing a member gets wrong. \<open>CJson_Copy_Props\<close>: creating and copying give a new
    tree, or NULL and the memory as it was. \<open>CJson_Compare\<close>: copies compare equal, and what
    compares equal is alike. \<open>CJson_Minify\<close>: minified is printed without indentation. Walks
    along a chain have as fuel the number of requests made, which bounds the number of blocks;
    copying has twice that, comparing nests at most once per pair of blocks. The properties are
    equations for results, so they include that the fuel is enough on trees; on a cyclic chain,
    where the code does not end, it runs out.
  \<^item> \<open>Program_File\<close>, \<open>Startup\<close>: a program file that does not parse; which file is opened; the order
    of the calls of a run. \<open>Test_Programs\<close>: what the test table does to any traffic, and what the
    flushes of rss-test reach. \<open>Match_Cache\<close>: a run with the cache is the run without it.
  \<^item> \<open>Fw_Props\<close>, \<open>Fw_Tools\<close>: configuration only while both stages are paused; the contents of the
    TCAMs and hash tables after each tool, on devices that behave like memory; what command
    lines do, including stale and malformed ones.
  \<^item> \<open>Fw_Iic\<close>, \<open>Fw_Devices\<close>: order of driver calls, bounded waiting (at most \<open>IIC_TIMEOUT + 1\<close> turns
    in each loop), success with a driver that answers in time; the dividers of the clock.
  \<^item> Below: the text of a program is parsed, loaded and runs safely on any traffic.

  \<^bold>\<open>Not modelled.\<close> Text that is only printed, and the version and error pointer of cJSON.c; of
  the firmware, xge_test.c (its base addresses are not in the repository), app.h (a generated
  list of writes nobody calls) and helloworld.c; the VHDL of the pipeline. An item shared by two
  trees is outside \<open>doc\<close>: of a reference it holds the item, not what it points to. Compiler freedom on the interrupt flags, which are not \<open>volatile\<close>, is not
  modelled either: the model reads them at every turn.
\<close>

section \<open>From a program text to its runs\<close>

interpretation turn_run: step_guarded
  "\<lambda>(cur_tsc, bursts). worker_turn fuel d is_master timer_period cur_tsc bursts"
  "\<lambda>cw. wf_worker d (snd cw) \<and> 8 \<le> fuel" "\<lambda>(cur_tsc, bursts). \<forall>ps \<in> set bursts. burst_ok (0, ps)"
  packet_faults for d :: "'h dpdk" and fuel is_master timer_period
proof unfold_locales
  fix cw :: "clock \<times> 'h worker" and turn :: "u64 \<times> (nat \<times> mbuf) list list"
  obtain c w cur_tsc bursts where cw: "cw = (c, w)" and turn: "turn = (cur_tsc, bursts)"
    by (metis surj_pair)
  assume "wf_worker d (snd cw) \<and> 8 \<le> fuel" and "case turn of (cur_tsc, bursts) \<Rightarrow> \<forall>ps \<in> set bursts. burst_ok (0, ps)"
  with worker_turn_ok [of d w bursts fuel is_master timer_period cur_tsc c] cw turn
  show "case (case turn of (cur_tsc, bursts) \<Rightarrow> worker_turn fuel d is_master timer_period cur_tsc bursts) cw of
      Inl f \<Rightarrow> f \<in> packet_faults | Inr cw' \<Rightarrow> wf_worker d (snd cw') \<and> 8 \<le> fuel"
    by (auto split: sum.splits)
qed

text \<open>A loaded document runs safely.\<close>

lemma loaded_program_runs:
  assumes "table_named t" and "table_safe t" and "clean_env env" and "quiet_env env"
    and "rte_hash_ok d" and "rte_get_tsc_hz d \<noteq> 0"
    and "load_pipeline env d (Some (program_json [t] :: ('d :: zero) cjson)) names = Inr (names', p)"
    and "\<forall>turn \<in> set turns. \<forall>ps \<in> set (snd turn). burst_ok (0, ps)" and "8 \<le> (fuel :: nat)"
  shows "case worker_loop fuel d is_master timer_period turns (c, fresh_worker p) of
      Inl f \<Rightarrow> f \<in> packet_faults
    | Inr cw \<Rightarrow> wf_worker d (snd cw)"
proof -
  have "wf_worker d (snd (c, fresh_worker p)) \<and> 8 \<le> fuel"
    using loaded_worker [OF assms(1-7)] assms(9) by simp
  from turn_run.run_ok [OF this, of turns is_master timer_period] assms(8) show ?thesis
    by (auto simp: worker_loop_def split_beta split: sum.splits)
qed



end
